(* ===== verification/Prelude.thy ===== *)
theory Prelude
  imports Main "HOL-Library.Word" "HOL-Library.List_Lexorder" "HOL-Library.AList"
begin

text \<open>
  Shared vocabulary of the development: bytes and byte strings, the 64-bit integers of Go with
  their wrap-around, the parts of Go's standard library the program relies on
  (\<^verbatim>\<open>strconv.FormatInt\<close>, \<^verbatim>\<open>strconv.ParseInt\<close>, \<^verbatim>\<open>slices.Sort\<close>, \<^verbatim>\<open>slices.BinarySearch\<close>,
  \<^verbatim>\<open>sort.Search\<close>, the built-in map) and the generic lemmas the component theories use.

  Go strings and byte slices are both \<open>bytes\<close>; Go compares strings bytewise, which is the
  lexicographic order of \<open>List_Lexorder\<close> on unsigned bytes.  A Go map is an association list
  with distinct keys whose list order stands for the map's unspecified iteration order: a
  theorem that quantifies over the list quantifies over every iteration order.
\<close>

section \<open>Bytes\<close>

type_synonym byte = "8 word"
type_synonym bytes = "byte list"

definition str :: "string \<Rightarrow> bytes" where
  "str s = map of_char s"

abbreviation CR :: byte where "CR \<equiv> 13"
abbreviation LF :: byte where "LF \<equiv> 10"
abbreviation CRLF :: bytes where "CRLF \<equiv> [13, 10]"

text \<open>\<^verbatim>\<open>bytes.IndexByte\<close>, with \<open>None\<close> for a negative result.\<close>

fun IndexByte :: "bytes \<Rightarrow> byte \<Rightarrow> nat option" where
  "IndexByte [] c = None"
| "IndexByte (b # bs) c = (if b = c then Some 0 else map_option Suc (IndexByte bs c))"

text \<open>The slice expression \<^verbatim>\<open>a[start : start+n]\<close> and the built-in \<^verbatim>\<open>copy(a[start:], v)\<close>, for ranges
  within the slice.\<close>

definition slice :: "'a list \<Rightarrow> nat \<Rightarrow> nat \<Rightarrow> 'a list" where
  "slice a start n = take n (drop start a)"

definition overwrite :: "'a list \<Rightarrow> nat \<Rightarrow> 'a list \<Rightarrow> 'a list" where
  "overwrite a start v = take start a @ v @ drop (start + length v) a"

text \<open>The index of the first element a range loop stops at.\<close>

fun find_index :: "('a \<Rightarrow> bool) \<Rightarrow> 'a list \<Rightarrow> nat option" where
  "find_index P [] = None"
| "find_index P (x # xs) = (if P x then Some 0 else map_option Suc (find_index P xs))"

section \<open>Go integers\<close>

definition int64_range :: "int \<Rightarrow> bool" where
  "int64_range i \<longleftrightarrow> - (2 ^ 63) \<le> i \<and> i < 2 ^ 63"

text \<open>The value an int64 operation leaves behind when the exact result is \<open>i\<close>.\<close>

definition wrap64 :: "int \<Rightarrow> int" where
  "wrap64 i = (i + 2 ^ 63) mod 2 ^ 64 - 2 ^ 63"

text \<open>\<^verbatim>\<open>strconv.FormatInt(i, 10)\<close> and \<^verbatim>\<open>strconv.AppendInt\<close>.\<close>

fun nat_digits :: "nat \<Rightarrow> bytes" where
  "nat_digits n =
     (if n < 10 then [of_nat n + 48] else nat_digits (n div 10) @ [of_nat (n mod 10) + 48])"

declare nat_digits.simps [simp del]

definition formatInt :: "int \<Rightarrow> bytes" where
  "formatInt i = (if i < 0 then 45 # nat_digits (nat (- i)) else nat_digits (nat i))"

definition is_digit :: "byte \<Rightarrow> bool" where
  "is_digit b \<longleftrightarrow> 48 \<le> b \<and> b \<le> 57"

fun digits_val :: "nat \<Rightarrow> bytes \<Rightarrow> nat option" where
  "digits_val acc [] = Some acc"
| "digits_val acc (b # bs) =
     (if is_digit b then digits_val (10 * acc + unat (b - 48)) bs else None)"

text \<open>
  \<^verbatim>\<open>strconv.ParseInt(s, 10, 64)\<close>: an optional sign, at least one digit, nothing else, and a value
  in the int64 range.  \<open>None\<close> stands for the non-nil error; no caller tells its kinds apart.
\<close>

definition ParseInt :: "bytes \<Rightarrow> int option" where
  "ParseInt s =
     (let neg = (s \<noteq> [] \<and> hd s = 45);
          ds = (if s \<noteq> [] \<and> (hd s = 45 \<or> hd s = 43) then tl s else s)
      in if ds = [] then None
         else case digits_val 0 ds of
                None \<Rightarrow> None
              | Some n \<Rightarrow>
                  let v = (if neg then - int n else int n)
                  in if int64_range v then Some v else None)"

section \<open>Searching and sorting\<close>

text \<open>\<^verbatim>\<open>slices.BinarySearch\<close>: the position of the first element not below the target, and
  whether the target stands there (for a slice sorted in ascending order).\<close>

definition binarySearch :: "'a::linorder list \<Rightarrow> 'a \<Rightarrow> nat \<times> bool" where
  "binarySearch xs v =
     (let i = length (takeWhile (\<lambda>x. x < v) xs) in (i, i < length xs \<and> xs ! i = v))"

text \<open>\<^verbatim>\<open>sort.Search(n, f)\<close>, as the library implements it.\<close>

function search_loop :: "(nat \<Rightarrow> bool) \<Rightarrow> nat \<Rightarrow> nat \<Rightarrow> nat" where
  "search_loop f i j =
     (if i < j
      then let h = (i + j) div 2
           in if \<not> f h then search_loop f (h + 1) j else search_loop f i h
      else i)"
  by pat_completeness auto
termination
  by (relation "measure (\<lambda>(f, i, j). j - i)") auto

declare search_loop.simps [simp del]

definition sort_Search :: "nat \<Rightarrow> (nat \<Rightarrow> bool) \<Rightarrow> nat" where
  "sort_Search n f = search_loop f 0 n"

section \<open>Go maps\<close>

type_synonym ('k, 'v) gomap = "('k \<times> 'v) list"

definition gm_keys :: "('k, 'v) gomap \<Rightarrow> 'k list" where
  "gm_keys m = map fst m"

definition gm_wf :: "('k, 'v) gomap \<Rightarrow> bool" where
  "gm_wf m \<longleftrightarrow> distinct (map fst m)"

abbreviation gm_get :: "('k, 'v) gomap \<Rightarrow> 'k \<Rightarrow> 'v option" where
  "gm_get m k \<equiv> map_of m k"

abbreviation gm_set :: "('k, 'v) gomap \<Rightarrow> 'k \<Rightarrow> 'v \<Rightarrow> ('k, 'v) gomap" where
  "gm_set m k v \<equiv> AList.update k v m"

abbreviation gm_del :: "('k, 'v) gomap \<Rightarrow> 'k \<Rightarrow> ('k, 'v) gomap" where
  "gm_del m k \<equiv> AList.delete k m"

text \<open>A Go \<^verbatim>\<open>map[string]struct{}\<close>, the language's set, is a list without repetitions.\<close>

type_synonym 'a goset = "'a list"

definition gs_insert :: "'a \<Rightarrow> 'a goset \<Rightarrow> 'a goset" where
  "gs_insert x s = (if x \<in> set s then s else s @ [x])"

abbreviation gs_delete :: "'a \<Rightarrow> 'a goset \<Rightarrow> 'a goset" where
  "gs_delete x s \<equiv> removeAll x s"

named_theorems go_arith \<open>facts about int64 ranges and wrap-around\<close>

section \<open>Lemmas on integers and their decimal form\<close>

lemma wrap64_id [go_arith]: "int64_range i \<Longrightarrow> wrap64 i = i"
  by (simp add: wrap64_def int64_range_def)

lemma wrap64_range [simp]: "int64_range (wrap64 i)"
  by (simp add: wrap64_def int64_range_def)

lemma is_digit_digit [simp]: "d < 10 \<Longrightarrow> is_digit (of_nat d + 48)" "d < 10 \<Longrightarrow> is_digit (48 + of_nat d)"
  unfolding is_digit_def by (auto simp: word_le_nat_alt unat_word_ariths unat_of_nat)

lemma unat_digit [simp]: "d < 10 \<Longrightarrow> unat (of_nat d :: byte) = d"
  by (simp add: unat_of_nat)

lemma digits_val_append:
  "digits_val a (xs @ ys) = (case digits_val a xs of None \<Rightarrow> None | Some b \<Rightarrow> digits_val b ys)"
  by (induction xs arbitrary: a) auto

lemma nat_digits_not_Nil [simp]: "nat_digits n \<noteq> []"
  by (subst nat_digits.simps) simp

lemma digits_val_nat_digits_gen: "\<exists>k. \<forall>a. digits_val a (nat_digits n) = Some (10 ^ k * a + n)"
proof (induction n rule: nat_digits.induct)
  case (1 n)
  show ?case
  proof (cases "n < 10")
    case True
    then have "\<forall>a. digits_val a (nat_digits n) = Some (10 ^ 1 * a + n)"
      by (subst nat_digits.simps) simp
    then show ?thesis by blast
  next
    case False
    with "1.IH" obtain k where k: "\<And>a. digits_val a (nat_digits (n div 10)) = Some (10 ^ k * a + n div 10)"
      by blast
    have "digits_val a (nat_digits n) = Some (10 ^ Suc k * a + n)" for a
      using False by (subst nat_digits.simps) (simp add: digits_val_append k algebra_simps)
    then show ?thesis by blast
  qed
qed

lemma digits_val_nat_digits [simp]: "digits_val 0 (nat_digits n) = Some n"
  using digits_val_nat_digits_gen [of n] by auto

lemma nat_digits_digits: "b \<in> set (nat_digits n) \<Longrightarrow> is_digit b"
proof (induction n rule: nat_digits.induct)
  case (1 n)
  have "set (nat_digits n) = (if n < 10 then {of_nat n + 48}
          else insert (of_nat (n mod 10) + 48) (set (nat_digits (n div 10))))"
    by (subst nat_digits.simps) simp
  with 1 show ?case by (auto split: if_splits)
qed

lemma is_digit_neq [simp]: "is_digit b \<Longrightarrow> b \<noteq> 45" "is_digit b \<Longrightarrow> b \<noteq> 43"
  "is_digit b \<Longrightarrow> b \<noteq> 10" "is_digit b \<Longrightarrow> b \<noteq> 13"
  by (auto simp: is_digit_def)

lemma hd_nat_digits [simp]: "is_digit (hd (nat_digits n))"
  using nat_digits_digits hd_in_set nat_digits_not_Nil by blast

lemma formatInt_not_Nil [simp]: "formatInt i \<noteq> []"
  by (simp add: formatInt_def)

lemma LF_notin_formatInt [simp]: "10 \<notin> set (formatInt i)"
  by (auto simp: formatInt_def is_digit_def dest!: nat_digits_digits)

lemma ParseInt_formatInt [simp]: "int64_range i \<Longrightarrow> ParseInt (formatInt i) = Some i"
  using hd_nat_digits [THEN is_digit_neq(1), of "nat i"] hd_nat_digits [THEN is_digit_neq(2), of "nat i"]
  by (simp add: ParseInt_def formatInt_def Let_def)

lemma ParseInt_range: "ParseInt s = Some i \<Longrightarrow> int64_range i"
  by (auto simp: ParseInt_def Let_def split: option.splits if_splits)

lemma formatInt_inject: "int64_range i \<Longrightarrow> int64_range j \<Longrightarrow> formatInt i = formatInt j \<longleftrightarrow> i = j"
  by (metis ParseInt_formatInt option.inject)

section \<open>Lemmas on slices\<close>

lemma length_slice [simp]: "start + n \<le> length a \<Longrightarrow> length (slice a start n) = n"
  by (simp add: slice_def)

lemma slice_append [simp]: "start + n \<le> length a \<Longrightarrow> slice (a @ b) start n = slice a start n"
  by (simp add: slice_def)

lemma slice_append_end [simp]: "slice (a @ b) (length a) (length b) = b" "slice (a @ b @ c) (length a) (length b) = b"
  by (simp_all add: slice_def)

lemma length_overwrite [simp]: "start + length v \<le> length a \<Longrightarrow> length (overwrite a start v) = length a"
  by (simp add: overwrite_def)

lemma slice_overwrite_same [simp]: "start + length v \<le> length a \<Longrightarrow> slice (overwrite a start v) start (length v) = v"
  by (simp add: slice_def overwrite_def)

lemma slice_overwrite_before: "s + n \<le> start \<Longrightarrow> start \<le> length a \<Longrightarrow> slice (overwrite a start v) s n = slice a s n"
proof -
  assume *: "s + n \<le> start" "start \<le> length a"
  have "slice (take start a @ r) s n = slice (take start a @ drop start a) s n" for r
    using * slice_append [of s n "take start a" r] slice_append [of s n "take start a" "drop start a"]
    by (simp del: append_take_drop_id)
  then show ?thesis by (simp add: overwrite_def)
qed

lemma slice_overwrite_after:
  "start + length v \<le> s \<Longrightarrow> start + length v \<le> length a \<Longrightarrow> slice (overwrite a start v) s n = slice a s n"
  by (simp add: slice_def overwrite_def)

section \<open>Lemmas on searching\<close>

lemma find_index_None: "find_index P xs = None \<longleftrightarrow> (\<forall>x \<in> set xs. \<not> P x)"
  by (induction xs) auto

lemma find_index_Some: "find_index P xs = Some i \<Longrightarrow> i < length xs \<and> P (xs ! i) \<and> (\<forall>j < i. \<not> P (xs ! j))"
proof (induction xs arbitrary: i)
  case (Cons x xs)
  then show ?case by (cases i) (auto split: if_splits simp: nth_Cons split: nat.splits)
qed simp

lemma IndexByte_None: "IndexByte bs c = None \<longleftrightarrow> c \<notin> set bs"
  by (induction bs) auto

lemma IndexByte_Some: "IndexByte bs c = Some i \<Longrightarrow> i < length bs \<and> bs ! i = c \<and> c \<notin> set (take i bs)"
  by (induction bs arbitrary: i) (auto split: if_splits)

lemma IndexByte_append [simp]: "c \<notin> set xs \<Longrightarrow> IndexByte (xs @ c # ys) c = Some (length xs)"
  by (induction xs) auto

lemma IndexByte_skip: "c \<notin> set xs \<Longrightarrow> IndexByte (xs @ ys) c = map_option (\<lambda>i. length xs + i) (IndexByte ys c)"
  by (induction xs; cases "IndexByte ys c") auto

lemma IndexByte_prefix: "IndexByte bs c = Some i \<Longrightarrow> IndexByte (bs @ cs) c = Some i"
  by (induction bs arbitrary: i) (auto split: if_splits)

lemma search_loop_spec:
  assumes "i \<le> j" "\<And>k. k < i \<Longrightarrow> \<not> f k" "\<And>k. j \<le> k \<Longrightarrow> k < n \<Longrightarrow> f k" "j \<le> n"
    "\<And>a b. a \<le> b \<Longrightarrow> b < n \<Longrightarrow> f a \<Longrightarrow> f b"
  shows "search_loop f i j \<le> n \<and> (\<forall>k < search_loop f i j. \<not> f k) \<and>
         (\<forall>k. search_loop f i j \<le> k \<longrightarrow> k < n \<longrightarrow> f k)"
  using assms
proof (induction f i j rule: search_loop.induct)
  case (1 f i j)
  show ?case
  proof (cases "i < j")
    case False
    then have "search_loop f i j = i" by (subst search_loop.simps) simp
    with False "1.prems" show ?thesis by auto
  next
    case True
    define h where "h = (i + j) div 2"
    have h: "i \<le> h" "h < j" using True by (auto simp: h_def)
    have hn: "h < n" using h "1.prems"(4) by simp
    show ?thesis
    proof (cases "f h")
      case False
      have below: "\<not> f k" if "k < h + 1" for k
        using that False hn "1.prems"(5) [of k h] by auto
      have "search_loop f i j = search_loop f (h + 1) j"
        using True False by (subst search_loop.simps) (simp add: h_def Let_def)
      then show ?thesis
        using "1.IH"(1) [OF True h_def False _ below "1.prems"(3-5)] h by simp
    next
      case f: True
      have above: "f k" if "h \<le> k" "k < n" for k
        using that f "1.prems"(5) by blast
      have "search_loop f i j = search_loop f i h"
        using True f by (subst search_loop.simps) (simp add: h_def Let_def)
      then show ?thesis
        using "1.IH"(2) [OF True h_def _ h(1) "1.prems"(2) above _ "1.prems"(5)] f hn by simp
    qed
  qed
qed

lemma sort_Search_spec:
  assumes "\<And>a b. a \<le> b \<Longrightarrow> b < n \<Longrightarrow> f a \<Longrightarrow> f b"
  shows "sort_Search n f \<le> n" "k < sort_Search n f \<Longrightarrow> \<not> f k"
    "sort_Search n f \<le> k \<Longrightarrow> k < n \<Longrightarrow> f k"
  using search_loop_spec [of 0 n f n] assms unfolding sort_Search_def by auto

lemma binarySearch_found: "sorted_wrt (<) xs \<Longrightarrow> snd (binarySearch xs v) \<longleftrightarrow> v \<in> set xs"
proof (induction xs)
  case (Cons x xs)
  then show ?case by (cases "x < v") (auto simp: binarySearch_def Let_def)
qed (simp add: binarySearch_def)

lemma takeWhile_less_sorted:
  "sorted_wrt (<) (xs :: 'a::linorder list) \<Longrightarrow>
   takeWhile (\<lambda>x. x < v) xs = filter (\<lambda>x. x < v) xs"
  by (induction xs) (auto simp: empty_filter_conv dest: less_trans)

lemma takeWhile_downward:
  assumes "\<And>i j. i < j \<Longrightarrow> j < length xs \<Longrightarrow> P (xs ! j) \<Longrightarrow> P (xs ! i)" "k < length xs"
  shows "P (xs ! k) \<longleftrightarrow> k < length (takeWhile P xs)"
proof
  assume "k < length (takeWhile P xs)"
  then show "P (xs ! k)" by (metis nth_mem set_takeWhileD takeWhile_nth)
next
  assume k: "P (xs ! k)"
  show "k < length (takeWhile P xs)"
  proof (rule ccontr)
    assume not_less: "\<not> ?thesis"
    let ?n = "length (takeWhile P xs)"
    have "?n < length xs" using not_less assms(2) by simp
    then have "\<not> P (xs ! ?n)" by (rule nth_length_takeWhile)
    then show False using assms(1) [of ?n k] k not_less assms(2) by (cases "?n = k") auto
  qed
qed

section \<open>Lemmas on Go maps\<close>

lemma gm_wf_set [simp]: "gm_wf m \<Longrightarrow> gm_wf (gm_set m k v)"
  by (simp add: gm_wf_def distinct_update)

lemma gm_wf_del [simp]: "gm_wf m \<Longrightarrow> gm_wf (gm_del m k)"
  by (simp add: gm_wf_def distinct_delete)

lemma gm_wf_Nil [simp]: "gm_wf []"
  by (simp add: gm_wf_def)

lemma map_of_find: "map_of (map (\<lambda>e. (k e, v e)) es) x = map_option v (List.find (\<lambda>e. k e = x) es)"
  by (induction es) auto

lemma map_of_list_update:
  "i < length xs \<Longrightarrow> distinct (map fst xs) \<Longrightarrow> fst (xs ! i) = k \<Longrightarrow>
   map_of (xs[i := (k, v)]) = (map_of xs)(k \<mapsto> v)"
proof (induction xs arbitrary: i)
  case (Cons x xs)
  show ?case
  proof (cases i)
    case 0
    with Cons.prems show ?thesis by (cases x) auto
  next
    case (Suc j)
    then have "k \<in> fst ` set xs" using Cons.prems imageI [OF nth_mem [of j xs], of fst] by simp
    then have "k \<noteq> fst x" using Cons.prems(2) by (cases "k = fst x") simp_all
    then show ?thesis using Cons Suc by (cases x) (auto simp: fun_upd_twist)
  qed
qed simp

lemma gs_insert_set [simp]: "set (gs_insert x s) = insert x (set s)"
  by (auto simp: gs_insert_def)

lemma gs_insert_distinct [simp]: "distinct s \<Longrightarrow> distinct (gs_insert x s)"
  by (simp add: gs_insert_def)

lemma gs_delete_distinct [simp]: "distinct s \<Longrightarrow> distinct (gs_delete x s)"
  by (simp add: distinct_removeAll)

lemma length_gs_insert [simp]: "length (gs_insert x s) = (if x \<in> set s then length s else Suc (length s))"
  by (simp add: gs_insert_def)

lemma gm_get_set: "gm_get (gm_set m k v) k' = (if k' = k then Some v else gm_get m k')"
  by (simp add: update_conv)

lemma gm_get_del: "gm_wf m \<Longrightarrow> gm_get (gm_del m k) k' = (if k' = k then None else gm_get m k')"
  by (simp add: delete_conv')

lemma gm_dom [simp]: "dom (gm_get m) = fst ` set m"
  by (rule dom_map_of_conv_image_fst)

lemma length_gm_set: "gm_wf m \<Longrightarrow> length (gm_set m k v) = (if gm_get m k = None then Suc (length m) else length m)"
  by (induction m) (auto simp: gm_wf_def)

end
