(* ===== verification/Resp_Values.thy ===== *)
theory Resp_Values
  imports Prelude
begin

text \<open>
  The RESP values of \<^verbatim>\<open>src/internal/protocol\<close>: the value type (\<^verbatim>\<open>types.go\<close>), the error values,
  the line grammar shared by both decoders (\<^verbatim>\<open>grammar.go\<close>), the hand-written integer parser of
  \<^verbatim>\<open>parser.go\<close>, the coercion to command tokens (\<^verbatim>\<open>coerce.go\<close>) and the encoder (\<^verbatim>\<open>writer.go\<close>).
  The integer parser is shown equivalent to \<^verbatim>\<open>strconv.ParseInt\<close>, the length computation exact,
  and the streaming writer equal to the buffered encoder.
\<close>

section \<open>Values and errors\<close>

text \<open>The interface \<^verbatim>\<open>Value\<close> is sealed by an unexported method, so its inhabitants are the eight
  structs and the nil interface, which the type switches send to their default branch.\<close>

datatype Value =
    SimpleString bytes
  | ErrorValue bytes
  | Integer int
  | BulkString bytes bool
  | TextBulkString bytes bool
  | Array "Value list" bool
  | Boolean bool
  | Null
  | NilValue

datatype proto_error =
    ErrSyntax
  | ErrRange
  | ErrIncomplete
  | IncompleteError int
  | ErrMissingCRLF
  | ErrEOF
  | ErrUnexpectedEOF
  | ErrIntOutOfRange int
  | ErrParseInteger proto_error
  | ErrInvalidBoolean bytes
  | ErrInvalidNull bytes
  | ErrUnsupportedPrefix byte
  | ErrParseBulkLength proto_error
  | ErrInvalidBulkLength int
  | ErrBulkTooLong int
  | ErrReadBulkPayload proto_error
  | ErrBulkMissingCRLF proto_error
  | ErrNestingTooDeep
  | ErrParseArrayLength proto_error
  | ErrInvalidArrayLength int
  | ErrArrayTooLong int
  | ErrArrayElement nat proto_error
  | ErrLineTooLong
  | ErrUnsupportedType
  | ErrNullBulkBytes
  | ErrNullBytes
  | ErrNotCoercible

text \<open>The chain of errors that \<^verbatim>\<open>errors.Is\<close> and \<^verbatim>\<open>errors.As\<close> walk, as \<^verbatim>\<open>%w\<close> and the method
  \<^verbatim>\<open>Unwrap\<close> of \<^verbatim>\<open>IncompleteError\<close> build it.\<close>

fun errChain :: "proto_error \<Rightarrow> proto_error list" where
  "errChain (IncompleteError n) = [IncompleteError n, ErrIncomplete]"
| "errChain (ErrParseInteger e) = ErrParseInteger e # errChain e"
| "errChain (ErrParseBulkLength e) = ErrParseBulkLength e # errChain e"
| "errChain (ErrReadBulkPayload e) = ErrReadBulkPayload e # errChain e"
| "errChain (ErrBulkMissingCRLF e) = ErrBulkMissingCRLF e # errChain e"
| "errChain (ErrParseArrayLength e) = ErrParseArrayLength e # errChain e"
| "errChain (ErrArrayElement i e) = ErrArrayElement i e # errChain e"
| "errChain e = [e]"

definition errorsIs :: "proto_error \<Rightarrow> proto_error \<Rightarrow> bool" where
  "errorsIs e target \<longleftrightarrow> target \<in> set (errChain e)"

fun isIncompleteError :: "proto_error \<Rightarrow> bool" where
  "isIncompleteError (IncompleteError n) = True"
| "isIncompleteError e = False"

definition errorsAsIncomplete :: "proto_error \<Rightarrow> int option" where
  "errorsAsIncomplete e =
     (case List.find isIncompleteError (errChain e) of
        Some (IncompleteError n) \<Rightarrow> Some n
      | _ \<Rightarrow> None)"

section \<open>Integers and lines\<close>

abbreviation maxAbs :: "64 word" where "maxAbs \<equiv> 9223372036854775808"

fun parseIntBytes_loop :: "64 word \<Rightarrow> 64 word \<Rightarrow> 64 word \<Rightarrow> bytes \<Rightarrow> proto_error + 64 word" where
  "parseIntBytes_loop cutoff cutlim value [] = Inr value"
| "parseIntBytes_loop cutoff cutlim value (digit # raw) =
     (if digit < 48 \<or> digit > 57 then Inl ErrSyntax
      else let parsed = ucast (digit - 48)
           in if value > cutoff \<or> (value = cutoff \<and> parsed > cutlim) then Inl ErrRange
              else parseIntBytes_loop cutoff cutlim (value * 10 + parsed) raw)"

definition parseIntBytes :: "bytes \<Rightarrow> proto_error + int" where
  "parseIntBytes raw =
     (if raw = [] then Inl ErrSyntax
      else
        let signed = (hd raw = 45 \<or> hd raw = 43);
            negative = (signed \<and> hd raw = 45);
            raw = (if signed then tl raw else raw)
        in if raw = [] then Inl ErrSyntax
           else
             let limit = (if negative then maxAbs else maxAbs - 1);
                 cutoff = limit div 10;
                 cutlim = limit mod 10
             in case parseIntBytes_loop cutoff cutlim 0 raw of
                  Inl e \<Rightarrow> Inl e
                | Inr value \<Rightarrow>
                    if negative
                    then if value = maxAbs then Inr (- (2 ^ 63)) else Inr (wrap64 (- sint value))
                    else Inr (sint value))"

definition parseDecimalInt :: "bytes \<Rightarrow> proto_error + int" where
  "parseDecimalInt raw =
     (case parseIntBytes raw of
        Inl e \<Rightarrow> Inl e
      | Inr value \<Rightarrow>
          if value < - (2 ^ 63) \<or> value > 2 ^ 63 - 1 then Inl (ErrIntOutOfRange value)
          else Inr value)"

definition trimCRLF :: "bytes \<Rightarrow> proto_error + bytes" where
  "trimCRLF line =
     (if length line < 2 \<or> line ! (length line - 2) \<noteq> CR \<or> line ! (length line - 1) \<noteq> LF
      then Inl ErrMissingCRLF
      else Inr (take (length line - 2) line))"

definition integerFromLine :: "bytes \<Rightarrow> proto_error + Value" where
  "integerFromLine line =
     (case parseIntBytes line of
        Inl e \<Rightarrow> Inl (ErrParseInteger e)
      | Inr value \<Rightarrow> Inr (Integer value))"

definition booleanFromMarker :: "bytes \<Rightarrow> proto_error + Value" where
  "booleanFromMarker line =
     (if line = str ''t'' then Inr (Boolean True)
      else if line = str ''f'' then Inr (Boolean False)
      else Inl (ErrInvalidBoolean line))"

definition nullFromPayload :: "bytes \<Rightarrow> proto_error + Value" where
  "nullFromPayload line = (if length line \<noteq> 0 then Inl (ErrInvalidNull line) else Inr Null)"

text \<open>\<^verbatim>\<open>Bytes\<close> of \<^verbatim>\<open>coerce.go\<close>.\<close>

fun Bytes :: "Value \<Rightarrow> proto_error + bytes" where
  "Bytes (BulkString data null) = (if null then Inl ErrNullBulkBytes else Inr data)"
| "Bytes (TextBulkString value null) = (if null then Inl ErrNullBulkBytes else Inr value)"
| "Bytes (SimpleString value) = Inr value"
| "Bytes (Integer value) = Inr (formatInt value)"
| "Bytes (Boolean value) = (if value then Inr (str ''1'') else Inr (str ''0''))"
| "Bytes Null = Inl ErrNullBytes"
| "Bytes (ErrorValue message) = Inl ErrNotCoercible"
| "Bytes (Array elements null) = Inl ErrNotCoercible"
| "Bytes NilValue = Inl ErrNotCoercible"

section \<open>The encoder\<close>

definition decimalIntLen :: "int \<Rightarrow> nat" where
  "decimalIntLen value = length (formatInt value)"

fun EncodedLen :: "Value \<Rightarrow> proto_error + nat"
and EncodedLen_loop :: "nat \<Rightarrow> Value list \<Rightarrow> proto_error + nat" where
  "EncodedLen (SimpleString value) = Inr (1 + length value + 2)"
| "EncodedLen (ErrorValue message) = Inr (1 + length message + 2)"
| "EncodedLen (Integer value) = Inr (1 + decimalIntLen value + 2)"
| "EncodedLen (BulkString data null) =
     (if null then Inr 5
      else Inr (1 + decimalIntLen (int (length data)) + 2 + length data + 2))"
| "EncodedLen (TextBulkString value null) =
     (if null then Inr 5
      else Inr (1 + decimalIntLen (int (length value)) + 2 + length value + 2))"
| "EncodedLen (Array elements null) =
     (if null then Inr 5
      else EncodedLen_loop (1 + decimalIntLen (int (length elements)) + 2) elements)"
| "EncodedLen (Boolean value) = Inr 4"
| "EncodedLen Null = Inr 3"
| "EncodedLen NilValue = Inl ErrUnsupportedType"
| "EncodedLen_loop sz [] = Inr sz"
| "EncodedLen_loop sz (element # elements) =
     (case EncodedLen element of
        Inl e \<Rightarrow> Inl e
      | Inr elementLen \<Rightarrow> EncodedLen_loop (sz + elementLen) elements)"

definition EncodedValuesLen :: "Value list \<Rightarrow> proto_error + nat" where
  "EncodedValuesLen values = EncodedLen_loop 0 values"

definition appendPrefixedStringLine :: "bytes \<Rightarrow> byte \<Rightarrow> bytes \<Rightarrow> bytes" where
  "appendPrefixedStringLine dst pre value = dst @ [pre] @ value @ [CR, LF]"

definition appendPrefixedIntLine :: "bytes \<Rightarrow> byte \<Rightarrow> int \<Rightarrow> bytes" where
  "appendPrefixedIntLine dst pre value = dst @ [pre] @ formatInt value @ [CR, LF]"

fun appendEncodedValue :: "bytes \<Rightarrow> Value \<Rightarrow> proto_error + bytes"
and appendEncodedValue_loop :: "bytes \<Rightarrow> Value list \<Rightarrow> proto_error + bytes" where
  "appendEncodedValue dst (SimpleString value) = Inr (appendPrefixedStringLine dst 43 value)"
| "appendEncodedValue dst (ErrorValue message) = Inr (appendPrefixedStringLine dst 45 message)"
| "appendEncodedValue dst (Integer value) = Inr (appendPrefixedIntLine dst 58 value)"
| "appendEncodedValue dst (BulkString data null) =
     (if null then Inr (dst @ str ''$-1'' @ CRLF)
      else Inr (appendPrefixedIntLine dst 36 (int (length data)) @ data @ [CR, LF]))"
| "appendEncodedValue dst (TextBulkString value null) =
     (if null then Inr (dst @ str ''$-1'' @ CRLF)
      else Inr (appendPrefixedIntLine dst 36 (int (length value)) @ value @ [CR, LF]))"
| "appendEncodedValue dst (Array elements null) =
     (if null then Inr (dst @ str ''*-1'' @ CRLF)
      else appendEncodedValue_loop (appendPrefixedIntLine dst 42 (int (length elements))) elements)"
| "appendEncodedValue dst (Boolean value) =
     (if value then Inr (dst @ str ''#t'' @ CRLF) else Inr (dst @ str ''#f'' @ CRLF))"
| "appendEncodedValue dst Null = Inr (dst @ str ''_'' @ CRLF)"
| "appendEncodedValue dst NilValue = Inl ErrUnsupportedType"
| "appendEncodedValue_loop dst [] = Inr dst"
| "appendEncodedValue_loop dst (element # elements) =
     (case appendEncodedValue dst element of
        Inl e \<Rightarrow> Inl e
      | Inr dst' \<Rightarrow> appendEncodedValue_loop dst' elements)"

definition Encode :: "Value \<Rightarrow> proto_error + bytes" where
  "Encode value =
     (case EncodedLen value of
        Inl e \<Rightarrow> Inl e
      | Inr sz \<Rightarrow> appendEncodedValue [] value)"

definition EncodeValues :: "Value list \<Rightarrow> proto_error + bytes" where
  "EncodeValues values =
     (case EncodedValuesLen values of
        Inl e \<Rightarrow> Inl e
      | Inr sz \<Rightarrow> appendEncodedValue_loop [] values)"

text \<open>\<^verbatim>\<open>AppendValues\<close> returns the extended slice, or the original one beside the error.\<close>

fun AppendValues_loop :: "bytes \<Rightarrow> bytes \<Rightarrow> Value list \<Rightarrow> bytes \<times> proto_error option" where
  "AppendValues_loop original dst [] = (dst, None)"
| "AppendValues_loop original dst (value # values) =
     (case appendEncodedValue dst value of
        Inl e \<Rightarrow> (take (length original) dst, Some e)
      | Inr next \<Rightarrow> AppendValues_loop original next values)"

definition AppendValues :: "bytes \<Rightarrow> Value list \<Rightarrow> bytes \<times> proto_error option" where
  "AppendValues dst values = AppendValues_loop dst dst values"

section \<open>The streaming writer\<close>

text \<open>
  \<^verbatim>\<open>WriteValue\<close> writes through an \<^verbatim>\<open>io.Writer\<close>, which is a parameter: \<open>wr\<close> takes the bytes and the
  writer's state and returns an optional error and the next state.  \<^verbatim>\<open>io.WriteString\<close>, \<^verbatim>\<open>Write\<close> and
  \<^verbatim>\<open>WriteByte\<close> are the same operation on bytes.
\<close>

type_synonym ('s, 'e) io_write = "bytes \<Rightarrow> 's \<Rightarrow> 'e option \<times> 's"

datatype 'e write_error = WriterFailed 'e | UnsupportedValue

fun write_seq :: "('s, 'e) io_write \<Rightarrow> bytes list \<Rightarrow> 's \<Rightarrow> 'e write_error option \<times> 's" where
  "write_seq wr [] s = (None, s)"
| "write_seq wr (chunk # chunks) s =
     (case wr chunk s of
        (Some e, s') \<Rightarrow> (Some (WriterFailed e), s')
      | (None, s') \<Rightarrow> write_seq wr chunks s')"

definition writePrefixedStringLine ::
  "('s, 'e) io_write \<Rightarrow> byte \<Rightarrow> bytes \<Rightarrow> 's \<Rightarrow> 'e write_error option \<times> 's" where
  "writePrefixedStringLine wr pre value s = write_seq wr [[pre], value, CRLF] s"

definition writePrefixedIntLine ::
  "('s, 'e) io_write \<Rightarrow> byte \<Rightarrow> int \<Rightarrow> 's \<Rightarrow> 'e write_error option \<times> 's" where
  "writePrefixedIntLine wr pre value s = write_seq wr [[pre], formatInt value, CRLF] s"

fun WriteValue :: "('s, 'e) io_write \<Rightarrow> Value \<Rightarrow> 's \<Rightarrow> 'e write_error option \<times> 's"
and WriteValue_loop :: "('s, 'e) io_write \<Rightarrow> Value list \<Rightarrow> 's \<Rightarrow> 'e write_error option \<times> 's" where
  "WriteValue wr (SimpleString value) s = writePrefixedStringLine wr 43 value s"
| "WriteValue wr (ErrorValue message) s = writePrefixedStringLine wr 45 message s"
| "WriteValue wr (Integer value) s = writePrefixedIntLine wr 58 value s"
| "WriteValue wr (BulkString data null) s =
     (if null then write_seq wr [str ''$-1'' @ CRLF] s
      else case writePrefixedIntLine wr 36 (int (length data)) s of
             (Some e, s') \<Rightarrow> (Some e, s')
           | (None, s') \<Rightarrow> write_seq wr [data, CRLF] s')"
| "WriteValue wr (TextBulkString value null) s =
     (if null then write_seq wr [str ''$-1'' @ CRLF] s
      else case writePrefixedIntLine wr 36 (int (length value)) s of
             (Some e, s') \<Rightarrow> (Some e, s')
           | (None, s') \<Rightarrow> write_seq wr [value, CRLF] s')"
| "WriteValue wr (Array elements null) s =
     (if null then write_seq wr [str ''*-1'' @ CRLF] s
      else case writePrefixedIntLine wr 42 (int (length elements)) s of
             (Some e, s') \<Rightarrow> (Some e, s')
           | (None, s') \<Rightarrow> WriteValue_loop wr elements s')"
| "WriteValue wr (Boolean value) s =
     (if value then write_seq wr [str ''#t'' @ CRLF] s
      else write_seq wr [str ''#f'' @ CRLF] s)"
| "WriteValue wr Null s = write_seq wr [str ''_'' @ CRLF] s"
| "WriteValue wr NilValue s = (Some UnsupportedValue, s)"
| "WriteValue_loop wr [] s = (None, s)"
| "WriteValue_loop wr (element # elements) s =
     (case WriteValue wr element s of
        (Some e, s') \<Rightarrow> (Some e, s')
      | (None, s') \<Rightarrow> WriteValue_loop wr elements s')"

text \<open>A writer whose accepted bytes are \<open>written s\<close>: a call that reports no error appended exactly
  its argument, which is what the documentation of \<^verbatim>\<open>io.Writer\<close> promises.\<close>

locale io_writer =
  fixes wr :: "bytes \<Rightarrow> 's \<Rightarrow> 'e option \<times> 's"
    and written :: "'s \<Rightarrow> bytes"
  assumes wr_ok: "wr b s = (None, s') \<Longrightarrow> written s' = written s @ b"

text \<open>The in-memory writer \<^verbatim>\<open>bytes.Buffer\<close>, which never fails.\<close>

definition buffer_write :: "bytes \<Rightarrow> bytes \<Rightarrow> unit option \<times> bytes" where
  "buffer_write b s = (None, s @ b)"

section \<open>The integer parser\<close>

lemma uint_ucast_byte: "uint (ucast (b :: byte) :: 64 word) = uint b"
  by (simp add: uint_up_ucast is_up)

lemma uint_digit_le: "is_digit d \<Longrightarrow> uint (d - 48) \<le> 9"
proof -
  assume "is_digit d"
  then have "48 \<le> d" "d \<le> 57" by (simp_all add: is_digit_def)
  then have "uint d \<le> 57" "uint (d - 48) = uint d - 48"
    by (simp_all add: word_le_def uint_sub_if_size)
  then show ?thesis by simp
qed

lemma digits_val_mono: "digits_val a ds = Some n \<Longrightarrow> a \<le> n"
proof (induction ds arbitrary: a)
  case (Cons d ds)
  then have "10 * a + unat (d - 48) \<le> n" by (auto split: if_splits)
  then show ?case by simp
qed simp

text \<open>The loop invariant: the accumulator never exceeds the limit, so neither the multiplication nor
  the addition wraps, and the loop computes the decimal value whenever that is within the limit.\<close>

lemma cutoff_test:
  fixes L v p :: int
  assumes "0 \<le> p" "p \<le> 9"
  shows "(L div 10 < v \<or> v = L div 10 \<and> L mod 10 < p) \<longleftrightarrow> L < 10 * v + p"
proof -
  define q r where "q = L div 10" and "r = L mod 10"
  have L: "L = 10 * q + r" "0 \<le> r" "r < 10" by (simp_all add: q_def r_def)
  consider "q < v" | "v = q" | "v < q" by linarith
  then show ?thesis unfolding q_def [symmetric] r_def [symmetric] using assms L by cases auto
qed

lemma parseIntBytes_step:
  fixes v cutoff cutlim :: "64 word"
  assumes "is_digit d" "uint v \<le> L" "L < 2 ^ 64" "uint cutoff = L div 10" "uint cutlim = L mod 10"
  shows "(v > cutoff \<or> (v = cutoff \<and> ucast (d - 48) > cutlim)) \<longleftrightarrow> L < 10 * uint v + uint (d - 48)"
    and "10 * uint v + uint (d - 48) \<le> L \<Longrightarrow>
         uint (v * 10 + ucast (d - 48)) = 10 * uint v + uint (d - 48)"
proof -
  let ?p = "ucast (d - 48 :: byte) :: 64 word"
  have p: "uint ?p = uint (d - 48)" "uint (d - 48) \<le> 9"
    by (rule uint_ucast_byte, rule uint_digit_le [OF assms(1)])
  show "(v > cutoff \<or> (v = cutoff \<and> ?p > cutlim)) \<longleftrightarrow> L < 10 * uint v + uint (d - 48)"
    unfolding word_less_def word_uint_eq_iff [of v] assms(4,5) p(1) by (rule cutoff_test [OF _ p(2)]) simp
  assume "10 * uint v + uint (d - 48) \<le> L"
  then have "uint (word_of_int (10 * uint v + uint (d - 48)) :: 64 word) = 10 * uint v + uint (d - 48)"
    using assms(3) by (intro word_of_int_inverse [OF refl]) auto
  moreover have "v * 10 + ?p = word_of_int (10 * uint v + uint (d - 48))"
    by (simp flip: p(1) add: mult.commute)
  ultimately show "uint (v * 10 + ?p) = 10 * uint v + uint (d - 48)" by argo
qed

lemma parseIntBytes_loop_spec:
  assumes "uint cutoff = L div 10" "uint cutlim = L mod 10" "L < 2 ^ 64" "uint v \<le> L"
  shows "(\<exists>w. parseIntBytes_loop cutoff cutlim v ds = Inr w \<and> digits_val (nat (uint v)) ds = Some (nat (uint w))
              \<and> uint w \<le> L) \<or>
         (\<exists>e. parseIntBytes_loop cutoff cutlim v ds = Inl e \<and>
              (\<forall>n. digits_val (nat (uint v)) ds = Some n \<longrightarrow> L < int n))"
  using assms(4)
proof (induction ds arbitrary: v)
  case (Cons d ds)
  show ?case
  proof (cases "is_digit d")
    case False
    then show ?thesis by (auto simp: is_digit_def not_le)
  next
    case True
    then have dig: "\<not> (d < 48 \<or> d > 57)" by (auto simp: is_digit_def)
    note step = parseIntBytes_step [OF True Cons.prems assms(3,1,2)]
    have nat_eq: "10 * nat (uint v) + unat (d - 48) = nat (10 * uint v + uint (d - 48))"
      by (simp add: nat_add_distrib nat_mult_distrib)
    show ?thesis
    proof (cases "L < 10 * uint v + uint (d - 48)")
      case over: True
      have "L < int n" if "digits_val (nat (uint v)) (d # ds) = Some n" for n
      proof -
        have "nat (10 * uint v + uint (d - 48)) \<le> n"
          using that True nat_eq digits_val_mono by simp
        then show ?thesis using over by linarith
      qed
      moreover have "parseIntBytes_loop cutoff cutlim v (d # ds) = Inl ErrRange"
        using over step(1) dig by (simp add: Let_def)
      ultimately show ?thesis by blast
    next
      case False
      then have "uint (v * 10 + ucast (d - 48)) \<le> L" using step(2) by simp
      moreover have "parseIntBytes_loop cutoff cutlim v (d # ds) =
                     parseIntBytes_loop cutoff cutlim (v * 10 + ucast (d - 48)) ds"
        using False dig unfolding parseIntBytes_loop.simps Let_def step(1) by simp
      moreover have "digits_val (nat (uint v)) (d # ds) = digits_val (nat (uint (v * 10 + ucast (d - 48)))) ds"
        using True nat_eq False step(2) by simp
      ultimately show ?thesis using Cons.IH by metis
    qed
  qed
qed (simp add: nat_le_iff)

lemma parseIntBytes_loop_limit:
  fixes lim :: "64 word"
  shows "(case parseIntBytes_loop (lim div 10) (lim mod 10) 0 ds of
            Inl e \<Rightarrow> \<forall>n. digits_val 0 ds = Some n \<longrightarrow> uint lim < int n
          | Inr w \<Rightarrow> digits_val 0 ds = Some (nat (uint w)) \<and> uint w \<le> uint lim)"
  using parseIntBytes_loop_spec [of "lim div 10" "uint lim" "lim mod 10" 0 ds] uint_lt2p [of lim]
  by (auto simp: uint_div uint_mod)

lemma sint_of_uint: "uint (w :: 64 word) < 2 ^ 63 \<Longrightarrow> sint w = uint w"
  by (simp add: sint_uint signed_take_bit_int_eq_self_iff order_trans [OF _ uint_ge_0])

lemma parseIntBytes_eq: "parseIntBytes raw = Inr v \<longleftrightarrow> ParseInt raw = Some v"
proof (cases "raw = [] \<or> (hd raw = 45 \<or> hd raw = 43) \<and> tl raw = []")
  case True
  then show ?thesis by (auto simp: parseIntBytes_def ParseInt_def Let_def)
next
  case False
  then obtain b bs where raw: "raw = b # bs" by (cases raw) auto
  define neg where "neg \<longleftrightarrow> hd raw = 45"
  define ds where "ds = (if hd raw = 45 \<or> hd raw = 43 then tl raw else raw)"
  define lim where "lim = (if neg then maxAbs else maxAbs - 1)"
  have ds: "ds \<noteq> []" using False by (auto simp: ds_def)
  have P: "ParseInt raw = (case digits_val 0 ds of None \<Rightarrow> None
      | Some n \<Rightarrow> let v = (if neg then - int n else int n) in if int64_range v then Some v else None)"
    using ds unfolding ParseInt_def ds_def neg_def Let_def raw list.sel
    by (simp split: option.split)
  have B: "parseIntBytes raw = (case parseIntBytes_loop (lim div 10) (lim mod 10) 0 ds of
      Inl e \<Rightarrow> Inl e
    | Inr w \<Rightarrow> if neg then if w = maxAbs then Inr (- (2 ^ 63)) else Inr (wrap64 (- sint w)) else Inr (sint w))"
    using ds unfolding parseIntBytes_def ds_def neg_def lim_def Let_def raw list.sel
    by (simp split: sum.split)
  have lim: "uint lim = (if neg then 2 ^ 63 else 2 ^ 63 - 1)"
    by (simp add: lim_def)
  show ?thesis
  proof (cases "parseIntBytes_loop (lim div 10) (lim mod 10) 0 ds")
    case (Inl e)
    then have "\<forall>n. digits_val 0 ds = Some n \<longrightarrow> uint lim < int n"
      using parseIntBytes_loop_limit [where lim = lim and ds = ds] by simp
    then show ?thesis
      by (auto simp: P B Inl lim int64_range_def Let_def split: option.splits if_splits)
  next
    case (Inr w)
    then have w: "digits_val 0 ds = Some (nat (uint w))" "uint w \<le> uint lim"
      using parseIntBytes_loop_limit [where lim = lim and ds = ds] by simp_all
    have "sint w = uint w" if "w \<noteq> maxAbs \<or> \<not> neg"
    proof (rule sint_of_uint)
      have "uint w \<noteq> 2 ^ 63 \<or> \<not> neg"
        using that by (auto simp: word_uint_eq_iff)
      then show "uint w < 2 ^ 63" using w(2) lim by (auto split: if_splits)
    qed
    moreover have "- uint w < 9223372036854775808" "- 9223372036854775808 \<le> uint w"
      using uint_ge_0 [of w] by linarith+
    ultimately show ?thesis
      using w lim by (auto simp: P B Inr int64_range_def wrap64_id Let_def split: if_splits)
  qed
qed

lemma parseIntBytes_formatInt [simp]: "int64_range i \<Longrightarrow> parseIntBytes (formatInt i) = Inr i"
  by (simp add: parseIntBytes_eq)

lemma parseDecimalInt_eq: "parseDecimalInt raw = parseIntBytes raw"
proof (cases "parseIntBytes raw")
  case (Inr v)
  then have "int64_range v" by (auto simp: parseIntBytes_eq dest: ParseInt_range)
  with Inr show ?thesis by (auto simp: parseDecimalInt_def int64_range_def)
qed (simp add: parseDecimalInt_def)

lemma parseDecimalInt_range: "parseDecimalInt raw = Inr v \<Longrightarrow> int64_range v"
  by (auto simp: parseDecimalInt_eq parseIntBytes_eq dest: ParseInt_range)

section \<open>The encoder\<close>

text \<open>What a value looks like on the wire; \<open>encodable\<close> holds of every value without a nil inside.\<close>

fun encodable :: "Value \<Rightarrow> bool" where
  "encodable (Array elements null) \<longleftrightarrow> null \<or> (\<forall>e \<in> set elements. encodable e)"
| "encodable NilValue \<longleftrightarrow> False"
| "encodable v \<longleftrightarrow> True"

fun wire :: "Value \<Rightarrow> bytes" where
  "wire (SimpleString value) = 43 # value @ CRLF"
| "wire (ErrorValue message) = 45 # message @ CRLF"
| "wire (Integer value) = 58 # formatInt value @ CRLF"
| "wire (BulkString data null) =
     (if null then str ''$-1'' @ CRLF else 36 # formatInt (int (length data)) @ CRLF @ data @ CRLF)"
| "wire (TextBulkString data null) =
     (if null then str ''$-1'' @ CRLF else 36 # formatInt (int (length data)) @ CRLF @ data @ CRLF)"
| "wire (Array elements null) =
     (if null then str ''*-1'' @ CRLF
      else 42 # formatInt (int (length elements)) @ CRLF @ concat (map wire elements))"
| "wire (Boolean b) = (if b then str ''#t'' else str ''#f'') @ CRLF"
| "wire Null = str ''_'' @ CRLF"
| "wire NilValue = []"

lemma appendEncodedValue_wire:
  "encodable v \<Longrightarrow> appendEncodedValue dst v = Inr (dst @ wire v)"
  "\<forall>v \<in> set vs. encodable v \<Longrightarrow> appendEncodedValue_loop dst vs = Inr (dst @ concat (map wire vs))"
  by (induction dst v and dst vs rule: appendEncodedValue_appendEncodedValue_loop.induct)
     (auto simp: appendPrefixedStringLine_def appendPrefixedIntLine_def)

lemma EncodedLen_wire:
  "encodable v \<Longrightarrow> EncodedLen v = Inr (length (wire v))"
  "\<forall>v \<in> set vs. encodable v \<Longrightarrow> EncodedLen_loop n vs = Inr (n + length (concat (map wire vs)))"
  by (induction v and n vs rule: EncodedLen_EncodedLen_loop.induct)
     (auto simp: decimalIntLen_def str_def)

lemma encode_not_encodable:
  "\<not> encodable v \<Longrightarrow> EncodedLen v = Inl ErrUnsupportedType"
  "\<exists>v \<in> set vs. \<not> encodable v \<Longrightarrow> EncodedLen_loop n vs = Inl ErrUnsupportedType"
proof (induction v and n vs rule: EncodedLen_EncodedLen_loop.induct)
  case (11 n element elements)
  then show ?case by (cases "encodable element") (auto simp: EncodedLen_wire)
qed auto

lemma appendEncodedValue_not_encodable:
  "\<not> encodable v \<Longrightarrow> appendEncodedValue dst v = Inl ErrUnsupportedType"
  "\<exists>v \<in> set vs. \<not> encodable v \<Longrightarrow> appendEncodedValue_loop dst vs = Inl ErrUnsupportedType"
proof (induction dst v and dst vs rule: appendEncodedValue_appendEncodedValue_loop.induct)
  case (11 dst element elements)
  then show ?case by (cases "encodable element") (auto simp: appendEncodedValue_wire)
qed auto

lemma Encode_wire: "Encode v = (if encodable v then Inr (wire v) else Inl ErrUnsupportedType)"
  by (simp add: Encode_def EncodedLen_wire appendEncodedValue_wire encode_not_encodable)

lemma AppendValues_loop_wire:
  "\<forall>v \<in> set vs. encodable v \<Longrightarrow> AppendValues_loop orig dst vs = (dst @ concat (map wire vs), None)"
  by (induction vs arbitrary: dst) (auto simp: appendEncodedValue_wire)

lemma AppendValues_loop_error:
  "\<exists>v \<in> set vs. \<not> encodable v \<Longrightarrow>
   AppendValues_loop orig (orig @ acc) vs = (orig, Some ErrUnsupportedType)"
proof (induction vs arbitrary: acc)
  case (Cons v vs)
  then show ?case
    by (cases "encodable v") (auto simp: appendEncodedValue_wire appendEncodedValue_not_encodable)
qed simp

lemma write_seq_ok:
  assumes "\<And>b s s'. wr b s = (None, s') \<Longrightarrow> written s' = written s @ b"
  shows "write_seq wr bs s = (None, s') \<Longrightarrow> written s' = written s @ concat bs"
  by (induction bs arbitrary: s) (auto dest!: assms split: prod.splits option.splits)

context io_writer
begin

lemma seq_written: "write_seq wr bs s = (None, s') \<Longrightarrow> written s' = written s @ concat bs"
  by (rule write_seq_ok) (rule wr_ok)

lemma WriteValue_written_gen:
  "w = wr \<Longrightarrow> WriteValue w v s = (None, s') \<Longrightarrow> encodable v \<and> written s' = written s @ wire v"
  "w = wr \<Longrightarrow> WriteValue_loop w vs s = (None, s') \<Longrightarrow>
     (\<forall>v \<in> set vs. encodable v) \<and> written s' = written s @ concat (map wire vs)"
  by (induction w v s and w vs s arbitrary: s' and s' rule: WriteValue_WriteValue_loop.induct)
     (auto simp: writePrefixedStringLine_def writePrefixedIntLine_def
           simp del: write_seq.simps dest!: seq_written split: if_splits prod.splits option.splits)

lemmas WriteValue_written = WriteValue_written_gen [OF refl]

end

interpretation buffer: io_writer buffer_write "\<lambda>s. s"
  by unfold_locales (auto simp: buffer_write_def)

section \<open>Properties\<close>

text \<open>The allocation-free integer parser accepts exactly the strings \<^verbatim>\<open>strconv.ParseInt\<close> accepts and
  returns the same value; in particular its unsigned accumulator never wraps, and the most negative
  integer parses while its absolute value does not.\<close>

theorem parseIntBytes_is_ParseInt: "parseIntBytes raw = Inr v \<longleftrightarrow> ParseInt raw = Some v"
  by (rule parseIntBytes_eq)

text \<open>C32. \<^verbatim>\<open>EncodedLen\<close> and \<^verbatim>\<open>EncodedValuesLen\<close> predict exactly how many bytes \<^verbatim>\<open>Encode\<close> and
  \<^verbatim>\<open>EncodeValues\<close> emit, and they fail exactly when the encoder fails; \<^verbatim>\<open>AppendValues\<close> either appends
  the encoding of the whole list or returns its buffer unchanged.\<close>

theorem encoded_length_exact:
  "EncodedLen v = (case Encode v of Inl e \<Rightarrow> Inl e | Inr bs \<Rightarrow> Inr (length bs)) \<and>
   EncodedValuesLen vs = (case EncodeValues vs of Inl e \<Rightarrow> Inl e | Inr bs \<Rightarrow> Inr (length bs)) \<and>
   AppendValues dst vs = (case EncodeValues vs of Inl e \<Rightarrow> (dst, Some e) | Inr bs \<Rightarrow> (dst @ bs, None))"
proof -
  have "AppendValues dst vs = (case EncodeValues vs of Inl e \<Rightarrow> (dst, Some e) | Inr bs \<Rightarrow> (dst @ bs, None))"
  proof (cases "\<forall>v \<in> set vs. encodable v")
    case True
    then show ?thesis
      by (simp add: AppendValues_def AppendValues_loop_wire EncodeValues_def EncodedValuesLen_def
          EncodedLen_wire appendEncodedValue_wire)
  next
    case False
    then show ?thesis
      using AppendValues_loop_error [of vs dst "[]"]
      by (simp add: AppendValues_def EncodeValues_def EncodedValuesLen_def encode_not_encodable)
  qed
  moreover have "EncodedValuesLen vs = (case EncodeValues vs of Inl e \<Rightarrow> Inl e | Inr bs \<Rightarrow> Inr (length bs))"
    by (cases "\<forall>v \<in> set vs. encodable v")
       (simp_all add: EncodeValues_def EncodedValuesLen_def EncodedLen_wire appendEncodedValue_wire
          encode_not_encodable)
  ultimately show ?thesis by (simp add: Encode_wire EncodedLen_wire encode_not_encodable)
qed

text \<open>Whatever the writer, if \<^verbatim>\<open>WriteValue\<close> reports success then the bytes the writer accepted are
  exactly those \<^verbatim>\<open>Encode\<close> returns for the value.\<close>

theorem WriteValue_writes_Encode:
  assumes "io_writer wr written" "WriteValue wr v s = (None, s')"
  shows "\<exists>bs. Encode v = Inr bs \<and> written s' = written s @ bs"
  using io_writer.WriteValue_written(1) [OF assms] by (simp add: Encode_wire)

theorem WriteValue_writes_Encode_witness:
  "io_writer buffer_write (\<lambda>s. s) \<and>
   WriteValue buffer_write (Array [Integer 7, BulkString (str ''hi'') False] False) [1] =
     (None, 1 # str ''*2'' @ CRLF @ str '':7'' @ CRLF @ str ''$2'' @ CRLF @ str ''hi'' @ CRLF) \<and>
   (\<exists>bs. Encode (Array [Integer 7, BulkString (str ''hi'') False] False) = Inr bs \<and>
         1 # str ''*2'' @ CRLF @ str '':7'' @ CRLF @ str ''$2'' @ CRLF @ str ''hi'' @ CRLF = [1] @ bs)"
proof -
  have w: "WriteValue buffer_write (Array [Integer 7, BulkString (str ''hi'') False] False) [1] =
     (None, 1 # str ''*2'' @ CRLF @ str '':7'' @ CRLF @ str ''$2'' @ CRLF @ str ''hi'' @ CRLF)"
    by (simp add: writePrefixedIntLine_def buffer_write_def formatInt_def nat_digits.simps str_def)
  show ?thesis
    using WriteValue_writes_Encode [OF buffer.io_writer_axioms w] buffer.io_writer_axioms w by blast
qed

end
