(* ===== verification/Resp_Decode.thy ===== *)
theory Resp_Decode
  imports Resp_Values
begin

text \<open>
  The buffer decoder \<^verbatim>\<open>Decode\<close> of \<^verbatim>\<open>src/internal/protocol/decode.go\<close>: it reads one frame from the
  front of a buffer, reports how many bytes it used, and tells a frame that is not complete yet
  from a permanent protocol error.  Shown: it inverts the encoder, its verdicts are stable when
  more bytes arrive, and the \<open>Need\<close> hint of an incomplete frame is a true lower bound.
\<close>

section \<open>Definitions\<close>

type_synonym decoded = "proto_error + (Value \<times> nat)"

definition incompleteNeed :: "int \<Rightarrow> proto_error" where
  "incompleteNeed n = (if n \<le> 0 then ErrIncomplete else IncompleteError n)"

abbreviation maxNestingDepth :: nat where "maxNestingDepth \<equiv> 128"

definition decodeLine :: "bytes \<Rightarrow> proto_error + (bytes \<times> nat)" where
  "decodeLine buf =
     (case IndexByte buf LF of
        None \<Rightarrow> Inl ErrIncomplete
      | Some idx \<Rightarrow>
          (case trimCRLF (take (idx + 1) buf) of
             Inl e \<Rightarrow> Inl e
           | Inr content \<Rightarrow> Inr (content, idx + 1)))"

text \<open>The branches of \<^verbatim>\<open>decode\<close> that read one line and build a value from it.\<close>

definition decode_line_frame :: "(bytes \<Rightarrow> proto_error + Value) \<Rightarrow> bytes \<Rightarrow> decoded" where
  "decode_line_frame build buf =
     (case decodeLine (tl buf) of
        Inl e \<Rightarrow> Inl e
      | Inr (line, n) \<Rightarrow>
          (case build line of
             Inl e \<Rightarrow> Inl e
           | Inr value \<Rightarrow> Inr (value, 1 + n)))"

definition decodeBulkString :: "bytes \<Rightarrow> decoded" where
  "decodeBulkString buf =
     (case decodeLine (tl buf) of
        Inl e \<Rightarrow> Inl e
      | Inr (line, n) \<Rightarrow>
          let consumed = 1 + n in
          (case parseDecimalInt line of
             Inl e \<Rightarrow> Inl (ErrParseBulkLength e)
           | Inr len \<Rightarrow>
               if len = -1 then Inr (BulkString [] True, consumed)
               else if len < -1 then Inl (ErrInvalidBulkLength len)
               else
                 let remaining = drop consumed buf in
                 if len > int (length remaining) - 2
                 then Inl (incompleteNeed (wrap64 (int consumed + len + 2)))
                 else if remaining ! nat len \<noteq> CR \<or> remaining ! (nat len + 1) \<noteq> LF
                 then Inl (ErrBulkMissingCRLF ErrMissingCRLF)
                 else Inr (BulkString (take (nat len) remaining) False, consumed + nat len + 2)))"

text \<open>The element loop of \<^verbatim>\<open>decodeArray\<close>: \<open>dec\<close> is the recursive call one level deeper, the first
  numeral argument the elements still to read, \<open>i\<close> the loop index.\<close>

fun decode_elements ::
  "(bytes \<Rightarrow> decoded) \<Rightarrow> nat \<Rightarrow> nat \<Rightarrow> bytes \<Rightarrow> nat \<Rightarrow> Value list \<Rightarrow> decoded" where
  "decode_elements dec 0 i buf consumed elements = Inr (Array elements False, consumed)"
| "decode_elements dec (Suc left) i buf consumed elements =
     (case dec (drop consumed buf) of
        Inl err \<Rightarrow>
          if errorsIs err ErrIncomplete
          then (case errorsAsIncomplete err of
                  Some need \<Rightarrow> Inl (incompleteNeed (wrap64 (int consumed + need)))
                | None \<Rightarrow> Inl ErrIncomplete)
          else Inl (ErrArrayElement i err)
      | Inr (element, elementN) \<Rightarrow>
          decode_elements dec left (i + 1) buf (consumed + elementN) (elements @ [element]))"

lemma decode_elements_cong [fundef_cong]:
  assumes "\<And>b. dec b = dec' b" "n = n'" "i = i'" "b = b'" "c = c'" "es = es'"
  shows "decode_elements dec n i b c es = decode_elements dec' n' i' b' c' es'"
proof -
  have "dec = dec'" using assms(1) by (rule ext)
  with assms show ?thesis by simp
qed

function (sequential) decode :: "bytes \<Rightarrow> nat \<Rightarrow> decoded"
and decodeArray :: "bytes \<Rightarrow> nat \<Rightarrow> decoded" where
  "decode [] depth = Inl ErrIncomplete"
| "decode (p # buf) depth =
     (if p = 43 then decode_line_frame (\<lambda>line. Inr (SimpleString line)) (p # buf)
      else if p = 45 then decode_line_frame (\<lambda>line. Inr (ErrorValue line)) (p # buf)
      else if p = 58 then decode_line_frame integerFromLine (p # buf)
      else if p = 35 then decode_line_frame booleanFromMarker (p # buf)
      else if p = 95 then decode_line_frame nullFromPayload (p # buf)
      else if p = 36 then decodeBulkString (p # buf)
      else if p = 42 then decodeArray (p # buf) depth
      else Inl (ErrUnsupportedPrefix p))"
| "decodeArray buf depth =
     (if depth \<ge> maxNestingDepth then Inl ErrNestingTooDeep
      else
        case decodeLine (tl buf) of
          Inl e \<Rightarrow> Inl e
        | Inr (line, n) \<Rightarrow>
            (case parseDecimalInt line of
               Inl e \<Rightarrow> Inl (ErrParseArrayLength e)
             | Inr count \<Rightarrow>
                 if count = -1 then Inr (Array [] True, 1 + n)
                 else if count < -1 then Inl (ErrInvalidArrayLength count)
                 else decode_elements (\<lambda>b. decode b (depth + 1)) (nat count) 0 buf (1 + n) []))"
  by pat_completeness auto
termination
  by (relation "measure (\<lambda>x. case x of Inl (b, d) \<Rightarrow> 2 * (129 - d) + 1 | Inr (b, d) \<Rightarrow> 2 * (129 - d))") auto

declare decodeArray.simps [simp del]

definition Decode :: "bytes \<Rightarrow> decoded" where
  "Decode buf = decode buf 0"

text \<open>
  The contract a buffering client relies on.  A decoder consumes at least one byte and never more
  than it was given; a value or a permanent error does not change when more bytes arrive; and an
  incomplete frame with a \<open>need\<close> hint stays incomplete until the buffer has that many bytes.
\<close>

locale incremental_decoder =
  fixes dec :: "bytes \<Rightarrow> 'e + ('v \<times> nat)"
    and incomplete :: "'e \<Rightarrow> bool"
    and need :: "'e \<Rightarrow> int option"
  assumes consumes: "dec b = Inr (v, n) \<Longrightarrow> 0 < n \<and> n \<le> length b"
    and stable_value: "dec b = Inr r \<Longrightarrow> dec (b @ more) = Inr r"
    and stable_error: "dec b = Inl e \<Longrightarrow> \<not> incomplete e \<Longrightarrow> dec (b @ more) = Inl e"
    and need_sound: "dec b = Inl e \<Longrightarrow> need e = Some k \<Longrightarrow> int64_range (int (length b)) \<Longrightarrow>
       int64_range k \<and> int (length b) < k \<and>
       (int (length (b @ more)) < k \<longrightarrow> (\<exists>e'. dec (b @ more) = Inl e' \<and> incomplete e'))"

abbreviation resp_decoder :: "(bytes \<Rightarrow> decoded) \<Rightarrow> bool" where
  "resp_decoder dec \<equiv> incremental_decoder dec (\<lambda>e. errorsIs e ErrIncomplete) errorsAsIncomplete"

section \<open>Errors and hints\<close>

lemma errorsIs_simps [simp]:
  "errorsIs ErrIncomplete ErrIncomplete"
  "errorsIs (IncompleteError k) ErrIncomplete"
  "\<not> errorsIs ErrMissingCRLF ErrIncomplete"
  "\<not> errorsIs ErrSyntax ErrIncomplete"
  "\<not> errorsIs ErrRange ErrIncomplete"
  "\<not> errorsIs ErrNestingTooDeep ErrIncomplete"
  "\<not> errorsIs (ErrInvalidBulkLength n) ErrIncomplete"
  "\<not> errorsIs (ErrInvalidArrayLength n) ErrIncomplete"
  "\<not> errorsIs (ErrUnsupportedPrefix b) ErrIncomplete"
  "\<not> errorsIs (ErrInvalidBoolean bs) ErrIncomplete"
  "\<not> errorsIs (ErrInvalidNull bs) ErrIncomplete"
  "errorsIs (ErrArrayElement i e) ErrIncomplete = errorsIs e ErrIncomplete"
  "errorsIs (ErrParseInteger e) ErrIncomplete = errorsIs e ErrIncomplete"
  "errorsIs (ErrParseBulkLength e) ErrIncomplete = errorsIs e ErrIncomplete"
  "errorsIs (ErrParseArrayLength e) ErrIncomplete = errorsIs e ErrIncomplete"
  "errorsIs (ErrBulkMissingCRLF e) ErrIncomplete = errorsIs e ErrIncomplete"
  by (auto simp: errorsIs_def)

lemma errorsIs_incompleteNeed [simp]: "errorsIs (incompleteNeed n) ErrIncomplete"
  by (simp add: incompleteNeed_def)

lemma errorsAs_simps [simp]:
  "errorsAsIncomplete (IncompleteError k) = Some k"
  "errorsAsIncomplete ErrIncomplete = None"
  "errorsAsIncomplete (incompleteNeed n) = (if n \<le> 0 then None else Some n)"
  by (auto simp: errorsAsIncomplete_def incompleteNeed_def)

lemma errorsAs_Some_Is: "errorsAsIncomplete e = Some k \<Longrightarrow> errorsIs e ErrIncomplete"
  by (induction e rule: errChain.induct) (auto simp: errorsAsIncomplete_def errorsIs_def)

lemma wrap64_pos: "0 \<le> x \<Longrightarrow> x \<le> 2 ^ 64 \<Longrightarrow> 0 < wrap64 x \<Longrightarrow> wrap64 x = x"
proof (cases "x < 2 ^ 63")
  case True
  then show "0 \<le> x \<Longrightarrow> ?thesis" by (simp add: wrap64_id int64_range_def)
next
  case False
  assume x: "0 \<le> x" "x \<le> 2 ^ 64" "0 < wrap64 x"
  have "(x + 2 ^ 63) mod 2 ^ 64 = (x - 2 ^ 63) mod 2 ^ 64"
    using minus_mod_self2 [of "x + 2 ^ 63" "2 ^ 64"] by (simp add: algebra_simps)
  then show ?thesis using False x by (simp add: wrap64_def)
qed

section \<open>Lines\<close>

lemma decodeLine_LF: "LF \<in> set b \<Longrightarrow> decodeLine (b @ more) = decodeLine b"
proof -
  assume "LF \<in> set b"
  then obtain i where i: "IndexByte b LF = Some i" by (cases "IndexByte b LF") (auto simp: IndexByte_None)
  then show ?thesis
    using IndexByte_Some [OF i] by (simp add: decodeLine_def IndexByte_prefix [OF i])
qed

lemma decodeLine_no_LF: "LF \<notin> set b \<Longrightarrow> decodeLine b = Inl ErrIncomplete"
  by (simp add: decodeLine_def IndexByte_None [THEN iffD2])

lemma decodeLine_value:
  assumes "decodeLine b = Inr (line, n)"
  shows "2 \<le> n \<and> n \<le> length b \<and> decodeLine (b @ more) = Inr (line, n)"
proof -
  have "LF \<in> set b" using assms decodeLine_no_LF by fastforce
  moreover have "2 \<le> n \<and> n \<le> length b"
    using assms by (auto simp: decodeLine_def trimCRLF_def dest!: IndexByte_Some
                         split: option.splits if_splits sum.splits)
  ultimately show ?thesis using assms decodeLine_LF by simp
qed

lemma decodeLine_error:
  assumes "decodeLine b = Inl e"
  shows "e = ErrIncomplete \<or> e = ErrMissingCRLF \<and> (\<forall>more. decodeLine (b @ more) = Inl e)"
proof (cases "LF \<in> set b")
  case True
  moreover have "e = ErrIncomplete \<or> e = ErrMissingCRLF"
    using assms by (auto simp: decodeLine_def trimCRLF_def split: option.splits if_splits sum.splits)
  ultimately show ?thesis using assms decodeLine_LF by simp
next
  case False
  with assms show ?thesis by (simp add: decodeLine_no_LF)
qed

lemma decodeLine_wire: "LF \<notin> set line \<Longrightarrow> decodeLine (line @ CR # LF # rest) = Inr (line, length line + 2)"
  using IndexByte_append [of LF "line @ [CR]" rest]
  by (simp add: decodeLine_def trimCRLF_def nth_append)

section \<open>The decoder meets its contract\<close>

lemma parseIntBytes_error: "parseIntBytes raw = Inl e \<Longrightarrow> \<not> errorsIs e ErrIncomplete \<and> errorsAsIncomplete e = None"
proof -
  have loop: "parseIntBytes_loop c l v ds = Inl e \<Longrightarrow> e = ErrSyntax \<or> e = ErrRange" for c l v ds
    by (induction c l v ds rule: parseIntBytes_loop.induct) (auto simp: Let_def split: if_splits)
  assume "parseIntBytes raw = Inl e"
  then have "e = ErrSyntax \<or> e = ErrRange"
    by (auto simp: parseIntBytes_def Let_def split: if_splits sum.splits dest: loop)
  then show ?thesis by (auto simp: errorsAsIncomplete_def)
qed

text \<open>The contract at one buffer, so that it can be shown for the branch the first byte selects.\<close>

definition frame_ok :: "(bytes \<Rightarrow> decoded) \<Rightarrow> bytes \<Rightarrow> bool" where
  "frame_ok dec b \<longleftrightarrow>
     (\<forall>v n. dec b = Inr (v, n) \<longrightarrow> 0 < n \<and> n \<le> length b) \<and>
     (\<forall>r more. dec b = Inr r \<longrightarrow> dec (b @ more) = Inr r) \<and>
     (\<forall>e more. dec b = Inl e \<longrightarrow> \<not> errorsIs e ErrIncomplete \<longrightarrow> dec (b @ more) = Inl e) \<and>
     (\<forall>e k. dec b = Inl e \<longrightarrow> errorsAsIncomplete e = Some k \<longrightarrow> int64_range (int (length b)) \<longrightarrow>
        int64_range k \<and> int (length b) < k \<and>
        (\<forall>more. int (length (b @ more)) < k \<longrightarrow>
           (\<exists>e'. dec (b @ more) = Inl e' \<and> errorsIs e' ErrIncomplete)))"

lemma resp_decoder_iff: "resp_decoder dec \<longleftrightarrow> (\<forall>b. frame_ok dec b)"
  unfolding incremental_decoder_def frame_ok_def by auto

lemma frame_ok_value:
  "dec b = Inr (v, n) \<Longrightarrow> 0 < n \<Longrightarrow> n \<le> length b \<Longrightarrow> (\<And>more. dec (b @ more) = Inr (v, n)) \<Longrightarrow>
   frame_ok dec b"
  by (auto simp: frame_ok_def)

lemma frame_ok_error:
  "dec b = Inl e \<Longrightarrow> errorsAsIncomplete e = None \<Longrightarrow> (\<And>more. dec (b @ more) = Inl e) \<Longrightarrow> frame_ok dec b"
  by (auto simp: frame_ok_def)

lemma frame_ok_incomplete: "dec b = Inl ErrIncomplete \<Longrightarrow> frame_ok dec b"
  by (auto simp: frame_ok_def)

lemma frame_ok_need:
  assumes "dec b = Inl (incompleteNeed (wrap64 k))" "int (length b) < k" "int64_range (int (length b)) \<Longrightarrow> k \<le> 2 ^ 64"
    "\<And>more. int (length (b @ more)) < k \<Longrightarrow> \<exists>e'. dec (b @ more) = Inl e' \<and> errorsIs e' ErrIncomplete"
  shows "frame_ok dec b"
proof -
  have "wrap64 k = k" if "0 < wrap64 k" "int64_range (int (length b))"
    using wrap64_pos [of k] that assms(2,3) by simp
  then show ?thesis using assms wrap64_range [of k] by (auto simp: frame_ok_def not_le)
qed

lemma frame_ok_cong:
  "(\<And>more. dec (b @ more) = dec' (b @ more)) \<Longrightarrow> frame_ok dec' b \<Longrightarrow> frame_ok dec b"
  unfolding frame_ok_def by (metis append_Nil2)

lemma errorsAs_wrap [simp]:
  "errorsAsIncomplete (ErrParseInteger e) = errorsAsIncomplete e"
  "errorsAsIncomplete (ErrParseBulkLength e) = errorsAsIncomplete e"
  "errorsAsIncomplete (ErrParseArrayLength e) = errorsAsIncomplete e"
  "errorsAsIncomplete (ErrBulkMissingCRLF e) = errorsAsIncomplete e"
  "errorsAsIncomplete (ErrArrayElement i e) = errorsAsIncomplete e"
  "errorsAsIncomplete ErrMissingCRLF = None"
  "errorsAsIncomplete ErrNestingTooDeep = None"
  "errorsAsIncomplete (ErrInvalidBoolean bs) = None"
  "errorsAsIncomplete (ErrInvalidNull bs) = None"
  "errorsAsIncomplete (ErrInvalidBulkLength n) = None"
  "errorsAsIncomplete (ErrInvalidArrayLength n) = None"
  "errorsAsIncomplete (ErrUnsupportedPrefix p) = None"
  by (auto simp: errorsAsIncomplete_def)

lemma frame_ok_line_error:
  assumes "decodeLine (tl b) = Inl e" "b \<noteq> []" "\<And>b' e'. decodeLine (tl b') = Inl e' \<Longrightarrow> dec b' = Inl e'"
  shows "frame_ok dec b"
  using decodeLine_error [OF assms(1)]
proof
  assume "e = ErrIncomplete"
  then show ?thesis using assms by (intro frame_ok_incomplete) simp
next
  assume "e = ErrMissingCRLF \<and> (\<forall>more. decodeLine (tl b @ more) = Inl e)"
  then show ?thesis using assms by (intro frame_ok_error [of _ _ ErrMissingCRLF]) auto
qed

lemma line_frame_ok:
  assumes "\<And>line e. build line = Inl e \<Longrightarrow> errorsAsIncomplete e = None" "b \<noteq> []"
  shows "frame_ok (decode_line_frame build) b"
proof (cases "decodeLine (tl b)")
  case (Inl e)
  then show ?thesis
    using assms(2) by (rule frame_ok_line_error) (simp add: decode_line_frame_def)
next
  case (Inr r)
  obtain line n where r: "r = (line, n)" by (cases r)
  note line = decodeLine_value [OF Inr [unfolded r]]
  have n: "1 + n \<le> length b" using line assms(2) by (cases b) auto
  show ?thesis
  proof (cases "build line")
    case (Inl e)
    then show ?thesis
      using line assms by (auto simp: decode_line_frame_def Inr r intro!: frame_ok_error)
  next
    case v: (Inr v)
    show ?thesis
      by (rule frame_ok_value [of _ _ v "1 + n"])
         (use line n assms v in \<open>auto simp: decode_line_frame_def Inr r\<close>)
  qed
qed

lemma bulk_frame_ok: "b \<noteq> [] \<Longrightarrow> frame_ok decodeBulkString b"
proof (cases "decodeLine (tl b)")
  case (Inl e)
  assume "b \<noteq> []"
  with Inl show ?thesis by (rule frame_ok_line_error) (simp add: decodeBulkString_def)
next
  case (Inr r)
  assume b: "b \<noteq> []"
  obtain line n where r: "r = (line, n)" by (cases r)
  note line = decodeLine_value [OF Inr [unfolded r]]
  have n: "1 + n \<le> length b" using line b by (cases b) auto
  have ext: "decodeLine (tl b @ more) = Inr (line, n)" for more using line by simp
  note ds = decodeBulkString_def Inr r ext b tl_append2
  show ?thesis
  proof (cases "parseDecimalInt line")
    case (Inl e)
    then show ?thesis
      using b parseIntBytes_error [of line] by (auto simp: ds parseDecimalInt_eq intro!: frame_ok_error)
  next
    case len: (Inr len)
    have range: "int64_range len" using parseDecimalInt_range len by blast
    consider "len = -1" | "len < -1" | "0 \<le> len" "len > int (length (drop (1 + n) b)) - 2"
      | "0 \<le> len" "len \<le> int (length (drop (1 + n) b)) - 2" by linarith
    then show ?thesis
    proof cases
      case 1
      then show ?thesis
        by (intro frame_ok_value [of _ _ "BulkString [] True" "1 + n"]) (use n in \<open>auto simp: ds len\<close>)
    next
      case 2
      then show ?thesis by (intro frame_ok_error) (auto simp: ds len)
    next
      case 3
      show ?thesis
      proof (rule frame_ok_need [of _ _ "int (1 + n) + len + 2"])
        show "decodeBulkString b = Inl (incompleteNeed (wrap64 (int (1 + n) + len + 2)))"
          using 3 by (simp add: ds len)
        show "int (length b) < int (1 + n) + len + 2"
          using 3 n by simp
        show "int (1 + n) + len + 2 \<le> 2 ^ 64" if "int64_range (int (length b))"
          using that range n by (simp add: int64_range_def)
        show "\<exists>e'. decodeBulkString (b @ more) = Inl e' \<and> errorsIs e' ErrIncomplete"
          if "int (length (b @ more)) < int (1 + n) + len + 2" for more
          using 3 that n by (auto simp: ds len)
      qed
    next
      case 4
      define rem where "rem = drop (1 + n) b"
      have l: "nat len + 2 \<le> length rem" using 4 rem_def by simp
      have nths: "(rem @ more) ! nat len = rem ! nat len" "(rem @ more) ! (nat len + 1) = rem ! (nat len + 1)"
        "take (nat len) (rem @ more) = take (nat len) rem" for more
        using l by (auto simp: nth_append)
      have res: "decodeBulkString (b @ more) =
          (if rem ! nat len \<noteq> CR \<or> rem ! (nat len + 1) \<noteq> LF then Inl (ErrBulkMissingCRLF ErrMissingCRLF)
           else Inr (BulkString (take (nat len) rem) False, 1 + n + nat len + 2))" for more
      proof -
        have "drop (1 + n) (b @ more) = rem @ more" using n by (simp add: rem_def)
        then show ?thesis using 4 n l nths [of more] by (simp add: ds len Let_def del: drop_append)
      qed
      show ?thesis
      proof (cases "rem ! nat len \<noteq> CR \<or> rem ! (nat len + 1) \<noteq> LF")
        case True
        then show ?thesis
          using res [of "[]"] res by (intro frame_ok_error) auto
      next
        case False
        then show ?thesis
          using res [of "[]"] res l n by (intro frame_ok_value) (auto simp: rem_def)
      qed
    qed
  qed
qed

text \<open>The element loop keeps the contract of the decoder it calls.\<close>

lemma elements_frame_ok:
  assumes dec: "resp_decoder dec" and "0 < consumed" "consumed \<le> length b"
  shows "frame_ok (\<lambda>b. decode_elements dec left i b consumed es) b"
  using assms(2,3)
proof (induction left arbitrary: i consumed es)
  case 0
  then show ?case by (intro frame_ok_value) auto
next
  case (Suc left)
  have ext: "drop consumed (b @ more) = drop consumed b @ more" for more using Suc.prems by simp
  show ?case
  proof (cases "dec (drop consumed b)")
    case (Inr r)
    obtain v n where r: "r = (v, n)" by (cases r)
    have n: "0 < n" "n \<le> length (drop consumed b)"
      using incremental_decoder.consumes [OF dec Inr [unfolded r]] by auto
    have "dec (drop consumed b @ more) = Inr (v, n)" for more
      using incremental_decoder.stable_value [OF dec] Inr r by simp
    then have "decode_elements dec (Suc left) i (b @ more) consumed es =
               decode_elements dec left (i + 1) (b @ more) (consumed + n) (es @ [v])" for more
      by (simp add: ext)
    then show ?thesis
      by (rule frame_ok_cong) (use Suc.IH [of "consumed + n"] Suc.prems n in auto)
  next
    case (Inl e)
    show ?thesis
    proof (cases "errorsIs e ErrIncomplete")
      case False
      then have "errorsAsIncomplete e = None" using errorsAs_Some_Is by (cases "errorsAsIncomplete e") auto
      moreover have "dec (drop consumed b @ more) = Inl e" for more
        using incremental_decoder.stable_error [OF dec Inl False] by simp
      ultimately show ?thesis
        using False Inl by (intro frame_ok_error [of _ _ "ErrArrayElement i e"]) (auto simp: ext)
    next
      case True
      show ?thesis
      proof (cases "errorsAsIncomplete e")
        case None
        with True Inl show ?thesis by (intro frame_ok_incomplete) simp
      next
        case (Some k)
        have len: "length (drop consumed b) = length b - consumed" by simp
        show ?thesis
        proof (cases "int64_range (int (length b))")
          case False
          with True Inl Some show ?thesis by (auto simp: frame_ok_def ext)
        next
          case range: True
          then have "int64_range (int (length (drop consumed b)))" by (auto simp: int64_range_def)
          note need = incremental_decoder.need_sound [OF dec Inl Some this]
          show ?thesis
          proof (rule frame_ok_need [of _ _ "int consumed + k"])
            show "decode_elements dec (Suc left) i b consumed es =
                  Inl (incompleteNeed (wrap64 (int consumed + k)))"
              using True Inl Some by simp
            show "int (length b) < int consumed + k"
              using need [of "[]"] Suc.prems by auto
            show "int consumed + k \<le> 2 ^ 64"
              using need [of "[]"] range Suc.prems by (auto simp: int64_range_def)
            show "\<exists>e'. decode_elements dec (Suc left) i (b @ more) consumed es = Inl e' \<and>
                       errorsIs e' ErrIncomplete"
              if "int (length (b @ more)) < int consumed + k" for more
            proof -
              have "int (length (drop consumed b @ more)) < k" using that Suc.prems by simp
              then obtain e' where "dec (drop consumed b @ more) = Inl e'" "errorsIs e' ErrIncomplete"
                using need [of more] by blast
              then show ?thesis
                by (cases "errorsAsIncomplete e'") (simp_all add: ext del: drop_append)
            qed
          qed
        qed
      qed
    qed
  qed
qed

lemma array_frame_ok:
  assumes "b \<noteq> []" "depth < maxNestingDepth \<Longrightarrow> resp_decoder (\<lambda>b. decode b (depth + 1))"
  shows "frame_ok (\<lambda>b. decodeArray b depth) b"
proof (cases "depth < maxNestingDepth")
  case False
  then show ?thesis by (intro frame_ok_error [of _ _ ErrNestingTooDeep]) (auto simp: decodeArray.simps)
next
  case depth: True
  show ?thesis
  proof (cases "decodeLine (tl b)")
    case (Inl e)
    then show ?thesis
      using assms(1) by (rule frame_ok_line_error) (use depth in \<open>simp add: decodeArray.simps\<close>)
  next
    case (Inr r)
    obtain line n where r: "r = (line, n)" by (cases r)
    note line = decodeLine_value [OF Inr [unfolded r]]
    have n: "1 + n \<le> length b" using line assms(1) by (cases b) auto
    have ext: "decodeLine (tl b @ more) = Inr (line, n)" for more using line by simp
    note ds = decodeArray.simps Inr r ext assms(1) depth [folded not_le] tl_append2
    show ?thesis
    proof (cases "parseDecimalInt line")
      case (Inl e)
      then show ?thesis
        using parseIntBytes_error [of line]
        by (intro frame_ok_error [of _ _ "ErrParseArrayLength e"]) (auto simp: ds parseDecimalInt_eq)
    next
      case count: (Inr count)
      consider "count = -1" | "count < -1" | "0 \<le> count" by linarith
      then show ?thesis
      proof cases
        case 1
        then show ?thesis
          by (intro frame_ok_value [of _ _ "Array [] True" "1 + n"]) (use n in \<open>auto simp: ds count\<close>)
      next
        case 2
        then show ?thesis
          by (intro frame_ok_error [of _ _ "ErrInvalidArrayLength count"]) (auto simp: ds count)
      next
        case 3
        have "frame_ok (\<lambda>b. decode_elements (\<lambda>b. decode b (depth + 1)) (nat count) 0 b (1 + n) []) b"
          by (rule elements_frame_ok) (use assms(2) depth n in auto)
        then show ?thesis
          by (rule frame_ok_cong [rotated]) (use 3 in \<open>simp add: ds count\<close>)
      qed
    qed
  qed
qed

lemma decode_frame_ok_step:
  assumes "depth < maxNestingDepth \<Longrightarrow> resp_decoder (\<lambda>b. decode b (depth + 1))"
  shows "frame_ok (\<lambda>b. decode b depth) b"
proof (cases b)
  case Nil
  then show ?thesis by (intro frame_ok_incomplete) simp
next
  case (Cons p buf)
  have line: "frame_ok (decode_line_frame build) (p # buf)"
    if "\<And>line e. build line = Inl e \<Longrightarrow> errorsAsIncomplete e = None" for build
    using line_frame_ok that by blast
  have bulk: "frame_ok decodeBulkString (p # buf)" by (rule bulk_frame_ok) simp
  have arr: "frame_ok (\<lambda>b. decodeArray b depth) (p # buf)" by (rule array_frame_ok) (use assms in auto)
  have builders: "integerFromLine l = Inl e \<Longrightarrow> errorsAsIncomplete e = None"
    "booleanFromMarker l = Inl e \<Longrightarrow> errorsAsIncomplete e = None"
    "nullFromPayload l = Inl e \<Longrightarrow> errorsAsIncomplete e = None" for l e
    using parseIntBytes_error
    by (auto simp: integerFromLine_def booleanFromMarker_def nullFromPayload_def split: sum.splits if_splits)
  consider "p = 43" | "p = 45" | "p = 58" | "p = 35" | "p = 95" | "p = 36" | "p = 42"
    | "p \<notin> {43, 45, 58, 35, 95, 36, 42}" by auto
  then show ?thesis
  proof cases
    case 1
    show ?thesis unfolding Cons by (rule frame_ok_cong [OF _ line [of "\<lambda>line. Inr (SimpleString line)"]]) (auto simp: 1)
  next
    case 2
    show ?thesis unfolding Cons by (rule frame_ok_cong [OF _ line [of "\<lambda>line. Inr (ErrorValue line)"]]) (auto simp: 2)
  next
    case 3
    show ?thesis unfolding Cons by (rule frame_ok_cong [OF _ line [of integerFromLine]]) (auto simp: 3 builders)
  next
    case 4
    show ?thesis unfolding Cons by (rule frame_ok_cong [OF _ line [of booleanFromMarker]]) (auto simp: 4 builders)
  next
    case 5
    show ?thesis unfolding Cons by (rule frame_ok_cong [OF _ line [of nullFromPayload]]) (auto simp: 5 builders)
  next
    case 6
    show ?thesis unfolding Cons by (rule frame_ok_cong [OF _ bulk]) (auto simp: 6)
  next
    case 7
    show ?thesis unfolding Cons by (rule frame_ok_cong [OF _ arr]) (auto simp: 7)
  next
    case 8
    then show ?thesis unfolding Cons by (intro frame_ok_error [of _ _ "ErrUnsupportedPrefix p"]) auto
  qed
qed

lemma resp_decoder_decode: "resp_decoder (\<lambda>b. decode b depth)"
proof (induction "maxNestingDepth - depth" arbitrary: depth rule: less_induct)
  case less
  show ?case
    unfolding resp_decoder_iff
  proof
    fix b
    show "frame_ok (\<lambda>b. decode b depth) b"
      by (rule decode_frame_ok_step, rule less) simp
  qed
qed

interpretation dec: incremental_decoder Decode "\<lambda>e. errorsIs e ErrIncomplete" errorsAsIncomplete
  using resp_decoder_decode [of 0] unfolding Decode_def by (simp add: eta_contract_eq)

section \<open>The decoder inverts the encoder\<close>

text \<open>
  What a peer decodes from an encoded value: bulk strings lose their Go representation and null
  markers lose their (ignored) payload.  A value survives the wire if its line strings hold no line
  feed, its integers and lengths fit 64 bits and its arrays nest at most 128 deep.
\<close>

fun canon :: "Value \<Rightarrow> Value" where
  "canon (BulkString data null) = BulkString (if null then [] else data) null"
| "canon (TextBulkString data null) = BulkString (if null then [] else data) null"
| "canon (Array elements null) = Array (if null then [] else map canon elements) null"
| "canon v = v"

fun transmissible :: "nat \<Rightarrow> Value \<Rightarrow> bool" where
  "transmissible depth (SimpleString value) \<longleftrightarrow> LF \<notin> set value"
| "transmissible depth (ErrorValue message) \<longleftrightarrow> LF \<notin> set message"
| "transmissible depth (Integer value) \<longleftrightarrow> int64_range value"
| "transmissible depth (BulkString data null) \<longleftrightarrow> null \<or> int64_range (int (length data))"
| "transmissible depth (TextBulkString data null) \<longleftrightarrow> null \<or> int64_range (int (length data))"
| "transmissible depth (Array elements null) \<longleftrightarrow>
     depth < maxNestingDepth \<and>
     (null \<or> int64_range (int (length elements)) \<and> (\<forall>e \<in> set elements. transmissible (depth + 1) e))"
| "transmissible depth NilValue \<longleftrightarrow> False"
| "transmissible depth _ \<longleftrightarrow> True"

lemma transmissible_encodable: "transmissible depth v \<Longrightarrow> encodable v"
  by (induction depth v rule: transmissible.induct) auto

lemma wire_not_Nil [simp]: "transmissible depth v \<Longrightarrow> wire v \<noteq> []"
  by (cases v) (auto simp: str_def)

lemma decodeLine_formatInt [simp]:
  "decodeLine (formatInt i @ CR # LF # rest) = Inr (formatInt i, length (formatInt i) + 2)"
  by (simp add: decodeLine_wire)

lemma decodeLine_minus_one [simp]: "decodeLine (45 # 49 # CR # LF # rest) = Inr ([45, 49], 4)"
  using decodeLine_wire [of "[45, 49]" rest] by simp

lemma decodeLine_short [simp]:
  "decodeLine (CR # LF # rest) = Inr ([], 2)"
  "c \<noteq> LF \<Longrightarrow> decodeLine (c # CR # LF # rest) = Inr ([c], 3)"
  using decodeLine_wire [of "[]" rest] decodeLine_wire [of "[c]" rest] by auto

lemma parseDecimalInt_formatInt [simp]: "int64_range i \<Longrightarrow> parseDecimalInt (formatInt i) = Inr i"
  by (simp add: parseDecimalInt_eq)

lemma parseDecimalInt_minus_one [simp]: "parseDecimalInt [45, 49] = Inr (- 1)"
proof -
  have "formatInt (- 1) = [45, 49]" by (simp add: formatInt_def nat_digits.simps)
  then show ?thesis using parseDecimalInt_formatInt [of "- 1"] by (simp add: int64_range_def)
qed

lemma bulk_roundtrip:
  assumes "int64_range (int (length data))"
  shows "decodeBulkString (36 # formatInt (int (length data)) @ CR # LF # data @ CR # LF # rest) =
         Inr (BulkString data False, 1 + (length (formatInt (int (length data))) + 2) + length data + 2)"
  using assms by (simp add: decodeBulkString_def Let_def nth_append)

lemma bulk_null_roundtrip: "decodeBulkString (36 # 45 # 49 # CR # LF # rest) = Inr (BulkString [] True, 5)"
  by (simp add: decodeBulkString_def)

lemma elements_roundtrip:
  assumes "\<And>v rest. v \<in> set vs \<Longrightarrow> dec (wire v @ rest) = Inr (canon v, length (wire v))"
    "b = pre @ concat (map wire vs) @ rest" "consumed = length pre"
  shows "decode_elements dec (length vs) i b consumed es =
         Inr (Array (es @ map canon vs) False, consumed + length (concat (map wire vs)))"
  using assms
proof (induction vs arbitrary: pre consumed i es)
  case (Cons v vs)
  have "dec (drop consumed b) = Inr (canon v, length (wire v))"
    using Cons.prems by simp
  moreover have "decode_elements dec (length vs) (i + 1) b (consumed + length (wire v)) (es @ [canon v]) =
      Inr (Array ((es @ [canon v]) @ map canon vs) False,
           consumed + length (wire v) + length (concat (map wire vs)))"
    by (rule Cons.IH [of "pre @ wire v"]) (use Cons.prems in auto)
  ultimately show ?case by simp
qed simp

lemma decode_wire: "transmissible depth v \<Longrightarrow> decode (wire v @ rest) depth = Inr (canon v, length (wire v))"
proof (induction depth v arbitrary: rest rule: transmissible.induct)
  case (4 depth data null)
  then show ?case
    by (cases null) (auto simp: bulk_roundtrip bulk_null_roundtrip str_def)
next
  case (5 depth data null)
  then show ?case
    by (cases null) (auto simp: bulk_roundtrip bulk_null_roundtrip str_def)
next
  case (6 depth elements null)
  show ?case
  proof (cases null)
    case True
    with 6 show ?thesis by (simp add: str_def decodeArray.simps)
  next
    case False
    let ?pre = "42 # formatInt (int (length elements)) @ CRLF"
    have "decode_elements (\<lambda>b. decode b (depth + 1)) (length elements) 0
            (?pre @ concat (map wire elements) @ rest) (length ?pre) [] =
          Inr (Array ([] @ map canon elements) False, length ?pre + length (concat (map wire elements)))"
      by (rule elements_roundtrip [where pre = ?pre and rest = rest]) (use 6 False in auto)
    with 6 False show ?thesis by (simp add: decodeArray.simps)
  qed
qed (auto simp: decode_line_frame_def decodeLine_wire integerFromLine_def booleanFromMarker_def
       nullFromPayload_def str_def)

section \<open>Properties\<close>

text \<open>C1. Decoding inverts encoding for the values the wire can carry: integers and lengths in the range of int64, simple strings and
  errors without a line feed, no nil value, and arrays nested at most 128 deep.  From the encoding of such a value followed by any
  further bytes, \<^verbatim>\<open>Decode\<close> consumes exactly the encoding and returns the value in its wire form (\<^term>\<open>canon\<close>): a text bulk string
  as a bulk string with the same bytes, a null string or array without contents, and everything else unchanged.\<close>

theorem Decode_Encode:
  assumes "Encode v = Inr bs" "transmissible 0 v"
  shows "Decode (bs @ rest) = Inr (canon v, length bs)"
proof -
  have "bs = wire v" using assms transmissible_encodable by (auto simp: Encode_wire split: if_splits)
  then show ?thesis using decode_wire [OF assms(2)] by (simp add: Decode_def)
qed

theorem Decode_Encode_witness:
  "\<exists>bs. Encode (Array [TextBulkString (str ''PING'') False, Array [] True, Integer (- 3)] False) = Inr bs \<and>
        Decode (bs @ str ''+OK'') =
          Inr (Array [BulkString (str ''PING'') False, Array [] True, Integer (- 3)] False, length bs)"
proof -
  let ?v = "Array [TextBulkString (str ''PING'') False, Array [] True, Integer (- 3)] False"
  have "Encode ?v = Inr (wire ?v)" by (simp add: Encode_wire)
  moreover have "transmissible 0 ?v" by (simp add: str_def int64_range_def)
  ultimately show ?thesis
    using Decode_Encode [of ?v "wire ?v" "str ''+OK''"] by simp
qed

text \<open>C18. Incremental decoding is sound.  A decoded frame lies within the buffer; a frame or a permanent
  error is the same whatever bytes arrive later; and when \<^verbatim>\<open>Decode\<close> reports an incomplete frame with a
  \<open>Need\<close> hint, the hint exceeds the bytes at hand and no shorter buffer holds a complete frame, so
  a caller that waits for \<open>Need\<close> bytes never delays one.\<close>

theorem Decode_incremental:
  "(Decode b = Inr (v, n) \<longrightarrow> 0 < n \<and> n \<le> length b \<and> Decode (b @ more) = Inr (v, n)) \<and>
   (Decode b = Inl e \<and> \<not> errorsIs e ErrIncomplete \<longrightarrow> Decode (b @ more) = Inl e) \<and>
   (Decode b = Inl e \<and> errorsAsIncomplete e = Some k \<and> int64_range (int (length b)) \<longrightarrow>
      int (length b) < k \<and>
      (int (length (b @ more)) < k \<longrightarrow> (\<exists>e'. Decode (b @ more) = Inl e' \<and> errorsIs e' ErrIncomplete)))"
  using dec.consumes [of b v n] dec.stable_value [of b "(v, n)" more] dec.stable_error [of b e more]
    dec.need_sound [of b e k more] by blast

theorem Decode_incremental_witness:
  "Decode (str ''*1'' @ CRLF @ str ''$9'' @ CRLF @ str ''ab'') = Inl (IncompleteError 19) \<and>
   (\<exists>e'. Decode ((str ''*1'' @ CRLF @ str ''$9'' @ CRLF @ str ''ab'') @ str ''cdefgh'') = Inl e' \<and>
         errorsIs e' ErrIncomplete)"
proof -
  let ?b = "str ''*1'' @ CRLF @ str ''$9'' @ CRLF @ str ''ab''"
  have "Decode ?b = Inl (IncompleteError 19)"
    by (simp add: Decode_def str_def decodeArray.simps decodeBulkString_def parseDecimalInt_def
        parseIntBytes_def Let_def incompleteNeed_def wrap64_def)
  then show ?thesis
    using Decode_incremental [of ?b undefined 0 "str ''cdefgh''" "IncompleteError 19" 19]
    by (simp add: int64_range_def str_def)
qed

end
