(* ===== verification/Conn_Machine.thy ===== *)
theory Conn_Machine
  imports Resp_Decode
begin

text \<open>
  The connection state machine of \<^verbatim>\<open>src/internal/server/conn_machine.go\<close>: it buffers what the socket delivers, decodes
  complete requests, runs them, buffers the replies and writes them out piecewise.

  The command runner, the text of an error and the socket are arguments, as in the code: \<open>run\<close> threads the state of the
  server, \<open>errText\<close> is the method \<^verbatim>\<open>Error\<close>, and the writer says how many bytes it takes and whether it fails.  Calls of
  \<^verbatim>\<open>client.Disconnect\<close> are counted in a field.

  Shown: however the input is cut into pieces and however decoding, execution, writing and asynchronous pushes are
  interleaved, the requests run are those of the input stream, each once and in order, and the bytes on the socket are
  the encodings of their replies, in order, with pushes only between whole replies.
\<close>

section \<open>State\<close>

datatype ConnMachineState = ConnStateActive | ConnStateClosing | ConnStateClosed

datatype 'e conn_error =
    ErrConnMachineClosed
  | ConnProtocol proto_error
  | ConnReadLimit int
  | ConnWriteLimit int
  | ConnEncode proto_error
  | ConnRun 'e
  | ConnWrite 'e

datatype 'e connEvent = EvRequest Value | EvProtoErr "'e conn_error"

record 'e ConnMachine =
  cm_state :: ConnMachineState
  cm_err :: "'e conn_error option"
  cm_readBuf :: bytes
  cm_resumeAt :: int
  cm_maxReadBuffer :: int
  cm_maxWriteBuffer :: int
  cm_pending :: "'e connEvent list"
  cm_writeBuf :: bytes
  cm_writeOff :: nat
  cm_disconnects :: nat

definition defaultMaxReadBuffer :: int where "defaultMaxReadBuffer = 512 * 1024 * 1024"

definition defaultMaxWriteBuffer :: int where "defaultMaxWriteBuffer = 512 * 1024 * 1024"

definition NewConnMachine :: "'e ConnMachine" where
  "NewConnMachine =
     \<lparr>cm_state = ConnStateActive, cm_err = None, cm_readBuf = [], cm_resumeAt = 0,
      cm_maxReadBuffer = defaultMaxReadBuffer, cm_maxWriteBuffer = defaultMaxWriteBuffer, cm_pending = [],
      cm_writeBuf = [], cm_writeOff = 0, cm_disconnects = 0\<rparr>"

definition PendingRequests :: "'e ConnMachine \<Rightarrow> nat" where
  "PendingRequests m = length (filter (\<lambda>ev. case ev of EvRequest _ \<Rightarrow> True | EvProtoErr _ \<Rightarrow> False) (cm_pending m))"

definition PendingOutputBytes :: "'e ConnMachine \<Rightarrow> int" where
  "PendingOutputBytes m = int (length (cm_writeBuf m)) - int (cm_writeOff m)"

definition HasPendingOutput :: "'e ConnMachine \<Rightarrow> bool" where
  "HasPendingOutput m \<longleftrightarrow> PendingOutputBytes m > 0"

section \<open>Operations\<close>

definition enterProtocolError :: "'e conn_error \<Rightarrow> 'e ConnMachine \<Rightarrow> 'e ConnMachine" where
  "enterProtocolError e m =
     m\<lparr>cm_pending := cm_pending m @ [EvProtoErr e], cm_err := Some e, cm_state := ConnStateClosing,
       cm_readBuf := [], cm_resumeAt := 0\<rparr>"

text \<open>The decoding loop of \<^verbatim>\<open>Feed\<close>: the requests decoded, the bytes consumed, and the error that ended it.\<close>

function feed_loop :: "bytes \<Rightarrow> nat \<Rightarrow> Value list \<Rightarrow> Value list \<times> nat \<times> proto_error" where
  "feed_loop buf consumed vs =
     (case Decode (drop consumed buf) of
        Inr (v, n) \<Rightarrow> feed_loop buf (consumed + n) (vs @ [v])
      | Inl e \<Rightarrow> (vs, consumed, e))"
  by pat_completeness auto
termination
  by (relation "measure (\<lambda>(buf, consumed, _). length buf - consumed)") (auto dest!: dec.consumes)

declare feed_loop.simps [simp del]

definition Feed :: "bytes \<Rightarrow> 'e ConnMachine \<Rightarrow> 'e ConnMachine \<times> 'e conn_error option" where
  "Feed data m =
     (if cm_state m \<noteq> ConnStateActive then (m, Some ErrConnMachineClosed)
      else
        let m = m\<lparr>cm_readBuf := cm_readBuf m @ data\<rparr> in
        if cm_resumeAt m > 0 \<and> int (length (cm_readBuf m)) < cm_resumeAt m then (m, None)
        else
          case feed_loop (cm_readBuf m) 0 [] of (vs, consumed, e) \<Rightarrow>
            let m = m\<lparr>cm_pending := cm_pending m @ map EvRequest vs\<rparr> in
            if errorsIs e ErrIncomplete then
              let m = m\<lparr>cm_resumeAt := (case errorsAsIncomplete e of None \<Rightarrow> 0 | Some need \<Rightarrow> need),
                        cm_readBuf := drop consumed (cm_readBuf m)\<rparr> in
              if int (length (cm_readBuf m)) > cm_maxReadBuffer m \<or> cm_resumeAt m > cm_maxReadBuffer m
              then (enterProtocolError (ConnReadLimit (cm_maxReadBuffer m)) m, None)
              else (m, None)
            else (enterProtocolError (ConnProtocol e) m, None))"

definition Close :: "'e conn_error option \<Rightarrow> 'e ConnMachine \<Rightarrow> 'e ConnMachine" where
  "Close e m =
     (if cm_state m = ConnStateClosed then m
      else m\<lparr>cm_err := (if cm_err m = None then e else cm_err m), cm_state := ConnStateClosed, cm_readBuf := [],
             cm_resumeAt := 0, cm_pending := [], cm_writeBuf := [], cm_writeOff := 0,
             cm_disconnects := cm_disconnects m + 1\<rparr>)"

definition compactWriteBuf :: "'e ConnMachine \<Rightarrow> 'e ConnMachine" where
  "compactWriteBuf m =
     (if cm_writeOff m = 0 \<or> cm_writeOff m < length (cm_writeBuf m) div 2 then m
      else m\<lparr>cm_writeBuf := drop (cm_writeOff m) (cm_writeBuf m), cm_writeOff := 0\<rparr>)"

definition bufferResponses :: "Value list \<Rightarrow> 'e ConnMachine \<Rightarrow> 'e ConnMachine \<times> 'e conn_error option" where
  "bufferResponses values m =
     (if values = [] then (m, None)
      else
        let m = compactWriteBuf m in
        case AppendValues (cm_writeBuf m) values of
          (_, Some e) \<Rightarrow> (m, Some (ConnEncode e))
        | (encoded, None) \<Rightarrow>
            let m = m\<lparr>cm_writeBuf := encoded\<rparr> in
            if PendingOutputBytes m > cm_maxWriteBuffer m then (m, Some (ConnWriteLimit (cm_maxWriteBuffer m)))
            else (m, None))"

definition BufferEncoded :: "bytes \<Rightarrow> 'e ConnMachine \<Rightarrow> 'e ConnMachine \<times> 'e conn_error option" where
  "BufferEncoded payload m =
     (if cm_state m = ConnStateClosed then (m, Some ErrConnMachineClosed)
      else if payload = [] then (m, None)
      else if PendingOutputBytes m + int (length payload) > cm_maxWriteBuffer m
      then (m, Some (ConnWriteLimit (cm_maxWriteBuffer m)))
      else let m = compactWriteBuf m in (m\<lparr>cm_writeBuf := cm_writeBuf m @ payload\<rparr>, None))"

type_synonym ('s, 'e) runner = "Value \<Rightarrow> 's \<Rightarrow> 's \<times> ('e + Value list)"

text \<open>The tail both branches of \<^verbatim>\<open>ProcessNext\<close> share: buffer the replies, or close.\<close>

definition deliver :: "Value list \<Rightarrow> 'e ConnMachine \<Rightarrow> 'e ConnMachine \<times> bool \<times> 'e conn_error option" where
  "deliver responses m =
     (case bufferResponses responses m of
        (m, Some e) \<Rightarrow> (Close (Some e) m, False, Some e)
      | (m, None) \<Rightarrow> (m, cm_pending m \<noteq> [], None))"

definition ProcessNext ::
  "('e conn_error \<Rightarrow> bytes) \<Rightarrow> ('s, 'e) runner \<Rightarrow> 'e ConnMachine \<Rightarrow> 's \<Rightarrow> 'e ConnMachine \<times> 's \<times> bool \<times> 'e conn_error option" where
  "ProcessNext errText run m s =
     (if cm_state m = ConnStateClosed then (m, s, False, Some ErrConnMachineClosed)
      else case cm_pending m of
        [] \<Rightarrow> (m, s, False, None)
      | ev # rest \<Rightarrow>
          let m = m\<lparr>cm_pending := rest\<rparr> in
          (case ev of
             EvProtoErr e \<Rightarrow> (case deliver [ErrorValue (str ''ERR '' @ errText e)] m of (m, again, r) \<Rightarrow> (m, s, again, r))
           | EvRequest v \<Rightarrow>
               (case run v s of
                  (s, Inl e) \<Rightarrow> (Close (Some (ConnRun e)) m, s, False, Some (ConnRun e))
                | (s, Inr responses) \<Rightarrow> (case deliver responses m of (m, again, r) \<Rightarrow> (m, s, again, r)))))"

text \<open>The two halves of \<^verbatim>\<open>Flush\<close>: take the accepted bytes off the buffer, and close a machine that has drained.\<close>

definition consumeOutput :: "nat \<Rightarrow> 'e ConnMachine \<Rightarrow> 'e ConnMachine" where
  "consumeOutput n m =
     (if cm_writeOff m + n \<ge> length (cm_writeBuf m) then m\<lparr>cm_writeBuf := [], cm_writeOff := 0\<rparr>
      else m\<lparr>cm_writeOff := cm_writeOff m + n\<rparr>)"

definition finishClosing :: "'e ConnMachine \<Rightarrow> 'e ConnMachine" where
  "finishClosing m =
     (if cm_state m = ConnStateClosing \<and> \<not> HasPendingOutput m \<and> cm_pending m = [] then Close None m else m)"

definition Flush :: "(bytes \<Rightarrow> nat \<times> 'e option) \<Rightarrow> 'e ConnMachine \<Rightarrow> 'e ConnMachine \<times> bytes \<times> 'e conn_error option" where
  "Flush wr m =
     (if cm_state m = ConnStateClosed then (m, [], Some ErrConnMachineClosed)
      else if cm_writeOff m < length (cm_writeBuf m) then
        let out = drop (cm_writeOff m) (cm_writeBuf m) in
        case wr out of
          (n, Some e) \<Rightarrow> (consumeOutput n m, take n out, Some (ConnWrite e))
        | (n, None) \<Rightarrow> (finishClosing (consumeOutput n m), take n out, None)
      else (finishClosing m, [], None))"

text \<open>\<^verbatim>\<open>ProcessPending\<close> repeats \<^verbatim>\<open>ProcessNext\<close> until nothing is left; each round takes an event off the queue.\<close>

lemma compact_keeps [simp]:
  "cm_pending (compactWriteBuf m) = cm_pending m" "cm_state (compactWriteBuf m) = cm_state m" "cm_err (compactWriteBuf m) = cm_err m"
  "cm_readBuf (compactWriteBuf m) = cm_readBuf m" "cm_resumeAt (compactWriteBuf m) = cm_resumeAt m"
  "cm_maxReadBuffer (compactWriteBuf m) = cm_maxReadBuffer m" "cm_maxWriteBuffer (compactWriteBuf m) = cm_maxWriteBuffer m"
  by (simp_all add: compactWriteBuf_def)

lemma ProcessNext_shortens:
  "ProcessNext errText run m s = (m', s', again, e) \<Longrightarrow> cm_pending m = ev # rest \<Longrightarrow> cm_state m \<noteq> ConnStateClosed \<Longrightarrow>
     cm_pending m' = rest \<or> cm_pending m' = []"
  by (auto simp: ProcessNext_def deliver_def bufferResponses_def Close_def Let_def
      split: connEvent.splits sum.splits prod.splits option.splits if_splits)

lemma ProcessNext_again:
  assumes "ProcessNext errText run m s = (m', s', True, None)"
  shows "length (cm_pending m') < length (cm_pending m)"
proof -
  have "cm_state m \<noteq> ConnStateClosed" "cm_pending m \<noteq> []" using assms by (auto simp: ProcessNext_def split: if_splits)
  then obtain ev rest where "cm_pending m = ev # rest" "cm_state m \<noteq> ConnStateClosed" by (cases "cm_pending m") auto
  then show ?thesis using ProcessNext_shortens [OF assms] by auto
qed

function ProcessPending ::
  "('e conn_error \<Rightarrow> bytes) \<Rightarrow> ('s, 'e) runner \<Rightarrow> 'e ConnMachine \<Rightarrow> 's \<Rightarrow> 'e ConnMachine \<times> 's \<times> 'e conn_error option" where
  "ProcessPending errText run m s =
     (case ProcessNext errText run m s of
        (m', s', _, Some er) \<Rightarrow> (m', s', Some er)
      | (m', s', again, None) \<Rightarrow> if again then ProcessPending errText run m' s' else (m', s', None))"
  by pat_completeness auto
termination
  by (relation "measure (\<lambda>(_, _, m, _). length (cm_pending m))") (auto dest: ProcessNext_again [OF sym])

declare ProcessPending.simps [simp del]

section \<open>Decoding in pieces\<close>

text \<open>The reference: decode a whole stream, giving the requests, the undecoded rest and the error that ended it.\<close>

function decode_all :: "bytes \<Rightarrow> Value list \<times> bytes \<times> proto_error" where
  "decode_all b =
     (case Decode b of
        Inr (v, n) \<Rightarrow> (case decode_all (drop n b) of (vs, r, e) \<Rightarrow> (v # vs, r, e))
      | Inl e \<Rightarrow> ([], b, e))"
  by pat_completeness auto
termination
  by (relation "measure length") (auto dest!: dec.consumes)

declare decode_all.simps [simp del]

lemma decode_all_ends: "decode_all b = (vs, r, e) \<Longrightarrow> Decode r = Inl e \<and> length r \<le> length b"
proof (induction b arbitrary: vs rule: decode_all.induct)
  case (1 b)
  show ?case
  proof (cases "Decode b")
    case (Inr res)
    obtain v n where res: "res = (v, n)" by (cases res)
    obtain ws where ws: "decode_all (drop n b) = (ws, r, e)"
      using 1(2) Inr res by (subst (asm) decode_all.simps) (auto split: prod.splits)
    then show ?thesis using 1(1) [OF Inr res [symmetric] ws] by auto
  qed (use 1(2) in \<open>simp add: decode_all.simps\<close>)
qed

lemma decode_all_stop: "Decode b = Inl e \<Longrightarrow> decode_all b = ([], b, e)"
  by (simp add: decode_all.simps)

lemma decode_all_append:
  "decode_all b = (vs, r, e) \<Longrightarrow> decode_all (b @ d) = (case decode_all (r @ d) of (ws, r', e') \<Rightarrow> (vs @ ws, r', e'))"
proof (induction b arbitrary: vs rule: decode_all.induct)
  case (1 b)
  show ?case
  proof (cases "Decode b")
    case (Inl e')
    then show ?thesis using 1(2) by (simp add: decode_all_stop split: prod.splits)
  next
    case (Inr res)
    obtain v n where res: "res = (v, n)" by (cases res)
    obtain ws where ws: "decode_all (drop n b) = (ws, r, e)" "vs = v # ws"
      using 1(2) Inr res by (subst (asm) decode_all.simps) (auto split: prod.splits)
    have n: "n \<le> length b" using dec.consumes Inr res by blast
    have "decode_all (b @ d) = (case decode_all (drop n b @ d) of (us, r', e') \<Rightarrow> (v # us, r', e'))"
      using dec.stable_value [OF Inr, of d] n by (subst decode_all.simps) (simp add: res)
    then show ?thesis using 1(1) [OF Inr res [symmetric] ws(1)] ws(2) by (simp split: prod.splits)
  qed
qed

lemma decode_all_error: "decode_all b = (vs, r, e) \<Longrightarrow> \<not> errorsIs e ErrIncomplete \<Longrightarrow> decode_all (b @ d) = (vs, r @ d, e)"
  using decode_all_append [of b vs r e d] decode_all_ends [of b vs r e] dec.stable_error [of r e d]
  by (simp add: decode_all_stop)

lemma feed_loop_eq:
  "c \<le> length buf \<Longrightarrow> decode_all (drop c buf) = (ws, r, e) \<Longrightarrow>
     \<exists>k. feed_loop buf c vs = (vs @ ws, k, e) \<and> drop k buf = r \<and> k \<le> length buf"
proof (induction buf c vs arbitrary: ws rule: feed_loop.induct)
  case (1 buf c vs)
  show ?case
  proof (cases "Decode (drop c buf)")
    case (Inl e')
    then show ?thesis using 1(2,3) by (auto simp: decode_all_stop feed_loop.simps)
  next
    case (Inr res)
    obtain v n where res: "res = (v, n)" by (cases res)
    obtain us where us: "decode_all (drop n (drop c buf)) = (us, r, e)" "ws = v # us"
      using 1(3) Inr res by (subst (asm) decode_all.simps) (auto split: prod.splits)
    have n: "c + n \<le> length buf" using dec.consumes [of "drop c buf" v n] Inr res 1(2) by auto
    show ?thesis using 1(1) [OF Inr res [symmetric] n] us Inr res by (subst feed_loop.simps) (simp add: add.commute)
  qed
qed

section \<open>Runs of a connection\<close>

text \<open>
  Which events a machine with read limit \<open>lim\<close> may have queued for an input: the requests of the stream, closed by the error that
  ended the stream, if it was permanent, or by the limit error, if the rest of the stream or what it is known to need exceeds the
  limit.
\<close>

definition queued_for :: "int \<Rightarrow> bytes \<Rightarrow> 'e connEvent list \<Rightarrow> bool" where
  "queued_for lim inp evs \<longleftrightarrow>
     (case decode_all inp of (vs, r, e) \<Rightarrow>
        if errorsIs e ErrIncomplete then
          evs = map EvRequest vs \<or>
          evs = map EvRequest vs @ [EvProtoErr (ConnReadLimit lim)] \<and>
            (int (length r) > lim \<or> (\<exists>need. errorsAsIncomplete e = Some need \<and> need > lim))
        else evs = map EvRequest vs @ [EvProtoErr (ConnProtocol e)])"

definition unflushed :: "'e ConnMachine \<Rightarrow> bytes" where
  "unflushed m = drop (cm_writeOff m) (cm_writeBuf m)"

datatype conn_chunk = Reply bytes | Push bytes

primrec chunk_bytes :: "conn_chunk \<Rightarrow> bytes" where
  "chunk_bytes (Reply b) = b"
| "chunk_bytes (Push b) = b"

text \<open>
  The history of a connection: the machine and the server's state, the input accepted, the bytes the socket took, the events
  that were carried out, what was put into the output, and whether the machine was closed by a failure.
\<close>

record ('s, 'e) conn_run =
  cr_m :: "'e ConnMachine"
  cr_s :: 's
  cr_in :: bytes
  cr_out :: bytes
  cr_done :: "'e connEvent list"
  cr_trace :: "conn_chunk list"
  cr_failed :: bool

datatype 'e conn_op = OpFeed bytes | OpNext | OpFlush nat "'e option" | OpPush bytes

fun conn_do ::
  "('e conn_error \<Rightarrow> bytes) \<Rightarrow> ('s, 'e) runner \<Rightarrow> ('s, 'e) conn_run \<Rightarrow> 'e conn_op \<Rightarrow> ('s, 'e) conn_run" where
  "conn_do errText run c (OpFeed d) =
     (case Feed d (cr_m c) of
        (m, None) \<Rightarrow> c\<lparr>cr_m := m, cr_in := cr_in c @ d\<rparr>
      | (m, Some _) \<Rightarrow> c\<lparr>cr_m := m\<rparr>)"
| "conn_do errText run c OpNext =
     (case ProcessNext errText run (cr_m c) (cr_s c) of
        (m, s, _, Some _) \<Rightarrow> c\<lparr>cr_m := m, cr_s := s, cr_failed := cr_failed c \<or> cm_state (cr_m c) \<noteq> ConnStateClosed\<rparr>
      | (m, s, _, None) \<Rightarrow>
          c\<lparr>cr_m := m, cr_s := s, cr_done := cr_done c @ take 1 (cm_pending (cr_m c)),
            cr_trace := cr_trace c @
              (if cm_pending (cr_m c) = [] then []
               else [Reply (drop (length (unflushed (cr_m c))) (unflushed m))])\<rparr>)"
| "conn_do errText run c (OpFlush n e) =
     (case Flush (\<lambda>p. (min n (length p), e)) (cr_m c) of (m, out, _) \<Rightarrow> c\<lparr>cr_m := m, cr_out := cr_out c @ out\<rparr>)"
| "conn_do errText run c (OpPush p) =
     (case BufferEncoded p (cr_m c) of
        (m, None) \<Rightarrow> c\<lparr>cr_m := m, cr_trace := cr_trace c @ [Push p]\<rparr>
      | (m, Some _) \<Rightarrow> c\<lparr>cr_m := m\<rparr>)"

definition conn_start :: "'s \<Rightarrow> ('s, 'e) conn_run" where
  "conn_start s = \<lparr>cr_m = NewConnMachine, cr_s = s, cr_in = [], cr_out = [], cr_done = [], cr_trace = [], cr_failed = False\<rparr>"

text \<open>The reference for the replies: run the events one after the other.\<close>

fun replies :: "('e conn_error \<Rightarrow> bytes) \<Rightarrow> ('s, 'e) runner \<Rightarrow> 's \<Rightarrow> 'e connEvent list \<Rightarrow> bytes list \<times> 's" where
  "replies errText run s [] = ([], s)"
| "replies errText run s (EvRequest v # evs) =
     (case run v s of
        (s', Inr vs) \<Rightarrow> (case replies errText run s' evs of (bs, s'') \<Rightarrow> (concat (map wire vs) # bs, s''))
      | (s', Inl e) \<Rightarrow> ([], s'))"
| "replies errText run s (EvProtoErr e # evs) =
     (case replies errText run s evs of (bs, s') \<Rightarrow> (wire (ErrorValue (str ''ERR '' @ errText e)) # bs, s'))"

section \<open>What a run does\<close>

text \<open>The rest that waits in the read buffer is not a complete frame, and stays one until \<open>resumeAt\<close> bytes are there.\<close>

definition waits :: "'e ConnMachine \<Rightarrow> bool" where
  "waits m \<longleftrightarrow> (\<forall>d. cm_resumeAt m > 0 \<and> int (length (cm_readBuf m @ d)) < cm_resumeAt m \<longrightarrow>
     (\<exists>e. Decode (cm_readBuf m @ d) = Inl e \<and> errorsIs e ErrIncomplete))"

definition machine_ok :: "bytes \<Rightarrow> 'e connEvent list \<Rightarrow> 'e ConnMachine \<Rightarrow> bool" where
  "machine_ok inp done m \<longleftrightarrow>
     cm_maxReadBuffer m = defaultMaxReadBuffer \<and> cm_writeOff m \<le> length (cm_writeBuf m) \<and>
     (\<exists>rest. queued_for defaultMaxReadBuffer inp (done @ rest) \<and>
        (cm_state m \<noteq> ConnStateClosed \<longrightarrow> rest = cm_pending m)) \<and>
     (cm_state m = ConnStateActive \<longrightarrow>
        (\<exists>vs e. decode_all inp = (vs, cm_readBuf m, e) \<and> errorsIs e ErrIncomplete \<and> done @ cm_pending m = map EvRequest vs) \<and> waits m)"

lemma Feed_ok:
  assumes ok: "machine_ok inp done m" and f: "Feed d m = (m', None)"
  shows "machine_ok (inp @ d) done m' \<and> unflushed m' = unflushed m \<and> cm_state m' \<noteq> ConnStateClosed"
proof -
  have act: "cm_state m = ConnStateActive" using f by (auto simp: Feed_def split: if_splits)
  obtain vs e where inp: "decode_all inp = (vs, cm_readBuf m, e)" "errorsIs e ErrIncomplete" "done @ cm_pending m = map EvRequest vs"
    and w: "waits m" and lim: "cm_maxReadBuffer m = defaultMaxReadBuffer" "cm_writeOff m \<le> length (cm_writeBuf m)"
    using ok act by (auto simp: machine_ok_def)
  let ?b = "cm_readBuf m @ d"
  obtain ws r e' where all: "decode_all ?b = (ws, r, e')" by (cases "decode_all ?b") auto
  have ap: "decode_all (inp @ d) = (vs @ ws, r, e')" using decode_all_append [OF inp(1), of d] all by simp
  have end': "Decode r = Inl e'" using decode_all_ends [OF all] by blast
  show ?thesis
  proof (cases "cm_resumeAt m > 0 \<and> int (length ?b) < cm_resumeAt m")
    case True
    then have m': "m' = m\<lparr>cm_readBuf := ?b\<rparr>" using f act by (simp add: Feed_def)
    obtain e2 where e2: "Decode ?b = Inl e2" "errorsIs e2 ErrIncomplete" using w True unfolding waits_def by blast
    then have r: "ws = []" "r = ?b" "e' = e2" using all by (auto simp: decode_all_stop)
    have "waits m'" using w by (auto simp: waits_def m')
    then show ?thesis using ap r e2 inp lim act by (auto simp: machine_ok_def m' queued_for_def unflushed_def)
  next
    case False
    obtain k where k: "feed_loop ?b 0 [] = (ws, k, e')" "drop k ?b = r" using feed_loop_eq [of 0 ?b ws r e' "[]"] all by auto
    show ?thesis
    proof (cases "errorsIs e' ErrIncomplete")
      case False2: False
      then have "m' = enterProtocolError (ConnProtocol e') (m\<lparr>cm_readBuf := ?b, cm_pending := cm_pending m @ map EvRequest ws\<rparr>)"
        using f act False k by (auto simp: Feed_def Let_def split: if_splits)
      then show ?thesis using ap False2 inp lim
        by (auto simp: machine_ok_def enterProtocolError_def queued_for_def unflushed_def)
    next
      case True
      let ?m = "m\<lparr>cm_pending := cm_pending m @ map EvRequest ws,
                   cm_resumeAt := (case errorsAsIncomplete e' of None \<Rightarrow> 0 | Some need \<Rightarrow> need), cm_readBuf := r\<rparr>"
      let ?big = "int (length r) > defaultMaxReadBuffer \<or> cm_resumeAt ?m > defaultMaxReadBuffer"
      have m': "m' = (if ?big then enterProtocolError (ConnReadLimit defaultMaxReadBuffer) ?m else ?m)"
        using f act False k True lim by (auto simp: Feed_def Let_def split: if_splits)
      show ?thesis
      proof (cases ?big)
        case big: True
        then have "int (length r) > defaultMaxReadBuffer \<or> (\<exists>need. errorsAsIncomplete e' = Some need \<and> need > defaultMaxReadBuffer)"
          by (auto simp: defaultMaxReadBuffer_def split: option.splits)
        then show ?thesis using ap True inp lim big
          by (auto simp: machine_ok_def m' enterProtocolError_def queued_for_def unflushed_def)
      next
        case small: False
        have "int64_range (int (length r))" using small by (auto simp: int64_range_def defaultMaxReadBuffer_def)
        then have "waits ?m" using dec.need_sound [OF end'] by (auto simp: waits_def split: option.splits)
        then show ?thesis using ap True inp lim small act by (auto simp: machine_ok_def m' queued_for_def unflushed_def)
      qed
    qed
  qed
qed


lemma compact_unflushed [simp]:
  "unflushed (compactWriteBuf m) = unflushed m"
  "cm_writeOff m \<le> length (cm_writeBuf m) \<Longrightarrow> cm_writeOff (compactWriteBuf m) \<le> length (cm_writeBuf (compactWriteBuf m))"
  by (auto simp: compactWriteBuf_def unflushed_def)

lemma bufferResponses_ok:
  assumes "bufferResponses vs m = (m', None)" "cm_writeOff m \<le> length (cm_writeBuf m)"
  shows "unflushed m' = unflushed m @ concat (map wire vs) \<and> cm_writeOff m' \<le> length (cm_writeBuf m') \<and>
    cm_state m' = cm_state m \<and> cm_pending m' = cm_pending m \<and> cm_readBuf m' = cm_readBuf m \<and> cm_resumeAt m' = cm_resumeAt m \<and>
    cm_maxReadBuffer m' = cm_maxReadBuffer m"
proof (cases "vs = []")
  case False
  let ?c = "compactWriteBuf m"
  obtain enc where e: "AppendValues (cm_writeBuf ?c) vs = (enc, None)"
    using assms(1) False by (auto simp: bufferResponses_def Let_def split: prod.splits option.splits)
  have "\<forall>v \<in> set vs. encodable v"
  proof (rule ccontr)
    assume "\<not> ?thesis"
    then show False using e AppendValues_loop_error [of vs "cm_writeBuf ?c" "[]"] by (simp add: AppendValues_def)
  qed
  then have enc: "enc = cm_writeBuf ?c @ concat (map wire vs)" using e by (simp add: AppendValues_def AppendValues_loop_wire)
  have off: "cm_writeOff ?c \<le> length (cm_writeBuf ?c)" using assms(2) by simp
  have m': "m' = ?c\<lparr>cm_writeBuf := enc\<rparr>" using assms(1) False e by (auto simp: bufferResponses_def Let_def split: if_splits)
  have "unflushed m' = unflushed ?c @ concat (map wire vs)" using off by (simp add: m' enc unflushed_def)
  then show ?thesis using off by (simp add: m' enc)
qed (use assms in \<open>simp add: bufferResponses_def\<close>)

text \<open>A step that fails, or a writer that drains a closing machine, leaves the machine closed.\<close>

lemma Close_ok: "machine_ok inp done m \<Longrightarrow> machine_ok inp done (Close e m) \<and> unflushed (Close e m) = (if cm_state m = ConnStateClosed then unflushed m else [])"
  by (auto simp: machine_ok_def Close_def unflushed_def)

lemma ProcessNext_failed:
  assumes "machine_ok inp done m" "ProcessNext errText run m s = (m', s', again, Some e)"
  shows "machine_ok inp done m' \<and> cm_state m' = ConnStateClosed"
proof -
  have "cm_maxReadBuffer m' = cm_maxReadBuffer m \<and> cm_writeOff m' \<le> length (cm_writeBuf m') \<and> cm_state m' = ConnStateClosed"
    using assms unfolding machine_ok_def
    by (auto simp: ProcessNext_def deliver_def bufferResponses_def Close_def Let_def
      split: connEvent.splits sum.splits prod.splits option.splits if_splits list.splits)
  then show ?thesis using assms(1) unfolding machine_ok_def by auto
qed

lemma ProcessNext_none:
  assumes "ProcessNext errText run m s = (m', s', again, None)" "cm_pending m = []"
  shows "m' = m \<and> s' = s"
  using assms by (auto simp: ProcessNext_def split: if_splits)

lemma ProcessNext_ok:
  assumes ok: "machine_ok inp done m" and p: "ProcessNext errText run m s = (m', s', again, None)" and ev: "cm_pending m = ev # rest"
  shows "machine_ok inp (done @ [ev]) m' \<and> cm_state m' = cm_state m \<and> cm_state m \<noteq> ConnStateClosed \<and>
    (\<exists>b. replies errText run s [ev] = ([b], s') \<and> unflushed m' = unflushed m @ b)"
proof -
  have st: "cm_state m \<noteq> ConnStateClosed" using p by (auto simp: ProcessNext_def split: if_splits)
  let ?m = "m\<lparr>cm_pending := rest\<rparr>"
  obtain vs where b: "bufferResponses vs ?m = (m', None)"
    and r: "replies errText run s [ev] = ([concat (map wire vs)], s')"
    using p ev st by (auto simp: ProcessNext_def deliver_def Let_def split: connEvent.splits sum.splits prod.splits option.splits)
  have off: "cm_writeOff ?m \<le> length (cm_writeBuf ?m)" using ok by (simp add: machine_ok_def)
  note bo = bufferResponses_ok [OF b off]
  have un: "unflushed ?m = unflushed m" by (simp add: unflushed_def)
  have "machine_ok inp (done @ [ev]) m'" using ok st ev bo unfolding machine_ok_def waits_def by auto
  then show ?thesis using bo r st un by auto
qed

lemma finish_ok:
  assumes "machine_ok inp done m" "cm_state m \<noteq> ConnStateClosed"
  shows "machine_ok inp done (finishClosing m) \<and> unflushed (finishClosing m) = unflushed m \<and>
    (cm_state (finishClosing m) = ConnStateClosed \<longrightarrow> unflushed m = [] \<and> cm_pending m = [])"
proof (cases "finishClosing m = m")
  case False
  then have "finishClosing m = Close None m" "cm_pending m = []" "unflushed m = []"
    by (auto simp: finishClosing_def HasPendingOutput_def PendingOutputBytes_def unflushed_def split: if_splits)
  then show ?thesis using Close_ok [OF assms(1), of None] by auto
qed (use assms in simp)

lemma consume_ok:
  assumes "machine_ok inp done m" "n \<le> length (unflushed m)"
  shows "machine_ok inp done (consumeOutput n m) \<and> unflushed (consumeOutput n m) = drop n (unflushed m) \<and>
    cm_state (consumeOutput n m) = cm_state m \<and> cm_pending (consumeOutput n m) = cm_pending m"
proof -
  have "machine_ok inp done (consumeOutput n m)"
    using assms unfolding machine_ok_def waits_def by (auto simp: consumeOutput_def)
  then show ?thesis by (simp add: consumeOutput_def unflushed_def add.commute)
qed

lemma Flush_ok:
  assumes ok: "machine_ok inp done m" and st: "cm_state m \<noteq> ConnStateClosed" and f: "Flush (\<lambda>p. (min n (length p), e)) m = (m', out, r)"
  shows "machine_ok inp done m' \<and> unflushed m = out @ unflushed m' \<and>
    (cm_state m' = ConnStateClosed \<longrightarrow> unflushed m' = [] \<and> cm_pending m = [])"
proof (cases "cm_writeOff m < length (cm_writeBuf m)")
  case False
  then show ?thesis using f st finish_ok [OF ok st] by (auto simp: Flush_def)
next
  case True
  let ?n = "min n (length (unflushed m))"
  have f': "out = take ?n (unflushed m)" "m' = (case e of None \<Rightarrow> finishClosing (consumeOutput ?n m) | Some _ \<Rightarrow> consumeOutput ?n m)"
    using f st True by (auto simp: Flush_def Let_def unflushed_def split: option.splits)
  note k = consume_ok [OF ok, of ?n]
  then have "cm_state (consumeOutput ?n m) \<noteq> ConnStateClosed" using st by simp
  then show ?thesis using k finish_ok [of inp "done" "consumeOutput ?n m"] f' by (cases e) auto
qed

lemma BufferEncoded_ok:
  assumes "machine_ok inp done m" "BufferEncoded p m = (m', None)"
  shows "machine_ok inp done m' \<and> unflushed m' = unflushed m @ p \<and> cm_state m' = cm_state m \<and> cm_state m \<noteq> ConnStateClosed \<and>
    cm_pending m' = cm_pending m"
proof (cases "p = []")
  case False
  let ?c = "compactWriteBuf m"
  have off: "cm_writeOff ?c \<le> length (cm_writeBuf ?c)" using assms(1) by (simp add: machine_ok_def)
  have m': "m' = ?c\<lparr>cm_writeBuf := cm_writeBuf ?c @ p\<rparr>" "cm_state m \<noteq> ConnStateClosed"
    using assms(2) False by (auto simp: BufferEncoded_def Let_def split: if_splits)
  have "unflushed m' = unflushed ?c @ p" using off by (simp add: m' unflushed_def)
  moreover have "cm_writeOff ?c \<le> length (cm_writeBuf ?c) + length p" using off by simp
  then have "machine_ok inp done m'" using assms(1) unfolding machine_ok_def waits_def by (auto simp: m')
  ultimately show ?thesis using m' by simp
qed (use assms in \<open>auto simp: BufferEncoded_def split: if_splits\<close>)

lemma replies_snoc:
  "replies errText run s evs = (bs, s') \<Longrightarrow> length bs = length evs \<Longrightarrow> replies errText run s' [ev] = ([b], s'') \<Longrightarrow>
     replies errText run s (evs @ [ev]) = (bs @ [b], s'')"
  by (induction errText run s evs arbitrary: bs rule: replies.induct) (auto split: prod.splits sum.splits)

primrec reply_of :: "conn_chunk \<Rightarrow> bytes list" where
  "reply_of (Reply b) = [b]"
| "reply_of (Push b) = []"

text \<open>The invariant of a run: what the theorem below says, with the state of the server while nothing has failed.\<close>

definition run_ok :: "('e conn_error \<Rightarrow> bytes) \<Rightarrow> ('s, 'e) runner \<Rightarrow> 's \<Rightarrow> ('s, 'e) conn_run \<Rightarrow> bool" where
  "run_ok errText run s0 c \<longleftrightarrow>
     machine_ok (cr_in c) (cr_done c) (cr_m c) \<and>
     (\<exists>s'. replies errText run s0 (cr_done c) = (concat (map reply_of (cr_trace c)), s') \<and>
        (cm_state (cr_m c) \<noteq> ConnStateClosed \<longrightarrow> s' = cr_s c)) \<and>
     length (concat (map reply_of (cr_trace c))) = length (cr_done c) \<and>
     (cr_failed c \<longrightarrow> cm_state (cr_m c) = ConnStateClosed) \<and>
     (\<exists>rest. cr_out c @ rest = concat (map chunk_bytes (cr_trace c)) \<and>
        (cm_state (cr_m c) \<noteq> ConnStateClosed \<longrightarrow> rest = unflushed (cr_m c)) \<and>
        (cm_state (cr_m c) = ConnStateClosed \<and> \<not> cr_failed c \<longrightarrow>
           rest = [] \<and> queued_for defaultMaxReadBuffer (cr_in c) (cr_done c)))"

lemma closed_ops:
  assumes "cm_state (cr_m c) = ConnStateClosed"
  shows "conn_do errText run c op = c"
  using assms by (cases op) (simp_all add: Feed_def ProcessNext_def Flush_def BufferEncoded_def)

lemma conn_do_next:
  assumes ok: "run_ok errText run s0 c" and st: "cm_state (cr_m c) \<noteq> ConnStateClosed"
  shows "run_ok errText run s0 (conn_do errText run c OpNext)"
proof -
  obtain m s again r where p: "ProcessNext errText run (cr_m c) (cr_s c) = (m, s, again, r)" by (cases "ProcessNext errText run (cr_m c) (cr_s c)")
  have m: "machine_ok (cr_in c) (cr_done c) (cr_m c)" using ok by (simp add: run_ok_def)
  show ?thesis
  proof (cases r)
    case (Some e)
    then show ?thesis using ok st p ProcessNext_failed [OF m p [unfolded Some]] by (auto simp: run_ok_def)
  next
    case None
    show ?thesis
    proof (cases "cm_pending (cr_m c)")
      case Nil
      then show ?thesis using ok p None ProcessNext_none [OF p [unfolded None]] by (simp add: run_ok_def)
    next
      case (Cons ev rest)
      note q = ProcessNext_ok [OF m p [unfolded None] Cons]
      then obtain b where b: "replies errText run (cr_s c) [ev] = ([b], s)" "unflushed m = unflushed (cr_m c) @ b" by blast
      have "replies errText run s0 (cr_done c @ [ev]) = (concat (map reply_of (cr_trace c)) @ [b], s)"
        using ok st b(1) by (intro replies_snoc) (auto simp: run_ok_def)
      then show ?thesis using ok st p None Cons q b by (auto simp: run_ok_def)
    qed
  qed
qed

lemma conn_do_flush:
  assumes ok: "run_ok errText run s0 c" and st: "cm_state (cr_m c) \<noteq> ConnStateClosed"
  shows "run_ok errText run s0 (conn_do errText run c (OpFlush n e))"
proof -
  obtain m out r where f: "Flush (\<lambda>p. (min n (length p), e)) (cr_m c) = (m, out, r)"
    by (cases "Flush (\<lambda>p. (min n (length p), e)) (cr_m c)")
  have m: "machine_ok (cr_in c) (cr_done c) (cr_m c)" using ok by (simp add: run_ok_def)
  have "queued_for defaultMaxReadBuffer (cr_in c) (cr_done c @ cm_pending (cr_m c))" using m st by (auto simp: machine_ok_def)
  then show ?thesis using ok st f Flush_ok [OF m st f] by (auto simp: run_ok_def)
qed

lemma conn_do_ok: "run_ok errText run s0 c \<Longrightarrow> run_ok errText run s0 (conn_do errText run c op)"
proof (cases "cm_state (cr_m c) = ConnStateClosed")
  case False
  assume ok: "run_ok errText run s0 c"
  then have m: "machine_ok (cr_in c) (cr_done c) (cr_m c)" by (simp add: run_ok_def)
  show ?thesis
  proof (cases op)
    case (OpFeed d)
    obtain m' r where f: "Feed d (cr_m c) = (m', r)" by (cases "Feed d (cr_m c)")
    show ?thesis
    proof (cases r)
      case (Some e)
      then have "m' = cr_m c" using f by (auto simp: Feed_def Let_def split: if_splits prod.splits)
      then show ?thesis using ok f Some OpFeed by (simp add: run_ok_def)
    qed (use ok f Feed_ok [OF m] False in \<open>auto simp: run_ok_def OpFeed\<close>)
  next
    case (OpPush p)
    obtain m' r where f: "BufferEncoded p (cr_m c) = (m', r)" by (cases "BufferEncoded p (cr_m c)")
    show ?thesis
    proof (cases r)
      case (Some e)
      then have "m' = cr_m c" using f by (auto simp: BufferEncoded_def Let_def split: if_splits)
      then show ?thesis using ok f Some OpPush by (simp add: run_ok_def)
    qed (use ok f BufferEncoded_ok [OF m] False in \<open>auto simp: run_ok_def OpPush\<close>)
  qed (use conn_do_next [OF ok False] conn_do_flush [OF ok False] in simp_all)
qed (simp add: closed_ops)

lemma conn_start_ok: "run_ok errText run s0 (conn_start s0)"
proof -
  have "decode_all [] = ([], [], ErrIncomplete)" by (rule decode_all_stop) (simp add: Decode_def)
  then show ?thesis
    by (simp add: run_ok_def machine_ok_def conn_start_def NewConnMachine_def queued_for_def waits_def unflushed_def)
qed

lemma conn_run_ok: "run_ok errText run s0 (foldl (conn_do errText run) (conn_start s0) ops)"
  by (induction ops rule: rev_induct) (simp_all add: conn_start_ok conn_do_ok)

text \<open>C2. A connection, for every way of cutting its input into pieces and of interleaving input, execution, output and pushes: the requests
  carried out are, in order, the first of those a single decoding of the whole input gives, followed at most by one protocol error;
  the replies are those of running them one after the other; the socket has received a prefix of the replies and pushes, whole ones
  in order, of which only the last may still be cut off.  While the machine is open what is missing is exactly what it
  still holds; and a machine that closed without a failure has answered everything and written it out.\<close>

theorem connection_faithful:
  "let c = foldl (conn_do errText run) (conn_start s0) ops; m = cr_m c in
     (\<exists>todo. queued_for defaultMaxReadBuffer (cr_in c) (cr_done c @ todo) \<and>
        (cm_state m \<noteq> ConnStateClosed \<longrightarrow> todo = cm_pending m) \<and>
        (cm_state m = ConnStateClosed \<and> \<not> cr_failed c \<longrightarrow> todo = [])) \<and>
     fst (replies errText run s0 (cr_done c)) = concat (map reply_of (cr_trace c)) \<and>
     (\<exists>rest. cr_out c @ rest = concat (map chunk_bytes (cr_trace c)) \<and>
        (cm_state m \<noteq> ConnStateClosed \<longrightarrow> rest = unflushed m) \<and>
        (cm_state m = ConnStateClosed \<and> \<not> cr_failed c \<longrightarrow> rest = []))"
proof -
  let ?c = "foldl (conn_do errText run) (conn_start s0) ops"
  have ok: "run_ok errText run s0 ?c" by (rule conn_run_ok)
  have "\<exists>todo. queued_for defaultMaxReadBuffer (cr_in ?c) (cr_done ?c @ todo) \<and>
      (cm_state (cr_m ?c) \<noteq> ConnStateClosed \<longrightarrow> todo = cm_pending (cr_m ?c)) \<and>
      (cm_state (cr_m ?c) = ConnStateClosed \<and> \<not> cr_failed ?c \<longrightarrow> todo = [])"
  proof (cases "cm_state (cr_m ?c) = ConnStateClosed \<and> \<not> cr_failed ?c")
    case True
    then show ?thesis using ok by (intro exI [of _ "[]"]) (auto simp: run_ok_def)
  next
    case False
    then show ?thesis using ok unfolding run_ok_def machine_ok_def by blast
  qed
  then show ?thesis using ok unfolding run_ok_def Let_def by (intro conjI) (blast, auto)
qed

text \<open>An exchange in which a request arrives in two pieces.\<close>

theorem connection_faithful_witness:
  "let run = (\<lambda>v s. (s + 1, Inr [Integer s]) :: int \<times> (unit + Value list));
       c = foldl (conn_do (\<lambda>_. []) run) (conn_start 7) [OpFeed (str '':12''), OpFeed (str ''3'' @ CRLF @ str '':4''), OpNext, OpFlush 99 None]
   in cr_done c = [EvRequest (Integer 123)] \<and> cr_out c = str '':7'' @ CRLF \<and> unflushed (cr_m c) = []"
proof -
  let ?run = "\<lambda>v s. (s + 1, Inr [Integer s]) :: int \<times> (unit + Value list)"
  let ?ops = "[OpFeed (str '':12''), OpFeed (str ''3'' @ CRLF @ str '':4''), OpNext, OpFlush 99 None]"
  let ?c = "foldl (conn_do (\<lambda>_. []) ?run) (conn_start 7) ?ops"
  have e: "cr_done ?c = [EvRequest (Integer 123)]" "cm_state (cr_m ?c) = ConnStateActive" "unflushed (cr_m ?c) = []"
    "concat (map chunk_bytes (cr_trace ?c)) = str '':7'' @ CRLF"
    by code_simp+
  then show ?thesis using connection_faithful [of "\<lambda>_. []" ?run 7 ?ops] by (simp add: Let_def)
qed

end
