(* ===== verification/Resp_Parser.thy ===== *)
theory Resp_Parser
  imports Resp_Decode
begin

text \<open>
  The streaming parser of \<^verbatim>\<open>src/internal/protocol/parser.go\<close>, which the connection handler, the
  replica link and the append-only-file loader use.  Its state is the bytes the reader will still
  deliver before the end of file.  \<^verbatim>\<open>bufio.Reader.ReadSlice\<close> is modelled with its default buffer of
  4096 bytes, the only size the program constructs.  Shown: the parser and the buffer decoder
  accept the same frames with the same value and extent, up to the parser's own size limits.
\<close>

section \<open>Definitions\<close>

abbreviation maxBulkStringLength :: int where "maxBulkStringLength \<equiv> 536870912"
abbreviation maxArrayElements :: int where "maxArrayElements \<equiv> 1048576"
abbreviation maxLineLength :: nat where "maxLineLength \<equiv> 65536"
definition bufioSize :: nat where "bufioSize = 4096"

datatype slice_result = SliceOK | SliceFull | SliceEOF

definition ReadSlice :: "bytes \<Rightarrow> bytes \<times> bytes \<times> slice_result" where
  "ReadSlice r =
     (case IndexByte (take bufioSize r) LF of
        Some i \<Rightarrow> (take (i + 1) r, drop (i + 1) r, SliceOK)
      | None \<Rightarrow>
          if bufioSize \<le> length r then (take bufioSize r, drop bufioSize r, SliceFull)
          else (r, [], SliceEOF))"

function readLine_loop :: "bytes \<Rightarrow> bytes \<Rightarrow> proto_error + (bytes \<times> bytes)" where
  "readLine_loop combined r =
     (case ReadSlice r of
        (fragment, r', SliceOK) \<Rightarrow>
          (case trimCRLF (combined @ fragment) of Inl e \<Rightarrow> Inl e | Inr line \<Rightarrow> Inr (line, r'))
      | (fragment, r', SliceEOF) \<Rightarrow> Inl ErrEOF
      | (fragment, r', SliceFull) \<Rightarrow>
          if length (combined @ fragment) > maxLineLength then Inl ErrLineTooLong
          else readLine_loop (combined @ fragment) r')"
  by pat_completeness auto
termination
  by (relation "measure (\<lambda>(c, r). length r)") (auto simp: ReadSlice_def bufioSize_def split: option.splits if_splits)

declare readLine_loop.simps [simp del]

definition readLineBytes :: "bytes \<Rightarrow> proto_error + (bytes \<times> bytes)" where
  "readLineBytes r =
     (case ReadSlice r of
        (line, r', SliceOK) \<Rightarrow>
          (case trimCRLF line of Inl e \<Rightarrow> Inl e | Inr line \<Rightarrow> Inr (line, r'))
      | (line, r', SliceEOF) \<Rightarrow> Inl ErrEOF
      | (line, r', SliceFull) \<Rightarrow> readLine_loop line r')"

text \<open>\<^verbatim>\<open>io.ReadFull\<close> into a slice of the given length.\<close>

definition ReadFull :: "nat \<Rightarrow> bytes \<Rightarrow> proto_error + (bytes \<times> bytes)" where
  "ReadFull n r =
     (if n \<le> length r then Inr (take n r, drop n r)
      else if r = [] then Inl ErrEOF else Inl ErrUnexpectedEOF)"

definition expectCRLF :: "bytes \<Rightarrow> proto_error + bytes" where
  "expectCRLF r =
     (case r of
        [] \<Rightarrow> Inl ErrEOF
      | carriage # r1 \<Rightarrow>
          (case r1 of
             [] \<Rightarrow> Inl ErrEOF
           | newline # r2 \<Rightarrow>
               if carriage \<noteq> CR \<or> newline \<noteq> LF then Inl ErrMissingCRLF else Inr r2))"

type_synonym parsed = "proto_error + (Value \<times> bytes)"

definition parse_line_frame :: "(bytes \<Rightarrow> proto_error + Value) \<Rightarrow> bytes \<Rightarrow> parsed" where
  "parse_line_frame build r =
     (case readLineBytes r of
        Inl e \<Rightarrow> Inl e
      | Inr (line, r') \<Rightarrow> (case build line of Inl e \<Rightarrow> Inl e | Inr value \<Rightarrow> Inr (value, r')))"

definition parseBulkString :: "bytes \<Rightarrow> parsed" where
  "parseBulkString r =
     (case readLineBytes r of
        Inl e \<Rightarrow> Inl e
      | Inr (line, r1) \<Rightarrow>
          (case parseDecimalInt line of
             Inl e \<Rightarrow> Inl (ErrParseBulkLength e)
           | Inr len \<Rightarrow>
               if len = -1 then Inr (BulkString [] True, r1)
               else if len < -1 then Inl (ErrInvalidBulkLength len)
               else if len > maxBulkStringLength then Inl (ErrBulkTooLong len)
               else
                 (case ReadFull (nat len) r1 of
                    Inl e \<Rightarrow> Inl (ErrReadBulkPayload e)
                  | Inr (payload, r2) \<Rightarrow>
                      (case expectCRLF r2 of
                         Inl e \<Rightarrow> Inl (ErrBulkMissingCRLF e)
                       | Inr r3 \<Rightarrow> Inr (BulkString payload False, r3)))))"

fun parse_elements :: "(bytes \<Rightarrow> parsed) \<Rightarrow> nat \<Rightarrow> nat \<Rightarrow> bytes \<Rightarrow> Value list \<Rightarrow> parsed" where
  "parse_elements p 0 i r elements = Inr (Array elements False, r)"
| "parse_elements p (Suc left) i r elements =
     (case p r of
        Inl e \<Rightarrow> Inl (ErrArrayElement i e)
      | Inr (element, r') \<Rightarrow> parse_elements p left (i + 1) r' (elements @ [element]))"

lemma parse_elements_cong [fundef_cong]:
  assumes "\<And>b. p b = p' b" "n = n'" "i = i'" "r = r'" "es = es'"
  shows "parse_elements p n i r es = parse_elements p' n' i' r' es'"
proof -
  have "p = p'" using assms(1) by (rule ext)
  with assms show ?thesis by simp
qed

function (sequential) parse :: "bytes \<Rightarrow> nat \<Rightarrow> parsed"
and parseArray :: "bytes \<Rightarrow> nat \<Rightarrow> parsed" where
  "parse [] depth = Inl ErrEOF"
| "parse (p # r) depth =
     (if p = 43 then parse_line_frame (\<lambda>line. Inr (SimpleString line)) r
      else if p = 45 then parse_line_frame (\<lambda>line. Inr (ErrorValue line)) r
      else if p = 58 then parse_line_frame integerFromLine r
      else if p = 36 then parseBulkString r
      else if p = 42 then parseArray r depth
      else if p = 35 then parse_line_frame booleanFromMarker r
      else if p = 95 then parse_line_frame nullFromPayload r
      else Inl (ErrUnsupportedPrefix p))"
| "parseArray r depth =
     (if depth \<ge> maxNestingDepth then Inl ErrNestingTooDeep
      else
        case readLineBytes r of
          Inl e \<Rightarrow> Inl e
        | Inr (line, r1) \<Rightarrow>
            (case parseDecimalInt line of
               Inl e \<Rightarrow> Inl (ErrParseArrayLength e)
             | Inr count \<Rightarrow>
                 if count = -1 then Inr (Array [] True, r1)
                 else if count < -1 then Inl (ErrInvalidArrayLength count)
                 else if count > maxArrayElements then Inl (ErrArrayTooLong count)
                 else parse_elements (\<lambda>b. parse b (depth + 1)) (nat count) 0 r1 []))"
  by pat_completeness auto
termination
  by (relation "measure (\<lambda>x. case x of Inl (b, d) \<Rightarrow> 2 * (129 - d) + 1 | Inr (b, d) \<Rightarrow> 2 * (129 - d))") auto

declare parseArray.simps [simp del]

definition Parse :: "bytes \<Rightarrow> parsed" where
  "Parse r = parse r 0"

section \<open>Agreement with the buffer decoder\<close>

text \<open>When the parser refuses for its size alone a value \<open>v\<close> that the decoder finds in the first \<open>n\<close> bytes of \<open>b\<close>: the frame's
  line has no end within 17 read buffers, the string or the array is over its limit, or an element of the array, which the
  decoder finds at its place in the frame, is refused.\<close>

fun refused :: "proto_error \<Rightarrow> Value \<Rightarrow> bytes \<Rightarrow> nat \<Rightarrow> bool" where
  "refused ErrLineTooLong v b n \<longleftrightarrow> 17 * bufioSize < n \<and> LF \<notin> set (take (17 * bufioSize) (tl b))"
| "refused (ErrBulkTooLong len) v b n \<longleftrightarrow>
     (\<exists>data. v = BulkString data False \<and> len = int (length data) \<and> maxBulkStringLength < len \<and> len < int n)"
| "refused (ErrArrayTooLong count) v b n \<longleftrightarrow>
     (\<exists>elements. v = Array elements False \<and> count = int (length elements) \<and> maxArrayElements < count \<and> count < int n)"
| "refused (ErrArrayElement i e) v b n \<longleftrightarrow>
     (\<exists>elements k m depth. v = Array elements False \<and> i < length elements \<and> 0 < k \<and> k + m \<le> n \<and>
        decode (drop k b) depth = Inr (elements ! i, m) \<and> refused e (elements ! i) (drop k b) m)"
| "refused e v b n = False"

lemma refused_large: "refused e v b n \<Longrightarrow> 17 * bufioSize < n"
proof (induction e v b n rule: refused.induct)
  case (4 i e v b n)
  then obtain elements k m where "refused e (elements ! i) (drop k b) m" "k + m \<le> n" by auto
  then show ?case using "4.IH" by fastforce
qed (auto simp: bufioSize_def)

text \<open>At one buffer the parser accepts only what the decoder accepts, leaving the bytes the decoder
  did not use, and refuses what the decoder accepts only for its size.\<close>

definition agrees :: "decoded \<Rightarrow> parsed \<Rightarrow> bytes \<Rightarrow> bool" where
  "agrees d p b \<longleftrightarrow>
     (\<forall>v r. p = Inr (v, r) \<longrightarrow> (\<exists>n. d = Inr (v, n) \<and> n \<le> length b \<and> r = drop n b)) \<and>
     (\<forall>v n. d = Inr (v, n) \<longrightarrow> p = Inr (v, drop n b) \<or> (\<exists>e. p = Inl e \<and> refused e v b n))"

lemma ReadSlice_cases:
  obtains (ok) i where "IndexByte r LF = Some i" "ReadSlice r = (take (i + 1) r, drop (i + 1) r, SliceOK)"
  | (full) "bufioSize \<le> length r" "ReadSlice r = (take bufioSize r, drop bufioSize r, SliceFull)"
      "IndexByte r LF = map_option (\<lambda>i. bufioSize + i) (IndexByte (drop bufioSize r) LF)"
  | (eof) "IndexByte r LF = None" "ReadSlice r = (r, [], SliceEOF)"
proof (cases "IndexByte (take bufioSize r) LF")
  case (Some i)
  then have "IndexByte r LF = Some i"
    using IndexByte_prefix [OF Some, of "drop bufioSize r"] by (simp del: drop_take)
  with Some show ?thesis by (intro ok [of i]) (simp_all add: ReadSlice_def)
next
  case None
  then have no: "LF \<notin> set (take bufioSize r)" by (simp add: IndexByte_None)
  show ?thesis
  proof (cases "bufioSize \<le> length r")
    case True
    then have "IndexByte r LF = map_option (\<lambda>i. bufioSize + i) (IndexByte (drop bufioSize r) LF)"
      using IndexByte_skip [OF no, of "drop bufioSize r"] by simp
    with True None show ?thesis by (intro full) (simp_all add: ReadSlice_def)
  next
    case False
    with None no show ?thesis by (intro eof) (simp_all add: ReadSlice_def)
  qed
qed

lemma slice_join:
  "take k r @ take (Suc i) (drop k r) = take (Suc (k + i)) r"
  "drop (Suc i) (drop k r) = drop (Suc (k + i)) r"
  using take_add [of k "Suc i" r] by (simp_all add: add.commute)

lemma readLine_loop_spec:
  "readLine_loop combined r = Inl ErrLineTooLong \<or>
   readLine_loop combined r =
     (case IndexByte r LF of
        None \<Rightarrow> Inl ErrEOF
      | Some i \<Rightarrow> (case trimCRLF (combined @ take (Suc i) r) of Inl e \<Rightarrow> Inl e
                  | Inr line \<Rightarrow> Inr (line, drop (Suc i) r)))"
proof (induction combined r rule: readLine_loop.induct)
  case (1 combined r)
  show ?case
  proof (cases r rule: ReadSlice_cases)
    case (ok i)
    then show ?thesis by (simp add: readLine_loop.simps [of combined r])
  next
    case eof
    then show ?thesis by (simp add: readLine_loop.simps [of combined r])
  next
    case full
    show ?thesis
    proof (cases "length (combined @ take bufioSize r) > maxLineLength")
      case True
      with full show ?thesis by (simp add: readLine_loop.simps [of combined r])
    next
      case False
      have "readLine_loop combined r = readLine_loop (combined @ take bufioSize r) (drop bufioSize r)"
        using full False by (simp add: readLine_loop.simps [of combined r])
      moreover note "1.IH" [OF full(2) [symmetric] refl refl False]
      ultimately show ?thesis
        using full(3) by (cases "IndexByte (drop bufioSize r) LF") (simp_all add: slice_join del: drop_drop cong: sum.case_cong)
    qed
  qed
qed

lemma readLineBytes_spec:
  "readLineBytes r = Inl ErrLineTooLong \<or>
   readLineBytes r =
     (case IndexByte r LF of
        None \<Rightarrow> Inl ErrEOF
      | Some i \<Rightarrow> (case trimCRLF (take (Suc i) r) of Inl e \<Rightarrow> Inl e
                  | Inr line \<Rightarrow> Inr (line, drop (Suc i) r)))"
proof (cases r rule: ReadSlice_cases)
  case (ok i)
  then show ?thesis by (simp add: readLineBytes_def)
next
  case eof
  then show ?thesis by (simp add: readLineBytes_def)
next
  case full
  then show ?thesis
    using readLine_loop_spec [of "take bufioSize r" "drop bufioSize r"]
    by (cases "IndexByte (drop bufioSize r) LF") (simp_all add: readLineBytes_def slice_join del: drop_drop cong: sum.case_cong)
qed

lemma trimCRLF_not_long [simp]: "trimCRLF l \<noteq> Inl ErrLineTooLong"
  by (auto simp: trimCRLF_def)

lemma ReadSlice_full:
  "ReadSlice r = (fragment, r', SliceFull) \<Longrightarrow>
     fragment = take bufioSize r \<and> r' = drop bufioSize r \<and> bufioSize \<le> length r \<and> LF \<notin> set (take bufioSize r)"
  by (auto simp: ReadSlice_def IndexByte_None split: option.splits if_splits)

lemma readLine_loop_long:
  "readLine_loop c r = Inl ErrLineTooLong \<Longrightarrow> length c = k * bufioSize \<Longrightarrow> k \<le> 16 \<Longrightarrow>
   (17 - k) * bufioSize \<le> length r \<and> LF \<notin> set (take ((17 - k) * bufioSize) r)"
proof (induction c r arbitrary: k rule: readLine_loop.induct)
  case (1 c r)
  obtain f r' where full: "ReadSlice r = (f, r', SliceFull)"
    using "1.prems"(1) by (auto simp: readLine_loop.simps [of c r] split: sum.splits slice_result.splits prod.splits)
  note f = ReadSlice_full [OF full]
  show ?case
  proof (cases "length (c @ f) > maxLineLength")
    case True
    then have "k = 16" using f "1.prems"(2,3) by (auto simp: bufioSize_def)
    then show ?thesis using f by simp
  next
    case False
    have "length (c @ f) = Suc k * bufioSize" "Suc k \<le> 16" using f False "1.prems"(2) by (auto simp: bufioSize_def)
    moreover have "readLine_loop (c @ f) r' = Inl ErrLineTooLong"
      using "1.prems"(1) False by (simp add: readLine_loop.simps [of c r] full)
    ultimately have ih: "(17 - Suc k) * bufioSize \<le> length r'" "LF \<notin> set (take ((17 - Suc k) * bufioSize) r')"
      using "1.IH" [OF full [symmetric] refl refl False] by blast+
    have "(17 - k) * bufioSize = bufioSize + (17 - Suc k) * bufioSize" using \<open>Suc k \<le> 16\<close>
      by (metis Suc_diff_le Suc_le_mono diff_Suc_Suc eval_nat_numeral(3) le_SucI mult_Suc)
    then show ?thesis using ih f by (auto simp: take_add)
  qed
qed

lemma readLineBytes_long:
  "readLineBytes r = Inl ErrLineTooLong \<Longrightarrow> 17 * bufioSize \<le> length r \<and> LF \<notin> set (take (17 * bufioSize) r)"
proof -
  assume a: "readLineBytes r = Inl ErrLineTooLong"
  obtain f r' where full: "ReadSlice r = (f, r', SliceFull)"
    using a by (auto simp: readLineBytes_def split: sum.splits slice_result.splits prod.splits)
  note f = ReadSlice_full [OF full]
  have "readLine_loop f r' = Inl ErrLineTooLong" using a by (simp add: readLineBytes_def full)
  then have ih: "16 * bufioSize \<le> length r' \<and> LF \<notin> set (take (16 * bufioSize) r')"
    using readLine_loop_long [of f r' 1] f by simp
  have "17 * bufioSize = bufioSize + 16 * bufioSize" by simp
  then show ?thesis using ih f by (metis (no_types, lifting) Un_iff add_le_mono length_drop le_diff_conv2 add.commute set_append take_add)
qed

text \<open>Reading a line from the stream and finding it in the buffer are the same thing.\<close>

lemma readLineBytes_decodeLine:
  "readLineBytes r = Inr (line, r') \<Longrightarrow> \<exists>n. decodeLine r = Inr (line, n) \<and> n \<le> length r \<and> r' = drop n r"
  "decodeLine r = Inr (line, n) \<Longrightarrow> readLineBytes r = Inr (line, drop n r) \<or> readLineBytes r = Inl ErrLineTooLong"
  using readLineBytes_spec [of r]
  by (auto simp: decodeLine_def split: option.splits sum.splits dest!: IndexByte_Some)

text \<open>A line that is too long for the parser, in a frame of which it is the first.\<close>

lemma refused_line:
  assumes "readLineBytes r = Inl ErrLineTooLong" "decodeLine r = Inr (line, n)" "n < k"
  shows "refused ErrLineTooLong v (p # r) k"
proof -
  note l = readLineBytes_long [OF assms(1)]
  obtain i where i: "IndexByte r LF = Some i" "n = i + 1" using assms(2) by (auto simp: decodeLine_def split: option.splits sum.splits)
  have "\<not> i < 17 * bufioSize"
    using l IndexByte_Some [OF i(1)] by (auto simp: in_set_conv_nth)
  then show ?thesis using l i(2) assms(3) by simp
qed

lemma line_agrees:
  "agrees (decode_line_frame build (p # r)) (parse_line_frame build r) (p # r)"
  unfolding agrees_def
proof (intro conjI allI impI)
  fix v r' assume "parse_line_frame build r = Inr (v, r')"
  then show "\<exists>n. decode_line_frame build (p # r) = Inr (v, n) \<and> n \<le> length (p # r) \<and> r' = drop n (p # r)"
    by (auto simp: parse_line_frame_def decode_line_frame_def split: sum.splits
             dest!: readLineBytes_decodeLine(1))
next
  fix v n assume d: "decode_line_frame build (p # r) = Inr (v, n)"
  then obtain line m where l: "decodeLine r = Inr (line, m)" "n = 1 + m"
    by (auto simp: decode_line_frame_def split: sum.splits)
  show "parse_line_frame build r = Inr (v, drop n (p # r)) \<or>
             (\<exists>e. parse_line_frame build r = Inl e \<and> refused e v (p # r) n)"
    using readLineBytes_decodeLine(2) [OF l(1)]
  proof
    assume "readLineBytes r = Inl ErrLineTooLong"
    with refused_line [OF this l(1)] l(2) show ?thesis by (auto simp: parse_line_frame_def simp del: refused.simps)
  qed (use d l in \<open>auto simp: parse_line_frame_def decode_line_frame_def split: sum.splits\<close>)
qed

lemma payload_eq:
  assumes "0 \<le> len"
  shows "(case ReadFull (nat len) r1 of Inl e \<Rightarrow> Inl (ErrReadBulkPayload e)
          | Inr (payload, r2) \<Rightarrow> (case expectCRLF r2 of Inl e \<Rightarrow> Inl (ErrBulkMissingCRLF e)
                                | Inr r3 \<Rightarrow> Inr (BulkString payload False, r3))) = Inr (v, r3) \<longleftrightarrow>
         len \<le> int (length r1) - 2 \<and> r1 ! nat len = CR \<and> r1 ! (nat len + 1) = LF \<and>
         v = BulkString (take (nat len) r1) False \<and> r3 = drop (nat len + 2) r1"
proof (cases "len \<le> int (length r1) - 2")
  case True
  define m where "m = nat len"
  have "m + 2 \<le> length r1" using True assms by (simp add: m_def)
  then have "drop m r1 = r1 ! m # r1 ! (m + 1) # drop (m + 2) r1"
    by (simp add: Cons_nth_drop_Suc)
  then show ?thesis
    using True \<open>m + 2 \<le> length r1\<close> by (auto simp: ReadFull_def expectCRLF_def m_def [symmetric])
next
  case False
  then have "length r1 < nat len \<or> length (drop (nat len) r1) < 2" by auto
  then have "drop (nat len) r1 = [] \<or> (\<exists>c. drop (nat len) r1 = [c]) \<or> length r1 < nat len"
    by (cases "drop (nat len) r1" rule: remdups_adj.cases) auto
  then show ?thesis using False by (auto simp: ReadFull_def expectCRLF_def)
qed

lemma bulk_agrees: "agrees (decodeBulkString (p # r)) (parseBulkString r) (p # r)"
proof (cases "decodeLine r")
  case (Inl e)
  then have "\<nexists>line r'. readLineBytes r = Inr (line, r')" using readLineBytes_decodeLine(1) by fastforce
  then show ?thesis
    using Inl by (auto simp: agrees_def decodeBulkString_def parseBulkString_def split: sum.splits)
next
  case (Inr res)
  obtain line n where res: "res = (line, n)" by (cases res)
  have n: "n \<le> length r" using decodeLine_value [OF Inr [unfolded res]] by blast
  show ?thesis
  proof (cases "readLineBytes r = Inl ErrLineTooLong")
    case True
    have "refused ErrLineTooLong v (p # r) k" if "decodeBulkString (p # r) = Inr (v, k)" for v k
      by (rule refused_line [OF True Inr [unfolded res]])
        (use that in \<open>auto simp: decodeBulkString_def Inr res Let_def split: sum.splits if_splits\<close>)
    then show ?thesis using True by (auto simp: agrees_def parseBulkString_def simp del: refused.simps)
  next
    case False
    then have line: "readLineBytes r = Inr (line, drop n r)"
      using readLineBytes_decodeLine(2) [OF Inr [unfolded res]] by blast
    note ds = decodeBulkString_def parseBulkString_def Inr res line
    show ?thesis
    proof (cases "parseDecimalInt line")
      case (Inl e)
      then show ?thesis by (auto simp: agrees_def ds)
    next
      case len: (Inr len)
      consider "len \<le> -1" | "0 \<le> len" "len > maxBulkStringLength" | "0 \<le> len" "len \<le> maxBulkStringLength"
        by linarith
      then show ?thesis
      proof cases
        case 1
        then show ?thesis using n by (auto simp: agrees_def ds len)
      next
        case 2
        then show ?thesis by (auto simp: agrees_def ds len Let_def split: if_splits)
      next
        case 3
        let ?p = "parseBulkString r"
        have "?p = Inr (v, r3) \<longleftrightarrow> len \<le> int (length (drop n r)) - 2 \<and> drop n r ! nat len = CR \<and>
                drop n r ! (nat len + 1) = LF \<and> v = BulkString (take (nat len) (drop n r)) False \<and>
                r3 = drop (nat len + 2) (drop n r)" for v r3
          using payload_eq [OF 3(1), of "drop n r"] 3 by (simp add: ds len)
        moreover have "decodeBulkString (p # r) = Inr (v, k) \<longleftrightarrow> len \<le> int (length (drop n r)) - 2 \<and>
                drop n r ! nat len = CR \<and> drop n r ! (nat len + 1) = LF \<and>
                v = BulkString (take (nat len) (drop n r)) False \<and> k = 1 + n + nat len + 2" for v k
          using 3 by (auto simp: ds len Let_def)
        ultimately show ?thesis
          using n 3 by (auto simp: agrees_def add.commute)
      qed
    qed
  qed
qed

lemma decode_elements_extent:
  assumes "decode_elements (\<lambda>b. decode b depth) left i b c es = Inr (v, n)"
  shows "\<exists>xs. v = Array (es @ xs) False \<and> length xs = left \<and> c + left \<le> n"
  using assms
proof (induction left arbitrary: i c es)
  case (Suc left)
  then obtain x m where x: "decode (drop c b) depth = Inr (x, m)"
    "decode_elements (\<lambda>b. decode b depth) left (i + 1) b (c + m) (es @ [x]) = Inr (v, n)"
    by (auto split: sum.splits option.splits if_splits)
  have "0 < m" using incremental_decoder.consumes [OF resp_decoder_decode x(1)] by simp
  from Suc.IH [OF x(2)] obtain xs where "v = Array ((es @ [x]) @ xs) False" "length xs = left" "c + m + left \<le> n" by blast
  then show ?case using \<open>0 < m\<close> by (auto intro!: exI [of _ "x # xs"])
qed auto

lemma elements_agrees:
  assumes "\<And>b. agrees (decode b depth) (p b) b" "c \<le> length b" "0 < c" "r = drop c b" "i = length es"
  shows "agrees (decode_elements (\<lambda>b. decode b depth) left i b c es) (parse_elements p left i r es) b"
  using assms(2-)
proof (induction left arbitrary: i c r es)
  case 0
  then show ?case by (auto simp: agrees_def)
next
  case (Suc left)
  note step = assms(1) [of "drop c b", unfolded agrees_def]
  show ?case
  proof (cases "p r")
    case (Inl e)
    have "refused (ErrArrayElement i e) v b n"
      if d: "decode_elements (\<lambda>b. decode b depth) (Suc left) i b c es = Inr (v, n)" for v n
    proof -
      from d obtain x m where x: "decode (drop c b) depth = Inr (x, m)"
        "decode_elements (\<lambda>b. decode b depth) left (i + 1) b (c + m) (es @ [x]) = Inr (v, n)"
        by (auto split: sum.splits option.splits if_splits)
      have e: "refused e x (drop c b) m" using step x(1) Inl Suc.prems by auto
      obtain xs where xs: "v = Array ((es @ [x]) @ xs) False" "c + m + left \<le> n"
        using decode_elements_extent [OF x(2)] by blast
      then have "((es @ [x]) @ xs) ! i = x" using Suc.prems by simp
      moreover have "0 < c" "c + m \<le> n" "i < length ((es @ [x]) @ xs)" using Suc.prems xs by auto
      ultimately show ?thesis unfolding refused.simps xs(1) using e x(1) by metis
    qed
    then show ?thesis using Inl by (simp add: agrees_def del: decode_elements.simps refused.simps)
  next
    case (Inr res)
    obtain v r' where res: "res = (v, r')" by (cases res)
    with Inr step Suc.prems obtain n where n: "decode (drop c b) depth = Inr (v, n)" "n \<le> length (drop c b)"
      "r' = drop n (drop c b)" by blast
    have "agrees (decode_elements (\<lambda>b. decode b depth) left (i + 1) b (c + n) (es @ [v]))
                 (parse_elements p left (i + 1) r' (es @ [v])) b"
      by (rule Suc.IH) (use n Suc.prems in \<open>auto simp: add.commute\<close>)
    then show ?thesis using n Inr res Suc.prems by simp
  qed
qed

lemma array_agrees:
  assumes "depth < maxNestingDepth \<Longrightarrow> (\<And>b. agrees (decode b (depth + 1)) (parse b (depth + 1)) b)"
  shows "agrees (decodeArray (p # r) depth) (parseArray r depth) (p # r)"
proof (cases "decodeLine r")
  case (Inl e)
  then have "\<nexists>line r'. readLineBytes r = Inr (line, r')" using readLineBytes_decodeLine(1) by fastforce
  then show ?thesis
    using Inl by (auto simp: agrees_def decodeArray.simps parseArray.simps split: sum.splits)
next
  case (Inr res)
  obtain line n where res: "res = (line, n)" by (cases res)
  have n: "n \<le> length r" using decodeLine_value [OF Inr [unfolded res]] by blast
  show ?thesis
  proof (cases "readLineBytes r = Inl ErrLineTooLong \<or> maxNestingDepth \<le> depth")
    case True
    have "refused ErrLineTooLong v (p # r) k"
      if "readLineBytes r = Inl ErrLineTooLong" "decodeArray (p # r) depth = Inr (v, k)" for v k
      by (rule refused_line [OF that(1) Inr [unfolded res]])
        (use that(2) in \<open>auto simp: decodeArray.simps Inr res split: sum.splits if_splits dest!: decode_elements_extent\<close>)
    then show ?thesis using True
      by (cases "maxNestingDepth \<le> depth") (auto simp: agrees_def parseArray.simps decodeArray.simps [of "p # r" depth] simp del: refused.simps)
  next
    case False
    then have line: "readLineBytes r = Inr (line, drop n r)"
      using readLineBytes_decodeLine(2) [OF Inr [unfolded res]] by blast
    note ds = decodeArray.simps parseArray.simps Inr res line
    show ?thesis
    proof (cases "parseDecimalInt line")
      case (Inl e)
      then show ?thesis by (auto simp: agrees_def ds)
    next
      case count: (Inr count)
      consider "count \<le> -1" | "0 \<le> count" "count > maxArrayElements" | "0 \<le> count" "count \<le> maxArrayElements"
        by linarith
      then show ?thesis
      proof cases
        case 1
        then show ?thesis using n by (auto simp: agrees_def ds count)
      next
        case 2
        have "refused (ErrArrayTooLong count) v (p # r) k" if "decodeArray (p # r) depth = Inr (v, k)" for v k
          using that 2 False decode_elements_extent [of "depth + 1" "nat count" 0 "p # r" "1 + n" "[]" v k] by (auto simp: ds count)
        then show ?thesis using 2 False by (auto simp: agrees_def parseArray.simps line count simp del: refused.simps)
      next
        case 3
        have "agrees (decode_elements (\<lambda>b. decode b (depth + 1)) (nat count) 0 (p # r) (1 + n) [])
                     (parse_elements (\<lambda>b. parse b (depth + 1)) (nat count) 0 (drop n r) []) (p # r)"
          by (rule elements_agrees) (use assms False n in auto)
        then show ?thesis using 3 False by (simp add: ds count)
      qed
    qed
  qed
qed

lemma parse_agrees: "agrees (decode b depth) (parse b depth) b"
proof (induction "maxNestingDepth - depth" arbitrary: depth b rule: less_induct)
  case less
  show ?case
  proof (cases b)
    case Nil
    then show ?thesis by (simp add: agrees_def)
  next
    case (Cons p r)
    have "agrees (decodeArray (p # r) depth) (parseArray r depth) (p # r)"
      by (rule array_agrees, rule less) simp
    then show ?thesis
      unfolding Cons decode.simps parse.simps
      using line_agrees [of _ p r] bulk_agrees [of p r] by (auto simp: agrees_def [of "Inl _" "Inl _"])
  qed
qed

fun within_limits :: "Value \<Rightarrow> bool" where
  "within_limits (BulkString data null) \<longleftrightarrow> int (length data) \<le> maxBulkStringLength"
| "within_limits (Array elements null) \<longleftrightarrow> int (length elements) \<le> maxArrayElements \<and> (\<forall>e\<in>set elements. within_limits e)"
| "within_limits v \<longleftrightarrow> True"

lemma parse_elements_within:
  assumes "\<And>b v r. p b = Inr (v, r) \<Longrightarrow> within_limits v" "parse_elements p left i r es = Inr (v, r')"
    "\<forall>e\<in>set es. within_limits e" "int (length es + left) \<le> maxArrayElements"
  shows "within_limits v"
  using assms(2-)
proof (induction left arbitrary: i r es)
  case (Suc left)
  then obtain x r1 where "p r = Inr (x, r1)" "parse_elements p left (i + 1) r1 (es @ [x]) = Inr (v, r')"
    by (auto split: sum.splits)
  then show ?case using Suc.IH [of "i + 1" r1 "es @ [x]"] Suc.prems(2,3) assms(1) by auto
qed auto

lemma parse_within: "parse b depth = Inr (v, r) \<Longrightarrow> within_limits v"
proof (induction "maxNestingDepth - depth" arbitrary: depth b v r rule: less_induct)
  case less
  have line: "within_limits v" if "parse_line_frame build r0 = Inr (v, r)" "\<And>l v. build l = Inr v \<Longrightarrow> within_limits v" for build r0
    using that by (auto simp: parse_line_frame_def split: sum.splits)
  have bulk: "within_limits v" if "parseBulkString r0 = Inr (v, r)" for r0
    using that by (auto simp: parseBulkString_def ReadFull_def split: sum.splits if_splits)
  have arr: "within_limits v" if a: "parseArray r0 depth = Inr (v, r)" for r0
  proof (cases "v = Array [] True")
    case False
    then obtain count r1 where c: "depth < maxNestingDepth" "\<not> count < -1" "count \<noteq> -1" "count \<le> maxArrayElements"
      "parse_elements (\<lambda>b. parse b (depth + 1)) (nat count) 0 r1 [] = Inr (v, r)"
      using a by (auto simp: parseArray.simps not_less split: sum.splits if_splits)
    show ?thesis by (rule parse_elements_within [OF _ c(5)]) (use c less(1) [of "depth + 1"] in auto)
  qed simp
  note builders = integerFromLine_def booleanFromMarker_def nullFromPayload_def
  show ?case using less(2) bulk arr
    by (cases b) (auto simp: builders split: if_splits sum.splits elim!: line)
qed

section \<open>Properties\<close>

text \<open>C20. The two decoders agree.  A frame the streaming parser accepts is the frame \<^verbatim>\<open>Decode\<close> finds at the front of the same
  bytes, the parser leaves exactly the bytes behind it, and the value is within the parser's limits.  A frame \<^verbatim>\<open>Decode\<close> accepts the parser accepts too, unless the frame or
  an element of it at its place in the frame has a line without an end in its first 69632 bytes, is a string of more than
  536870912 bytes or an array of more than 1048576 elements, and the parser's error names that element and limit.  In particular
  every frame of at most 69632 bytes is accepted by both or by neither.\<close>

theorem Parse_agrees_Decode:
  "(Parse b = Inr (v, r) \<longrightarrow> (\<exists>n. Decode b = Inr (v, n) \<and> r = drop n b) \<and> within_limits v) \<and>
   (Decode b = Inr (v, n) \<longrightarrow> Parse b = Inr (v, drop n b) \<or> (\<exists>e. Parse b = Inl e \<and> refused e v b n)) \<and>
   (Decode b = Inr (v, n) \<longrightarrow> n \<le> 69632 \<longrightarrow> Parse b = Inr (v, drop n b))"
proof -
  have "\<not> refused e v b n" if "n \<le> 69632" for e using refused_large [of e v b n] that by (auto simp: bufioSize_def)
  then show ?thesis using parse_agrees [of b 0] parse_within [of b 0] unfolding agrees_def Parse_def Decode_def by blast
qed

theorem Parse_agrees_Decode_witness:
  "Decode (str ''$3'' @ CRLF @ str ''abc'' @ CRLF @ str ''+x'') = Inr (BulkString (str ''abc'') False, 9) \<and>
   Parse (str ''$3'' @ CRLF @ str ''abc'' @ CRLF @ str ''+x'') = Inr (BulkString (str ''abc'') False, str ''+x'')"
proof -
  let ?b = "str ''$3'' @ CRLF @ str ''abc'' @ CRLF @ str ''+x''"
  have "Decode ?b = Inr (BulkString (str ''abc'') False, 9)"
    by (simp add: Decode_def str_def decodeBulkString_def parseDecimalInt_def parseIntBytes_def Let_def
        decodeLine_def trimCRLF_def)
  then show ?thesis
    using Parse_agrees_Decode [of ?b "BulkString (str ''abc'') False" "[]" 9] by (simp add: str_def)
qed

end
