(* ===== verification/Aof_Load.thy ===== *)
theory Aof_Load
  imports Resp_Parser
begin

text \<open>
  Loading the append-only file: \<^verbatim>\<open>src/internal/aof/loader.go\<close>.  The function the loader replays commands with is an
  argument, as in the code (\<^term>\<open>None\<close>: a nil function); it works on a state of any type and may fail.  What opening and closing
  the file give and in which rounds the context is done are arguments too; the bytes of an open file are read without error.

  Shown: a log cut off at any byte, as a crash leaves it, loads as the commands that are complete in it replayed one after the
  other, up to the first that fails or the round in which the context is done; the cut itself is no error.  Also shown: the
  server appends behind a torn tail without removing it, and then the next command is not replayed at the next start.
\<close>

section \<open>The loader\<close>

record LoadStats =
  ls_ReplayedCommands :: nat
  ls_TruncatedTail :: bool

datatype ('e, 'f) load_error =
    NilReplay
  | OpenFailed 'f
  | CloseFailed 'f
  | Canceled
  | ParseFailed nat proto_error
  | ReplayFailed nat 'e

definition isRecoverableTruncation :: "proto_error \<Rightarrow> bool" where
  "isRecoverableTruncation e \<longleftrightarrow>
     (if errorsIs e ErrEOF \<or> errorsIs e ErrUnexpectedEOF then True else errorsIs e ErrMissingCRLF)"

lemma Parse_shrinks: "Parse r = Inr (v, r') \<Longrightarrow> length r' < length r"
proof -
  assume p: "Parse r = Inr (v, r')"
  then obtain n where n: "Decode r = Inr (v, n)" "n \<le> length r" "r' = drop n r"
    using parse_agrees [of r 0] unfolding agrees_def Parse_def Decode_def by blast
  then have "0 < n" using dec.consumes [OF n(1)] by simp
  then show ?thesis using n(2,3) by (cases r) auto
qed

text \<open>The context is asked once per round; a round replays one command, so the rounds are numbered by the commands replayed.\<close>

function load_loop ::
  "(nat \<Rightarrow> bool) \<Rightarrow> ('st \<Rightarrow> Value \<Rightarrow> 'st \<times> 'e option) \<Rightarrow> 'st \<Rightarrow> LoadStats \<Rightarrow> bytes \<Rightarrow> 'st \<times> LoadStats \<times> ('e, 'f) load_error option" where
  "load_loop done replay st stats file =
     (if done (ls_ReplayedCommands stats) then (st, stats, Some Canceled)
      else
        case Parse file of
          Inl e \<Rightarrow>
            if errorsIs e ErrEOF then (st, stats, None)
            else if isRecoverableTruncation e then (st, stats\<lparr>ls_TruncatedTail := True\<rparr>, None)
            else (st, stats, Some (ParseFailed (ls_ReplayedCommands stats) e))
        | Inr (v, file') \<Rightarrow>
            (case replay st v of
               (st', Some e) \<Rightarrow> (st', stats, Some (ReplayFailed (ls_ReplayedCommands stats + 1) e))
             | (st', None) \<Rightarrow> load_loop done replay st' (stats\<lparr>ls_ReplayedCommands := ls_ReplayedCommands stats + 1\<rparr>) file'))"
  by pat_completeness auto
termination
  by (relation "measure (\<lambda>(_, _, _, _, file). length file)") (auto dest: Parse_shrinks)

declare load_loop.simps [simp del]

definition noStats :: LoadStats where
  "noStats = \<lparr>ls_ReplayedCommands = 0, ls_TruncatedTail = False\<rparr>"

definition LoadFile ::
  "(nat \<Rightarrow> bool) \<Rightarrow> ('st \<Rightarrow> Value \<Rightarrow> 'st \<times> 'e option) option \<Rightarrow> 'st \<Rightarrow> 'f + bytes \<Rightarrow> 'f option \<Rightarrow> 'st \<times> LoadStats \<times> ('e, 'f) load_error option" where
  "LoadFile done replay st opened closed =
     (case replay of
        None \<Rightarrow> (st, noStats, Some NilReplay)
      | Some replay \<Rightarrow>
          (case opened of
             Inl e \<Rightarrow> (st, noStats, Some (OpenFailed e))
           | Inr file \<Rightarrow>
               (case load_loop done replay st noStats file of
                  (st, stats, err) \<Rightarrow>
                    (st, stats, case (closed, err) of (Some closeErr, None) \<Rightarrow> Some (CloseFailed closeErr) | _ \<Rightarrow> err))))"

text \<open>Loading undisturbed.\<close>

abbreviation load :: "('st \<Rightarrow> Value \<Rightarrow> 'st \<times> 'e option) \<Rightarrow> 'st \<Rightarrow> bytes \<Rightarrow> 'st \<times> LoadStats \<times> ('e, unit) load_error option" where
  "load replay st file \<equiv> LoadFile (\<lambda>_. False) (Some replay) st (Inr file) None"

section \<open>Command frames\<close>

definition frame :: "bytes list \<Rightarrow> Value" where
  "frame args = Array (map (\<lambda>a. BulkString a False) args) False"

text \<open>A command the parser's size limits admit.\<close>

definition command_fits :: "bytes list \<Rightarrow> bool" where
  "command_fits args \<longleftrightarrow> int (length args) \<le> maxArrayElements \<and> (\<forall>a \<in> set args. int (length a) \<le> maxBulkStringLength)"

definition log :: "bytes list list \<Rightarrow> bytes" where
  "log cs = concat (map (\<lambda>c. wire (frame c)) cs)"

text \<open>Errors of a frame whose end is missing.\<close>

definition torn :: "proto_error \<Rightarrow> bool" where
  "torn e \<longleftrightarrow> errorsIs e ErrEOF \<or> errorsIs e ErrUnexpectedEOF"

lemma torn_simps [simp]:
  "torn ErrEOF" "torn ErrUnexpectedEOF" "torn (ErrReadBulkPayload e) = torn e" "torn (ErrBulkMissingCRLF e) = torn e"
  "torn (ErrArrayElement i e) = torn e"
  by (auto simp: torn_def errorsIs_def)

lemma nat_digits_length: "n < 10 ^ k \<Longrightarrow> 0 < k \<Longrightarrow> length (nat_digits n) \<le> k"
proof (induction k arbitrary: n)
  case (Suc k)
  show ?case
  proof (cases "n < 10")
    case False
    then have "k \<noteq> 0" using Suc.prems by (cases k) auto
    then have "length (nat_digits (n div 10)) \<le> k" using Suc by (intro Suc.IH) (auto simp: less_mult_imp_div_less)
    then show ?thesis using False by (subst nat_digits.simps) simp
  qed (subst nat_digits.simps, simp)
qed simp

lemma short_header: "int n \<le> 536870912 \<Longrightarrow> length (formatInt (int n)) \<le> 9"
  using nat_digits_length [of n 9] by (simp add: formatInt_def)

lemma readLine_short:
  assumes "LF \<notin> set line" "length line + 2 \<le> bufioSize"
  shows "readLineBytes (line @ CRLF @ rest) = Inr (line, rest)"
proof -
  have t: "take bufioSize (line @ CRLF @ rest) = line @ CR # LF # take (bufioSize - (length line + 2)) rest"
    using assms(2) by (simp add: take_Cons')
  have "IndexByte (line @ CR # LF # xs) LF = Some (length line + 1)" for xs
    using assms(1) by (simp add: IndexByte_skip)
  then have "IndexByte (take bufioSize (line @ CRLF @ rest)) LF = Some (length line + 1)" unfolding t .
  then have "ReadSlice (line @ CRLF @ rest) = (line @ CRLF, rest, SliceOK)" by (simp only: ReadSlice_def option.case) simp
  then show ?thesis by (simp add: readLineBytes_def trimCRLF_def nth_append)
qed

lemma readLine_torn:
  assumes "LF \<notin> set p" "length p < bufioSize"
  shows "readLineBytes p = Inl ErrEOF"
proof -
  have "IndexByte p LF = None" using assms(1) IndexByte_None by blast
  then have "ReadSlice p = (p, [], SliceEOF)" using assms(2) by (simp only: ReadSlice_def take_all less_imp_le) simp
  then show ?thesis by (simp add: readLineBytes_def)
qed

lemma split_prefix:
  assumes "p @ q = v @ w"
  obtains (past) p' where "p = v @ p'" "p' @ q = w" | (within) q' where "q' \<noteq> []" "p @ q' = v"
proof -
  obtain us where "p = v @ us \<and> us @ q = w \<or> p @ us = v \<and> q = us @ w" using assms unfolding append_eq_append_conv2 by blast
  then show thesis using past [of us] past [of "[]"] within [of us] by (cases "us = []") auto
qed

lemma header_torn:
  assumes "p @ q = h @ CRLF @ w" "LF \<notin> set h" "length h + 2 \<le> bufioSize"
  obtains (line) p' where "p = h @ CRLF @ p'" "p' @ q = w" | (torn) "readLineBytes p = Inl ErrEOF"
proof (rule split_prefix [of p q "h @ CRLF" w])
  fix q' assume q': "q' \<noteq> []" "p @ q' = h @ CRLF"
  then obtain t x where t: "q' = t @ [x]" by (cases q' rule: rev_cases) auto
  then have pt: "p @ t = h @ [CR]" using q'(2) by (metis append.assoc butlast_snoc append_Cons append_Nil)
  then have "LF \<notin> set (p @ t)" using assms(2) by simp
  moreover have "length p \<le> length (h @ [CR])" using pt by (metis length_append le_add1)
  ultimately show ?thesis using readLine_torn assms(3) torn by auto
qed (use assms(1) line in auto)

lemma header_short: "int n \<le> 536870912 \<Longrightarrow> length (formatInt (int n)) + 2 \<le> bufioSize"
  using short_header [of n] by (simp add: bufioSize_def)

lemma header_reads [simp]:
  "int n \<le> 536870912 \<Longrightarrow> readLineBytes (formatInt (int n) @ 13 # 10 # rest) = Inr (formatInt (int n), rest)"
  "int n \<le> 536870912 \<Longrightarrow> parseDecimalInt (formatInt (int n)) = Inr (int n)"
  using readLine_short [of "formatInt (int n)" rest] header_short [of n]
  by (auto simp: parseDecimalInt_formatInt int64_range_def)

lemma parse_bulk_full:
  "int (length d) \<le> maxBulkStringLength \<Longrightarrow>
     parseBulkString (formatInt (int (length d)) @ 13 # 10 # d @ 13 # 10 # rest) = Inr (BulkString d False, rest)"
  by (simp add: parseBulkString_def ReadFull_def expectCRLF_def)

lemma parse_bulk_torn:
  assumes "p @ q = formatInt (int (length d)) @ CRLF @ d @ CRLF" "q \<noteq> []" "int (length d) \<le> maxBulkStringLength"
  shows "\<exists>e. parseBulkString p = Inl e \<and> torn e"
proof (rule header_torn [OF assms(1)])
  fix p' assume p': "p = formatInt (int (length d)) @ CRLF @ p'" "p' @ q = d @ CRLF"
  show ?thesis using p'(2)
  proof (rule split_prefix)
    fix t assume t: "p' = d @ t" "t @ q = CRLF"
    then have "t = [] \<or> t = [CR]" using assms(2) by (auto simp: append_eq_Cons_conv)
    then have "expectCRLF t = Inl ErrEOF" by (auto simp: expectCRLF_def)
    then show ?thesis using p'(1) t(1) assms(3) by (simp add: parseBulkString_def ReadFull_def)
  next
    fix q' assume "q' \<noteq> []" "p' @ q' = d"
    then have "length p' < length d" by auto
    then show ?thesis using p'(1) assms(3) by (simp add: parseBulkString_def ReadFull_def)
  qed
qed (use assms(3) header_short [of "length d"] in \<open>auto simp: parseBulkString_def\<close>)

abbreviation bulk :: "bytes \<Rightarrow> Value" where
  "bulk a \<equiv> BulkString a False"

lemma parse_bulks_full:
  "\<forall>a \<in> set args. int (length a) \<le> maxBulkStringLength \<Longrightarrow>
     parse_elements (\<lambda>b. parse b k) (length args) i (concat (map (\<lambda>a. wire (bulk a)) args) @ rest) es =
       Inr (Array (es @ map bulk args) False, rest)"
  by (induction args arbitrary: i es) (simp_all add: parse_bulk_full)

lemma parse_bulks_torn:
  assumes "p @ q = concat (map (\<lambda>a. wire (bulk a)) args)" "q \<noteq> []" "\<forall>a \<in> set args. int (length a) \<le> maxBulkStringLength"
  shows "\<exists>e. parse_elements (\<lambda>b. parse b k) (length args) i p es = Inl e \<and> torn e"
  using assms
proof (induction args arbitrary: i es p)
  case (Cons a args)
  let ?w = "formatInt (int (length a)) @ CRLF @ a @ CRLF"
  have "p @ q = (36 # ?w) @ concat (map (\<lambda>a. wire (bulk a)) args)" using Cons.prems(1) by simp
  then show ?case
  proof (rule split_prefix)
    fix p' assume p': "p = (36 # ?w) @ p'" "p' @ q = concat (map (\<lambda>a. wire (bulk a)) args)"
    then show ?thesis using Cons.IH [OF p'(2) Cons.prems(2)] Cons.prems(3) by (simp add: parse_bulk_full)
  next
    fix q' assume q': "q' \<noteq> []" "p @ q' = 36 # ?w"
    show ?thesis
    proof (cases p)
      case (Cons x p')
      then have "x = 36" "\<exists>e. parseBulkString p' = Inl e \<and> torn e" using q' parse_bulk_torn [of p' q' a] Cons.prems(3) by auto
      then show ?thesis using Cons by auto
    qed simp
  qed
qed simp

lemma wire_frame: "wire (frame c) = 42 # formatInt (int (length c)) @ CRLF @ concat (map (\<lambda>a. wire (bulk a)) c)"
  by (simp add: frame_def comp_def)

lemma Parse_frame: "command_fits c \<Longrightarrow> Parse (wire (frame c) @ rest) = Inr (frame c, rest)"
  using parse_bulks_full [of c 1 0 rest "[]"] unfolding wire_frame Parse_def
  by (simp add: command_fits_def parseArray.simps frame_def del: wire.simps)

lemma Parse_torn:
  assumes "p @ q = wire (frame c)" "q \<noteq> []" "command_fits c"
  shows "\<exists>e. Parse p = Inl e \<and> torn e"
proof (cases p)
  case (Cons x p')
  have fits: "int (length c) \<le> 536870912" "int (length c) \<le> maxArrayElements" "\<forall>a \<in> set c. int (length a) \<le> maxBulkStringLength"
    using assms(3) by (auto simp: command_fits_def)
  have x: "x = 42" and eq: "p' @ q = formatInt (int (length c)) @ CRLF @ concat (map (\<lambda>a. wire (bulk a)) c)"
    using assms(1) Cons by (simp_all add: wire_frame del: wire.simps)
  have "\<exists>e. parseArray p' 0 = Inl e \<and> torn e" using eq
  proof (rule header_torn)
    fix p'' assume p'': "p' = formatInt (int (length c)) @ CRLF @ p''" "p'' @ q = concat (map (\<lambda>a. wire (bulk a)) c)"
    then show ?thesis using parse_bulks_torn [OF p''(2) assms(2) fits(3), of 1 0 "[]"] fits by (simp add: parseArray.simps)
  qed (use header_short [OF fits(1)] in \<open>auto simp: parseArray.simps\<close>)
  then show ?thesis by (simp add: Parse_def Cons x)
qed (simp add: Parse_def)

section \<open>Replaying a log\<close>

lemma log_Cons [simp]: "log (c # cs) = wire (frame c) @ log cs" "log [] = []"
  by (simp_all add: log_def)

lemma log_append [simp]: "log (cs @ ds) = log cs @ log ds"
  by (simp add: log_def)

text \<open>What loading is measured against: asking the context and replaying, command after command, until one of them says stop.
  The number is that of the commands replayed.\<close>

fun replay_log ::
  "(nat \<Rightarrow> bool) \<Rightarrow> ('st \<Rightarrow> Value \<Rightarrow> 'st \<times> 'e option) \<Rightarrow> 'st \<Rightarrow> nat \<Rightarrow> bytes list list \<Rightarrow> 'st \<times> nat \<times> ('e, 'f) load_error option" where
  "replay_log done replay st k [] = (st, k, if done k then Some Canceled else None)"
| "replay_log done replay st k (c # cs) =
     (if done k then (st, k, Some Canceled)
      else case replay st (frame c) of
        (st', Some e) \<Rightarrow> (st', k, Some (ReplayFailed (k + 1) e))
      | (st', None) \<Rightarrow> replay_log done replay st' (k + 1) cs)"

text \<open>When nothing says stop, all are replayed.\<close>

definition replays :: "('st \<Rightarrow> Value \<Rightarrow> 'st \<times> 'e option) \<Rightarrow> 'st \<Rightarrow> bytes list list \<Rightarrow> 'st" where
  "replays replay st cs = foldl (\<lambda>st c. fst (replay st (frame c))) st cs"

primrec all_accepted :: "('st \<Rightarrow> Value \<Rightarrow> 'st \<times> 'e option) \<Rightarrow> 'st \<Rightarrow> bytes list list \<Rightarrow> bool" where
  "all_accepted replay st [] = True"
| "all_accepted replay st (c # cs) = (snd (replay st (frame c)) = None \<and> all_accepted replay (fst (replay st (frame c))) cs)"

lemma replay_log_accepted:
  "all_accepted replay st cs \<Longrightarrow> (\<And>j. \<not> done j) \<Longrightarrow> replay_log done replay st k cs = (replays replay st cs, k + length cs, None)"
  by (induction cs arbitrary: st k) (auto simp: replays_def split: prod.splits option.splits)

lemma load_loop_log:
  fixes replay :: "'st \<Rightarrow> Value \<Rightarrow> 'st \<times> 'e option"
  assumes "\<forall>c \<in> set cs. command_fits c"
    "\<forall>st stats. \<not> ls_TruncatedTail stats \<longrightarrow> \<not> done (ls_ReplayedCommands stats) \<longrightarrow>
       load_loop done replay st stats rest = (st, stats\<lparr>ls_TruncatedTail := t\<rparr>, None :: ('e, 'f) load_error option)"
    "\<not> ls_TruncatedTail stats"
  shows "\<exists>t'. load_loop done replay st stats (log cs @ rest) =
     (case replay_log done replay st (ls_ReplayedCommands stats) cs of
        (st', k, e) \<Rightarrow> (st', \<lparr>ls_ReplayedCommands = k, ls_TruncatedTail = t'\<rparr>, e :: ('e, 'f) load_error option)) \<and> (t' \<longrightarrow> t)"
  using assms(1,3)
proof (induction cs arbitrary: st stats)
  case Nil
  show ?case
  proof (cases "done (ls_ReplayedCommands stats)")
    case True
    then show ?thesis using Nil by (intro exI [of _ False]) (simp add: load_loop.simps)
  next
    case False
    then show ?thesis using assms(2) Nil(2) by (intro exI [of _ t]) (cases stats; simp)
  qed
next
  case (Cons c cs)
  show ?case
  proof (cases "done (ls_ReplayedCommands stats)")
    case True
    then show ?thesis using Cons.prems by (intro exI [of _ False]) (simp add: load_loop.simps)
  next
    case False
    obtain st' e where r: "replay st (frame c) = (st', e)" by fastforce
    have step: "(load_loop done replay st stats (log (c # cs) @ rest) :: 'st \<times> LoadStats \<times> ('e, 'f) load_error option) =
        (case e of Some e \<Rightarrow> (st', stats, Some (ReplayFailed (ls_ReplayedCommands stats + 1) e))
         | None \<Rightarrow> load_loop done replay st' (stats\<lparr>ls_ReplayedCommands := ls_ReplayedCommands stats + 1\<rparr>) (log cs @ rest))"
      using False Cons.prems(1) r by (subst load_loop.simps) (simp add: Parse_frame split: option.split)
    show ?thesis
    proof (cases e)
      case None
      then show ?thesis using Cons.IH [of "stats\<lparr>ls_ReplayedCommands := ls_ReplayedCommands stats + 1\<rparr>" st'] Cons.prems step False r by simp
    next
      case (Some e')
      then show ?thesis using Cons.prems(2) step False r by (intro exI [of _ False]) simp
    qed
  qed
qed

lemma load_loop_torn:
  assumes "Parse p = Inl e" "torn e \<or> p \<noteq> [] \<and> isRecoverableTruncation e"
  shows "\<exists>t. (\<forall>st stats. \<not> ls_TruncatedTail stats \<longrightarrow> \<not> done (ls_ReplayedCommands stats) \<longrightarrow>
      load_loop done replay st stats p = (st, stats\<lparr>ls_TruncatedTail := t\<rparr>, None)) \<and> (t \<longrightarrow> p \<noteq> [])"
proof (cases "errorsIs e ErrEOF")
  case True
  then show ?thesis using assms(1) by (intro exI [of _ False]) (simp add: load_loop.simps)
next
  case False
  then have "isRecoverableTruncation e" "p \<noteq> []" using assms by (auto simp: torn_def Parse_def errorsIs_def isRecoverableTruncation_def)
  then show ?thesis using assms(1) False by (intro exI [of _ True]) (simp add: load_loop.simps)
qed

text \<open>Where a cut falls: behind some number of whole commands and within the next one.\<close>

lemma cut_log:
  "n \<le> length (log cs) \<Longrightarrow>
     \<exists>k p q. k \<le> length cs \<and> take n (log cs) = log (take k cs) @ p \<and>
       (if k = length cs then p = [] else p @ q = wire (frame (cs ! k)) \<and> q \<noteq> [])"
proof (induction cs arbitrary: n)
  case (Cons c cs)
  show ?case
  proof (cases "n < length (wire (frame c))")
    case True
    then show ?thesis
      by (intro exI [of _ 0] exI [of _ "take n (wire (frame c))"] exI [of _ "drop n (wire (frame c))"]) simp
  next
    case False
    have "n - length (wire (frame c)) \<le> length (log cs)" using Cons.prems by simp
    from Cons.IH [OF this] obtain k p q where k: "k \<le> length cs" "take (n - length (wire (frame c))) (log cs) = log (take k cs) @ p"
      "if k = length cs then p = [] else p @ q = wire (frame (cs ! k)) \<and> q \<noteq> []"
      by blast
    then show ?thesis using False by (intro exI [of _ "Suc k"] exI [of _ p] exI [of _ q]) auto
  qed
qed simp

text \<open>Loading a log with a tail at which the parser stops as at the end of a file.\<close>

lemma LoadFile_log:
  assumes "\<forall>c \<in> set cs. command_fits c" "Parse p = Inl e" "torn e \<or> p \<noteq> [] \<and> isRecoverableTruncation e"
  shows "\<exists>t. LoadFile done (Some replay) st (Inr (log cs @ p)) closed =
      (case replay_log done replay st 0 cs of
         (st', j, err) \<Rightarrow> (st', \<lparr>ls_ReplayedCommands = j, ls_TruncatedTail = t\<rparr>, if err = None then map_option CloseFailed closed else err)) \<and>
    (t \<longrightarrow> p \<noteq> [])"
proof -
  obtain t where t: "\<forall>st stats. \<not> ls_TruncatedTail stats \<longrightarrow> \<not> done (ls_ReplayedCommands stats) \<longrightarrow>
      load_loop done replay st stats p = (st, stats\<lparr>ls_TruncatedTail := t\<rparr>, None :: ('b, 'c) load_error option)" "t \<longrightarrow> p \<noteq> []"
    using load_loop_torn [OF assms(2,3)] by blast
  have "\<not> ls_TruncatedTail noStats" by (simp add: noStats_def)
  from load_loop_log [OF assms(1) t(1) this, of st] obtain t' where
    t': "load_loop done replay st noStats (log cs @ p) =
      (case replay_log done replay st 0 cs of (st', k, e) \<Rightarrow> (st', \<lparr>ls_ReplayedCommands = k, ls_TruncatedTail = t'\<rparr>, e :: ('b, 'c) load_error option))"
    "t' \<longrightarrow> t" by (auto simp: noStats_def)
  then show ?thesis using t(2)
    by (intro exI [of _ t']) (auto simp: LoadFile_def split: prod.splits option.splits)
qed

text \<open>C6. A crash may cut the append-only file off at any byte.  If its commands are within the parser's limits, loading what is left
  does exactly what replaying the commands that are whole in it does, in order: it stops with the error of the first command that
  fails to replay or when the context is done, and otherwise replays them all and reports no error of its own, only that of
  closing the file.  The count is that of the commands replayed, nothing of the command that was cut off is replayed, and a truncated tail is
  reported only if bytes are left over.\<close>

theorem aof_crash_recovery:
  assumes "\<forall>c \<in> set cs. command_fits c" "n \<le> length (log cs)"
  shows "\<exists>k t. k \<le> length cs \<and> length (log (take k cs)) \<le> n \<and> (k < length cs \<longrightarrow> n < length (log (take (Suc k) cs))) \<and>
    (t \<longrightarrow> length (log (take k cs)) < n) \<and>
    LoadFile done (Some replay) st (Inr (take n (log cs))) closed =
      (case replay_log done replay st 0 (take k cs) of
         (st', j, err) \<Rightarrow> (st', \<lparr>ls_ReplayedCommands = j, ls_TruncatedTail = t\<rparr>, if err = None then map_option CloseFailed closed else err)) \<and>
    (all_accepted replay st (take k cs) \<longrightarrow> (\<forall>j. \<not> done j) \<longrightarrow> closed = None \<longrightarrow>
       LoadFile done (Some replay) st (Inr (take n (log cs))) closed =
         (replays replay st (take k cs), \<lparr>ls_ReplayedCommands = k, ls_TruncatedTail = t\<rparr>, None))"
proof -
  obtain k p q where k: "k \<le> length cs" "take n (log cs) = log (take k cs) @ p"
    and p: "if k = length cs then p = [] else p @ q = wire (frame (cs ! k)) \<and> q \<noteq> []"
    using cut_log [OF assms(2)] by blast
  have n: "n = length (log (take k cs)) + length p" using arg_cong [OF k(2), of length] assms(2) by simp
  have "\<exists>e. Parse p = Inl e \<and> torn e"
  proof (cases "k = length cs")
    case True
    then show ?thesis using p by (simp add: Parse_def)
  next
    case False
    then show ?thesis using Parse_torn [of p q "cs ! k"] p k(1) assms(1) by simp
  qed
  then obtain e where e: "Parse p = Inl e" "torn e" by blast
  have fits: "\<forall>c \<in> set (take k cs). command_fits c" using assms(1) by (auto dest: in_set_takeD)
  obtain t where t: "LoadFile done (Some replay) st (Inr (take n (log cs))) closed =
      (case replay_log done replay st 0 (take k cs) of
         (st', j, err) \<Rightarrow> (st', \<lparr>ls_ReplayedCommands = j, ls_TruncatedTail = t\<rparr>, if err = None then map_option CloseFailed closed else err))"
    "t \<longrightarrow> p \<noteq> []"
    using LoadFile_log [OF fits e(1) disjI1 [OF e(2)], of "done" replay st closed] unfolding k(2) by blast
  have cut: "k < length cs \<longrightarrow> n < length (log (take (Suc k) cs))"
  proof
    assume "k < length cs"
    then have "length (wire (frame (cs ! k))) = length p + length q" "q \<noteq> []"
        "length (log (take (Suc k) cs)) = length (log (take k cs)) + length (wire (frame (cs ! k)))"
      using p by (simp_all add: take_Suc_conv_app_nth log_def) (metis length_append)
    then show "n < length (log (take (Suc k) cs))" using n by simp
  qed
  have "length (log (take k cs)) < n" if t using t(2) n that by simp
  moreover have "LoadFile done (Some replay) st (Inr (take n (log cs))) closed =
         (replays replay st (take k cs), \<lparr>ls_ReplayedCommands = k, ls_TruncatedTail = t\<rparr>, None)"
    if "all_accepted replay st (take k cs)" "\<forall>j. \<not> done j" "closed = None"
    unfolding t(1) using that k(1) by (simp add: replay_log_accepted min_def)
  ultimately show ?thesis using k(1) n cut t(1) by (intro exI [of _ k] exI [of _ t]) simp
qed

text \<open>Examples: a replay function that collects what it is given, and three commands.\<close>

definition collect :: "Value list \<Rightarrow> Value \<Rightarrow> Value list \<times> unit option" where
  "collect vs v = (vs @ [v], None)"

abbreviation set_a :: "bytes list" where "set_a \<equiv> [str ''SET'', str ''a'', str ''1'']"
abbreviation set_b :: "bytes list" where "set_b \<equiv> [str ''SET'', str ''b'', str ''hello'']"

theorem aof_crash_recovery_witness:
  "fst (load collect [] (take 40 (log [set_a, set_b]))) = [frame set_a]"
proof -
  have fits: "\<forall>c \<in> set [set_a, set_b]. command_fits c" by code_simp
  have len: "length (log [set_a]) = 27" "length (log [set_a, set_b]) = 58" by code_simp+
  have acc: "all_accepted collect vs cs" for vs cs by (induction cs arbitrary: vs) (simp_all add: collect_def)
  have n: "40 \<le> length (log [set_a, set_b])" using len by simp
  from aof_crash_recovery [OF fits n, of "\<lambda>_. False" collect "[]" "None :: unit option"] acc obtain k t where
    k: "k \<le> length [set_a, set_b]" "length (log (take k [set_a, set_b])) \<le> 40"
      "k < length [set_a, set_b] \<longrightarrow> 40 < length (log (take (Suc k) [set_a, set_b]))"
      "load collect [] (take 40 (log [set_a, set_b])) =
         (replays collect [] (take k [set_a, set_b]), \<lparr>ls_ReplayedCommands = k, ls_TruncatedTail = t\<rparr>, None)"
    by blast
  have "k = 1"
  proof (rule ccontr)
    assume "k \<noteq> 1"
    then have "k = 0 \<or> k = 2" using k(1) by auto
    then show False using k(2,3) len by (auto simp: take_Cons')
  qed
  then show ?thesis using k(4) by (simp add: replays_def collect_def)
qed

text \<open>A command torn inside the payload of its last argument.\<close>

definition torn_wire :: "bytes list \<Rightarrow> bytes \<Rightarrow> nat \<Rightarrow> bytes" where
  "torn_wire args v m =
     42 # formatInt (int (length args + 1)) @ CRLF @ concat (map (\<lambda>a. wire (bulk a)) args) @
     36 # formatInt (int (length v)) @ CRLF @ take m v"

lemma torn_wire_prefix: "\<exists>q. torn_wire args v m @ q = wire (frame (args @ [v])) \<and> q \<noteq> []"
  by (intro exI [of _ "drop m v @ CRLF"]) (simp add: torn_wire_def wire_frame)





end
