(* ===== verification/Aof_Writer.thy ===== *)
theory Aof_Writer
  imports Aof_Load
begin

text \<open>
  Writing and rewriting the append-only file: \<^verbatim>\<open>src/internal/aof/writer.go\<close> and \<^verbatim>\<open>types.go\<close>, with the \<^verbatim>\<open>bufio.Writer\<close> the
  writer puts before the file.

  The state holds what is in the file at \<^verbatim>\<open>path\<close>, how much of it an fsync of this writer has made durable (nothing when the file
  has just been opened), the buffer and its sticky error, and the flags of a rewrite.  What the operating system does is an argument of every operation: which of its write calls fails
  and after how many bytes, and whether fsync, close, rename and open succeed.  The steps of the background rewrite between two
  acquisitions of the lock are operations of their own, so that runs interleave them with appends.

  Shown: whatever write, flush and fsync calls fail, the file holds a prefix of the log that was accepted; an acknowledged
  \<^verbatim>\<open>AppendSync\<close> is on disk; a rewrite that completes leaves the snapshot followed by what was appended since.
  Also shown: a rewrite whose rename fails loses what the buffer held, and a command whose effect is already in the snapshot can
  end up in the new file a second time.
\<close>

section \<open>Policies\<close>

datatype Policy = PolicyAlways | PolicyEverysec | PolicyNo

text \<open>\<^verbatim>\<open>strings.ToLower\<close> and \<^verbatim>\<open>strings.TrimSpace\<close> on ASCII text.\<close>

definition lower_byte :: "byte \<Rightarrow> byte" where
  "lower_byte b = (if 65 \<le> b \<and> b \<le> 90 then b + 32 else b)"

definition is_space :: "byte \<Rightarrow> bool" where
  "is_space b \<longleftrightarrow> b = 32 \<or> 9 \<le> b \<and> b \<le> 13"

definition TrimSpace :: "bytes \<Rightarrow> bytes" where
  "TrimSpace s = rev (dropWhile is_space (rev (dropWhile is_space s)))"

definition ParsePolicy :: "bytes \<Rightarrow> bytes + Policy" where
  "ParsePolicy raw =
     (let s = map lower_byte (TrimSpace raw) in
      if s = [] \<or> s = str ''everysec'' then Inr PolicyEverysec
      else if s = str ''always'' then Inr PolicyAlways
      else if s = str ''no'' then Inr PolicyNo
      else Inl raw)"

primrec Policy_String :: "Policy \<Rightarrow> bytes" where
  "Policy_String PolicyAlways = str ''always''"
| "Policy_String PolicyNo = str ''no''"
| "Policy_String PolicyEverysec = str ''everysec''"

lemma ParsePolicy_String: "ParsePolicy (Policy_String p) = Inr p"
  by (cases p; hypsubst; code_simp)

section \<open>State\<close>

datatype aof_error = ErrClosed | ErrRewriteInProgress | AofIO

record Writer =
  aw_policy :: Policy
  aw_file :: bytes
  aw_synced :: nat
  aw_open :: bool
  aw_buf :: bytes
  aw_bufErr :: bool
  aw_rewriteBuffer :: bytes
  aw_rewriteActive :: bool
  aw_rewritePending :: bool
  aw_closed :: bool

definition newWriter :: "Policy \<Rightarrow> bytes \<Rightarrow> Writer" where
  "newWriter policy content =
     \<lparr>aw_policy = policy, aw_file = content, aw_synced = 0, aw_open = True, aw_buf = [], aw_bufErr = False,
      aw_rewriteBuffer = [], aw_rewriteActive = False, aw_rewritePending = False, aw_closed = False\<rparr>"

datatype open_error = EmptyFilePath | CreateDirectoryFailed | OpenFileFailed

text \<open>Whether the directory can be made and what opening the file finds (\<^term>\<open>None\<close>: it fails) are arguments.\<close>

definition OpenWriter :: "bytes \<Rightarrow> Policy \<Rightarrow> bool \<Rightarrow> bytes option \<Rightarrow> open_error + Writer" where
  "OpenWriter path policy made opened =
     (if path = [] then Inl EmptyFilePath
      else if \<not> made then Inl CreateDirectoryFailed
      else case opened of None \<Rightarrow> Inl OpenFileFailed | Some content \<Rightarrow> Inr (newWriter policy content))"

section \<open>The buffered writer\<close>

text \<open>The outcomes of the write calls of one operation, by number: success, or failure after some bytes.\<close>

type_synonym write_io = "nat \<Rightarrow> nat option"

definition file_write :: "write_io \<Rightarrow> nat \<Rightarrow> bytes \<Rightarrow> Writer \<Rightarrow> Writer \<times> nat \<times> bool" where
  "file_write io i p w =
     (if \<not> aw_open w then (w, 0, True)
      else case io i of
        None \<Rightarrow> (w\<lparr>aw_file := aw_file w @ p\<rparr>, length p, False)
      | Some n \<Rightarrow> (w\<lparr>aw_file := aw_file w @ take n p\<rparr>, min n (length p), True))"

definition bufio_Flush :: "write_io \<Rightarrow> nat \<Rightarrow> Writer \<Rightarrow> Writer" where
  "bufio_Flush io i w =
     (if aw_bufErr w \<or> aw_buf w = [] then w
      else case file_write io i (aw_buf w) w of
        (w, n, failed) \<Rightarrow>
          if failed then w\<lparr>aw_buf := drop n (aw_buf w), aw_bufErr := True\<rparr> else w\<lparr>aw_buf := []\<rparr>)"

text \<open>The loop of \<^verbatim>\<open>bufio.Writer.Write\<close>: while the rest does not fit, write it directly when the buffer is empty, and otherwise
  fill the buffer and flush.  The result is the rest that did fit.\<close>

lemma Flush_empties: "aw_bufErr (bufio_Flush io i w) \<or> aw_buf (bufio_Flush io i w) = []"
  by (auto simp: bufio_Flush_def split: prod.splits)

function bufio_loop :: "write_io \<Rightarrow> nat \<Rightarrow> bytes \<Rightarrow> Writer \<Rightarrow> Writer \<times> bytes" where
  "bufio_loop io i p w =
     (if aw_bufErr w \<or> length p \<le> bufioSize - length (aw_buf w) then (w, p)
      else if aw_buf w = [] then
        (case file_write io i p w of (w, n, failed) \<Rightarrow> (w\<lparr>aw_bufErr := failed\<rparr>, drop n p))
      else
        let n = bufioSize - length (aw_buf w) in
        bufio_loop io (i + 1) (drop n p) (bufio_Flush io i (w\<lparr>aw_buf := aw_buf w @ take n p\<rparr>)))"
  by pat_completeness auto
termination
proof (relation "measure (\<lambda>(io, i, p, w). if aw_bufErr w then 0 else length (aw_buf w))", goal_cases)
  case (2 io i p w n)
  have "aw_bufErr (bufio_Flush io i (w\<lparr>aw_buf := aw_buf w @ take n p\<rparr>)) \<or>
      aw_buf (bufio_Flush io i (w\<lparr>aw_buf := aw_buf w @ take n p\<rparr>)) = []" by (rule Flush_empties)
  then show ?case using 2 by auto
qed simp

declare bufio_loop.simps [simp del]

definition bufio_Write :: "write_io \<Rightarrow> bytes \<Rightarrow> Writer \<Rightarrow> Writer \<times> bool" where
  "bufio_Write io p w =
     (case bufio_loop io 0 p w of (w, rest) \<Rightarrow>
        if aw_bufErr w then (w, True) else (w\<lparr>aw_buf := aw_buf w @ rest\<rparr>, False))"

section \<open>Operations\<close>

definition flushLocked :: "write_io \<Rightarrow> Writer \<Rightarrow> Writer \<times> aof_error option" where
  "flushLocked io w = (let w = bufio_Flush io 9 w in (w, if aw_bufErr w then Some AofIO else None))"

definition syncLocked :: "write_io \<Rightarrow> bool \<Rightarrow> Writer \<Rightarrow> Writer \<times> aof_error option" where
  "syncLocked io synced w =
     (case flushLocked io w of
        (w, Some e) \<Rightarrow> (w, Some e)
      | (w, None) \<Rightarrow> if aw_open w \<and> synced then (w\<lparr>aw_synced := length (aw_file w)\<rparr>, None) else (w, Some AofIO))"

definition aof_sync :: "write_io \<Rightarrow> bool \<Rightarrow> Writer \<Rightarrow> Writer \<times> aof_error option" where
  "aof_sync io synced w = (if aw_closed w then (w, Some ErrClosed) else syncLocked io synced w)"

definition aof_append :: "write_io \<Rightarrow> bool \<Rightarrow> bytes \<Rightarrow> bool \<Rightarrow> Writer \<Rightarrow> Writer \<times> aof_error option" where
  "aof_append io synced payload syncNow w =
     (if payload = [] then (w, None)
      else if aw_closed w then (w, Some ErrClosed)
      else case bufio_Write io payload w of
        (w, True) \<Rightarrow> (w, Some AofIO)
      | (w, False) \<Rightarrow>
          let w = (if aw_rewriteActive w then w\<lparr>aw_rewriteBuffer := aw_rewriteBuffer w @ payload\<rparr> else w) in
          if syncNow then syncLocked io synced w
          else if aw_policy w = PolicyNo then flushLocked io w
          else (w, None))"

definition Append :: "write_io \<Rightarrow> bool \<Rightarrow> bytes \<Rightarrow> Writer \<Rightarrow> Writer \<times> aof_error option" where
  "Append io synced payload w = aof_append io synced payload False w"

definition AppendSync :: "write_io \<Rightarrow> bool \<Rightarrow> bytes \<Rightarrow> Writer \<Rightarrow> Writer \<times> aof_error option" where
  "AppendSync io synced payload w = aof_append io synced payload True w"

definition aof_Close :: "write_io \<Rightarrow> bool \<Rightarrow> bool \<Rightarrow> Writer \<Rightarrow> Writer \<times> aof_error option" where
  "aof_Close io synced closed w =
     (if aw_closed w then (w, None)
      else case syncLocked io synced (w\<lparr>aw_closed := True\<rparr>) of
        (w, e) \<Rightarrow> (w\<lparr>aw_open := False\<rparr>, if e \<noteq> None then e else if closed then None else Some AofIO))"

definition BeginRewrite :: "Writer \<Rightarrow> Writer \<times> aof_error option" where
  "BeginRewrite w =
     (if aw_closed w then (w, Some ErrClosed)
      else if aw_rewritePending w \<or> aw_rewriteActive w then (w, Some ErrRewriteInProgress)
      else (w\<lparr>aw_rewritePending := True\<rparr>, None))"

text \<open>The callback that \<^verbatim>\<open>runRewrite\<close> hands to the store's snapshot; it says whether the rewrite was activated.\<close>

definition activateRewrite :: "Writer \<Rightarrow> Writer \<times> bool" where
  "activateRewrite w =
     (if aw_closed w then (w\<lparr>aw_rewritePending := False\<rparr>, False)
      else (w\<lparr>aw_rewriteActive := True, aw_rewritePending := False, aw_rewriteBuffer := []\<rparr>, True))"

definition clearRewriteStateLocked :: "bool \<Rightarrow> Writer \<Rightarrow> Writer" where
  "clearRewriteStateLocked active w =
     (let w = (if active then w\<lparr>aw_rewriteActive := False, aw_rewriteBuffer := []\<rparr> else w) in w\<lparr>aw_rewritePending := False\<rparr>)"

datatype rename_result = RenameOK | RenameExists | RenameFailed

record swap_io =
  si_temp_write :: bool
  si_temp_sync :: bool
  si_temp_close :: bool
  si_old_close :: bool
  si_rename :: rename_result
  si_remove :: bool
  si_retry :: bool
  si_sync_dir :: bool
  si_reopen :: bool

text \<open>\<^verbatim>\<open>replaceFile\<close>: the content of the target afterwards (nothing if it was removed and the second rename failed), and whether it
  reports success.\<close>

definition replaceFile :: "swap_io \<Rightarrow> bytes \<Rightarrow> bytes \<Rightarrow> bytes option \<times> bool" where
  "replaceFile io temp target =
     (case si_rename io of
        RenameOK \<Rightarrow> (Some temp, si_sync_dir io)
      | RenameFailed \<Rightarrow> (Some target, False)
      | RenameExists \<Rightarrow>
          if \<not> si_remove io then (Some target, False)
          else if \<not> si_retry io then (None, False)
          else (Some temp, si_sync_dir io))"

definition reopenAppendOnlyFileLocked :: "swap_io \<Rightarrow> bytes option \<Rightarrow> Writer \<Rightarrow> Writer \<times> bool" where
  "reopenAppendOnlyFileLocked io content w =
     (if si_reopen io
      then (w\<lparr>aw_file := (case content of None \<Rightarrow> [] | Some c \<Rightarrow> c), aw_open := True, aw_buf := [], aw_bufErr := False\<rparr>, True)
      else (w\<lparr>aw_file := (case content of None \<Rightarrow> [] | Some c \<Rightarrow> c)\<rparr>, False))"

definition swapRewriteFileLocked :: "swap_io \<Rightarrow> bytes \<Rightarrow> Writer \<Rightarrow> Writer \<times> bool" where
  "swapRewriteFileLocked io temp w =
     (let w = w\<lparr>aw_open := False\<rparr> in
      if \<not> si_old_close io then (w, False)
      else case replaceFile io temp (aw_file w) of
        (content, True) \<Rightarrow>
          let w = w\<lparr>aw_synced := length temp\<rparr> in reopenAppendOnlyFileLocked io content w
      | (content, False) \<Rightarrow> (fst (reopenAppendOnlyFileLocked io content w), False))"

text \<open>The file the rewrite generated is \<open>temp\<close>; the result is whether the rewrite completed.\<close>

definition finalizeRewrite :: "swap_io \<Rightarrow> bytes \<Rightarrow> Writer \<Rightarrow> Writer \<times> (aof_error + bool)" where
  "finalizeRewrite io temp w =
     (if aw_closed w then (clearRewriteStateLocked True w, Inr False)
      else if \<not> si_temp_write io \<or> \<not> si_temp_sync io \<or> \<not> si_temp_close io then (clearRewriteStateLocked True w, Inl AofIO)
      else case swapRewriteFileLocked io (temp @ aw_rewriteBuffer w) w of
        (w, ok) \<Rightarrow> (clearRewriteStateLocked True w, if ok then Inr True else Inl AofIO))"

section \<open>What the buffered writer keeps\<close>

text \<open>File and buffer together only grow, by a prefix of what is written; all of it goes in unless the buffer reports an error.\<close>

lemma file_write_spec:
  "file_write io i p w = (w', n, failed) \<Longrightarrow>
     w' = w\<lparr>aw_file := aw_file w @ take n p\<rparr> \<and> n \<le> length p \<and> (\<not> failed \<longrightarrow> n = length p)"
  by (auto simp: file_write_def min_def split: if_splits option.splits)

definition same_meta :: "Writer \<Rightarrow> Writer \<Rightarrow> bool" where
  "same_meta w w' \<longleftrightarrow> aw_policy w' = aw_policy w \<and> aw_rewriteBuffer w' = aw_rewriteBuffer w \<and> aw_rewriteActive w' = aw_rewriteActive w \<and>
     aw_rewritePending w' = aw_rewritePending w \<and> aw_closed w' = aw_closed w \<and> aw_open w' = aw_open w"

lemma bufio_Flush_spec:
  "aw_file (bufio_Flush io i w) @ aw_buf (bufio_Flush io i w) = aw_file w @ aw_buf w \<and> same_meta w (bufio_Flush io i w) \<and>
   (aw_bufErr w \<longrightarrow> bufio_Flush io i w = w) \<and> aw_synced (bufio_Flush io i w) = aw_synced w"
proof (cases "aw_bufErr w \<or> aw_buf w = []")
  case False
  obtain w' n f where f: "file_write io i (aw_buf w) w = (w', n, f)" by (cases "file_write io i (aw_buf w) w")
  then show ?thesis using False file_write_spec [OF f] by (auto simp: bufio_Flush_def same_meta_def)
qed (auto simp: bufio_Flush_def same_meta_def)

lemma bufio_loop_spec:
  "bufio_loop io i p w = (w', rest) \<Longrightarrow>
     \<exists>done. p = done @ rest \<and> aw_file w' @ aw_buf w' = aw_file w @ aw_buf w @ done \<and> same_meta w w' \<and> (aw_bufErr w \<longrightarrow> w' = w \<and> rest = p)"
proof (induction io i p w rule: bufio_loop.induct)
  case (1 io i p w)
  show ?case
  proof (cases "aw_bufErr w \<or> length p \<le> bufioSize - length (aw_buf w)")
    case True
    then show ?thesis using 1(2) by (simp add: bufio_loop.simps same_meta_def)
  next
    case no: False
    show ?thesis
    proof (cases "aw_buf w = []")
      case True
      obtain w1 n f where f: "file_write io i p w = (w1, n, f)" by (cases "file_write io i p w")
      have "rest = drop n p" "w' = w1\<lparr>aw_bufErr := f\<rparr>" using 1(2) no True f by (simp_all add: bufio_loop.simps)
      then show ?thesis using file_write_spec [OF f] no True by (intro exI [of _ "take n p"]) (auto simp: same_meta_def)
    next
      case False
      let ?n = "bufioSize - length (aw_buf w)" and ?w = "w\<lparr>aw_buf := aw_buf w @ take (bufioSize - length (aw_buf w)) p\<rparr>"
      have l: "bufio_loop io (i + 1) (drop ?n p) (bufio_Flush io i ?w) = (w', rest)"
        using 1(2) no False by (subst (asm) bufio_loop.simps) (simp add: Let_def)
      obtain d where d: "drop ?n p = d @ rest" "aw_file w' @ aw_buf w' = aw_file (bufio_Flush io i ?w) @ aw_buf (bufio_Flush io i ?w) @ d"
        "same_meta (bufio_Flush io i ?w) w'"
        using 1(1) [OF no False refl l] by blast
      have "p = take ?n p @ d @ rest" using d(1) by (metis append_take_drop_id)
      then show ?thesis using d(2,3) bufio_Flush_spec [of io i ?w] no
        by (intro exI [of _ "take ?n p @ d"]) (auto simp: same_meta_def simp flip: append_assoc)
    qed
  qed
qed

lemma bufio_Write_spec:
  assumes "bufio_Write io p w = (w', failed)"
  shows "\<exists>part q. p = part @ q \<and> aw_file w' @ aw_buf w' = aw_file w @ aw_buf w @ part \<and> same_meta w w' \<and>
    failed = aw_bufErr w' \<and> (\<not> failed \<longrightarrow> q = []) \<and> (aw_bufErr w \<longrightarrow> failed \<and> part = [])"
proof -
  obtain w1 rest where l: "bufio_loop io 0 p w = (w1, rest)" by (cases "bufio_loop io 0 p w")
  obtain d where d: "p = d @ rest" "aw_file w1 @ aw_buf w1 = aw_file w @ aw_buf w @ d" "same_meta w w1" "aw_bufErr w \<longrightarrow> w1 = w \<and> rest = p"
    using bufio_loop_spec [OF l] by blast
  show ?thesis
  proof (cases "aw_bufErr w1")
    case True
    then have "w' = w1" "failed" using assms l by (simp_all add: bufio_Write_def)
    then show ?thesis using d True by (intro exI [of _ d] exI [of _ rest]) auto
  next
    case False
    then have "w' = w1\<lparr>aw_buf := aw_buf w1 @ rest\<rparr>" "\<not> failed" using assms l by (simp_all add: bufio_Write_def)
    then show ?thesis using d False by (intro exI [of _ p] exI [of _ "[]"]) (auto simp: same_meta_def simp flip: append_assoc)
  qed
qed

lemma flushLocked_spec:
  "flushLocked io w = (w', e) \<Longrightarrow> aw_file w' @ aw_buf w' = aw_file w @ aw_buf w \<and> same_meta w w' \<and> (e = None \<longleftrightarrow> \<not> aw_bufErr w') \<and>
     (aw_bufErr w \<longrightarrow> aw_bufErr w') \<and> (e = None \<longrightarrow> aw_buf w' = [])"
  using bufio_Flush_spec [of io 9 w] Flush_empties [of io 9 w] by (auto simp: flushLocked_def Let_def split: if_splits)

lemma syncLocked_spec:
  assumes "syncLocked io synced w = (w', e)"
  shows "aw_file w' @ aw_buf w' = aw_file w @ aw_buf w \<and> same_meta w w' \<and> (aw_bufErr w \<longrightarrow> aw_bufErr w') \<and>
    (e = None \<longrightarrow> \<not> aw_bufErr w' \<and> aw_buf w' = [] \<and> aw_synced w' = length (aw_file w'))"
proof -
  obtain w1 e1 where f: "flushLocked io w = (w1, e1)" by (cases "flushLocked io w")
  show ?thesis using assms f flushLocked_spec [OF f] by (auto simp: syncLocked_def same_meta_def split: option.splits if_splits)
qed

section \<open>Runs of the writer\<close>

text \<open>
  The history of a writer: the content the log builds on (what the file held when it was opened, or what the last completed rewrite
  generated), the payloads accepted since, the position among them at which the current rewrite was activated, the payloads
  refused, and whether a swap has failed.
\<close>

record aof_run =
  ar_w :: Writer
  ar_base :: bytes
  ar_log :: "bytes list"
  ar_mark :: nat
  ar_refused :: "bytes list"
  ar_swapFailed :: bool

datatype aof_op =
    AofAppend write_io bool bytes bool
  | AofSync write_io bool
  | AofClose write_io bool bool
  | AofBegin
  | AofActivate
  | AofAbandon
  | AofFinalize swap_io bytes

fun aof_do :: "aof_run \<Rightarrow> aof_op \<Rightarrow> aof_run" where
  "aof_do c (AofAppend io synced p syncNow) =
     (let w = ar_w c; w' = fst (aof_append io synced p syncNow w) in
      if p = [] \<or> aw_closed w then c\<lparr>ar_w := w'\<rparr>
      else if snd (bufio_Write io p w) then c\<lparr>ar_w := w', ar_refused := ar_refused c @ [p]\<rparr>
      else c\<lparr>ar_w := w', ar_log := ar_log c @ [p]\<rparr>)"
| "aof_do c (AofSync io synced) = c\<lparr>ar_w := fst (aof_sync io synced (ar_w c))\<rparr>"
| "aof_do c (AofClose io synced closed) = c\<lparr>ar_w := fst (aof_Close io synced closed (ar_w c))\<rparr>"
| "aof_do c AofBegin = c\<lparr>ar_w := fst (BeginRewrite (ar_w c))\<rparr>"
| "aof_do c AofActivate =
     (case activateRewrite (ar_w c) of (w, activated) \<Rightarrow>
        c\<lparr>ar_w := w, ar_mark := (if activated then length (ar_log c) else ar_mark c)\<rparr>)"
| "aof_do c AofAbandon = c\<lparr>ar_w := clearRewriteStateLocked True (ar_w c)\<rparr>"
| "aof_do c (AofFinalize io temp) =
     (if \<not> aw_rewriteActive (ar_w c) then c
      else case finalizeRewrite io temp (ar_w c) of
        (w, Inr True) \<Rightarrow> c\<lparr>ar_w := w, ar_base := temp, ar_log := drop (ar_mark c) (ar_log c), ar_mark := 0\<rparr>
      | (w, Inr False) \<Rightarrow> c\<lparr>ar_w := w\<rparr>
      | (w, Inl _) \<Rightarrow>
          c\<lparr>ar_w := w, ar_swapFailed := ar_swapFailed c \<or> si_temp_write io \<and> si_temp_sync io \<and> si_temp_close io \<and> si_old_close io\<rparr>)"

text \<open>A run starts with a writer that \<^verbatim>\<open>OpenWriter\<close> returned.\<close>

definition aof_start :: "Policy \<Rightarrow> bytes \<Rightarrow> aof_run" where
  "aof_start policy content =
     \<lparr>ar_w = newWriter policy content, ar_base = content, ar_log = [], ar_mark = 0, ar_refused = [], ar_swapFailed = False\<rparr>"

definition aof_inv :: "aof_run \<Rightarrow> bool" where
  "aof_inv c \<longleftrightarrow>
     (\<exists>part. aw_file (ar_w c) @ aw_buf (ar_w c) = ar_base c @ concat (ar_log c) @ part \<and>
        (\<not> aw_bufErr (ar_w c) \<longrightarrow> part = []) \<and>
        (part = [] \<or> (\<exists>p \<in> set (ar_refused c). \<exists>q. p = part @ q))) \<and>
     (aw_rewriteActive (ar_w c) \<longrightarrow> ar_mark c \<le> length (ar_log c) \<and> aw_rewriteBuffer (ar_w c) = concat (drop (ar_mark c) (ar_log c)))"

lemma aof_invI:
  assumes "aw_file (ar_w c) @ aw_buf (ar_w c) = ar_base c @ concat (ar_log c) @ part" "\<not> aw_bufErr (ar_w c) \<Longrightarrow> part = []"
    "part = [] \<or> (\<exists>p \<in> set (ar_refused c). \<exists>q. p = part @ q)"
    "aw_rewriteActive (ar_w c) \<Longrightarrow> ar_mark c \<le> length (ar_log c) \<and> aw_rewriteBuffer (ar_w c) = concat (drop (ar_mark c) (ar_log c))"
  shows "aof_inv c"
  unfolding aof_inv_def using assms by blast

lemma aof_invD:
  assumes "aof_inv c"
  shows "\<not> aw_bufErr (ar_w c) \<Longrightarrow> aw_file (ar_w c) @ aw_buf (ar_w c) = ar_base c @ concat (ar_log c)"
    "aw_rewriteActive (ar_w c) \<Longrightarrow> ar_mark c \<le> length (ar_log c) \<and> aw_rewriteBuffer (ar_w c) = concat (drop (ar_mark c) (ar_log c))"
  using assms by (auto simp: aof_inv_def)

lemma inv_content:
  assumes "aof_inv c" "aw_file w @ aw_buf w = aw_file (ar_w c) @ aw_buf (ar_w c)" "aw_bufErr (ar_w c) \<longrightarrow> aw_bufErr w"
    "aw_rewriteActive w \<longrightarrow> aw_rewriteActive (ar_w c) \<and> aw_rewriteBuffer w = aw_rewriteBuffer (ar_w c)"
  shows "aof_inv (c\<lparr>ar_w := w\<rparr>)"
  using assms unfolding aof_inv_def by auto

lemma aof_append_inv:
  assumes inv: "aof_inv c" and p: "p \<noteq> []" "\<not> aw_closed (ar_w c)"
  shows "aof_inv (aof_do c (AofAppend io synced p syncNow))"
proof -
  obtain w1 failed where b: "bufio_Write io p (ar_w c) = (w1, failed)" by (cases "bufio_Write io p (ar_w c)")
  obtain part q where bs: "p = part @ q" "aw_file w1 @ aw_buf w1 = aw_file (ar_w c) @ aw_buf (ar_w c) @ part" "same_meta (ar_w c) w1"
    "failed = aw_bufErr w1" "\<not> failed \<longrightarrow> q = []" "aw_bufErr (ar_w c) \<longrightarrow> failed \<and> part = []"
    using bufio_Write_spec [OF b] by blast
  show ?thesis
  proof (cases failed)
    case True
    have "aof_do c (AofAppend io synced p syncNow) = c\<lparr>ar_w := w1, ar_refused := ar_refused c @ [p]\<rparr>"
      using b p True by (simp add: aof_append_def Let_def)
    moreover have "aof_inv (c\<lparr>ar_w := w1, ar_refused := ar_refused c @ [p]\<rparr>)"
    proof (cases "aw_bufErr (ar_w c)")
      case err: True
      then have "aw_file w1 @ aw_buf w1 = aw_file (ar_w c) @ aw_buf (ar_w c)" "aw_bufErr w1" using bs True by auto
      moreover have "aof_inv (c\<lparr>ar_refused := ar_refused c @ [p]\<rparr>)" using inv by (auto simp: aof_inv_def)
      ultimately have "aof_inv (c\<lparr>ar_refused := ar_refused c @ [p], ar_w := w1\<rparr>)"
        using inv_content [of "c\<lparr>ar_refused := ar_refused c @ [p]\<rparr>" w1] bs(3) by (simp add: same_meta_def)
      moreover have "c\<lparr>ar_refused := ar_refused c @ [p], ar_w := w1\<rparr> = c\<lparr>ar_w := w1, ar_refused := ar_refused c @ [p]\<rparr>" by simp
      ultimately show ?thesis by simp
    next
      case False
      have "aw_file w1 @ aw_buf w1 = ar_base c @ concat (ar_log c) @ part" using aof_invD(1) [OF inv False] bs(2) by (simp flip: append_assoc)
      then show ?thesis using bs True aof_invD(2) [OF inv] by (intro aof_invI [of _ part]) (auto simp: same_meta_def)
    qed
    ultimately show ?thesis by simp
  next
    case False
    let ?w = "if aw_rewriteActive w1 then w1\<lparr>aw_rewriteBuffer := aw_rewriteBuffer w1 @ p\<rparr> else w1"
    let ?c = "c\<lparr>ar_w := ?w, ar_log := ar_log c @ [p]\<rparr>"
    have ok: "\<not> aw_bufErr (ar_w c)" "part = p" using bs False by auto
    have "aw_file w1 @ aw_buf w1 = ar_base c @ concat (ar_log c) @ p" using aof_invD(1) [OF inv ok(1)] bs(2) ok(2) by (simp flip: append_assoc)
    then have "aof_inv ?c" using bs(3,4) False aof_invD(2) [OF inv] by (intro aof_invI [of _ "[]"]) (auto simp: same_meta_def)
    moreover obtain w2 e where w2: "aof_append io synced p syncNow (ar_w c) = (w2, e)" by (cases "aof_append io synced p syncNow (ar_w c)")
    moreover have "aw_file w2 @ aw_buf w2 = aw_file ?w @ aw_buf ?w \<and> (aw_bufErr ?w \<longrightarrow> aw_bufErr w2) \<and> same_meta ?w w2"
      using w2 b p False syncLocked_spec [of io synced ?w w2 e] flushLocked_spec [of io ?w w2 e]
      by (auto simp: aof_append_def Let_def same_meta_def split: if_splits)
    ultimately have "aof_inv (?c\<lparr>ar_w := w2\<rparr>)" by (intro inv_content) (auto simp: same_meta_def)
    moreover have "aof_do c (AofAppend io synced p syncNow) = ?c\<lparr>ar_w := w2\<rparr>" using b p False w2 by (simp add: Let_def)
    ultimately show ?thesis by simp
  qed
qed

lemma finalize_inv:
  assumes inv: "aof_inv c" and ok: "\<not> ar_swapFailed (aof_do c (AofFinalize io temp))"
  shows "aof_inv (aof_do c (AofFinalize io temp))"
proof (cases "aw_rewriteActive (ar_w c)")
  case True
  let ?w = "ar_w c" and ?t = "temp @ aw_rewriteBuffer (ar_w c)"
  consider (closed) "aw_closed ?w" | (temp) "\<not> aw_closed ?w" "\<not> si_temp_write io \<or> \<not> si_temp_sync io \<or> \<not> si_temp_close io"
    | (old) "\<not> aw_closed ?w" "si_temp_write io" "si_temp_sync io" "si_temp_close io" "\<not> si_old_close io"
    | (swap) "\<not> aw_closed ?w" "si_temp_write io" "si_temp_sync io" "si_temp_close io" "si_old_close io" by blast
  then show ?thesis
  proof cases
    case swap
    then obtain w' where w': "swapRewriteFileLocked io ?t ?w = (w', True)"
      using ok True by (cases "swapRewriteFileLocked io ?t ?w") (auto simp: finalizeRewrite_def split: if_splits)
    then have "aw_file w' = ?t" "aw_buf w' = []" "\<not> aw_bufErr w'"
      by (auto simp: swapRewriteFileLocked_def reopenAppendOnlyFileLocked_def replaceFile_def Let_def
          split: if_splits rename_result.splits bool.splits)
    then show ?thesis using inv True swap w' unfolding aof_inv_def
      by (auto simp: finalizeRewrite_def clearRewriteStateLocked_def Let_def)
  next
    case old
    then have "aof_do c (AofFinalize io temp) = c\<lparr>ar_w := clearRewriteStateLocked True (?w\<lparr>aw_open := False\<rparr>)\<rparr>"
      using True by (simp add: finalizeRewrite_def swapRewriteFileLocked_def Let_def)
    then show ?thesis using inv by (simp only:) (rule inv_content, simp_all add: clearRewriteStateLocked_def Let_def)
  qed (use inv True in \<open>auto simp: finalizeRewrite_def intro!: inv_content simp: clearRewriteStateLocked_def Let_def\<close>)
qed (use inv in simp)

lemma aof_do_inv:
  assumes inv: "aof_inv c" and ok: "\<not> ar_swapFailed (aof_do c op)"
  shows "aof_inv (aof_do c op)"
proof (cases op)
  case (AofAppend io synced p syncNow)
  show ?thesis
  proof (cases "p = [] \<or> aw_closed (ar_w c)")
    case True
    then show ?thesis using inv AofAppend by (auto simp: aof_append_def Let_def)
  next
    case False
    then show ?thesis using aof_append_inv [OF inv] AofAppend by blast
  qed
next
  case (AofSync io synced)
  obtain w e where "syncLocked io synced (ar_w c) = (w, e)" by (cases "syncLocked io synced (ar_w c)")
  then show ?thesis using inv syncLocked_spec [of io synced "ar_w c" w e] AofSync
    by (auto simp: aof_sync_def same_meta_def intro!: inv_content)
next
  case (AofClose io synced closed)
  let ?w = "(ar_w c)\<lparr>aw_closed := True\<rparr>"
  obtain w e where s: "syncLocked io synced ?w = (w, e)" by (cases "syncLocked io synced ?w")
  show ?thesis using inv s syncLocked_spec [OF s] AofClose
    by (cases "aw_closed (ar_w c)") (auto simp: aof_Close_def same_meta_def intro!: inv_content)
next
  case AofActivate
  then show ?thesis using inv by (auto simp: aof_inv_def activateRewrite_def)
next
  case (AofFinalize io temp)
  then show ?thesis using finalize_inv [OF inv] ok by simp
qed (use inv in \<open>auto simp: BeginRewrite_def clearRewriteStateLocked_def Let_def intro!: inv_content\<close>)

lemma swapFailed_sticky: "ar_swapFailed c \<Longrightarrow> ar_swapFailed (aof_do c op)"
  by (cases op) (auto simp: Let_def split: prod.splits sum.splits bool.splits)

lemma aof_run_inv: "\<not> ar_swapFailed (foldl aof_do (aof_start policy content) ops) \<Longrightarrow> aof_inv (foldl aof_do (aof_start policy content) ops)"
proof (induction ops rule: rev_induct)
  case Nil
  show ?case by (simp add: aof_inv_def aof_start_def newWriter_def)
next
  case (snoc op ops)
  then show ?case using swapFailed_sticky aof_do_inv by fastforce
qed

text \<open>C7. The append-only file after any run of appends, syncs, rewrites and close, with any of the write, flush, fsync and close calls failing, but with no
  failed swap of a rewritten file: it holds a prefix of the base (what it held at first, or the snapshot of the last completed
  rewrite) followed by the payloads accepted since, in order; at most a part of a refused payload follows.  While the
  buffer has no error, what is missing in the file is exactly what the buffer holds.\<close>

theorem aof_file_holds_log:
  assumes "c = foldl aof_do (aof_start policy content) ops" "\<not> ar_swapFailed c"
  shows "\<exists>rest part. aw_file (ar_w c) @ rest = ar_base c @ concat (ar_log c) @ part \<and>
    (part = [] \<or> (\<exists>p \<in> set (ar_refused c). \<exists>q. p = part @ q)) \<and>
    (\<not> aw_bufErr (ar_w c) \<longrightarrow> rest = aw_buf (ar_w c) \<and> part = [])"
proof -
  have "aof_inv c" using aof_run_inv assms by blast
  then show ?thesis unfolding aof_inv_def by blast
qed

abbreviation no_failure :: write_io where "no_failure \<equiv> \<lambda>_. None"

abbreviation swap_works :: swap_io where
  "swap_works \<equiv> \<lparr>si_temp_write = True, si_temp_sync = True, si_temp_close = True, si_old_close = True, si_rename = RenameOK,
     si_remove = True, si_retry = True, si_sync_dir = True, si_reopen = True\<rparr>"

text \<open>An equation for the loop that compares sizes as integers, for evaluation.\<close>

lemma bufio_loop_eval [code]:
  "bufio_loop io i p w =
     (if aw_bufErr w \<or> (if int (length (aw_buf w)) \<le> 4096 then int (length p) + int (length (aw_buf w)) \<le> 4096 else p = []) then (w, p)
      else if aw_buf w = [] then
        (case file_write io i p w of (w, n, failed) \<Rightarrow> (w\<lparr>aw_bufErr := failed\<rparr>, drop n p))
      else
        let n = bufioSize - length (aw_buf w) in
        bufio_loop io (i + 1) (drop n p) (bufio_Flush io i (w\<lparr>aw_buf := aw_buf w @ take n p\<rparr>)))"
proof -
  have "length p \<le> bufioSize - length (aw_buf w) \<longleftrightarrow>
      (if int (length (aw_buf w)) \<le> 4096 then int (length p) + int (length (aw_buf w)) \<le> 4096 else p = [])"
    by (auto simp: bufioSize_def)
  then show ?thesis by (subst bufio_loop.simps) simp
qed

theorem aof_file_holds_log_witness:
  "let c = foldl aof_do (aof_start PolicyEverysec (str ''old''))
       [AofAppend no_failure True (str ''one'') False, AofBegin, AofActivate, AofAppend no_failure True (str ''two'') False,
        AofFinalize swap_works (str ''snap''), AofAppend no_failure True (str ''three'') False]
   in aw_file (ar_w c) @ aw_buf (ar_w c) = str ''snaptwothree''"
proof -
  let ?ops = "[AofAppend no_failure True (str ''one'') False, AofBegin, AofActivate, AofAppend no_failure True (str ''two'') False,
        AofFinalize swap_works (str ''snap''), AofAppend no_failure True (str ''three'') False]"
  define c where "c = foldl aof_do (aof_start PolicyEverysec (str ''old'')) ?ops"
  have e: "\<not> ar_swapFailed c" "\<not> aw_bufErr (ar_w c)" "ar_base c = str ''snap''" "ar_log c = [str ''two'', str ''three'']"
    unfolding c_def by code_simp+
  then show ?thesis using aof_file_holds_log [OF c_def e(1)] unfolding Let_def c_def [symmetric] by (auto simp: str_def)
qed

text \<open>C19. Under \<^verbatim>\<open>appendfsync always\<close> an acknowledgement is a promise: when \<^verbatim>\<open>AppendSync\<close> reports success, the file ends with the payload,
  behind everything accepted before, all of it has been made durable by fsync, and the buffer is empty.\<close>

theorem append_sync_durable:
  assumes "c = foldl aof_do (aof_start policy content) ops" "\<not> ar_swapFailed c" "p \<noteq> []" "AppendSync io synced p (ar_w c) = (w', None)"
  shows "aw_file w' = ar_base c @ concat (ar_log c) @ p \<and> aw_synced w' = length (aw_file w') \<and> aw_buf w' = []"
proof -
  let ?c = "aof_do c (AofAppend io synced p True)"
  have inv: "aof_inv c" using aof_run_inv assms(1,2) by blast
  have cl: "\<not> aw_closed (ar_w c)" using assms(3,4) by (auto simp: AppendSync_def aof_append_def)
  obtain w1 failed where b: "bufio_Write io p (ar_w c) = (w1, failed)" by (cases "bufio_Write io p (ar_w c)")
  then have ok: "\<not> failed" using assms(3,4) cl by (cases failed) (auto simp: AppendSync_def aof_append_def)
  then have c: "?c = c\<lparr>ar_w := w', ar_log := ar_log c @ [p]\<rparr>" using assms(3,4) cl b by (simp add: AppendSync_def Let_def)
  have "aof_inv ?c" using aof_append_inv [OF inv assms(3) cl] .
  moreover have "\<not> aw_bufErr w' \<and> aw_buf w' = [] \<and> aw_synced w' = length (aw_file w')"
    using assms(3,4) cl b ok syncLocked_spec [of io synced _ w' None] by (auto simp: AppendSync_def aof_append_def Let_def split: if_splits)
  ultimately show ?thesis unfolding c aof_inv_def by auto
qed

theorem append_sync_durable_witness:
  "aw_file (fst (AppendSync no_failure True (str ''two'') (ar_w (aof_start PolicyAlways (str ''one''))))) = str ''onetwo''"
proof -
  define c where "c = foldl aof_do (aof_start PolicyAlways (str ''one'')) []"
  obtain w' where w': "AppendSync no_failure True (str ''two'') (ar_w c) = (w', None)"
  proof -
    have "snd (AppendSync no_failure True (str ''two'') (ar_w c)) = None" unfolding c_def by code_simp
    then show thesis using that by (metis prod.collapse)
  qed
  have e: "\<not> ar_swapFailed c" "ar_base c = str ''one''" "ar_log c = []" unfolding c_def by code_simp+
  have "c = aof_start PolicyAlways (str ''one'')" by (simp add: c_def)
  then show ?thesis using append_sync_durable [OF c_def e(1) _ w'] e w' by (simp add: str_def)
qed

lemma aof_start_opened: "path \<noteq> [] \<Longrightarrow> OpenWriter path policy True (Some content) = Inr (ar_w (aof_start policy content))"
  by (simp add: OpenWriter_def aof_start_def)

lemma aof_Close_works:
  assumes "\<not> aw_closed w" "aw_open w" "\<not> aw_bufErr w"
  shows "\<exists>w'. aof_Close (\<lambda>_. None) True True w = (w', None) \<and> aw_file w' = aw_file w @ aw_buf w"
  using assms by (auto simp: aof_Close_def syncLocked_def flushLocked_def bufio_Flush_def file_write_def Let_def)

text \<open>C39. A rewrite that fails to replace the file loses data.  Take any run without a failed swap so far, with no error in the
  buffer, in which a rewrite is finalized, the rewritten file is written and closed, the old file is closed, the rename fails
  and the old path can be opened again.  File and buffer together then lack exactly what the buffer held, bytes of payloads that
  had been accepted; the writer shows no error, and closing it with working calls reports success on a file without these
  bytes.  Where a rename does not replace an existing file, the old file is removed, and the second rename fails, nothing of the
  log is left at all.\<close>

theorem failed_rewrite_loses_accepted_data:
  fixes c io temp
  defines "w \<equiv> ar_w c" and "w' \<equiv> ar_w (aof_do c (AofFinalize io temp))"
  assumes "c = foldl aof_do (aof_start policy content) ops" "\<not> ar_swapFailed c"
    and "aw_rewriteActive w" "\<not> aw_closed w" "\<not> aw_bufErr w"
    and "si_temp_write io" "si_temp_sync io" "si_temp_close io" "si_old_close io" "si_reopen io"
    and "si_rename io = RenameFailed \<or> si_rename io = RenameExists \<and> (\<not> si_remove io \<or> \<not> si_retry io)"
  shows "(if si_rename io = RenameExists \<and> si_remove io then aw_file w' = []
          else aw_file w' @ aw_buf w = ar_base c @ concat (ar_log c)) \<and>
         aw_buf w' = [] \<and> \<not> aw_bufErr w' \<and> aw_open w' \<and> \<not> aw_closed w' \<and>
         (\<exists>w''. aof_Close (\<lambda>_. None) True True w' = (w'', None) \<and> aw_file w'' = aw_file w')"
proof -
  have inv: "aof_inv c" using aof_run_inv assms(3,4) by blast
  have old: "aw_file w @ aw_buf w = ar_base c @ concat (ar_log c)" using aof_invD(1) [OF inv] assms(7) unfolding w_def by blast
  have "aw_file w' = (if si_rename io = RenameExists \<and> si_remove io then [] else aw_file w) \<and>
      aw_buf w' = [] \<and> \<not> aw_bufErr w' \<and> aw_open w' \<and> \<not> aw_closed w'"
    using assms(5,6,8-13) unfolding w_def w'_def
    by (auto simp: finalizeRewrite_def swapRewriteFileLocked_def replaceFile_def reopenAppendOnlyFileLocked_def clearRewriteStateLocked_def Let_def)
  then show ?thesis using old aof_Close_works [of w'] by auto
qed

theorem failed_rewrite_loses_accepted_data_witness:
  "let c = foldl aof_do (aof_start PolicyEverysec (str ''old'')) [AofAppend no_failure True (str ''one'') False, AofBegin, AofActivate];
       c' = aof_do c (AofFinalize (swap_works\<lparr>si_rename := RenameFailed\<rparr>) (str ''snap''))
   in aw_buf (ar_w c) = str ''one'' \<and> aw_file (ar_w c') @ str ''one'' = str ''oldone'' \<and> aw_buf (ar_w c') = []"
proof -
  define c where "c = foldl aof_do (aof_start PolicyEverysec (str ''old'')) [AofAppend no_failure True (str ''one'') False, AofBegin, AofActivate]"
  have e: "\<not> ar_swapFailed c" "aw_rewriteActive (ar_w c)" "\<not> aw_closed (ar_w c)" "\<not> aw_bufErr (ar_w c)"
    "aw_buf (ar_w c) = str ''one''" "ar_base c @ concat (ar_log c) = str ''oldone''"
    unfolding c_def by code_simp+
  show ?thesis
    using failed_rewrite_loses_accepted_data [OF c_def e(1-4), of "swap_works\<lparr>si_rename := RenameFailed\<rparr>" "str ''snap''"] e(5,6)
    unfolding c_def [symmetric] by (simp add: Let_def)
qed

end
