(* ===== verification/Storage_Base.thy ===== *)
theory Storage_Base
  imports Prelude
begin

text \<open>
  What the storage components share: the error values of \<^verbatim>\<open>src/internal/storage/store.go\<close> and
  \<^verbatim>\<open>types.go\<close>, the resolution of Redis index ranges, and the parsing of expiry options.  A result is
  \<open>Inl\<close> an error or \<open>Inr\<close> a value.  The copying helpers \<^verbatim>\<open>cloneBytes\<close> and \<^verbatim>\<open>cloneList\<close> are the identity
  here, since values of the model are never shared.
\<close>

section \<open>Definitions\<close>

datatype store_error =
    ErrSyntax
  | ErrInvalidExpireTime
  | ErrInvalidStreamID
  | ErrStreamIDTooSmall
  | ErrValueNotInteger
  | ErrWrongType
  | ErrNotHyperLogLog
  | ErrMemoryLimitExceeded
  | errInvalidValueObjectState

definition normalizeListIndex :: "nat \<Rightarrow> int \<Rightarrow> int" where
  "normalizeListIndex len index =
     (let index = (if index < 0 then index + int len else index)
      in if index < 0 then - 1
         else if index \<ge> int len then int len
         else index)"

definition normalizeListRange :: "nat \<Rightarrow> int \<Rightarrow> int \<Rightarrow> (int \<times> int) option" where
  "normalizeListRange len start stop =
     (if len = 0 then None
      else
        let from = normalizeListIndex len start;
            to = normalizeListIndex len stop;
            from = (if from < 0 then 0 else from)
        in if to < 0 then None
           else if from \<ge> int len then None
           else let to = (if to \<ge> int len then int len - 1 else to)
                in if from > to then None else Some (from, to))"

text \<open>The slice \<^verbatim>\<open>list[from : to+1]\<close> a resolved range selects.\<close>

definition select_range :: "'a list \<Rightarrow> int \<Rightarrow> int \<Rightarrow> 'a list" where
  "select_range xs start stop =
     (case normalizeListRange (length xs) start stop of
        None \<Rightarrow> []
      | Some (from, to) \<Rightarrow> slice xs (nat from) (nat (to + 1) - nat from))"

text \<open>
  \<^verbatim>\<open>strings.ToUpper\<close> on the ASCII letters.  It is only compared with option names over letters that no
  character outside ASCII maps to.
\<close>

definition toUpper :: "bytes \<Rightarrow> bytes" where
  "toUpper = map (\<lambda>b. if 97 \<le> b \<and> b \<le> 122 then b - 32 else b)"

text \<open>
  \<^verbatim>\<open>ParseExpiryMillis\<close>.  \<open>now\<close> is the clock in nanoseconds since the epoch; the multiplication of a
  \<^verbatim>\<open>time.Duration\<close> is an int64 multiplication, and \<^verbatim>\<open>UnixMilli\<close> rounds down.
\<close>

definition ParseExpiryMillis :: "int \<Rightarrow> bytes list \<Rightarrow> store_error + int" where
  "ParseExpiryMillis now args =
     (if args = [] then Inr 0
      else if length args \<noteq> 2 then Inl ErrSyntax
      else
        case ParseInt (args ! 1) of
          None \<Rightarrow> Inl ErrInvalidExpireTime
        | Some v \<Rightarrow>
            if v \<le> 0 then Inl ErrInvalidExpireTime
            else
              let opt = toUpper (args ! 0)
              in if opt = str ''EX'' then Inr ((now + wrap64 (v * 1000000000)) div 1000000)
                 else if opt = str ''PX'' then Inr ((now + wrap64 (v * 1000000)) div 1000000)
                 else if opt = str ''PXAT'' then Inr v
                 else Inl ErrSyntax)"

section \<open>Lemmas\<close>

text \<open>The position a Redis index denotes, before clamping: negative indices count from the end.\<close>

definition position :: "nat \<Rightarrow> int \<Rightarrow> int" where
  "position len index = (if index < 0 then index + int len else index)"

lemma normalizeListRange_Some:
  "normalizeListRange len start stop = Some (from, to) \<Longrightarrow>
   0 \<le> from \<and> from \<le> to \<and> to < int len \<and>
   (\<forall>i < len. position len start \<le> int i \<and> int i \<le> position len stop \<longleftrightarrow> from \<le> int i \<and> int i \<le> to)"
  by (auto simp: normalizeListRange_def normalizeListIndex_def position_def Let_def split: if_splits)

lemma normalizeListRange_None:
  "normalizeListRange len start stop = None \<Longrightarrow> i < len \<Longrightarrow>
   \<not> (position len start \<le> int i \<and> int i \<le> position len stop)"
  by (auto simp: normalizeListRange_def normalizeListIndex_def position_def Let_def split: if_splits)

lemma slice_as_filter:
  assumes "b \<le> length xs"
  shows "slice xs a (b - a) = map ((!) xs) (filter (\<lambda>i. a \<le> i \<and> i < b) [0..<length xs])"
proof (cases "a \<le> b")
  case True
  have "[0..<length xs] = [0..<a] @ [a..<b] @ [b..<length xs]"
    using True assms by (metis append.assoc le_Suc_ex upt_add_eq_append zero_le)
  moreover have "filter (\<lambda>i. a \<le> i \<and> i < b) [0..<a] = []" "filter (\<lambda>i. a \<le> i \<and> i < b) [a..<b] = [a..<b]"
    "filter (\<lambda>i. a \<le> i \<and> i < b) [b..<length xs] = []" by (auto simp: filter_empty_conv filter_id_conv)
  ultimately have "filter (\<lambda>i. a \<le> i \<and> i < b) [0..<length xs] = [a..<b]" by simp
  then show ?thesis using assms True by (simp add: slice_def) (auto intro!: nth_equalityI)
next
  case False
  then show ?thesis by (auto simp: slice_def filter_empty_conv)
qed

section \<open>Properties\<close>

text \<open>Resolving a range command's start and stop picks exactly the elements whose position lies between
  the two, where a negative index counts from the end of the list; out-of-range bounds are clamped and
  an empty or inverted range selects nothing.\<close>

theorem range_selection:
  "select_range xs start stop =
   map ((!) xs) (filter (\<lambda>i. position (length xs) start \<le> int i \<and> int i \<le> position (length xs) stop) [0..<length xs])"
proof (cases "normalizeListRange (length xs) start stop")
  case None
  then show ?thesis
    using normalizeListRange_None [OF None] by (auto simp: select_range_def filter_empty_conv)
next
  case (Some r)
  obtain lo hi where r: "r = (lo, hi)" by (cases r)
  note sel = normalizeListRange_Some [OF Some [unfolded r]]
  have "filter (\<lambda>i. position (length xs) start \<le> int i \<and> int i \<le> position (length xs) stop) [0..<length xs] =
        filter (\<lambda>i. nat lo \<le> i \<and> i < nat (hi + 1)) [0..<length xs]"
    using sel by (intro filter_cong) auto
  moreover have "nat (hi + 1) \<le> length xs" using sel by linarith
  ultimately show ?thesis using slice_as_filter [of "nat (hi + 1)" xs "nat lo"] by (simp add: select_range_def Some r)
qed

text \<open>An expiry given in seconds or milliseconds that fits a 64-bit nanosecond duration yields the
  deadline that many milliseconds after the present one, an absolute deadline is passed through, and any
  other option name or a non-positive amount is rejected.\<close>

theorem ParseExpiryMillis_spec:
  assumes "ParseInt amount = Some v" "0 < v"
  shows "(toUpper opt = str ''EX'' \<and> v \<le> 9223372036 \<longrightarrow>
            ParseExpiryMillis now [opt, amount] = Inr (now div 1000000 + v * 1000)) \<and>
         (toUpper opt = str ''PX'' \<and> v \<le> 9223372036854 \<longrightarrow>
            ParseExpiryMillis now [opt, amount] = Inr (now div 1000000 + v)) \<and>
         (toUpper opt = str ''PXAT'' \<longrightarrow> ParseExpiryMillis now [opt, amount] = Inr v) \<and>
         (toUpper opt \<notin> {str ''EX'', str ''PX'', str ''PXAT''} \<longrightarrow>
            ParseExpiryMillis now [opt, amount] = Inl ErrSyntax)"
proof -
  have "(now + v * 1000000000) div 1000000 = now div 1000000 + v * 1000"
    using div_mult_self1 [of 1000000 now "v * 1000"] by simp
  then show ?thesis
    using assms by (auto simp: ParseExpiryMillis_def wrap64_id int64_range_def str_def)
qed

theorem ParseExpiryMillis_spec_witness:
  "ParseExpiryMillis 1700000000123456789 [str ''ex'', str ''60''] = Inr 1700000060123"
proof -
  have "ParseInt (str ''60'') = Some 60" "toUpper (str ''ex'') = str ''EX''"
    by (simp_all add: ParseInt_def str_def is_digit_def int64_range_def toUpper_def)
  then show ?thesis using ParseExpiryMillis_spec [of "str ''60''" 60 "str ''ex''"] by simp
qed

text \<open>Beyond that range the nanosecond product wraps around: \<^verbatim>\<open>SET k v EX 9223372037\<close>, an expiry almost three
  hundred years away, yields a deadline in the past.\<close>

theorem ParseExpiryMillis_overflow:
  "ParseExpiryMillis 1700000000000000000 [str ''EX'', str ''9223372037''] = Inr (- 7523372036710)"
  by (simp add: ParseExpiryMillis_def ParseInt_def str_def toUpper_def is_digit_def wrap64_def int64_range_def)

end
