(* ===== verification/Clients.thy ===== *)
theory Clients
  imports Storage_Base
begin

text \<open>
  Connection state and the registries that share it: \<^verbatim>\<open>client_state.go\<close>, \<^verbatim>\<open>watch_registry.go\<close>, \<^verbatim>\<open>pubsub_registry.go\<close> and
  \<^verbatim>\<open>monitor_registry.go\<close> of \<^verbatim>\<open>src/internal/server\<close>.

  The registries hold pointers to the states of clients, under the client's number; here the numbers stand for the pointers
  and a hub holds the states that are reachable through them, the server's table of client states, and the three registries.
  A mutation of a registry and the mutation of the client's own set that mirrors it run under the registry's lock, so each
  operation is one step here.  Two operations are not covered by one lock: \<open>Touch\<close> collects the watchers of its keys under the
  read lock and marks them after releasing it, which \<open>Touch_phases\<close>, \<open>late_mark\<close> and \<open>stale_mark\<close> below account for, and
  \<open>removeClientState\<close> takes the state out of the table before it detaches it from the registries.

  Shown: registries and clients always mirror each other; what a client watches and when its transaction is invalidated is
  exact; a disconnected client is in no registry.
\<close>

section \<open>State\<close>

record Request =
  rq_Name :: bytes
  rq_Args :: "bytes list"

record ClientState =
  cs_RemoteAddr :: bytes
  cs_watchedKeys :: "bytes goset"
  cs_subscribedChannels :: "bytes goset"
  cs_writerClosed :: bool
  cs_Authenticated :: bool
  cs_Replica :: bool
  cs_Monitoring :: bool
  cs_ReplicaListenPort :: int
  cs_LastWriteOffset :: int
  cs_InTransaction :: bool
  cs_TxFailed :: bool
  cs_TxDirty :: bool
  cs_TxQueue :: "Request list"

type_synonym registry = "(bytes, nat goset) gomap"

record Hub =
  hb_clientStates :: "nat goset"
  hb_clients :: "(nat, ClientState) gomap"
  hb_watchers :: registry
  hb_subscribers :: registry
  hb_monitors :: "nat goset"
  hb_monitorCount :: int

definition newClientState :: ClientState where
  "newClientState =
     \<lparr>cs_RemoteAddr = [], cs_watchedKeys = [], cs_subscribedChannels = [], cs_writerClosed = False, cs_Authenticated = False,
      cs_Replica = False, cs_Monitoring = False, cs_ReplicaListenPort = 0, cs_LastWriteOffset = 0, cs_InTransaction = False,
      cs_TxFailed = False, cs_TxDirty = False, cs_TxQueue = []\<rparr>"

definition emptyHub :: Hub where
  "emptyHub = \<lparr>hb_clientStates = [], hb_clients = [], hb_watchers = [], hb_subscribers = [], hb_monitors = [], hb_monitorCount = 0\<rparr>"

abbreviation client :: "Hub \<Rightarrow> nat \<Rightarrow> ClientState option" where
  "client h i \<equiv> gm_get (hb_clients h) i"

text \<open>Changing the state a pointer refers to.\<close>

definition modify :: "nat \<Rightarrow> (ClientState \<Rightarrow> ClientState) \<Rightarrow> Hub \<Rightarrow> Hub" where
  "modify i f h = (case client h i of None \<Rightarrow> h | Some c \<Rightarrow> h\<lparr>hb_clients := gm_set (hb_clients h) i (f c)\<rparr>)"

section \<open>Operations on one client\<close>

definition BeginTransaction :: "ClientState \<Rightarrow> ClientState \<times> bool" where
  "BeginTransaction c =
     (if cs_InTransaction c then (c, False)
      else (c\<lparr>cs_InTransaction := True, cs_TxDirty := False, cs_TxQueue := []\<rparr>, True))"

definition SetAuthenticated :: "bool \<Rightarrow> ClientState \<Rightarrow> ClientState" where
  "SetAuthenticated b c = c\<lparr>cs_Authenticated := b\<rparr>"

definition SetReplicaListeningPort :: "int \<Rightarrow> ClientState \<Rightarrow> ClientState" where
  "SetReplicaListeningPort port c = c\<lparr>cs_ReplicaListenPort := port\<rparr>"

definition PromoteToReplica :: "ClientState \<Rightarrow> ClientState" where
  "PromoteToReplica c = c\<lparr>cs_Replica := True\<rparr>"

definition SetLastWriteReplicationOffset :: "int \<Rightarrow> ClientState \<Rightarrow> ClientState" where
  "SetLastWriteReplicationOffset offset c = c\<lparr>cs_LastWriteOffset := offset\<rparr>"

definition EnqueueCommand :: "bytes \<Rightarrow> bytes list \<Rightarrow> ClientState \<Rightarrow> ClientState" where
  "EnqueueCommand name args c = c\<lparr>cs_TxQueue := cs_TxQueue c @ [\<lparr>rq_Name = name, rq_Args = args\<rparr>]\<rparr>"

definition SubscriptionCount :: "ClientState \<Rightarrow> nat" where
  "SubscriptionCount c = length (cs_subscribedChannels c)"

definition IsSubscribed :: "ClientState \<Rightarrow> bool" where
  "IsSubscribed c \<longleftrightarrow> SubscriptionCount c > 0"

definition SubscribedChannels :: "ClientState \<Rightarrow> bytes list" where
  "SubscribedChannels c = sort_key (map unat) (cs_subscribedChannels c)"

definition MarkTransactionFailed :: "ClientState \<Rightarrow> ClientState" where
  "MarkTransactionFailed c = c\<lparr>cs_TxFailed := True\<rparr>"

definition ClearTransactionFailure :: "ClientState \<Rightarrow> ClientState" where
  "ClearTransactionFailure c = c\<lparr>cs_TxFailed := False\<rparr>"

definition MarkTransactionDirty :: "ClientState \<Rightarrow> ClientState" where
  "MarkTransactionDirty c = c\<lparr>cs_TxDirty := True\<rparr>"

definition addWatchedKey :: "bytes \<Rightarrow> ClientState \<Rightarrow> ClientState" where
  "addWatchedKey key c = c\<lparr>cs_watchedKeys := gs_insert key (cs_watchedKeys c)\<rparr>"

definition addSubscribedChannel :: "bytes \<Rightarrow> ClientState \<Rightarrow> ClientState" where
  "addSubscribedChannel channel c = c\<lparr>cs_subscribedChannels := gs_insert channel (cs_subscribedChannels c)\<rparr>"

definition removeSubscribedChannel :: "bytes \<Rightarrow> ClientState \<Rightarrow> ClientState" where
  "removeSubscribedChannel channel c = c\<lparr>cs_subscribedChannels := gs_delete channel (cs_subscribedChannels c)\<rparr>"

definition setMonitoring :: "bool \<Rightarrow> ClientState \<Rightarrow> ClientState" where
  "setMonitoring b c = c\<lparr>cs_Monitoring := b\<rparr>"

definition drainWatchedKeys :: "ClientState \<Rightarrow> ClientState \<times> bytes list" where
  "drainWatchedKeys c = (c\<lparr>cs_watchedKeys := []\<rparr>, cs_watchedKeys c)"

definition drainSubscribedChannels :: "ClientState \<Rightarrow> ClientState \<times> bytes list" where
  "drainSubscribedChannels c = (c\<lparr>cs_subscribedChannels := []\<rparr>, cs_subscribedChannels c)"

definition DrainTransaction :: "ClientState \<Rightarrow> ClientState \<times> Request list" where
  "DrainTransaction c = (c\<lparr>cs_InTransaction := False, cs_TxDirty := False, cs_TxQueue := []\<rparr>, cs_TxQueue c)"

definition ResetTransaction :: "ClientState \<Rightarrow> ClientState" where
  "ResetTransaction c = c\<lparr>cs_InTransaction := False, cs_TxFailed := False, cs_TxDirty := False, cs_TxQueue := []\<rparr>"

section \<open>The registries\<close>

text \<open>The nested maps of the watch and the pub/sub registry.\<close>

definition reg_members :: "registry \<Rightarrow> bytes \<Rightarrow> nat goset" where
  "reg_members m k = (case gm_get m k of None \<Rightarrow> [] | Some ids \<Rightarrow> ids)"

definition reg_add :: "bytes \<Rightarrow> nat \<Rightarrow> registry \<Rightarrow> registry" where
  "reg_add k i m = gm_set m k (gs_insert i (reg_members m k))"

definition reg_remove :: "nat \<Rightarrow> registry \<Rightarrow> bytes \<Rightarrow> registry" where
  "reg_remove i m k =
     (case gm_get m k of
        None \<Rightarrow> m
      | Some ids \<Rightarrow> let ids = gs_delete i ids in if ids = [] then gm_del m k else gm_set m k ids)"

fun Watch :: "nat \<Rightarrow> bytes list \<Rightarrow> Hub \<Rightarrow> Hub" where
  "Watch i [] h = h"
| "Watch i (key # keys) h =
     (if key = [] then Watch i keys h
      else Watch i keys (modify i (addWatchedKey key) (h\<lparr>hb_watchers := reg_add key i (hb_watchers h)\<rparr>)))"

definition WatchRegistry_UnwatchAll :: "nat \<Rightarrow> Hub \<Rightarrow> Hub" where
  "WatchRegistry_UnwatchAll i h =
     (case client h i of
        None \<Rightarrow> h
      | Some c \<Rightarrow>
          let (c', keys) = drainWatchedKeys c; h = modify i (\<lambda>_. c') h in
          h\<lparr>hb_watchers := foldl (reg_remove i) (hb_watchers h) keys\<rparr>)"

definition UnwatchAll :: "nat \<Rightarrow> Hub \<Rightarrow> Hub" where
  "UnwatchAll i h = modify i ClearTransactionFailure (WatchRegistry_UnwatchAll i h)"

definition touchSingleKey :: "bytes \<Rightarrow> Hub \<Rightarrow> Hub" where
  "touchSingleKey key h = foldl (\<lambda>h i. modify i MarkTransactionFailed h) h (reg_members (hb_watchers h) key)"

definition Touch :: "bytes list \<Rightarrow> Hub \<Rightarrow> Hub" where
  "Touch keys h =
     (if keys = [] then h
      else if length keys = 1 then touchSingleKey (hd keys) h
      else
        let states = foldl (\<lambda>ids key. foldl (\<lambda>ids i. gs_insert i ids) ids (reg_members (hb_watchers h) key)) [] keys
        in foldl (\<lambda>h i. modify i MarkTransactionFailed h) h states)"

definition Subscribe :: "nat \<Rightarrow> bytes \<Rightarrow> Hub \<Rightarrow> Hub" where
  "Subscribe i channel h =
     modify i (addSubscribedChannel channel) (h\<lparr>hb_subscribers := reg_add channel i (hb_subscribers h)\<rparr>)"

definition Unsubscribe :: "nat \<Rightarrow> bytes \<Rightarrow> Hub \<Rightarrow> Hub" where
  "Unsubscribe i channel h =
     modify i (removeSubscribedChannel channel) (h\<lparr>hb_subscribers := reg_remove i (hb_subscribers h) channel\<rparr>)"

definition UnsubscribeAll :: "nat \<Rightarrow> Hub \<Rightarrow> Hub" where
  "UnsubscribeAll i h =
     (case client h i of
        None \<Rightarrow> h
      | Some c \<Rightarrow>
          let (c', channels) = drainSubscribedChannels c; h = modify i (\<lambda>_. c') h in
          h\<lparr>hb_subscribers := foldl (reg_remove i) (hb_subscribers h) channels\<rparr>)"

definition AppendSubscribers :: "bytes \<Rightarrow> Hub \<Rightarrow> nat list" where
  "AppendSubscribers channel h = reg_members (hb_subscribers h) channel"

definition StartMonitoring :: "nat \<Rightarrow> Hub \<Rightarrow> Hub" where
  "StartMonitoring i h =
     modify i (setMonitoring True)
       (h\<lparr>hb_monitors := gs_insert i (hb_monitors h),
          hb_monitorCount := (if i \<in> set (hb_monitors h) then hb_monitorCount h else hb_monitorCount h + 1)\<rparr>)"

definition StopMonitoring :: "nat \<Rightarrow> Hub \<Rightarrow> Hub" where
  "StopMonitoring i h =
     modify i (setMonitoring False)
       (if i \<in> set (hb_monitors h)
        then h\<lparr>hb_monitors := gs_delete i (hb_monitors h), hb_monitorCount := hb_monitorCount h - 1\<rparr> else h)"

definition HasSubscribers :: "Hub \<Rightarrow> bool" where
  "HasSubscribers h \<longleftrightarrow> hb_monitorCount h > 0"

definition Disconnect :: "nat \<Rightarrow> Hub \<Rightarrow> Hub" where
  "Disconnect i h =
     UnwatchAll i (UnsubscribeAll i (StopMonitoring i (modify i ResetTransaction (modify i (\<lambda>c. c\<lparr>cs_writerClosed := True\<rparr>) h))))"

text \<open>The server's side: a connection gets a fresh number and state, and when it ends the state leaves the table and then the
  registries (\<^verbatim>\<open>server.go\<close>).  After that no pointer to the state is left, and the hub drops it.\<close>

definition createClientState :: "bytes \<Rightarrow> nat \<Rightarrow> Hub \<Rightarrow> Hub" where
  "createClientState requirePass i h =
     h\<lparr>hb_clientStates := gs_insert i (hb_clientStates h),
       hb_clients := gm_set (hb_clients h) i (newClientState\<lparr>cs_Authenticated := (requirePass = [])\<rparr>)\<rparr>"

definition removeClientState :: "nat \<Rightarrow> Hub \<Rightarrow> Hub" where
  "removeClientState i h =
     (if i \<in> set (hb_clientStates h) then
        let h = h\<lparr>hb_clientStates := gs_delete i (hb_clientStates h)\<rparr>;
            h = Disconnect i h
        in h\<lparr>hb_clients := gm_del (hb_clients h) i\<rparr>
      else h)"

section \<open>Registries and clients mirror each other\<close>

text \<open>The contract of a registry: the pairs it holds, and what adding and removing a member does to them.\<close>

locale membership_registry =
  fixes ok :: "'r \<Rightarrow> bool"
    and rel :: "'r \<Rightarrow> ('k \<times> nat) set"
    and add :: "'k \<Rightarrow> nat \<Rightarrow> 'r \<Rightarrow> 'r"
    and del :: "nat \<Rightarrow> 'r \<Rightarrow> 'k \<Rightarrow> 'r"
  assumes add_ok: "ok r \<Longrightarrow> ok (add k i r)"
    and add_rel: "ok r \<Longrightarrow> rel (add k i r) = insert (k, i) (rel r)"
    and del_ok: "ok r \<Longrightarrow> ok (del i r k)"
    and del_rel: "ok r \<Longrightarrow> rel (del i r k) = rel r - {(k, i)}"
begin

lemma del_all: "ok r \<Longrightarrow> ok (foldl (del i) r ks) \<and> rel (foldl (del i) r ks) = rel r - set ks \<times> {i}"
  by (induction ks arbitrary: r) (auto simp: del_ok del_rel)

lemma del_member: "ok r \<Longrightarrow> {k. (k, i) \<in> rel r} = set ks \<Longrightarrow> rel (foldl (del i) r ks) = {(k, j) \<in> rel r. j \<noteq> i}"
  using del_all [of r i ks] by auto

end

definition reg_rel :: "registry \<Rightarrow> (bytes \<times> nat) set" where
  "reg_rel m = {(k, i). i \<in> set (reg_members m k)}"

definition reg_ok :: "registry \<Rightarrow> bool" where
  "reg_ok m \<longleftrightarrow> gm_wf m \<and> (\<forall>k ids. gm_get m k = Some ids \<longrightarrow> distinct ids \<and> ids \<noteq> [])"

interpretation reg: membership_registry reg_ok reg_rel reg_add reg_remove
proof (unfold_locales, goal_cases)
  case (1 r k i)
  then show ?case by (auto simp: reg_ok_def reg_add_def reg_members_def gm_get_set gs_insert_def split: option.splits if_splits)
next
  case (2 r k i)
  then show ?case by (auto simp: reg_rel_def reg_add_def reg_members_def gm_get_set split: option.splits if_splits)
next
  case (3 r i k)
  then show ?case
    by (auto simp: reg_ok_def reg_remove_def gm_get_set gm_get_del Let_def split: option.splits if_splits)
next
  case (4 r i k)
  have "\<forall>j\<in>set ids. j = i" if "removeAll i ids = []" for ids using that by (induction ids) (auto split: if_splits)
  with 4 show ?case
    by (auto simp: reg_ok_def reg_rel_def reg_remove_def reg_members_def gm_get_set gm_get_del Let_def split: option.splits if_splits)
qed

lemma reg_members_distinct: "reg_ok m \<Longrightarrow> distinct (reg_members m k)"
  by (auto simp: reg_ok_def reg_members_def split: option.splits)

definition hub_inv :: "Hub \<Rightarrow> bool" where
  "hub_inv h \<longleftrightarrow>
     set (hb_clientStates h) = {i. client h i \<noteq> None} \<and>
     gm_wf (hb_clients h) \<and> reg_ok (hb_watchers h) \<and> reg_ok (hb_subscribers h) \<and>
     reg_rel (hb_watchers h) = {(k, i). \<exists>c. client h i = Some c \<and> k \<in> set (cs_watchedKeys c)} \<and>
     reg_rel (hb_subscribers h) = {(k, i). \<exists>c. client h i = Some c \<and> k \<in> set (cs_subscribedChannels c)} \<and>
     set (hb_monitors h) = {i. \<exists>c. client h i = Some c \<and> cs_Monitoring c} \<and> distinct (hb_monitors h) \<and>
     hb_monitorCount h = int (length (hb_monitors h)) \<and>
     (\<forall>i c. client h i = Some c \<longrightarrow> distinct (cs_watchedKeys c) \<and> distinct (cs_subscribedChannels c))"

lemma modify_client [simp]:
  "client (modify i f h) j = (if j = i then map_option f (client h i) else client h j)"
  "hb_clientStates (modify i f h) = hb_clientStates h"
  "hb_watchers (modify i f h) = hb_watchers h" "hb_subscribers (modify i f h) = hb_subscribers h"
  "hb_monitors (modify i f h) = hb_monitors h" "hb_monitorCount (modify i f h) = hb_monitorCount h"
  "gm_wf (hb_clients h) \<Longrightarrow> gm_wf (hb_clients (modify i f h))"
  by (auto simp: modify_def gm_get_set split: option.splits)

text \<open>An update of the fields no registry mirrors.\<close>

lemma modify_inv:
  assumes "hub_inv h" "\<And>c. cs_watchedKeys (f c) = cs_watchedKeys c" "\<And>c. cs_subscribedChannels (f c) = cs_subscribedChannels c"
    "\<And>c. cs_Monitoring (f c) = cs_Monitoring c"
  shows "hub_inv (modify i f h)"
  using assms unfolding hub_inv_def by (auto split: if_splits)

lemma gm_get_del_wf: "hub_inv h \<Longrightarrow> gm_get (gm_del (hb_clients h) i) j = (if j = i then None else client h j)"
  by (simp add: gm_get_del hub_inv_def)

lemma Watch_spec:
  "hub_inv h \<Longrightarrow> client h i = Some c \<Longrightarrow>
     hub_inv (Watch i keys h) \<and>
     (\<exists>ks. client (Watch i keys h) i = Some (c\<lparr>cs_watchedKeys := ks\<rparr>) \<and> set ks = set (cs_watchedKeys c) \<union> (set keys - {[]})) \<and>
     (\<forall>j. j \<noteq> i \<longrightarrow> client (Watch i keys h) j = client h j)"
proof (induction i keys h arbitrary: c rule: Watch.induct)
  case (1 i h)
  then show ?case by (auto intro!: exI [of _ "cs_watchedKeys c"])
next
  case (2 i key keys h)
  show ?case
  proof (cases "key = []")
    case False
    let ?h = "modify i (addWatchedKey key) (h\<lparr>hb_watchers := reg_add key i (hb_watchers h)\<rparr>)"
    have inv: "hub_inv ?h"
      using 2(3,4) reg.add_ok [of "hb_watchers h" key i] reg.add_rel [of "hb_watchers h" key i] unfolding hub_inv_def
      by (auto simp: addWatchedKey_def split: if_splits)
    have c: "client ?h i = Some (addWatchedKey key c)" using 2(4) by simp
    show ?thesis using 2(2) [OF False inv c] False by (auto simp: addWatchedKey_def)
  qed (use 2 in auto)
qed

lemma WatchRegistry_UnwatchAll_spec:
  assumes inv: "hub_inv h" and c: "client h i = Some c"
  shows "hub_inv (WatchRegistry_UnwatchAll i h)"
    "client (WatchRegistry_UnwatchAll i h) j = (if j = i then Some (c\<lparr>cs_watchedKeys := []\<rparr>) else client h j)"
proof -
  let ?r = "foldl (reg_remove i) (hb_watchers h) (cs_watchedKeys c)"
  have ok: "reg_ok (hb_watchers h)" and m: "{k. (k, i) \<in> reg_rel (hb_watchers h)} = set (cs_watchedKeys c)"
    using inv c by (auto simp: hub_inv_def)
  show "hub_inv (WatchRegistry_UnwatchAll i h)"
    using inv c reg.del_all [OF ok, of i "cs_watchedKeys c"] reg.del_member [OF ok m]
    unfolding hub_inv_def WatchRegistry_UnwatchAll_def drainWatchedKeys_def by (auto split: if_splits)
  show "client (WatchRegistry_UnwatchAll i h) j = (if j = i then Some (c\<lparr>cs_watchedKeys := []\<rparr>) else client h j)"
    using c by (simp add: WatchRegistry_UnwatchAll_def drainWatchedKeys_def)
qed

lemma UnwatchAll_spec:
  assumes inv: "hub_inv h" and c: "client h i = Some c"
  shows "hub_inv (UnwatchAll i h)"
    "client (UnwatchAll i h) j = (if j = i then Some (c\<lparr>cs_watchedKeys := [], cs_TxFailed := False\<rparr>) else client h j)"
  using WatchRegistry_UnwatchAll_spec [OF inv c]
  by (auto simp: UnwatchAll_def ClearTransactionFailure_def intro: modify_inv)

lemma UnsubscribeAll_spec:
  assumes inv: "hub_inv h" and c: "client h i = Some c"
  shows "hub_inv (UnsubscribeAll i h)"
    "client (UnsubscribeAll i h) j = (if j = i then Some (c\<lparr>cs_subscribedChannels := []\<rparr>) else client h j)"
proof -
  have ok: "reg_ok (hb_subscribers h)" and m: "{k. (k, i) \<in> reg_rel (hb_subscribers h)} = set (cs_subscribedChannels c)"
    using inv c by (auto simp: hub_inv_def)
  show "hub_inv (UnsubscribeAll i h)"
    using inv c reg.del_all [OF ok, of i "cs_subscribedChannels c"] reg.del_member [OF ok m]
    unfolding hub_inv_def UnsubscribeAll_def drainSubscribedChannels_def by (auto split: if_splits)
  show "client (UnsubscribeAll i h) j = (if j = i then Some (c\<lparr>cs_subscribedChannels := []\<rparr>) else client h j)"
    using c by (simp add: UnsubscribeAll_def drainSubscribedChannels_def)
qed

lemma Subscribe_inv: "hub_inv h \<Longrightarrow> client h i = Some c \<Longrightarrow> hub_inv (Subscribe i channel h)"
  using reg.add_ok [of "hb_subscribers h" channel i] reg.add_rel [of "hb_subscribers h" channel i]
  unfolding hub_inv_def Subscribe_def by (auto simp: addSubscribedChannel_def split: if_splits)

lemma Unsubscribe_inv: "hub_inv h \<Longrightarrow> client h i = Some c \<Longrightarrow> hub_inv (Unsubscribe i channel h)"
  using reg.del_ok [of "hb_subscribers h" i channel] reg.del_rel [of "hb_subscribers h" i channel]
  unfolding hub_inv_def Unsubscribe_def by (auto simp: removeSubscribedChannel_def split: if_splits)

lemma StartMonitoring_inv: "hub_inv h \<Longrightarrow> client h i = Some c \<Longrightarrow> hub_inv (StartMonitoring i h)"
  unfolding hub_inv_def StartMonitoring_def by (auto simp: setMonitoring_def gs_insert_def split: if_splits)

lemma length_gs_delete: "distinct s \<Longrightarrow> x \<in> set s \<Longrightarrow> int (length (gs_delete x s)) = int (length s) - 1"
  by (induction s) (auto simp: removeAll_id)

lemma StopMonitoring_inv: "hub_inv h \<Longrightarrow> client h i = Some c \<Longrightarrow> hub_inv (StopMonitoring i h)"
  using length_gs_delete [of "hb_monitors h" i]
  unfolding hub_inv_def StopMonitoring_def by (auto simp: setMonitoring_def split: if_splits)

lemma StopMonitoring_client:
  "client (StopMonitoring i h) j = (if j = i then map_option (setMonitoring False) (client h i) else client h j)"
  by (simp add: StopMonitoring_def)

lemma StartMonitoring_client:
  "client (StartMonitoring i h) j = (if j = i then map_option (setMonitoring True) (client h i) else client h j)"
  by (simp add: StartMonitoring_def)

lemma MarkTransactionFailed_twice [simp]: "MarkTransactionFailed \<circ> MarkTransactionFailed = MarkTransactionFailed"
  by (simp add: MarkTransactionFailed_def fun_eq_iff)

lemma mark_all:
  "hub_inv h \<Longrightarrow> hub_inv (foldl (\<lambda>h i. modify i MarkTransactionFailed h) h ids) \<and>
     hb_watchers (foldl (\<lambda>h i. modify i MarkTransactionFailed h) h ids) = hb_watchers h \<and>
     (\<forall>j. client (foldl (\<lambda>h i. modify i MarkTransactionFailed h) h ids) j =
        (if j \<in> set ids then map_option MarkTransactionFailed (client h j) else client h j))"
proof (induction ids arbitrary: h)
  case (Cons i ids)
  have "hub_inv (modify i MarkTransactionFailed h)" by (rule modify_inv [OF Cons.prems]) (simp_all add: MarkTransactionFailed_def)
  from Cons.IH [OF this] show ?case by (auto simp: option.map_comp)
qed simp

lemma set_foldl_insert: "set (foldl (\<lambda>ids i. gs_insert i ids) acc xs) = set acc \<union> set xs"
  by (induction xs arbitrary: acc) auto

lemma set_collect:
  "set (foldl (\<lambda>ids key. foldl (\<lambda>ids i. gs_insert i ids) ids (f key)) acc keys) = set acc \<union> (\<Union>k\<in>set keys. set (f k))"
  by (induction keys arbitrary: acc) (auto simp: set_foldl_insert)

lemma Touch_spec:
  assumes inv: "hub_inv h"
  shows "hub_inv (Touch keys h)"
    "client (Touch keys h) j =
       map_option (\<lambda>c. if set keys \<inter> set (cs_watchedKeys c) \<noteq> {} then MarkTransactionFailed c else c) (client h j)"
proof -
  have w: "j \<in> set (reg_members (hb_watchers h) k) \<longleftrightarrow> (\<exists>c. client h j = Some c \<and> k \<in> set (cs_watchedKeys c))" for j k
  proof -
    have "(k, j) \<in> reg_rel (hb_watchers h) \<longleftrightarrow> (\<exists>c. client h j = Some c \<and> k \<in> set (cs_watchedKeys c))"
      using inv by (auto simp: hub_inv_def)
    then show ?thesis by (simp add: reg_rel_def)
  qed
  obtain ids where ids: "Touch keys h = foldl (\<lambda>h i. modify i MarkTransactionFailed h) h ids"
    and mem: "set ids = (\<Union>k\<in>set keys. set (reg_members (hb_watchers h) k))"
  proof (cases keys rule: remdups_adj.cases)
    case 1
    then show ?thesis using that [of "[]"] by (simp add: Touch_def)
  next
    case (2 k)
    then show ?thesis using that [of "reg_members (hb_watchers h) k"] by (simp add: Touch_def touchSingleKey_def)
  next
    case (3 k k' ks)
    let ?ids = "foldl (\<lambda>ids key. foldl (\<lambda>ids i. gs_insert i ids) ids (reg_members (hb_watchers h) key)) [] keys"
    have "Touch keys h = foldl (\<lambda>h i. modify i MarkTransactionFailed h) h ?ids" using 3 by (simp add: Touch_def Let_def)
    then show ?thesis using that [of ?ids] set_collect [of "reg_members (hb_watchers h)" "[]" keys] by simp
  qed
  show "hub_inv (Touch keys h)" using mark_all [OF inv, of ids] ids by simp
  show "client (Touch keys h) j =
       map_option (\<lambda>c. if set keys \<inter> set (cs_watchedKeys c) \<noteq> {} then MarkTransactionFailed c else c) (client h j)"
  proof (cases "client h j")
    case None
    then show ?thesis using mark_all [OF inv, of ids] ids by simp
  next
    case (Some c)
    then have "j \<in> set ids \<longleftrightarrow> set keys \<inter> set (cs_watchedKeys c) \<noteq> {}" using mem w by auto
    then show ?thesis using Some mark_all [OF inv, of ids] ids by auto
  qed
qed

section \<open>Disconnecting\<close>

lemma Disconnect_spec:
  assumes inv: "hub_inv h" and c: "client h i = Some c"
  shows "hub_inv (Disconnect i h)"
    "client (Disconnect i h) j =
       (if j = i then Some ((ResetTransaction c)\<lparr>cs_writerClosed := True, cs_Monitoring := False, cs_subscribedChannels := [], cs_watchedKeys := []\<rparr>)
        else client h j)"
proof -
  let ?h1 = "modify i ResetTransaction (modify i (\<lambda>c. c\<lparr>cs_writerClosed := True\<rparr>) h)"
  let ?c1 = "ResetTransaction (c\<lparr>cs_writerClosed := True\<rparr>)"
  have i1: "hub_inv ?h1" by (intro modify_inv inv) (simp_all add: ResetTransaction_def)
  have c1: "client ?h1 i = Some ?c1" using c by simp
  have i2: "hub_inv (StopMonitoring i ?h1)" by (rule StopMonitoring_inv [OF i1 c1])
  have c2: "client (StopMonitoring i ?h1) i = Some (setMonitoring False ?c1)"
    using c by (simp add: StopMonitoring_client)
  note u = UnsubscribeAll_spec [OF i2 c2]
  from u(2) [of i] have c3: "client (UnsubscribeAll i (StopMonitoring i ?h1)) i = Some ((setMonitoring False ?c1)\<lparr>cs_subscribedChannels := []\<rparr>)"
    by simp
  note w = UnwatchAll_spec [OF u(1) c3]
  show "hub_inv (Disconnect i h)" using w(1) by (simp add: Disconnect_def)
  show "client (Disconnect i h) j =
       (if j = i then Some ((ResetTransaction c)\<lparr>cs_writerClosed := True, cs_Monitoring := False, cs_subscribedChannels := [], cs_watchedKeys := []\<rparr>)
        else client h j)"
    using w(2) [of j] u(2) [of j] by (simp add: Disconnect_def StopMonitoring_client ResetTransaction_def setMonitoring_def)
qed

lemma createClientState_inv: "hub_inv h \<Longrightarrow> client h i = None \<Longrightarrow> hub_inv (createClientState requirePass i h)"
  unfolding hub_inv_def createClientState_def
  by (auto simp: gm_get_set newClientState_def split: if_splits)

lemma table_aside:
  "modify i f (h\<lparr>hb_clientStates := t\<rparr>) = (modify i f h)\<lparr>hb_clientStates := t\<rparr>"
  "StopMonitoring i (h\<lparr>hb_clientStates := t\<rparr>) = (StopMonitoring i h)\<lparr>hb_clientStates := t\<rparr>"
  "UnsubscribeAll i (h\<lparr>hb_clientStates := t\<rparr>) = (UnsubscribeAll i h)\<lparr>hb_clientStates := t\<rparr>"
  "UnwatchAll i (h\<lparr>hb_clientStates := t\<rparr>) = (UnwatchAll i h)\<lparr>hb_clientStates := t\<rparr>"
  by (simp_all add: modify_def StopMonitoring_def UnsubscribeAll_def UnwatchAll_def WatchRegistry_UnwatchAll_def drainSubscribedChannels_def
      drainWatchedKeys_def Let_def split: option.split)

lemma Disconnect_aside: "Disconnect i (h\<lparr>hb_clientStates := t\<rparr>) = (Disconnect i h)\<lparr>hb_clientStates := t\<rparr>"
  by (simp add: Disconnect_def table_aside)

lemma removeClientState_absent: "hub_inv h \<Longrightarrow> client h i = None \<Longrightarrow> removeClientState i h = h"
  by (simp add: removeClientState_def hub_inv_def)

lemma removeClientState_spec:
  assumes inv: "hub_inv h" and c: "client h i = Some c"
  shows "hub_inv (removeClientState i h)" "client (removeClientState i h) j = (if j = i then None else client h j)"
proof -
  let ?c = "(ResetTransaction c)\<lparr>cs_writerClosed := True, cs_Monitoring := False, cs_subscribedChannels := [], cs_watchedKeys := []\<rparr>"
  have d: "hub_inv (Disconnect i h)" and ci: "client (Disconnect i h) i = Some ?c"
    using Disconnect_spec [OF inv c] by auto
  have "i \<in> set (hb_clientStates h)" using inv c by (simp add: hub_inv_def)
  then have e: "removeClientState i h =
      (Disconnect i h)\<lparr>hb_clientStates := gs_delete i (hb_clientStates h), hb_clients := gm_del (hb_clients (Disconnect i h)) i\<rparr>"
    by (simp add: removeClientState_def Disconnect_aside)
  have t: "hb_clientStates (removeClientState i h) = gs_delete i (hb_clientStates h)" by (simp add: e)
  have g: "client (removeClientState i h) j = (if j = i then None else client (Disconnect i h) j)" for j
    using gm_get_del_wf [OF d] by (simp add: e)
  show "client (removeClientState i h) j = (if j = i then None else client h j)"
    using g Disconnect_spec(2) [OF inv c] by simp
  have rest: "hb_watchers (removeClientState i h) = hb_watchers (Disconnect i h)"
    "hb_subscribers (removeClientState i h) = hb_subscribers (Disconnect i h)"
    "hb_monitors (removeClientState i h) = hb_monitors (Disconnect i h)"
    "hb_monitorCount (removeClientState i h) = hb_monitorCount (Disconnect i h)"
    "gm_wf (hb_clients (removeClientState i h))"
    using d by (auto simp: e hub_inv_def)
  have e: "(\<exists>c. (if j = i then None else client (Disconnect i h) j) = Some c \<and> P c) \<longleftrightarrow> (\<exists>c. client (Disconnect i h) j = Some c \<and> P c)"
    if "\<not> P ?c" for j P using ci that by auto
  have table: "set (hb_clientStates (removeClientState i h)) = {j. client (removeClientState i h) j \<noteq> None}"
    using inv Disconnect_spec(2) [OF inv c] unfolding t g by (auto simp: hub_inv_def)
  show "hub_inv (removeClientState i h)"
    using d ci table unfolding hub_inv_def rest g by (auto simp: rest e split: if_splits)
qed

section \<open>Sequences of operations\<close>

text \<open>What the command handlers and the connection code do to the hub, as operations in the order in which they take effect.
  Client numbers are never reused, so a connection opens only under a number that is not in use.  A handler gets the state it
  works on from the connection it serves, and the state is removed only after that connection's handler has returned, so an
  operation on a client that has no state does not occur; it is a no-op here.\<close>

datatype hub_op =
    HConnect bytes nat
  | HClose nat
  | HWatch nat "bytes list"
  | HUnwatch nat
  | HTouch "bytes list"
  | HSubscribe nat bytes
  | HUnsubscribe nat bytes
  | HUnsubscribeAll nat
  | HMonitor nat
  | HStopMonitor nat
  | HMulti nat
  | HQueue nat bytes "bytes list"
  | HDirty nat
  | HDrain nat
  | HReset nat
  | HAuth nat bool
  | HPort nat int
  | HPromote nat
  | HOffset nat int
  | HDisconnect nat

fun hub_do :: "hub_op \<Rightarrow> Hub \<Rightarrow> Hub" where
  "hub_do (HConnect requirePass i) h = (if client h i = None then createClientState requirePass i h else h)"
| "hub_do (HClose i) h = removeClientState i h"
| "hub_do (HWatch i keys) h = (if client h i = None then h else Watch i keys h)"
| "hub_do (HUnwatch i) h = UnwatchAll i h"
| "hub_do (HTouch keys) h = Touch keys h"
| "hub_do (HSubscribe i channel) h = (if client h i = None then h else Subscribe i channel h)"
| "hub_do (HUnsubscribe i channel) h = (if client h i = None then h else Unsubscribe i channel h)"
| "hub_do (HUnsubscribeAll i) h = UnsubscribeAll i h"
| "hub_do (HMonitor i) h = (if client h i = None then h else StartMonitoring i h)"
| "hub_do (HStopMonitor i) h = (if client h i = None then h else StopMonitoring i h)"
| "hub_do (HMulti i) h = modify i (fst \<circ> BeginTransaction) h"
| "hub_do (HQueue i name args) h = modify i (EnqueueCommand name args) h"
| "hub_do (HDirty i) h = modify i MarkTransactionDirty h"
| "hub_do (HDrain i) h = modify i (fst \<circ> DrainTransaction) h"
| "hub_do (HReset i) h = modify i ResetTransaction h"
| "hub_do (HAuth i b) h = modify i (SetAuthenticated b) h"
| "hub_do (HPort i port) h = modify i (SetReplicaListeningPort port) h"
| "hub_do (HPromote i) h = modify i PromoteToReplica h"
| "hub_do (HOffset i offset) h = modify i (SetLastWriteReplicationOffset offset) h"
| "hub_do (HDisconnect i) h = (if client h i = None then h else Disconnect i h)"

abbreviation hub_run :: "hub_op list \<Rightarrow> Hub \<Rightarrow> Hub" where
  "hub_run ops h \<equiv> foldl (\<lambda>h oper. hub_do oper h) h ops"

lemmas local_defs =
  BeginTransaction_def EnqueueCommand_def MarkTransactionDirty_def DrainTransaction_def ResetTransaction_def SetAuthenticated_def
  PromoteToReplica_def SetReplicaListeningPort_def SetLastWriteReplicationOffset_def

lemma UnwatchAll_absent [simp]: "client h i = None \<Longrightarrow> UnwatchAll i h = h"
  by (simp add: UnwatchAll_def WatchRegistry_UnwatchAll_def modify_def)

lemma UnsubscribeAll_absent [simp]: "client h i = None \<Longrightarrow> UnsubscribeAll i h = h"
  by (simp add: UnsubscribeAll_def)

lemma hub_do_inv: "hub_inv h \<Longrightarrow> hub_inv (hub_do oper h)"
proof (cases oper)
  case (HClose i)
  then show "hub_inv h \<Longrightarrow> ?thesis" using removeClientState_spec(1) [of h i] by (cases "client h i") (auto simp: removeClientState_absent)
next
  case (HWatch i keys)
  then show "hub_inv h \<Longrightarrow> ?thesis" using Watch_spec [of h i _ keys] by (cases "client h i") auto
next
  case (HUnwatch i)
  then show "hub_inv h \<Longrightarrow> ?thesis" using UnwatchAll_spec [of h i] by (cases "client h i") auto
next
  case (HUnsubscribeAll i)
  then show "hub_inv h \<Longrightarrow> ?thesis" using UnsubscribeAll_spec [of h i] by (cases "client h i") auto
qed (auto simp: Touch_spec createClientState_inv removeClientState_spec Disconnect_spec Subscribe_inv Unsubscribe_inv StartMonitoring_inv
      StopMonitoring_inv local_defs split: if_splits intro!: modify_inv)

lemma hub_run_inv: "hub_inv h \<Longrightarrow> hub_inv (hub_run ops h)"
  by (induction ops arbitrary: h) (simp_all add: hub_do_inv)

lemma emptyHub_inv: "hub_inv emptyHub"
  by (simp add: hub_inv_def emptyHub_def reg_ok_def reg_rel_def reg_members_def gm_wf_def)

text \<open>C16. In every state the server can reach, the shared registries and the clients' own sets say the same: the watchers of a
  key are the clients that hold it as watched, each once; the subscribers a message is delivered to are the clients that hold the
  channel, each once; the registered monitors are the clients in monitoring mode, each once, their count is exact, and monitoring
  is switched on iff there is one.  No key keeps an empty set of watchers or subscribers, so the registries do not grow with keys
  nobody watches; a connection that was removed is in no registry, since every registered number has a state.\<close>

theorem registries_mirror_clients:
  fixes ops k
  defines "h \<equiv> hub_run ops emptyHub"
  shows "set (reg_members (hb_watchers h) k) = {i. \<exists>c. client h i = Some c \<and> k \<in> set (cs_watchedKeys c)} \<and>
         distinct (reg_members (hb_watchers h) k) \<and>
         set (AppendSubscribers k h) = {i. \<exists>c. client h i = Some c \<and> k \<in> set (cs_subscribedChannels c)} \<and>
         distinct (AppendSubscribers k h) \<and>
         set (hb_monitors h) = {i. \<exists>c. client h i = Some c \<and> cs_Monitoring c} \<and> distinct (hb_monitors h) \<and>
         hb_monitorCount h = int (card {i. \<exists>c. client h i = Some c \<and> cs_Monitoring c}) \<and>
         (HasSubscribers h \<longleftrightarrow> (\<exists>i c. client h i = Some c \<and> cs_Monitoring c)) \<and>
         gm_get (hb_watchers h) k \<noteq> Some [] \<and> gm_get (hb_subscribers h) k \<noteq> Some [] \<and>
         set (hb_clientStates h) = {i. client h i \<noteq> None}"
proof -
  have inv: "hub_inv h" unfolding h_def by (rule hub_run_inv [OF emptyHub_inv])
  have mem: "set (reg_members r k) = {i. (k, i) \<in> reg_rel r}" for r by (simp add: reg_rel_def)
  have ms: "set (hb_monitors h) = {i. \<exists>c. client h i = Some c \<and> cs_Monitoring c}" "distinct (hb_monitors h)"
    "hb_monitorCount h = int (length (hb_monitors h))" using inv by (simp_all add: hub_inv_def)
  have card: "hb_monitorCount h = int (card {i. \<exists>c. client h i = Some c \<and> cs_Monitoring c})"
    using ms by (metis distinct_card)
  have "HasSubscribers h \<longleftrightarrow> set (hb_monitors h) \<noteq> {}" using ms(3) by (simp add: HasSubscribers_def)
  then have has: "HasSubscribers h \<longleftrightarrow> (\<exists>i c. client h i = Some c \<and> cs_Monitoring c)" unfolding ms(1) by auto
  have w: "reg_ok (hb_watchers h)" "reg_rel (hb_watchers h) = {(k, i). \<exists>c. client h i = Some c \<and> k \<in> set (cs_watchedKeys c)}"
    and s: "reg_ok (hb_subscribers h)" "reg_rel (hb_subscribers h) = {(k, i). \<exists>c. client h i = Some c \<and> k \<in> set (cs_subscribedChannels c)}"
    and t: "set (hb_clientStates h) = {i. client h i \<noteq> None}"
    using inv by (simp_all add: hub_inv_def)
  show ?thesis
    unfolding AppendSubscribers_def mem w(2) s(2) using has card ms(1,2) t reg_members_distinct [OF w(1)] reg_members_distinct [OF s(1)]
      w(1) s(1) by (auto simp: reg_ok_def)
qed

text \<open>What ends a client's watching, and what it adds to it.\<close>

fun forgets :: "nat \<Rightarrow> hub_op \<Rightarrow> bool" where
  "forgets i (HClose j) = (i = j)"
| "forgets i (HUnwatch j) = (i = j)"
| "forgets i (HReset j) = (i = j)"
| "forgets i (HDisconnect j) = (i = j)"
| "forgets i _ = False"

fun watches :: "nat \<Rightarrow> hub_op \<Rightarrow> bytes set" where
  "watches i (HWatch j keys) = (if i = j then set keys - {[]} else {})"
| "watches i _ = {}"

fun touches :: "hub_op \<Rightarrow> bytes set" where
  "touches (HTouch keys) = set keys"
| "touches _ = {}"

lemma hub_do_watch:
  assumes inv: "hub_inv h" and c: "client h i = Some c" and f: "\<not> forgets i oper"
  shows "\<exists>c'. client (hub_do oper h) i = Some c' \<and> set (cs_watchedKeys c') = set (cs_watchedKeys c) \<union> watches i oper \<and>
           (cs_TxFailed c' \<longleftrightarrow> cs_TxFailed c \<or> touches oper \<inter> set (cs_watchedKeys c) \<noteq> {})"
proof (cases oper)
  case (HConnect p j)
  then show ?thesis using c by (auto simp: createClientState_def gm_get_set)
next
  case (HClose j)
  then show ?thesis using c f inv removeClientState_spec(2) [OF inv, of j] by (cases "client h j") (auto simp: removeClientState_absent)
next
  case (HDisconnect j)
  then show ?thesis using c f Disconnect_spec(2) [OF inv, of j] by (cases "client h j") auto
next
  case (HWatch j keys)
  show ?thesis
  proof (cases "client h j")
    case (Some d)
    then show ?thesis using HWatch c Watch_spec [OF inv Some, of keys] by (cases "i = j") auto
  qed (use HWatch c in auto)
next
  case (HUnwatch j)
  then show ?thesis using c f UnwatchAll_spec(2) [OF inv, of j] by (cases "client h j") auto
next
  case (HTouch keys)
  then show ?thesis using c Touch_spec(2) [OF inv, of keys i] by (simp add: MarkTransactionFailed_def)
next
  case (HUnsubscribeAll j)
  then show ?thesis using c UnsubscribeAll_spec(2) [OF inv, of j] by (cases "client h j") auto
next
  case (HMulti j)
  then show ?thesis using c by (cases "cs_InTransaction c"; cases "i = j") (auto simp: BeginTransaction_def)
qed (use c f in \<open>auto simp: Subscribe_def Unsubscribe_def StartMonitoring_client StopMonitoring_client local_defs addSubscribedChannel_def
      removeSubscribedChannel_def setMonitoring_def\<close>)

lemma split_at_touch:
  "(\<exists>pre oper post. x # ops = pre @ oper # post \<and> P pre oper) \<longleftrightarrow> P [] x \<or> (\<exists>pre oper post. ops = pre @ oper # post \<and> P (x # pre) oper)"
  (is "?l \<longleftrightarrow> ?r")
proof
  assume ?l
  then obtain pre oper post where *: "x # ops = pre @ oper # post" "P pre oper" by blast
  then show ?r by (cases pre) auto
next
  assume ?r
  then show ?l
  proof
    assume "P [] x"
    then have "x # ops = [] @ x # ops \<and> P [] x" by simp
    then show ?l by blast
  next
    assume "\<exists>pre oper post. ops = pre @ oper # post \<and> P (x # pre) oper"
    then obtain pre oper post where "ops = pre @ oper # post \<and> P (x # pre) oper" by blast
    then have "x # ops = (x # pre) @ oper # post \<and> P (x # pre) oper" by simp
    then show ?l by blast
  qed
qed

lemma hub_run_watch:
  assumes "hub_inv h" "client h i = Some c" "\<forall>oper\<in>set ops. \<not> forgets i oper"
  shows "\<exists>c'. client (hub_run ops h) i = Some c' \<and>
     (cs_TxFailed c' \<longleftrightarrow> cs_TxFailed c \<or>
        (\<exists>pre oper post. ops = pre @ oper # post \<and>
           touches oper \<inter> (set (cs_watchedKeys c) \<union> \<Union> (watches i ` set pre)) \<noteq> {}))"
  using assms
proof (induction ops arbitrary: h c)
  case (Cons x ops)
  obtain c1 where c1: "client (hub_do x h) i = Some c1" and w: "set (cs_watchedKeys c1) = set (cs_watchedKeys c) \<union> watches i x"
    and t: "cs_TxFailed c1 \<longleftrightarrow> cs_TxFailed c \<or> touches x \<inter> set (cs_watchedKeys c) \<noteq> {}"
    using hub_do_watch [OF Cons.prems(1,2), of x] Cons.prems(3) by auto
  have "\<forall>oper\<in>set ops. \<not> forgets i oper" using Cons.prems(3) by simp
  from Cons.IH [OF hub_do_inv [OF Cons.prems(1)] c1 this] obtain c' where c': "client (hub_run ops (hub_do x h)) i = Some c'"
    and r: "cs_TxFailed c' \<longleftrightarrow> cs_TxFailed c1 \<or> (\<exists>pre oper post. ops = pre @ oper # post \<and>
           touches oper \<inter> (set (cs_watchedKeys c1) \<union> \<Union> (watches i ` set pre)) \<noteq> {})" by blast
  have "cs_TxFailed c' \<longleftrightarrow> cs_TxFailed c \<or> (\<exists>pre oper post. x # ops = pre @ oper # post \<and>
           touches oper \<inter> (set (cs_watchedKeys c) \<union> \<Union> (watches i ` set pre)) \<noteq> {})"
    unfolding r split_at_touch t w by (simp add: Un_assoc)
  with c' show ?case by auto
qed auto

section \<open>Touching in two phases\<close>

definition touch_collect :: "bytes list \<Rightarrow> Hub \<Rightarrow> nat list" where
  "touch_collect keys h =
     (if length keys = 1 then reg_members (hb_watchers h) (hd keys)
      else foldl (\<lambda>ids key. foldl (\<lambda>ids i. gs_insert i ids) ids (reg_members (hb_watchers h) key)) [] keys)"

lemma Touch_phases: "Touch keys h = foldl (\<lambda>h i. modify i MarkTransactionFailed h) h (touch_collect keys h)"
  by (simp add: Touch_def touch_collect_def touchSingleKey_def)

lemma gm_set_swap: "i \<noteq> j \<Longrightarrow> gm_get m j \<noteq> None \<Longrightarrow> gm_set (gm_set m j b) i a = gm_set (gm_set m i a) j b"
  by (induction m) (auto split: if_splits)

lemma gm_del_set: "i \<noteq> j \<Longrightarrow> gm_del (gm_set m j b) i = gm_set (gm_del m i) j b"
  by (induction m) (auto split: if_splits)

lemma modify_swap:
  "(\<And>c. f (g c) = g (f c)) \<Longrightarrow> modify i f (modify j g h) = modify j g (modify i f h)"
  by (cases "i = j") (auto simp: modify_def gm_get_set gm_set_swap split: option.splits)

lemma modify_aside:
  "modify j f (h\<lparr>hb_watchers := w\<rparr>) = (modify j f h)\<lparr>hb_watchers := w\<rparr>"
  "modify j f (h\<lparr>hb_subscribers := w\<rparr>) = (modify j f h)\<lparr>hb_subscribers := w\<rparr>"
  "modify j f (h\<lparr>hb_monitors := ms, hb_monitorCount := n\<rparr>) = (modify j f h)\<lparr>hb_monitors := ms, hb_monitorCount := n\<rparr>"
  by (simp_all add: modify_def split: option.split)

lemma mark_Watch: "Watch i keys (modify j MarkTransactionFailed h) = modify j MarkTransactionFailed (Watch i keys h)"
  by (induction keys arbitrary: h)
    (simp_all add: modify_aside [symmetric] modify_swap [of "addWatchedKey _" MarkTransactionFailed] addWatchedKey_def MarkTransactionFailed_def)

lemma mark_other: "i \<noteq> j \<Longrightarrow> modify i f (modify j g h) = modify j g (modify i f h)"
  by (auto simp: modify_def gm_get_set gm_set_swap split: option.splits)

lemma mark_UnwatchAll: "i \<noteq> j \<Longrightarrow> UnwatchAll i (modify j g h) = modify j g (UnwatchAll i h)"
  by (simp add: UnwatchAll_def WatchRegistry_UnwatchAll_def drainWatchedKeys_def Let_def modify_aside mark_other [of i j] split: option.split)

lemma UnsubscribeAll_modify:
  "client h i = Some c \<Longrightarrow> UnsubscribeAll i h =
     modify i (\<lambda>c. c\<lparr>cs_subscribedChannels := []\<rparr>) (h\<lparr>hb_subscribers := foldl (reg_remove i) (hb_subscribers h) (cs_subscribedChannels c)\<rparr>)"
  by (simp add: UnsubscribeAll_def drainSubscribedChannels_def modify_aside) (simp add: modify_def)

lemma mark_UnsubscribeAll:
  "UnsubscribeAll i (modify j MarkTransactionFailed h) = modify j MarkTransactionFailed (UnsubscribeAll i h)"
proof (cases "client h i")
  case (Some c)
  obtain c' where c': "client (modify j MarkTransactionFailed h) i = Some c'" "cs_subscribedChannels c' = cs_subscribedChannels c"
    using Some by (cases "i = j") (auto simp: MarkTransactionFailed_def)
  have sw: "modify i (\<lambda>c. c\<lparr>cs_subscribedChannels := []\<rparr>) (modify j MarkTransactionFailed h) =
      modify j MarkTransactionFailed (modify i (\<lambda>c. c\<lparr>cs_subscribedChannels := []\<rparr>) h)" for h
    by (rule modify_swap) (simp add: MarkTransactionFailed_def)
  show ?thesis unfolding UnsubscribeAll_modify [OF Some] UnsubscribeAll_modify [OF c'(1)] by (simp add: c'(2) sw flip: modify_aside)
next
  case None
  then show ?thesis by (cases "i = j") auto
qed

lemma mark_StopMonitoring:
  "StopMonitoring i (modify j MarkTransactionFailed h) = modify j MarkTransactionFailed (StopMonitoring i h)"
  by (simp add: StopMonitoring_def modify_aside [symmetric] modify_swap [of "setMonitoring _" MarkTransactionFailed] setMonitoring_def MarkTransactionFailed_def)

lemma mark_Disconnect: "i \<noteq> j \<Longrightarrow> Disconnect i (modify j MarkTransactionFailed h) = modify j MarkTransactionFailed (Disconnect i h)"
  by (simp add: Disconnect_def mark_other [of i j] mark_StopMonitoring mark_UnsubscribeAll mark_UnwatchAll)

lemma mark_remove: "i \<noteq> j \<Longrightarrow> removeClientState i (modify j MarkTransactionFailed h) = modify j MarkTransactionFailed (removeClientState i h)"
  by (simp add: removeClientState_def Disconnect_aside mark_Disconnect Let_def)
    (auto simp: modify_def gm_del_set split: option.splits)

lemma mark_marks:
  "foldl (\<lambda>h i. modify i MarkTransactionFailed h) (modify j MarkTransactionFailed h) ids =
   modify j MarkTransactionFailed (foldl (\<lambda>h i. modify i MarkTransactionFailed h) h ids)"
proof (induction ids arbitrary: h)
  case (Cons i ids)
  then show ?case using modify_swap [of MarkTransactionFailed MarkTransactionFailed i j h] by simp
qed simp

text \<open>A mark may come late: until the client unwatches, resets or leaves, marking it before or after any other operation gives the
  same state, so collecting and marking may be taken as one step.\<close>

lemma late_mark:
  assumes "client h j \<noteq> None" "\<not> forgets j oper"
  shows "hub_do oper (modify j MarkTransactionFailed h) = modify j MarkTransactionFailed (hub_do oper h)"
proof -
  have sw: "modify i f (modify j MarkTransactionFailed h) = modify j MarkTransactionFailed (modify i f h)"
    if "\<And>c. f (MarkTransactionFailed c) = MarkTransactionFailed (f c)" for i f h by (rule modify_swap) (rule that)
  show ?thesis
  proof (cases oper)
    case (HConnect p i)
    then show ?thesis using assms(1) gm_set_swap [of i j "hb_clients h"]
      by (auto simp: createClientState_def modify_def gm_get_set split: option.splits)
  next
    case (HTouch keys)
    then show ?thesis by (simp add: Touch_phases touch_collect_def mark_marks)
  next
    case (HReset i)
    then show ?thesis using assms(2) by (simp add: mark_other [of i j])
  next
    case (HMulti i)
    then show ?thesis by (simp add: sw BeginTransaction_def MarkTransactionFailed_def)
  qed (use assms in \<open>auto simp: mark_Watch mark_UnwatchAll mark_UnsubscribeAll mark_StopMonitoring mark_Disconnect mark_remove
        Subscribe_def Unsubscribe_def StartMonitoring_def sw modify_aside [symmetric] local_defs addSubscribedChannel_def removeSubscribedChannel_def
        setMonitoring_def MarkTransactionFailed_def\<close>)
qed

text \<open>A mark that comes after the client has unwatched fails the client's next transaction although it watches nothing.\<close>

lemma stale_mark:
  "let h = hub_run [HConnect [] 1, HWatch 1 [[107]]] emptyHub;
       ids = touch_collect [[107]] h;
       h = hub_run [HReset 1, HUnwatch 1] h;
       h = foldl (\<lambda>h i. modify i MarkTransactionFailed h) h ids;
       h = hub_run [HMulti 1] h
   in map_option (\<lambda>c. (cs_watchedKeys c, cs_TxFailed c)) (client h 1) = Some ([], True)"
  by code_simp

text \<open>C11. Optimistic locking is exact.  Take any reachable state and any further sequence of operations of all clients in which
  client \<^term>\<open>i\<close> does not unwatch, reset or disconnect.  Its transaction is marked as failed afterwards iff it was before, or some
  operation of the sequence touched a key the client watched at that moment: one it watched at the start, or one it had asked to
  watch earlier in the sequence (the empty key excepted).\<close>

theorem watch_exact:
  fixes before ops i
  defines "h \<equiv> hub_run before emptyHub"
  assumes "client h i = Some c" "\<forall>oper\<in>set ops. \<not> forgets i oper"
  shows "\<exists>c'. client (hub_run ops h) i = Some c' \<and>
     (cs_TxFailed c' \<longleftrightarrow> cs_TxFailed c \<or>
        (\<exists>pre oper post. ops = pre @ oper # post \<and>
           touches oper \<inter> (set (cs_watchedKeys c) \<union> \<Union> (watches i ` set pre)) \<noteq> {}))"
  using hub_run_watch [OF _ assms(2,3)] hub_run_inv [OF emptyHub_inv] unfolding h_def by blast

theorem watch_exact_witness:
  "\<exists>c'. client (hub_run [HWatch 1 [[107]], HMulti 1, HTouch [[120], [107]]] (hub_run [HConnect [] 1] emptyHub)) 1 = Some c' \<and> cs_TxFailed c'"
proof -
  let ?h = "hub_run [HConnect [] 1] emptyHub"
  let ?ops = "[HWatch 1 [[107]], HMulti 1, HTouch [[120], [107]]]"
  let ?c = "newClientState\<lparr>cs_Authenticated := True\<rparr>"
  have c: "client ?h 1 = Some ?c" by (simp add: createClientState_def emptyHub_def gm_get_set)
  have f: "\<forall>oper\<in>set ?ops. \<not> forgets 1 oper" by simp
  have s: "?ops = [HWatch 1 [[107]], HMulti 1] @ HTouch [[120], [107]] # [] \<and>
           touches (HTouch [[120], [107]]) \<inter> (set (cs_watchedKeys ?c) \<union> \<Union> (watches 1 ` set [HWatch 1 [[107]], HMulti 1])) \<noteq> {}"
    by simp
  show ?thesis using watch_exact [OF c f] s by blast
qed

text \<open>The empty key is a key like any other to the store, but watching it is ignored: a client that watches only the empty key
  keeps a valid transaction although the key was written.\<close>

theorem empty_key_not_watched:
  "map_option cs_TxFailed (client (hub_run [HConnect [] 1, HWatch 1 [[]], HMulti 1, HTouch [[]]] emptyHub) 1) = Some False"
  by code_simp

end
