(* ===== verification/Slowlog.thy ===== *)
theory Slowlog
  imports Prelude
begin

text \<open>
  The slow-command log (\<^verbatim>\<open>src/internal/server/slowlog.go\<close>): a ring buffer of fixed capacity with increasing numbers.
  Shown: it retains exactly the latest entries since the last reset, newest first, whatever was recorded before.
\<close>

section \<open>The ring buffer\<close>

record SlowlogEntry =
  se_ID :: int
  se_Timestamp :: int
  se_Duration :: int
  se_Command :: "bytes list"
  se_ClientID :: nat
  se_ClientAddr :: bytes

definition zeroEntry :: SlowlogEntry where
  "zeroEntry = \<lparr>se_ID = 0, se_Timestamp = 0, se_Duration = 0, se_Command = [], se_ClientID = 0, se_ClientAddr = []\<rparr>"

record SlowlogRegistry =
  sr_entries :: "SlowlogEntry list"
  sr_start :: nat
  sr_count :: nat
  sr_nextID :: int

definition defaultSlowlogCapacity :: nat where
  "defaultSlowlogCapacity = 128"

definition makeSlowlog :: "nat \<Rightarrow> SlowlogRegistry" where
  "makeSlowlog n = \<lparr>sr_entries = replicate n zeroEntry, sr_start = 0, sr_count = 0, sr_nextID = 0\<rparr>"

definition NewSlowlogRegistry :: SlowlogRegistry where
  "NewSlowlogRegistry = makeSlowlog defaultSlowlogCapacity"

text \<open>\<^verbatim>\<open>Record\<close> draws the number of an entry from an atomic counter before it takes the lock and inserts the entry under the lock: two
  steps, so that calls at the same time may insert entries in another order than that of their numbers.  \<open>Record\<close> is a call
  that no other interrupts.\<close>

definition drawID :: "SlowlogRegistry \<Rightarrow> SlowlogRegistry \<times> int" where
  "drawID r = (let next = wrap64 (sr_nextID r + 1) in (r\<lparr>sr_nextID := next\<rparr>, wrap64 (next - 1)))"

definition insertEntry :: "SlowlogEntry \<Rightarrow> SlowlogRegistry \<Rightarrow> SlowlogRegistry" where
  "insertEntry entry r =
     (let n = length (sr_entries r);
          idx = (sr_start r + sr_count r) mod n
      in if sr_count r = n
         then r\<lparr>sr_entries := (sr_entries r)[sr_start r := entry], sr_start := (sr_start r + 1) mod n\<rparr>
         else r\<lparr>sr_entries := (sr_entries r)[idx := entry], sr_count := sr_count r + 1\<rparr>)"

definition Record :: "SlowlogEntry \<Rightarrow> SlowlogRegistry \<Rightarrow> SlowlogRegistry" where
  "Record entry r =
     (if length (sr_entries r) = 0 then r
      else case drawID r of (r, number) \<Rightarrow> insertEntry (entry\<lparr>se_ID := number\<rparr>) r)"

lemma Record_eq:
  "Record entry r =
     (if length (sr_entries r) = 0 then r
      else
        let next = wrap64 (sr_nextID r + 1);
            entry = entry\<lparr>se_ID := wrap64 (next - 1)\<rparr>;
            n = length (sr_entries r);
            idx = (sr_start r + sr_count r) mod n
        in if sr_count r = n
           then r\<lparr>sr_entries := (sr_entries r)[sr_start r := entry], sr_start := (sr_start r + 1) mod n, sr_nextID := next\<rparr>
           else r\<lparr>sr_entries := (sr_entries r)[idx := entry], sr_count := sr_count r + 1, sr_nextID := next\<rparr>)"
  by (simp add: Record_def drawID_def insertEntry_def Let_def)

definition Entries :: "int \<Rightarrow> SlowlogRegistry \<Rightarrow> SlowlogEntry list" where
  "Entries limit r =
     (let count = (if 0 \<le> limit \<and> limit < int (sr_count r) then nat limit else sr_count r);
          n = length (sr_entries r)
      in map (\<lambda>i. sr_entries r ! ((sr_start r + sr_count r - 1 - i + n) mod n)) [0..<count])"

definition Len :: "SlowlogRegistry \<Rightarrow> nat" where
  "Len r = sr_count r"

definition Reset :: "SlowlogRegistry \<Rightarrow> SlowlogRegistry" where
  "Reset r = r\<lparr>sr_entries := replicate (length (sr_entries r)) zeroEntry, sr_start := 0, sr_count := 0\<rparr>"

section \<open>Refinement to a bounded list\<close>

text \<open>The contract of a bounded log: what it retains, newest first, and what recording and resetting do to that.\<close>

locale bounded_log =
  fixes ok :: "'r \<Rightarrow> bool"
    and capacity :: "'r \<Rightarrow> nat"
    and retained :: "'r \<Rightarrow> 'e list"
    and record_entry :: "'a \<Rightarrow> 'r \<Rightarrow> 'r"
    and reset :: "'r \<Rightarrow> 'r"
    and stamp :: "'a \<Rightarrow> 'r \<Rightarrow> 'e"
  assumes record_ok: "ok r \<Longrightarrow> ok (record_entry e r) \<and> capacity (record_entry e r) = capacity r"
    and reset_ok: "ok r \<Longrightarrow> ok (reset r) \<and> capacity (reset r) = capacity r"
    and record_retained: "ok r \<Longrightarrow> retained (record_entry e r) = take (capacity r) (stamp e r # retained r)"
    and reset_retained: "ok r \<Longrightarrow> retained (reset r) = []"
begin

lemma retained_bound: "ok r \<Longrightarrow> length (retained (record_entry e r)) \<le> capacity r"
  by (simp add: record_retained)

end

definition ring_ok :: "SlowlogRegistry \<Rightarrow> bool" where
  "ring_ok r \<longleftrightarrow> 0 < length (sr_entries r) \<and> sr_start r < length (sr_entries r) \<and> sr_count r \<le> length (sr_entries r)"

definition stamp :: "SlowlogEntry \<Rightarrow> SlowlogRegistry \<Rightarrow> SlowlogEntry" where
  "stamp e r = e\<lparr>se_ID := wrap64 (wrap64 (sr_nextID r + 1) - 1)\<rparr>"

lemma mod_shift:
  fixes i j :: nat
  assumes "i < n" "j < n" "(a + i) mod n = (a + j) mod n"
  shows "i = j"
proof -
  have "(int a + int i) mod int n = (int a + int j) mod int n"
    using assms(3) by (metis of_nat_add of_nat_mod)
  then have "int i mod int n = int j mod int n" by (metis add.commute mod_add_cong add_diff_cancel_left' mod_diff_cong)
  then show ?thesis using assms(1,2) by simp
qed

text \<open>The retained entries, oldest first, are the ones from \<^term>\<open>sr_start r\<close> on.\<close>

definition oldest_first :: "SlowlogRegistry \<Rightarrow> SlowlogEntry list" where
  "oldest_first r = map (\<lambda>i. sr_entries r ! ((sr_start r + i) mod length (sr_entries r))) [0..<sr_count r]"

lemma Entries_oldest_first:
  assumes "ring_ok r"
  shows "Entries (-1) r = rev (oldest_first r)"
proof (rule nth_equalityI)
  show "length (Entries (-1) r) = length (rev (oldest_first r))" by (simp add: Entries_def oldest_first_def Let_def)
next
  fix i assume "i < length (Entries (-1) r)"
  then have i: "i < sr_count r" by (simp add: Entries_def Let_def)
  let ?n = "length (sr_entries r)"
  have "(sr_start r + sr_count r - 1 - i + ?n) mod ?n = (sr_start r + (sr_count r - Suc i) + ?n) mod ?n"
    using i assms by (intro arg_cong [where f = "\<lambda>x. x mod ?n"]) (simp add: ring_ok_def)
  also have "\<dots> = (sr_start r + (sr_count r - Suc i)) mod ?n" by (metis mod_add_self2)
  finally show "Entries (-1) r ! i = rev (oldest_first r) ! i"
    using i by (simp add: Entries_def oldest_first_def Let_def rev_nth)
qed

lemma Entries_take: "0 \<le> limit \<Longrightarrow> Entries limit r = take (nat limit) (Entries (-1) r)"
  by (auto simp: Entries_def Let_def take_map)

lemma Record_ok: "ring_ok r \<Longrightarrow> ring_ok (Record e r) \<and> length (sr_entries (Record e r)) = length (sr_entries r)"
  by (auto simp: Record_eq ring_ok_def Let_def)

lemma Record_oldest_first:
  assumes ok: "ring_ok r"
  shows "oldest_first (Record e r) =
    (if sr_count r = length (sr_entries r) then tl (oldest_first r) else oldest_first r) @ [stamp e r]"
proof (cases "sr_count r = length (sr_entries r)")
  case True
  let ?n = "length (sr_entries r)"
  have R: "Record e r = r\<lparr>sr_entries := (sr_entries r)[sr_start r := stamp e r], sr_start := (sr_start r + 1) mod ?n,
      sr_nextID := wrap64 (sr_nextID r + 1)\<rparr>"
    using True ok by (simp add: Record_eq Let_def stamp_def ring_ok_def)
  show ?thesis
  proof (rule nth_equalityI)
    show "length (oldest_first (Record e r)) = length ((if sr_count r = ?n then tl (oldest_first r) else oldest_first r) @ [stamp e r])"
      using True ok by (simp add: R oldest_first_def ring_ok_def)
  next
    fix i assume "i < length (oldest_first (Record e r))"
    then have i: "i < ?n" using True by (simp add: R oldest_first_def)
    have m: "(Suc (sr_start r) mod ?n + i) mod ?n = Suc (sr_start r + i) mod ?n" by (simp add: mod_simps)
    have L: "oldest_first (Record e r) ! i = (sr_entries r)[sr_start r := stamp e r] ! ((sr_start r + Suc i) mod ?n)"
      using i True by (simp add: R oldest_first_def m)
    have s: "sr_start r = (sr_start r + 0) mod ?n" using ok by (simp add: ring_ok_def)
    show "oldest_first (Record e r) ! i = ((if sr_count r = ?n then tl (oldest_first r) else oldest_first r) @ [stamp e r]) ! i"
    proof (cases "Suc i = ?n")
      case last: True
      then have "(sr_start r + Suc i) mod ?n = sr_start r" using ok by (simp add: ring_ok_def)
      then show ?thesis using L last True ok by (simp add: nth_append oldest_first_def ring_ok_def)
    next
      case False
      then have "(sr_start r + Suc i) mod ?n \<noteq> sr_start r"
        using mod_shift [of "Suc i" ?n 0 "sr_start r"] i s False by (cases "sr_entries r = []") auto
      then show ?thesis using L False True i by (simp add: nth_append oldest_first_def nth_tl)
    qed
  qed
next
  case False
  let ?n = "length (sr_entries r)"
  have c: "sr_count r < ?n" using ok False by (simp add: ring_ok_def)
  have R: "Record e r = r\<lparr>sr_entries := (sr_entries r)[(sr_start r + sr_count r) mod ?n := stamp e r], sr_count := sr_count r + 1,
      sr_nextID := wrap64 (sr_nextID r + 1)\<rparr>"
    using False ok by (simp add: Record_eq Let_def stamp_def ring_ok_def)
  have lt: "(sr_start r + sr_count r) mod ?n < ?n" by (rule mod_less_divisor) (use c in auto)
  have neq: "(sr_entries r)[(sr_start r + sr_count r) mod ?n := stamp e r] ! ((sr_start r + i) mod ?n) =
      sr_entries r ! ((sr_start r + i) mod ?n)" if "i < sr_count r" for i
    using mod_shift [of i ?n "sr_count r" "sr_start r"] that c by (intro nth_list_update_neq) auto
  have old: "map (\<lambda>i. (sr_entries r)[(sr_start r + sr_count r) mod ?n := stamp e r] ! ((sr_start r + i) mod ?n)) [0..<sr_count r] =
      oldest_first r"
    unfolding oldest_first_def by (rule map_cong) (simp_all add: neq)
  show ?thesis using False old lt unfolding R oldest_first_def by simp
qed

lemma Record_Entries:
  assumes ok: "ring_ok r"
  shows "Entries (-1) (Record e r) = take (length (sr_entries r)) (stamp e r # Entries (-1) r)"
proof -
  have ok': "ring_ok (Record e r)" using Record_ok [OF ok] by simp
  have len: "length (oldest_first r) = sr_count r" by (simp add: oldest_first_def)
  have "take (length (sr_entries r)) (stamp e r # rev (oldest_first r)) =
      stamp e r # (if sr_count r = length (sr_entries r) then rev (tl (oldest_first r)) else rev (oldest_first r))"
    using len ok by (cases "length (sr_entries r)"; cases "oldest_first r") (auto simp: ring_ok_def)
  then show ?thesis
    by (simp add: Entries_oldest_first [OF ok'] Entries_oldest_first [OF ok] Record_oldest_first [OF ok])
qed

interpretation slow: bounded_log ring_ok "\<lambda>r. length (sr_entries r)" "Entries (-1)" Record Reset stamp
  proof unfold_locales
  show "Entries (- 1) (Reset r) = []" for r by (simp add: Reset_def Entries_def)
qed (simp_all add: Record_ok Record_Entries, simp_all add: Reset_def ring_ok_def)

section \<open>Histories\<close>

datatype slow_op = SRecord SlowlogEntry | SReset

fun slow_do :: "slow_op \<Rightarrow> SlowlogRegistry \<Rightarrow> SlowlogRegistry" where
  "slow_do (SRecord e) r = Record e r"
| "slow_do SReset r = Reset r"

text \<open>The specification: an unbounded log of the entries since the last reset, newest first, and the number recorded so far.\<close>

fun log_do :: "slow_op \<Rightarrow> SlowlogEntry list \<times> nat \<Rightarrow> SlowlogEntry list \<times> nat" where
  "log_do (SRecord e) (es, n) = (e\<lparr>se_ID := wrap64 (int n)\<rparr> # es, n + 1)"
| "log_do SReset (es, n) = ([], n)"

lemma wrap64_pred: "wrap64 (wrap64 (wrap64 a + 1) - 1) = wrap64 a"
  by (simp add: wrap64_def algebra_simps mod_simps)

lemma wrap64_Suc: "wrap64 (wrap64 a + 1) = wrap64 (a + 1)"
  by (simp add: wrap64_def algebra_simps mod_simps)

lemma slow_do_refines:
  assumes "ring_ok r" "sr_nextID r = wrap64 (int n)" "Entries (-1) r = take (length (sr_entries r)) es"
  shows "ring_ok (slow_do x r) \<and> length (sr_entries (slow_do x r)) = length (sr_entries r) \<and>
         sr_nextID (slow_do x r) = wrap64 (int (snd (log_do x (es, n)))) \<and>
         Entries (-1) (slow_do x r) = take (length (sr_entries r)) (fst (log_do x (es, n)))"
proof (cases x)
  case (SRecord e)
  have "sr_nextID (Record e r) = wrap64 (sr_nextID r + 1)" using assms(1) by (auto simp: Record_eq ring_ok_def Let_def)
  then have id: "sr_nextID (Record e r) = wrap64 (int (n + 1))" by (simp only: assms(2) wrap64_Suc of_nat_add of_nat_1)
  have "stamp e r = e\<lparr>se_ID := wrap64 (int n)\<rparr>" by (simp add: stamp_def assms(2) wrap64_pred)
  then show ?thesis
    using SRecord slow.record_ok [OF assms(1), of e] slow.record_retained [OF assms(1), of e] id assms(3)
    by (cases "length (sr_entries r)") (simp_all add: take_Cons' min_def)
next
  case SReset
  then show ?thesis using assms slow.reset_ok [OF assms(1)] slow.reset_retained [OF assms(1)] by (simp add: Reset_def)
qed

lemma slow_run_refines:
  assumes "ring_ok r" "sr_nextID r = wrap64 (int n)" "Entries (-1) r = take (length (sr_entries r)) es"
  shows "Entries (-1) (foldl (\<lambda>r x. slow_do x r) r ops) = take (length (sr_entries r)) (fst (foldl (\<lambda>s x. log_do x s) (es, n) ops))"
  using assms
proof (induction ops arbitrary: r es n)
  case (Cons x ops)
  obtain es' n' where l: "log_do x (es, n) = (es', n')" by fastforce
  from slow_do_refines [OF Cons.prems, of x] have
    "ring_ok (slow_do x r)" "sr_nextID (slow_do x r) = wrap64 (int n')"
    "Entries (-1) (slow_do x r) = take (length (sr_entries (slow_do x r))) es'" "length (sr_entries (slow_do x r)) = length (sr_entries r)"
    by (auto simp: l)
  from Cons.IH [OF this(1-3)] this(4) show ?case by (simp add: l)
qed simp

text \<open>C27. The slow-command log keeps exactly what it promises.  After any sequence of records and resets, asking for the entries
  yields the latest 128 (or, with a limit, at most that many) of those recorded since the last reset, newest first and in order,
  numbered by their position in the whole history, which a reset does not restart.\<close>

theorem slowlog_retains_latest:
  fixes ops :: "slow_op list"
  defines "r \<equiv> foldl (\<lambda>r x. slow_do x r) NewSlowlogRegistry ops"
  shows "Entries limit r =
     (if limit < 0 then id else take (nat limit)) (take 128 (fst (foldl (\<lambda>s x. log_do x s) ([], 0) ops)))"
proof -
  have all: "Entries (-1) r = take 128 (fst (foldl (\<lambda>s x. log_do x s) ([], 0) ops))"
    unfolding r_def
    using slow_run_refines [of NewSlowlogRegistry 0 "[]" ops]
    by (simp add: NewSlowlogRegistry_def makeSlowlog_def defaultSlowlogCapacity_def ring_ok_def Entries_def wrap64_def)
  show ?thesis
  proof (cases "limit < 0")
    case True
    then have "Entries limit r = Entries (-1) r" by (simp add: Entries_def)
    then show ?thesis using all True by simp
  qed (simp add: Entries_take all)
qed

end
