(* ===== verification/Replication.thy ===== *)
theory Replication
  imports Resp_Decode
begin

text \<open>
  The master's side of replication (\<^verbatim>\<open>src/internal/server/replication.go\<close>, with WAIT's request for acknowledgements from
  \<^verbatim>\<open>src/internal/command/commands.go\<close>): the offsets, the registry of replica peers with their acknowledgements, and the
  propagation of command frames.  What a peer's connection has received since the peer was registered is kept as bytes in the
  peer, so that offsets and bytes can be compared; writing to a connection may fail, which is a parameter.

  Propagations run on the goroutines of the connections and share no lock, so a call is modelled twice: whole, for a call that
  nobody interrupts, and as the steps between which other calls may run; \<open>propagate_uninterrupted\<close> and
  \<open>getack_uninterrupted\<close> relate the two.

  Shown: under every interleaving a replica receives whole payloads, each of the sends addressed to it once; when no send is
  under way its count of bytes plus the master's offset at its registration is the master's offset; sends that do not overlap
  arrive in order, and sends that do may not (\<open>concurrent_propagations_reorder\<close>); and what this means for the offsets that WAIT
  compares.
\<close>

section \<open>Results and frames\<close>

record ExecuteResult =
  er_Responses :: "Value list"
  er_UpstreamReplies :: "Value list"
  er_Propagation :: "Value list"
  er_Durability :: "Value list"
  er_RegisterReplica :: bool

definition emptyResult :: ExecuteResult where
  "emptyResult = \<lparr>er_Responses = [], er_UpstreamReplies = [], er_Propagation = [], er_Durability = [], er_RegisterReplica = False\<rparr>"

definition MultiResponse :: "Value list \<Rightarrow> ExecuteResult" where
  "MultiResponse values = emptyResult\<lparr>er_Responses := values\<rparr>"

definition SingleResponse :: "Value \<Rightarrow> ExecuteResult" where
  "SingleResponse value = MultiResponse [value]"

definition DeleteFrame :: "bytes list \<Rightarrow> Value" where
  "DeleteFrame keys = Array (TextBulkString (str ''DEL'') False # map (\<lambda>key. BulkString key False) keys) False"

section \<open>Offsets\<close>

record ReplicationState =
  rs_MasterReplicationID :: bytes
  rs_masterOffset :: int
  rs_replicaOffset :: int

definition AdvanceMasterOffset :: "int \<Rightarrow> ReplicationState \<Rightarrow> ReplicationState \<times> int" where
  "AdvanceMasterOffset delta s =
     (if delta \<le> 0 then (s, rs_masterOffset s)
      else let offset = wrap64 (rs_masterOffset s + delta) in (s\<lparr>rs_masterOffset := offset\<rparr>, offset))"

definition AdvanceReplicaOffset :: "int \<Rightarrow> ReplicationState \<Rightarrow> ReplicationState \<times> int" where
  "AdvanceReplicaOffset delta s =
     (if delta \<le> 0 then (s, rs_replicaOffset s)
      else let offset = wrap64 (rs_replicaOffset s + delta) in (s\<lparr>rs_replicaOffset := offset\<rparr>, offset))"

section \<open>The registry of peers\<close>

text \<open>\<^term>\<open>rr_changed\<close> counts the notification channels closed so far: a waiter that holds the channel of number \<open>n\<close> is woken once
  the counter passes \<open>n\<close>.\<close>

record ReplicaPeer =
  rp_ListeningPort :: int
  rp_AckOffset :: int
  rp_received :: bytes

record ReplicaRegistry =
  rr_replicas :: "(nat, ReplicaPeer) gomap"
  rr_changed :: nat

definition NewReplicaRegistry :: ReplicaRegistry where
  "NewReplicaRegistry = \<lparr>rr_replicas = [], rr_changed = 0\<rparr>"

definition notifyChangedLocked :: "ReplicaRegistry \<Rightarrow> ReplicaRegistry" where
  "notifyChangedLocked r = r\<lparr>rr_changed := rr_changed r + 1\<rparr>"

definition Add :: "nat \<Rightarrow> int \<Rightarrow> ReplicaRegistry \<Rightarrow> ReplicaRegistry" where
  "Add i listeningPort r =
     notifyChangedLocked
       (r\<lparr>rr_replicas := gm_set (rr_replicas r) i \<lparr>rp_ListeningPort = listeningPort, rp_AckOffset = 0, rp_received = []\<rparr>\<rparr>)"

definition UpdateAck :: "nat \<Rightarrow> int \<Rightarrow> ReplicaRegistry \<Rightarrow> ReplicaRegistry \<times> bool" where
  "UpdateAck i offset r =
     (case gm_get (rr_replicas r) i of
        None \<Rightarrow> (r, False)
      | Some peer \<Rightarrow>
          (if offset > rp_AckOffset peer
           then notifyChangedLocked (r\<lparr>rr_replicas := gm_set (rr_replicas r) i (peer\<lparr>rp_AckOffset := offset\<rparr>)\<rparr>) else r,
           True))"

definition countReplicasAtOrAboveLocked :: "int \<Rightarrow> ReplicaRegistry \<Rightarrow> nat" where
  "countReplicasAtOrAboveLocked targetOffset r = length (filter (\<lambda>(i, peer). rp_AckOffset peer \<ge> targetOffset) (rr_replicas r))"

definition CountReplicasAtOrAbove :: "int \<Rightarrow> ReplicaRegistry \<Rightarrow> nat" where
  "CountReplicasAtOrAbove targetOffset r = countReplicasAtOrAboveLocked targetOffset r"

definition CountReplicasAtOrAboveWithNotify :: "int \<Rightarrow> ReplicaRegistry \<Rightarrow> nat \<times> nat" where
  "CountReplicasAtOrAboveWithNotify targetOffset r = (countReplicasAtOrAboveLocked targetOffset r, rr_changed r)"

definition Remove :: "nat \<Rightarrow> ReplicaRegistry \<Rightarrow> ReplicaRegistry" where
  "Remove i r =
     (let r' = r\<lparr>rr_replicas := gm_del (rr_replicas r) i\<rparr>
      in if gm_get (rr_replicas r) i = None then r' else notifyChangedLocked r')"

text \<open>Writing a payload to a peer: \<^term>\<open>ok i\<close> says whether the connection of peer \<open>i\<close> takes it.  A peer whose connection fails
  is dropped.\<close>

definition writePropagationPayloadToReplica :: "(nat \<Rightarrow> bool) \<Rightarrow> bytes \<Rightarrow> nat \<Rightarrow> ReplicaRegistry \<Rightarrow> ReplicaRegistry \<times> bool" where
  "writePropagationPayloadToReplica ok payload i r =
     (if ok i
      then (case gm_get (rr_replicas r) i of
              None \<Rightarrow> (r, True)
            | Some peer \<Rightarrow> (r\<lparr>rr_replicas := gm_set (rr_replicas r) i (peer\<lparr>rp_received := rp_received peer @ payload\<rparr>)\<rparr>, True))
      else (Remove i r, False))"

fun writePropagationPayloadSequential :: "(nat \<Rightarrow> bool) \<Rightarrow> bytes \<Rightarrow> nat list \<Rightarrow> nat \<times> nat \<Rightarrow> ReplicaRegistry \<Rightarrow> ReplicaRegistry \<times> nat \<times> nat" where
  "writePropagationPayloadSequential ok payload [] (succeeded, failed) r = (r, succeeded, failed)"
| "writePropagationPayloadSequential ok payload (i # peers) (succeeded, failed) r =
     (let (r', b) = writePropagationPayloadToReplica ok payload i r
      in writePropagationPayloadSequential ok payload peers (if b then (succeeded + 1, failed) else (succeeded, failed + 1)) r')"

record propagationReport =
  pr_attempted :: nat
  pr_succeeded :: nat
  pr_failed :: nat
  pr_payloadSize :: nat
  pr_endOffset :: int

definition noReport :: propagationReport where
  "noReport = \<lparr>pr_attempted = 0, pr_succeeded = 0, pr_failed = 0, pr_payloadSize = 0, pr_endOffset = 0\<rparr>"

text \<open>A call that runs without another in between; the steps it takes, between which others may run, are
  \<open>propagate_begin\<close>, \<open>propagate_advance\<close> and \<open>send_write\<close> below.  The workers that share the fan-out write to distinct
  peers, so their order does not show here.\<close>

definition propagateToReplicas ::
  "(nat \<Rightarrow> bool) \<Rightarrow> Value list \<Rightarrow> ReplicationState \<times> ReplicaRegistry \<Rightarrow> (ReplicationState \<times> ReplicaRegistry) \<times> propagationReport" where
  "propagateToReplicas ok values s =
     (if values = [] then (s, noReport)
      else
        case EncodeValues values of
          Inl e \<Rightarrow> (s, noReport)
        | Inr payload \<Rightarrow>
            let peers = gm_keys (rr_replicas (snd s));
                (state, endOffset) = AdvanceMasterOffset (int (length payload)) (fst s);
                (registry, succeeded, failed) = writePropagationPayloadSequential ok payload peers (0, 0) (snd s)
            in ((state, registry),
                \<lparr>pr_attempted = length peers, pr_succeeded = succeeded, pr_failed = failed, pr_payloadSize = length payload,
                 pr_endOffset = endOffset\<rparr>))"

text \<open>WAIT's request for acknowledgements (\<^verbatim>\<open>src/internal/command/commands.go\<close>): unlike a propagation it advances the
  offset before it takes the snapshot.\<close>

definition cachedReplConfGetAckPayload :: "proto_error + bytes" where
  "cachedReplConfGetAckPayload =
     Encode (Array [TextBulkString (str ''REPLCONF'') False, BulkString (str ''GETACK'') False, BulkString (str ''*'') False] False)"

definition requestReplicaAcknowledgements ::
  "(nat \<Rightarrow> bool) \<Rightarrow> ReplicationState \<times> ReplicaRegistry \<Rightarrow> (ReplicationState \<times> ReplicaRegistry) \<times> proto_error option" where
  "requestReplicaAcknowledgements ok s =
     (case cachedReplConfGetAckPayload of
        Inl e \<Rightarrow> (s, Some e)
      | Inr encoded \<Rightarrow>
          let state = fst (AdvanceMasterOffset (int (length encoded)) (fst s));
              peers = gm_keys (rr_replicas (snd s))
          in ((state, fst (writePropagationPayloadSequential ok encoded peers (0, 0) (snd s))), None))"

section \<open>The replica's side\<close>

text \<open>A replica counts the encoded length of every value it has parsed from the master's stream.\<close>

definition replica_step :: "Value \<Rightarrow> ReplicationState \<Rightarrow> ReplicationState option" where
  "replica_step value s =
     (case EncodedLen value of Inl e \<Rightarrow> None | Inr n \<Rightarrow> Some (fst (AdvanceReplicaOffset (int n) s)))"

section \<open>Interleaved calls\<close>

text \<open>Connections propagate from their own goroutines with no lock around the whole call: the snapshot of the peers, the advance
  of the offset and each write to a peer are separate steps.  \<^term>\<open>ms_sends\<close> lists the calls begun so far with how far each has
  got.\<close>

datatype send =
    Unadvanced bytes "nat list" \<comment> \<open>a propagation that has its snapshot and has not advanced the offset\<close>
  | Unsnapshotted bytes \<comment> \<open>a request for acknowledgements that has advanced the offset and has no snapshot\<close>
  | Writing bytes "nat list" "nat list" \<comment> \<open>the snapshot and the peers of it that are not yet written\<close>

record Master =
  ms_replication :: ReplicationState
  ms_replicaPeers :: ReplicaRegistry
  ms_sends :: "send list"

definition propagate_begin :: "Value list \<Rightarrow> Master \<Rightarrow> Master" where
  "propagate_begin values m =
     (if values = [] then m
      else
        case EncodeValues values of
          Inl e \<Rightarrow> m
        | Inr payload \<Rightarrow> m\<lparr>ms_sends := ms_sends m @ [Unadvanced payload (gm_keys (rr_replicas (ms_replicaPeers m)))]\<rparr>)"

definition propagate_advance :: "nat \<Rightarrow> Master \<Rightarrow> Master" where
  "propagate_advance k m =
     (if k < length (ms_sends m) then
        case ms_sends m ! k of
          Unadvanced payload peers \<Rightarrow>
            m\<lparr>ms_replication := fst (AdvanceMasterOffset (int (length payload)) (ms_replication m)),
              ms_sends := (ms_sends m)[k := Writing payload peers peers]\<rparr>
        | _ \<Rightarrow> m
      else m)"

definition getack_begin :: "Master \<Rightarrow> Master" where
  "getack_begin m =
     (case cachedReplConfGetAckPayload of
        Inl e \<Rightarrow> m
      | Inr encoded \<Rightarrow>
          m\<lparr>ms_replication := fst (AdvanceMasterOffset (int (length encoded)) (ms_replication m)),
            ms_sends := ms_sends m @ [Unsnapshotted encoded]\<rparr>)"

definition getack_snapshot :: "nat \<Rightarrow> Master \<Rightarrow> Master" where
  "getack_snapshot k m =
     (if k < length (ms_sends m) then
        case ms_sends m ! k of
          Unsnapshotted encoded \<Rightarrow>
            (let peers = gm_keys (rr_replicas (ms_replicaPeers m))
             in m\<lparr>ms_sends := (ms_sends m)[k := Writing encoded peers peers]\<rparr>)
        | _ \<Rightarrow> m
      else m)"

definition send_write :: "nat \<Rightarrow> nat \<Rightarrow> bool \<Rightarrow> Master \<Rightarrow> Master" where
  "send_write k i ok m =
     (if k < length (ms_sends m) then
        case ms_sends m ! k of
          Writing payload peers rest \<Rightarrow>
            (if i \<in> set rest
             then m\<lparr>ms_replicaPeers := fst (writePropagationPayloadToReplica (\<lambda>_. ok) payload i (ms_replicaPeers m)),
                    ms_sends := (ms_sends m)[k := Writing payload peers (removeAll i rest)]\<rparr>
             else m)
        | _ \<Rightarrow> m
      else m)"

datatype repl_op =
    RAdd nat int
  | RAck nat int
  | RRemove nat
  | RPropagate "Value list"
  | RAdvance nat
  | RRequestAcks
  | RSnapshot nat
  | RWrite nat nat bool

fun repl_do :: "repl_op \<Rightarrow> Master \<Rightarrow> Master" where
  "repl_do (RAdd i port) m = m\<lparr>ms_replicaPeers := Add i port (ms_replicaPeers m)\<rparr>"
| "repl_do (RAck i offset) m = m\<lparr>ms_replicaPeers := fst (UpdateAck i offset (ms_replicaPeers m))\<rparr>"
| "repl_do (RRemove i) m = m\<lparr>ms_replicaPeers := Remove i (ms_replicaPeers m)\<rparr>"
| "repl_do (RPropagate values) m = propagate_begin values m"
| "repl_do (RAdvance k) m = propagate_advance k m"
| "repl_do RRequestAcks m = getack_begin m"
| "repl_do (RSnapshot k) m = getack_snapshot k m"
| "repl_do (RWrite k i ok) m = send_write k i ok m"

abbreviation repl_run :: "repl_op list \<Rightarrow> Master \<Rightarrow> Master" where
  "repl_run ops m \<equiv> foldl (\<lambda>m x. repl_do x m) m ops"

text \<open>The state of a server that has just started as a master.\<close>

definition repl_start :: "bytes \<Rightarrow> Master" where
  "repl_start replid =
     \<lparr>ms_replication = \<lparr>rs_MasterReplicationID = replid, rs_masterOffset = 0, rs_replicaOffset = 0\<rparr>,
      ms_replicaPeers = NewReplicaRegistry, ms_sends = []\<rparr>"

section \<open>What the interleaving keeps\<close>

primrec send_payload :: "send \<Rightarrow> bytes" where
  "send_payload (Unadvanced payload peers) = payload"
| "send_payload (Unsnapshotted payload) = payload"
| "send_payload (Writing payload peers rest) = payload"

text \<open>The peers a send addresses, once it has its snapshot, and those it has been through.\<close>

primrec addressed :: "send \<Rightarrow> nat set option" where
  "addressed (Unadvanced payload peers) = Some (set peers)"
| "addressed (Unsnapshotted payload) = None"
| "addressed (Writing payload peers rest) = Some (set peers)"

primrec written :: "send \<Rightarrow> nat set" where
  "written (Unadvanced payload peers) = {}"
| "written (Unsnapshotted payload) = {}"
| "written (Writing payload peers rest) = set peers - set rest"

primrec advanced :: "send \<Rightarrow> bytes" where
  "advanced (Unadvanced payload peers) = []"
| "advanced (Unsnapshotted payload) = payload"
| "advanced (Writing payload peers rest) = payload"

primrec complete :: "send \<Rightarrow> bool" where
  "complete (Unadvanced payload peers) = False"
| "complete (Unsnapshotted payload) = False"
| "complete (Writing payload peers rest) = (rest = [])"

abbreviation quiescent :: "Master \<Rightarrow> bool" where
  "quiescent m \<equiv> \<forall>x\<in>set (ms_sends m). complete x"

fun begins :: "repl_op \<Rightarrow> bool" where
  "begins (RPropagate values) = True"
| "begins RRequestAcks = True"
| "begins _ = False"

text \<open>Sends do not overlap: none begins while another is under way.\<close>

primrec serial :: "repl_op list \<Rightarrow> Master \<Rightarrow> bool" where
  "serial [] m = True"
| "serial (x # ops) m = ((begins x \<longrightarrow> quiescent m) \<and> serial ops (repl_do x m))"

fun attaches :: "nat \<Rightarrow> repl_op \<Rightarrow> bool" where
  "attaches i (RAdd j port) = (i = j)"
| "attaches i _ = False"

abbreviation peer_of :: "Master \<Rightarrow> nat \<Rightarrow> ReplicaPeer option" where
  "peer_of m i \<equiv> gm_get (rr_replicas (ms_replicaPeers m)) i"

definition written_to :: "nat \<Rightarrow> Master \<Rightarrow> nat set" where
  "written_to i m = {k. k < length (ms_sends m) \<and> i \<in> written (ms_sends m ! k)}"

definition sent_bytes :: "Master \<Rightarrow> bytes" where
  "sent_bytes m = concat (map send_payload (ms_sends m))"

lemma getack_payload [simp]:
  "cachedReplConfGetAckPayload =
     Inr (str ''*3'' @ [13, 10] @ str ''$8'' @ [13, 10] @ str ''REPLCONF'' @ [13, 10] @ str ''$6'' @ [13, 10] @ str ''GETACK'' @ [13, 10] @
          str ''$1'' @ [13, 10] @ str ''*'' @ [13, 10])"
  by code_simp

lemmas send_steps = propagate_begin_def propagate_advance_def getack_begin_def getack_snapshot_def send_write_def

lemma Remove_fields [simp]:
  "rr_replicas (Remove i r) = gm_del (rr_replicas r) i"
  by (simp add: Remove_def Let_def notifyChangedLocked_def)

lemma Add_fields [simp]:
  "rr_replicas (Add i port r) = gm_set (rr_replicas r) i \<lparr>rp_ListeningPort = port, rp_AckOffset = 0, rp_received = []\<rparr>"
  by (simp add: Add_def notifyChangedLocked_def)

lemma UpdateAck_peer:
  "gm_get (rr_replicas (fst (UpdateAck i offset r))) j =
     (if j = i then map_option (\<lambda>p. p\<lparr>rp_AckOffset := max offset (rp_AckOffset p)\<rparr>) (gm_get (rr_replicas r) i) else gm_get (rr_replicas r) j)"
  by (auto simp: UpdateAck_def gm_get_set notifyChangedLocked_def max_def split: option.splits)

lemma UpdateAck_wf: "gm_wf (rr_replicas r) \<Longrightarrow> gm_wf (rr_replicas (fst (UpdateAck i offset r)))"
  by (auto simp: UpdateAck_def notifyChangedLocked_def split: option.splits)

lemma write_to_wf:
  "gm_wf (rr_replicas r) \<Longrightarrow> gm_wf (rr_replicas (fst (writePropagationPayloadToReplica ok pl i r)))"
  by (auto simp: writePropagationPayloadToReplica_def split: option.splits)

lemma write_to_peer:
  "gm_wf (rr_replicas r) \<Longrightarrow>
   gm_get (rr_replicas (fst (writePropagationPayloadToReplica ok pl i r))) j =
      (if j = i then if ok i then map_option (\<lambda>p. p\<lparr>rp_received := rp_received p @ pl\<rparr>) (gm_get (rr_replicas r) i) else None
       else gm_get (rr_replicas r) j)"
  by (auto simp: writePropagationPayloadToReplica_def gm_get_set gm_get_del split: option.splits)

lemma repl_do_wf:
  "gm_wf (rr_replicas (ms_replicaPeers m)) \<Longrightarrow> gm_wf (rr_replicas (ms_replicaPeers (repl_do x m)))"
  by (cases x) (auto simp: send_steps UpdateAck_wf write_to_wf Let_def split: sum.splits send.splits)

lemma registered_key: "gm_get m i = Some p \<Longrightarrow> i \<in> set (gm_keys m)"
  by (auto simp: gm_keys_def dest!: map_of_SomeD intro: rev_image_eqI)

primrec send_ok :: "send \<Rightarrow> bool" where
  "send_ok (Unadvanced payload peers) = True"
| "send_ok (Unsnapshotted payload) = True"
| "send_ok (Writing payload peers rest) = (set rest \<subseteq> set peers)"

abbreviation sends_ok :: "Master \<Rightarrow> bool" where
  "sends_ok m \<equiv> gm_wf (rr_replicas (ms_replicaPeers m)) \<and> (\<forall>x\<in>set (ms_sends m). send_ok x)"

lemma send_ok_update: "(\<forall>x\<in>set xs. send_ok x) \<Longrightarrow> send_ok y \<Longrightarrow> \<forall>x\<in>set (xs[k := y]). send_ok x"
  using set_update_subset_insert by fastforce

lemma repl_do_ok: "sends_ok m \<Longrightarrow> sends_ok (repl_do x m)"
proof -
  assume ok: "sends_ok m"
  have w: "send_ok (Writing pl ps (removeAll i rest))" if "k < length (ms_sends m)" "ms_sends m ! k = Writing pl ps rest" for k pl ps rest i
    using ok that nth_mem by fastforce
  have "\<forall>y\<in>set (ms_sends (repl_do x m)). send_ok y"
  proof (cases x)
    case (RWrite k i b)
    then show ?thesis using ok send_ok_update [OF _ w] by (auto simp del: send_ok.simps simp: send_write_def split: send.splits)
  qed (use ok in \<open>auto simp: send_steps Let_def dest: set_update_subset_insert [THEN subsetD] split: sum.splits send.splits\<close>)
  then show ?thesis using ok repl_do_wf by blast
qed

lemma repl_do_length: "length (ms_sends m) \<le> length (ms_sends (repl_do x m))"
  by (cases x) (auto simp: send_steps Let_def split: sum.splits send.splits)

text \<open>How a send develops: its payload and the peers it addresses stay, and a complete one does not change any more.\<close>

lemma repl_do_send:
  assumes "k < length (ms_sends m)"
  shows "send_payload (ms_sends (repl_do x m) ! k) = send_payload (ms_sends m ! k)"
    "addressed (ms_sends m ! k) = Some A \<Longrightarrow> addressed (ms_sends (repl_do x m) ! k) = Some A"
    "complete (ms_sends m ! k) \<Longrightarrow> ms_sends (repl_do x m) ! k = ms_sends m ! k"
  using assms by (cases x; auto simp: send_steps Let_def nth_append nth_list_update split: sum.splits send.splits)+

lemma repl_do_addressed:
  assumes "peer_of m i = Some p" "k < length (ms_sends (repl_do x m))"
    "length (ms_sends m) \<le> k \<or> addressed (ms_sends m ! k) = None" "addressed (ms_sends (repl_do x m) ! k) = Some A"
  shows "i \<in> A"
  using assms registered_key [OF assms(1)]
  by (cases x) (auto simp: send_steps Let_def nth_append nth_list_update split: sum.splits send.splits if_splits)

lemma written_to_same:
  assumes "length (ms_sends m') \<ge> length (ms_sends m)"
    "\<And>k. k < length (ms_sends m) \<Longrightarrow> i \<in> written (ms_sends m' ! k) \<longleftrightarrow> i \<in> written (ms_sends m ! k)"
    "\<And>k. length (ms_sends m) \<le> k \<Longrightarrow> k < length (ms_sends m') \<Longrightarrow> i \<notin> written (ms_sends m' ! k)"
  shows "written_to i m' = written_to i m"
  using assms unfolding written_to_def by (metis (no_types, lifting) leI less_le_trans Collect_cong)

text \<open>What a step does to the stream of a peer: it leaves it alone, or it appends the payload of one send that is not complete and
  has not been written to the peer before.\<close>

lemma repl_do_peer:
  assumes ok: "sends_ok m" and at: "\<not> attaches i x" and p': "peer_of (repl_do x m) i = Some p'"
  shows "\<exists>p. peer_of m i = Some p \<and> rp_AckOffset p \<le> rp_AckOffset p' \<and>
    (rp_received p' = rp_received p \<and> written_to i (repl_do x m) = written_to i m \<or>
     (\<exists>k. k < length (ms_sends m) \<and> \<not> complete (ms_sends m ! k) \<and> k \<notin> written_to i m \<and>
          rp_received p' = rp_received p @ send_payload (ms_sends m ! k) \<and> written_to i (repl_do x m) = insert k (written_to i m)))"
proof (cases "\<exists>k ps pl rest. x = RWrite k i True \<and> k < length (ms_sends m) \<and> ms_sends m ! k = Writing pl ps rest \<and> i \<in> set rest")
  case True
  then obtain k ps pl rest where x: "x = RWrite k i True" "k < length (ms_sends m)" "ms_sends m ! k = Writing pl ps rest" "i \<in> set rest"
    by blast
  have i: "i \<in> set ps" using ok x(2-4) nth_mem by fastforce
  have w: "written_to i (repl_do x m) = insert k (written_to i m)"
    using x i by (auto simp: written_to_def send_write_def nth_list_update)
  obtain p where "peer_of m i = Some p" "rp_AckOffset p \<le> rp_AckOffset p'" "rp_received p' = rp_received p @ pl"
    using p' x ok by (auto simp: send_write_def write_to_peer)
  moreover have "k \<notin> written_to i m" using x by (simp add: written_to_def)
  ultimately show ?thesis using w x(2,3,4) by (intro exI [of _ p] conjI disjI2 exI [of _ k]) auto
next
  case False
  have "written_to i (repl_do x m) = written_to i m" if "peer_of (repl_do x m) i \<noteq> None"
    by (rule written_to_same [OF repl_do_length])
      (use False that ok in \<open>cases x; auto simp: send_steps Let_def nth_append nth_list_update write_to_peer split: sum.splits send.splits if_splits\<close>)+
  moreover have "\<exists>p. peer_of m i = Some p \<and> rp_AckOffset p \<le> rp_AckOffset p' \<and> rp_received p' = rp_received p"
    using False p' at ok
    by (cases x) (auto simp: send_steps Let_def UpdateAck_peer gm_get_set gm_get_del write_to_peer split: sum.splits send.splits if_splits)
  ultimately show ?thesis using p' by blast
qed

definition stream_inv :: "nat \<Rightarrow> nat \<Rightarrow> nat list \<Rightarrow> Master \<Rightarrow> bool" where
  "stream_inv i n ks m \<longleftrightarrow>
     sends_ok m \<and> n \<le> length (ms_sends m) \<and>
     (\<forall>p. peer_of m i = Some p \<longrightarrow>
        distinct ks \<and> set ks = written_to i m \<and> rp_received p = concat (map (\<lambda>k. send_payload (ms_sends m ! k)) ks) \<and> 0 \<le> rp_AckOffset p \<and>
        (\<forall>k A. n \<le> k \<longrightarrow> k < length (ms_sends m) \<longrightarrow> addressed (ms_sends m ! k) = Some A \<longrightarrow> i \<in> A))"

lemma written_to_less: "k \<in> written_to i m \<Longrightarrow> k < length (ms_sends m)"
  by (simp add: written_to_def)

lemma payloads_kept:
  "set ks \<subseteq> written_to i m \<Longrightarrow>
   map (\<lambda>k. send_payload (ms_sends (repl_do x m) ! k)) ks = map (\<lambda>k. send_payload (ms_sends m ! k)) ks"
  by (auto simp: repl_do_send(1) written_to_less)

abbreviation last_open :: "Master \<Rightarrow> bool" where
  "last_open m \<equiv> \<forall>k. Suc k < length (ms_sends m) \<longrightarrow> complete (ms_sends m ! k)"

lemma begins_grows: "length (ms_sends (repl_do x m)) = length (ms_sends m) \<or> begins x \<and> length (ms_sends (repl_do x m)) = Suc (length (ms_sends m))"
  by (cases x) (auto simp: send_steps Let_def split: sum.splits send.splits)

lemma last_open_do: "last_open m \<Longrightarrow> (begins x \<longrightarrow> quiescent m) \<Longrightarrow> last_open (repl_do x m)"
  using begins_grows [of x m] by (auto simp: repl_do_send(3))

lemma stream_inv_do:
  assumes inv: "stream_inv i n ks m" and at: "\<not> attaches i x"
  shows "\<exists>ks'. stream_inv i n ks' (repl_do x m) \<and> (last_open m \<longrightarrow> sorted ks \<longrightarrow> sorted ks')"
proof (cases "peer_of (repl_do x m) i")
  case None
  then have "stream_inv i n ks (repl_do x m)"
    using inv repl_do_ok [of m x] repl_do_length [of m x] by (auto simp: stream_inv_def)
  then show ?thesis by blast
next
  case (Some p')
  have ok: "sends_ok m" using inv by (simp add: stream_inv_def)
  obtain p where p: "peer_of m i = Some p" "rp_AckOffset p \<le> rp_AckOffset p'"
    and step: "rp_received p' = rp_received p \<and> written_to i (repl_do x m) = written_to i m \<or>
     (\<exists>k. k < length (ms_sends m) \<and> \<not> complete (ms_sends m ! k) \<and> k \<notin> written_to i m \<and>
          rp_received p' = rp_received p @ send_payload (ms_sends m ! k) \<and> written_to i (repl_do x m) = insert k (written_to i m))"
    using repl_do_peer [OF ok at Some] by blast
  have old: "distinct ks" "set ks = written_to i m" "rp_received p = concat (map (\<lambda>k. send_payload (ms_sends m ! k)) ks)" "0 \<le> rp_AckOffset p"
    "\<And>k A. n \<le> k \<Longrightarrow> k < length (ms_sends m) \<Longrightarrow> addressed (ms_sends m ! k) = Some A \<Longrightarrow> i \<in> A"
    using inv p(1) by (auto simp: stream_inv_def)
  have addr: "i \<in> A" if "n \<le> k" "k < length (ms_sends (repl_do x m))" "addressed (ms_sends (repl_do x m) ! k) = Some A" for k A
    using that repl_do_addressed [OF p(1)] repl_do_send(2) old(5) by (metis leI not_None_eq option.inject)
  have inv': "stream_inv i n ks' (repl_do x m)"
    if "distinct ks'" "set ks' = written_to i (repl_do x m)" "rp_received p' = concat (map (\<lambda>k. send_payload (ms_sends (repl_do x m) ! k)) ks')" for ks'
    using that Some p(2) old(4) addr inv repl_do_ok [of m x] repl_do_length [of m x] by (auto simp: stream_inv_def)
  have kept: "map (\<lambda>k. send_payload (ms_sends (repl_do x m) ! k)) ks = map (\<lambda>k. send_payload (ms_sends m ! k)) ks"
    by (rule payloads_kept [of _ i]) (simp add: old(2))
  from step show ?thesis
  proof (elim disjE exE conjE)
    assume "rp_received p' = rp_received p" "written_to i (repl_do x m) = written_to i m"
    then have "stream_inv i n ks (repl_do x m)" by (intro inv') (use old in \<open>simp_all add: kept\<close>)
    then show ?thesis by blast
  next
    fix k
    assume k: "k < length (ms_sends m)" "\<not> complete (ms_sends m ! k)" "k \<notin> written_to i m"
      "rp_received p' = rp_received p @ send_payload (ms_sends m ! k)" "written_to i (repl_do x m) = insert k (written_to i m)"
    then have "stream_inv i n (ks @ [k]) (repl_do x m)"
      by (intro inv') (use old in \<open>simp_all add: kept repl_do_send(1)\<close>)
    moreover have "sorted (ks @ [k])" if "last_open m" "sorted ks"
    proof -
      have "Suc k = length (ms_sends m)" using that(1) k(1,2) by (metis Suc_lessI)
      then have "\<forall>j\<in>set ks. j \<le> k" using old(2) written_to_less by fastforce
      then show ?thesis using that(2) by (simp add: sorted_append)
    qed
    ultimately show ?thesis by blast
  qed
qed

lemma stream_inv_run:
  assumes "stream_inv i n ks m" "\<forall>x\<in>set ops. \<not> attaches i x"
  shows "\<exists>ks'. stream_inv i n ks' (repl_run ops m) \<and> (serial ops m \<longrightarrow> last_open m \<longrightarrow> sorted ks \<longrightarrow> sorted ks')"
  using assms
proof (induction ops arbitrary: m ks)
  case (Cons x ops)
  then obtain ks1 where k1: "stream_inv i n ks1 (repl_do x m)" "last_open m \<longrightarrow> sorted ks \<longrightarrow> sorted ks1"
    using stream_inv_do [of i n ks m x] by auto
  then obtain ks' where "stream_inv i n ks' (repl_run ops (repl_do x m))"
    "serial ops (repl_do x m) \<longrightarrow> last_open (repl_do x m) \<longrightarrow> sorted ks1 \<longrightarrow> sorted ks'"
    using Cons by fastforce
  then show ?case using k1(2) last_open_do [of m x] by auto
qed auto

text \<open>Before its registration a peer is in no snapshot.\<close>

definition unknown :: "nat \<Rightarrow> Master \<Rightarrow> bool" where
  "unknown i m \<longleftrightarrow> sends_ok m \<and> peer_of m i = None \<and> (\<forall>x\<in>set (ms_sends m). \<forall>A. addressed x = Some A \<longrightarrow> i \<notin> A)"

lemma unregistered_key: "gm_get m i = None \<Longrightarrow> i \<notin> set (gm_keys m)"
  by (simp add: gm_keys_def map_of_eq_None_iff)

lemma unknown_do:
  assumes u: "unknown i m" and at: "\<not> attaches i x"
  shows "unknown i (repl_do x m)"
proof -
  have ok: "sends_ok m" and n: "peer_of m i = None" using u by (auto simp: unknown_def)
  have peer: "peer_of (repl_do x m) i = None" using repl_do_peer [OF ok at] n by (cases "peer_of (repl_do x m) i") auto
  have old: "i \<notin> A" if "k < length (ms_sends m)" "addressed (ms_sends m ! k) = Some A" for k A
    using u that nth_mem by (fastforce simp: unknown_def)
  have new: "i \<notin> set (gm_keys (rr_replicas (ms_replicaPeers m)))" by (rule unregistered_key [OF n])
  have "i \<notin> A" if "k < length (ms_sends (repl_do x m))" "addressed (ms_sends (repl_do x m) ! k) = Some A" for k A
    using that old [of k] new
    by (cases x) (auto simp: send_steps Let_def nth_append nth_list_update split: sum.splits send.splits if_splits)
  then show ?thesis using peer repl_do_ok [OF ok] by (auto simp: unknown_def in_set_conv_nth)
qed

lemma unknown_run: "unknown i m \<Longrightarrow> \<forall>x\<in>set ops. \<not> attaches i x \<Longrightarrow> unknown i (repl_run ops m)"
  by (induction ops arbitrary: m) (auto intro: unknown_do)

lemma unknown_start: "unknown i (repl_start replid)"
  by (simp add: unknown_def repl_start_def NewReplicaRegistry_def)

lemma written_addressed: "send_ok x \<Longrightarrow> j \<in> written x \<Longrightarrow> \<exists>A. addressed x = Some A \<and> j \<in> A"
  by (cases x) auto

lemma unknown_written: "unknown i m \<Longrightarrow> written_to i m = {}"
  using written_addressed nth_mem by (fastforce simp: unknown_def written_to_def)

lemma stream_inv_add:
  assumes u: "unknown i m"
  shows "stream_inv i (length (ms_sends m)) [] (repl_do (RAdd i port) m)"
proof -
  have "written_to i (repl_do (RAdd i port) m) = written_to i m" by (simp add: written_to_def)
  then show ?thesis using u unknown_written [OF u] by (auto simp: stream_inv_def unknown_def gm_get_set)
qed

text \<open>The master's offset is the length of the payloads whose call has advanced it.\<close>

lemma length_concat_map: "length (concat (map f xs)) = (\<Sum>x\<leftarrow>xs. length (f x))"
  by (induction xs) simp_all

lemma concat_update:
  "k < length xs \<Longrightarrow> length (concat (map f (xs[k := y]))) + length (f (xs ! k)) = length (concat (map f xs)) + length (f y)"
  by (induction xs arbitrary: k) (auto split: nat.splits)

lemma sent_bytes_mono: "length (sent_bytes m) \<le> length (sent_bytes (repl_do x m))"
proof -
  have "take (length (ms_sends m)) (map send_payload (ms_sends (repl_do x m))) = map send_payload (ms_sends m)"
    using repl_do_length [of m x] by (auto intro!: nth_equalityI simp: repl_do_send(1))
  then have "concat (map send_payload (ms_sends (repl_do x m))) =
      concat (map send_payload (ms_sends m)) @ concat (drop (length (ms_sends m)) (map send_payload (ms_sends (repl_do x m))))"
    by (metis append_take_drop_id concat_append)
  then show ?thesis by (simp add: sent_bytes_def)
qed

lemma advanced_le: "length (concat (map advanced xs)) \<le> length (concat (map send_payload xs))"
proof (induction xs)
  case (Cons x xs)
  then show ?case by (cases x) auto
qed simp

abbreviation advanced_bytes :: "Master \<Rightarrow> bytes" where
  "advanced_bytes m \<equiv> concat (map advanced (ms_sends m))"

lemma AdvanceMasterOffset_exact:
  assumes "rs_masterOffset s = int n" "int (n + k) < 2 ^ 63"
  shows "rs_masterOffset (fst (AdvanceMasterOffset (int k) s)) = int (n + k)"
proof -
  have "int64_range (int n + int k)" using assms(2) by (simp add: int64_range_def)
  then show ?thesis using assms(1) by (simp add: AdvanceMasterOffset_def Let_def go_arith)
qed

lemma repl_do_offset:
  assumes "rs_masterOffset (ms_replication m) = int (length (advanced_bytes m))" "int (length (sent_bytes (repl_do x m))) < 2 ^ 63"
  shows "rs_masterOffset (ms_replication (repl_do x m)) = int (length (advanced_bytes (repl_do x m)))"
proof -
  have le: "int (length (advanced_bytes (repl_do x m))) < 2 ^ 63"
    using assms(2) advanced_le [of "ms_sends (repl_do x m)"] by (simp add: sent_bytes_def)
  have upd: "length (concat (map advanced ((ms_sends m)[k := y]))) = length (advanced_bytes m) + length (advanced y) - length (advanced (ms_sends m ! k))"
    if "k < length (ms_sends m)" for k y using concat_update [OF that, of advanced y] by simp
  show ?thesis
  proof (cases "\<exists>pl. length (advanced_bytes (repl_do x m)) = length (advanced_bytes m) + length pl \<and>
      ms_replication (repl_do x m) = fst (AdvanceMasterOffset (int (length (pl::bytes))) (ms_replication m))")
    case True
    then show ?thesis using le AdvanceMasterOffset_exact [OF assms(1)] by auto
  next
    case False
    obtain pl where pl: "cachedReplConfGetAckPayload = Inr pl" by simp
    have "length (advanced_bytes (repl_do x m)) = length (advanced_bytes m) \<and> ms_replication (repl_do x m) = ms_replication m"
      using False
      by (cases x) (auto simp del: getack_payload simp: pl send_steps Let_def upd split: sum.splits send.splits if_splits)
    then show ?thesis using assms(1) by simp
  qed
qed

lemma repl_run_offset:
  assumes "rs_masterOffset (ms_replication m) = int (length (advanced_bytes m))" "int (length (sent_bytes (repl_run ops m))) < 2 ^ 63"
  shows "rs_masterOffset (ms_replication (repl_run ops m)) = int (length (advanced_bytes (repl_run ops m))) \<and>
    length (sent_bytes m) \<le> length (sent_bytes (repl_run ops m))"
  using assms
proof (induction ops arbitrary: m)
  case (Cons x ops)
  have mono: "length (sent_bytes m) \<le> length (sent_bytes (repl_run ops m))" for m
    by (induction ops arbitrary: m) (auto intro: order_trans [OF sent_bytes_mono])
  have "int (length (sent_bytes (repl_do x m))) < 2 ^ 63" using mono [of "repl_do x m"] Cons.prems(2) by simp
  then show ?case using Cons.IH [OF repl_do_offset [OF Cons.prems(1)]] Cons.prems(2) by (auto intro: order_trans [OF sent_bytes_mono])
qed simp

lemma quiescent_advanced: "quiescent m \<Longrightarrow> advanced_bytes m = sent_bytes m"
proof -
  have "complete x \<Longrightarrow> advanced x = send_payload x" for x by (cases x) auto
  then show "quiescent m \<Longrightarrow> ?thesis" by (auto simp: sent_bytes_def intro!: arg_cong [where f = concat])
qed

lemma repl_run_kept:
  "\<forall>k<length (ms_sends m). complete (ms_sends m ! k) \<Longrightarrow> length (ms_sends m) \<le> length (ms_sends (repl_run ops m)) \<and>
   (\<forall>k<length (ms_sends m). ms_sends (repl_run ops m) ! k = ms_sends m ! k)"
proof (induction ops rule: rev_induct)
  case (snoc x ops)
  then show ?case using repl_do_length [of "repl_run ops m" x] repl_do_send(3) [of _ "repl_run ops m" x] by fastforce
qed simp

text \<open>Between two quiescent states a peer that stays registered is written every send begun in between, once.\<close>

lemma quiescent_stream:
  assumes u: "unknown i s0" and at: "\<forall>x\<in>set ops. \<not> attaches i x" and q0: "quiescent s0"
    and q: "quiescent (repl_run ops (repl_do (RAdd i port) s0))" and p: "peer_of (repl_run ops (repl_do (RAdd i port) s0)) i = Some p"
    and inv: "stream_inv i (length (ms_sends s0)) ks (repl_run ops (repl_do (RAdd i port) s0))"
  shows "set ks = {length (ms_sends s0)..<length (ms_sends (repl_run ops (repl_do (RAdd i port) s0)))}"
    "ms_sends s0 = take (length (ms_sends s0)) (ms_sends (repl_run ops (repl_do (RAdd i port) s0)))"
proof -
  let ?s = "repl_run ops (repl_do (RAdd i port) s0)" and ?n = "length (ms_sends s0)"
  have kept: "?n \<le> length (ms_sends ?s)" "\<And>k. k < ?n \<Longrightarrow> ms_sends ?s ! k = ms_sends s0 ! k"
    using repl_run_kept [of "repl_do (RAdd i port) s0" ops] q0 by auto
  then show "ms_sends s0 = take ?n (ms_sends ?s)" by (auto intro: nth_equalityI)
  have c: "written x = A" if "complete x" "addressed x = Some A" for x A using that by (cases x) auto
  have c': "\<exists>A. addressed x = Some A" if "complete x" for x using that by (cases x) auto
  have "k \<in> written_to i ?s \<longleftrightarrow> ?n \<le> k \<and> k < length (ms_sends ?s)" for k
  proof (cases "k < ?n")
    case True
    then obtain A where A: "addressed (ms_sends s0 ! k) = Some A" using q0 c' nth_mem by blast
    then have "i \<notin> A" using u True nth_mem by (fastforce simp: unknown_def)
    then show ?thesis using True A c [of "ms_sends s0 ! k" A] q0 kept by (auto simp: written_to_def)
  next
    case False
    show ?thesis
    proof (cases "k < length (ms_sends ?s)")
      case True
      then obtain A where A: "addressed (ms_sends ?s ! k) = Some A" using q c' nth_mem by blast
      have "i \<in> A" using inv p False True A unfolding stream_inv_def by (metis leI)
      then show ?thesis using False True A c [OF _ A] q nth_mem by (auto simp: written_to_def)
    qed (simp add: written_to_def)
  qed
  then show "set ks = {?n..<length (ms_sends ?s)}" using inv p by (auto simp: stream_inv_def)
qed

text \<open>A call that nobody interrupts takes these steps one after the other.\<close>

lemma send_writes_run:
  assumes "m = \<lparr>ms_replication = s, ms_replicaPeers = r, ms_sends = xs @ [Writing pl all peers]\<rparr>" "distinct peers"
  shows "repl_run (map (\<lambda>i. RWrite (length xs) i (ok i)) peers) m =
    \<lparr>ms_replication = s, ms_replicaPeers = fst (writePropagationPayloadSequential ok pl peers c r), ms_sends = xs @ [Writing pl all []]\<rparr>"
  using assms
proof (induction peers arbitrary: m r c)
  case Nil
  then show ?case by (cases c) simp
next
  case (Cons i peers)
  obtain a b where c: "c = (a, b)" by fastforce
  obtain r1 d where w: "writePropagationPayloadToReplica ok pl i r = (r1, d)" by fastforce
  then have w': "fst (writePropagationPayloadToReplica (\<lambda>_. ok i) pl i r) = r1"
    by (auto simp: writePropagationPayloadToReplica_def split: if_splits option.splits)
  have "repl_do (RWrite (length xs) i (ok i)) m = \<lparr>ms_replication = s, ms_replicaPeers = r1, ms_sends = xs @ [Writing pl all peers]\<rparr>"
    using Cons.prems by (simp add: send_write_def w' removeAll_id)
  then show ?case using Cons.IH [OF _ , of _ r1 "if d then (a + 1, b) else (a, b + 1)"] Cons.prems(2) by (simp add: c w)
qed

lemma propagate_uninterrupted:
  fixes vs m ok
  defines "peers \<equiv> gm_keys (rr_replicas (ms_replicaPeers m))" and "n \<equiv> length (ms_sends m)"
  assumes "gm_wf (rr_replicas (ms_replicaPeers m))" "vs \<noteq> []" "EncodeValues vs = Inr pl"
  shows "repl_run (RPropagate vs # RAdvance n # map (\<lambda>i. RWrite n i (ok i)) peers) m =
    (let (s, r) = fst (propagateToReplicas ok vs (ms_replication m, ms_replicaPeers m))
     in \<lparr>ms_replication = s, ms_replicaPeers = r, ms_sends = ms_sends m @ [Writing pl peers []]\<rparr>)"
proof -
  have d: "distinct peers" using assms(3) by (simp add: peers_def gm_wf_def gm_keys_def)
  have "repl_run [RPropagate vs, RAdvance n] m =
    \<lparr>ms_replication = fst (AdvanceMasterOffset (int (length pl)) (ms_replication m)), ms_replicaPeers = ms_replicaPeers m,
     ms_sends = ms_sends m @ [Writing pl peers peers]\<rparr>"
    using assms(4,5) by (simp add: send_steps n_def peers_def)
  then show ?thesis
    using send_writes_run [OF _ d, of _ _ "ms_replicaPeers m" "ms_sends m" pl peers ok "(0, 0)"] assms(4,5)
    by (simp add: propagateToReplicas_def Let_def n_def flip: peers_def split: prod.splits)
qed

lemma getack_uninterrupted:
  fixes m ok
  defines "peers \<equiv> gm_keys (rr_replicas (ms_replicaPeers m))" and "n \<equiv> length (ms_sends m)"
  assumes "gm_wf (rr_replicas (ms_replicaPeers m))" "cachedReplConfGetAckPayload = Inr pl"
  shows "repl_run (RRequestAcks # RSnapshot n # map (\<lambda>i. RWrite n i (ok i)) peers) m =
    (let (s, r) = fst (requestReplicaAcknowledgements ok (ms_replication m, ms_replicaPeers m))
     in \<lparr>ms_replication = s, ms_replicaPeers = r, ms_sends = ms_sends m @ [Writing pl peers []]\<rparr>)"
proof -
  have d: "distinct peers" using assms(3) by (simp add: peers_def gm_wf_def gm_keys_def)
  have "repl_run [RRequestAcks, RSnapshot n] m =
    \<lparr>ms_replication = fst (AdvanceMasterOffset (int (length pl)) (ms_replication m)), ms_replicaPeers = ms_replicaPeers m,
     ms_sends = ms_sends m @ [Writing pl peers peers]\<rparr>"
    by (simp del: getack_payload add: assms(4) send_steps n_def peers_def Let_def)
  then show ?thesis
    using send_writes_run [OF _ d, of _ _ "ms_replicaPeers m" "ms_sends m" pl peers ok "(0, 0)"]
    by (simp del: getack_payload add: assms(4) requestReplicaAcknowledgements_def Let_def n_def flip: peers_def split: prod.splits)
qed

lemma length_concat_ks:
  "distinct ks \<Longrightarrow> set ks = {n..<length xs} \<Longrightarrow> length (concat (map (\<lambda>k. f (xs ! k)) ks)) = length (concat (map f (drop n xs)))"
proof -
  assume a: "distinct ks" "set ks = {n..<length xs}"
  have "length (concat (map (\<lambda>k. f (xs ! k)) ks)) = (\<Sum>k\<in>set ks. length (f (xs ! k)))"
    using a(1) by (simp add: length_concat_map sum_list_distinct_conv_sum_set)
  also have "\<dots> = length (concat (map (\<lambda>k. f (xs ! k)) [n..<length xs]))"
    using a(2) by (simp add: length_concat_map sum_list_distinct_conv_sum_set)
  also have "map (\<lambda>k. f (xs ! k)) [n..<length xs] = map f (drop n xs)" by (auto intro: nth_equalityI)
  finally show ?thesis .
qed

lemma stream_offset:
  fixes replid before ops i port
  defines "s0 \<equiv> repl_run before (repl_start replid)"
  defines "s \<equiv> repl_run ops (repl_do (RAdd i port) s0)"
  assumes "\<forall>x\<in>set (before @ ops). \<not> attaches i x" and p: "peer_of s i = Some p"
    and q0: "quiescent s0" and qs: "quiescent s" and lim: "int (length (sent_bytes s)) < 2 ^ 63"
  shows "rs_masterOffset (ms_replication s) = rs_masterOffset (ms_replication s0) + int (length (rp_received p))"
proof -
  have u: "unknown i s0" unfolding s0_def using assms(3) by (auto intro: unknown_run [OF unknown_start])
  have at: "\<forall>x\<in>set ops. \<not> attaches i x" using assms(3) by auto
  obtain ks where inv: "stream_inv i (length (ms_sends s0)) ks s"
    using stream_inv_run [OF stream_inv_add [OF u] at, of port] unfolding s_def by auto
  have ks: "distinct ks" "rp_received p = concat (map (\<lambda>k. send_payload (ms_sends s ! k)) ks)"
    using inv p by (simp_all add: stream_inv_def)
  note q = quiescent_stream [OF u at q0 _ _ inv [unfolded s_def], folded s_def, OF qs p]
  have e: "s = repl_run (before @ RAdd i port # ops) (repl_start replid)" by (simp add: s_def s0_def)
  have start: "rs_masterOffset (ms_replication (repl_start replid)) = int (length (advanced_bytes (repl_start replid)))"
    by (simp add: repl_start_def)
  have os: "rs_masterOffset (ms_replication s) = int (length (sent_bytes s))"
    using repl_run_offset [OF start lim [unfolded e]] quiescent_advanced [OF qs] e by simp
  have split: "sent_bytes s = sent_bytes s0 @ concat (map send_payload (drop (length (ms_sends s0)) (ms_sends s)))"
    unfolding sent_bytes_def using q(2) by (metis append_take_drop_id concat_append map_append)
  then have "int (length (sent_bytes s0)) < 2 ^ 63" using lim by simp
  then have o0: "rs_masterOffset (ms_replication s0) = int (length (sent_bytes s0))"
    using repl_run_offset [OF start, of before] quiescent_advanced [OF q0] unfolding s0_def by simp
  show ?thesis using os o0 split ks(2) length_concat_ks [OF ks(1) q(1), of send_payload] by simp
qed

text \<open>C13. A replica's stream under every interleaving.  Let a replica be registered after some history of the master and still be
  registered after some further one, in which the steps of propagations and of WAIT's requests for acknowledgements interleave in
  any way with one another and with other replicas attaching, failing and acknowledging.  Its connection has received, in some
  order, whole payloads: those of the sends that have been through it, each once; every send begun since its registration that
  has its snapshot addresses it; and its acknowledged offset has not become negative.  If no send is under way at its registration
  and none now, the master's offset has advanced by exactly the number of bytes the replica received.  If moreover sends did not
  overlap in between, it received exactly the payloads sent since its registration, in order.\<close>

theorem replica_stream_exact:
  fixes replid before ops i port
  defines "s0 \<equiv> repl_run before (repl_start replid)"
  defines "s \<equiv> repl_run ops (repl_do (RAdd i port) s0)"
  assumes "\<forall>x\<in>set (before @ ops). \<not> attaches i x"
    and "peer_of s i = Some p"
  shows "(\<exists>ks. distinct ks \<and> set ks = written_to i s \<and> rp_received p = concat (map (\<lambda>k. send_payload (ms_sends s ! k)) ks)) \<and>
         (\<forall>k A. length (ms_sends s0) \<le> k \<longrightarrow> k < length (ms_sends s) \<longrightarrow> addressed (ms_sends s ! k) = Some A \<longrightarrow> i \<in> A) \<and>
         0 \<le> rp_AckOffset p \<and>
         (quiescent s0 \<longrightarrow> quiescent s \<longrightarrow> int (length (sent_bytes s)) < 2 ^ 63 \<longrightarrow>
            rs_masterOffset (ms_replication s) = rs_masterOffset (ms_replication s0) + int (length (rp_received p))) \<and>
         (quiescent s0 \<longrightarrow> quiescent s \<longrightarrow> serial ops (repl_do (RAdd i port) s0) \<longrightarrow>
            rp_received p = concat (map send_payload (drop (length (ms_sends s0)) (ms_sends s))))"
proof -
  have u: "unknown i s0" unfolding s0_def using assms(3) by (auto intro: unknown_run [OF unknown_start])
  obtain ks where inv: "stream_inv i (length (ms_sends s0)) ks s"
    and ser: "serial ops (repl_do (RAdd i port) s0) \<longrightarrow> last_open (repl_do (RAdd i port) s0) \<longrightarrow> sorted ks"
    using stream_inv_run [OF stream_inv_add [OF u], of ops port] assms(3) unfolding s_def by auto
  have ks: "distinct ks" "set ks = written_to i s" "rp_received p = concat (map (\<lambda>k. send_payload (ms_sends s ! k)) ks)" "0 \<le> rp_AckOffset p"
    "\<forall>k A. length (ms_sends s0) \<le> k \<longrightarrow> k < length (ms_sends s) \<longrightarrow> addressed (ms_sends s ! k) = Some A \<longrightarrow> i \<in> A"
    using inv assms(4) by (simp_all add: stream_inv_def)
  have at: "\<forall>x\<in>set ops. \<not> attaches i x" using assms(3) by auto
  note q = quiescent_stream [OF u at _ _ _ inv [unfolded s_def], folded s_def, OF _ _ assms(4)]
  have off: "rs_masterOffset (ms_replication s) = rs_masterOffset (ms_replication s0) + int (length (rp_received p))"
    if "quiescent s0" "quiescent s" "int (length (sent_bytes s)) < 2 ^ 63"
    using stream_offset [OF assms(3) assms(4) [unfolded s_def s0_def]] that unfolding s_def s0_def by blast
  have ord: "rp_received p = concat (map send_payload (drop (length (ms_sends s0)) (ms_sends s)))"
    if "quiescent s0" "quiescent s" "serial ops (repl_do (RAdd i port) s0)"
  proof -
    have "sorted ks" using ser that(1,3) by simp
    then have "ks = [length (ms_sends s0)..<length (ms_sends s)]"
      using sorted_distinct_set_unique [OF _ ks(1)] q(1) [OF that(1,2)] by simp
    moreover have "map (\<lambda>k. send_payload (ms_sends s ! k)) [length (ms_sends s0)..<length (ms_sends s)] =
        map send_payload (drop (length (ms_sends s0)) (ms_sends s))" by (auto intro: nth_equalityI)
    ultimately show ?thesis using ks(3) by simp
  qed
  show ?thesis using ks off ord by blast
qed

abbreviation example_frame :: "bytes \<Rightarrow> Value" where
  "example_frame key \<equiv> DeleteFrame [key]"

abbreviation early_history :: "repl_op list" where
  "early_history \<equiv> [RPropagate [example_frame [107]], RAdvance 0, RPropagate [example_frame [107]], RAdvance 1]"

abbreviation late_history :: "repl_op list" where
  "late_history \<equiv> [RPropagate [example_frame [108]], RAdvance 2, RWrite 2 3 True, RRequestAcks, RSnapshot 3, RWrite 3 3 True, RAck 3 57]"

lemma late_history_evals:
  "map_option rp_AckOffset (peer_of (repl_run late_history (repl_do (RAdd 3 6380) (repl_run early_history (repl_start [])))) 3) = Some 57"
  "map_option (\<lambda>p. length (rp_received p)) (peer_of (repl_run late_history (repl_do (RAdd 3 6380) (repl_run early_history (repl_start [])))) 3) = Some 57"
  "quiescent (repl_run early_history (repl_start []))"
  "quiescent (repl_run late_history (repl_do (RAdd 3 6380) (repl_run early_history (repl_start []))))"
  "serial late_history (repl_do (RAdd 3 6380) (repl_run early_history (repl_start [])))"
  "length (sent_bytes (repl_run late_history (repl_do (RAdd 3 6380) (repl_run early_history (repl_start []))))) = 97"
  "rs_masterOffset (ms_replication (repl_run early_history (repl_start []))) = 40"
  "rs_masterOffset (ms_replication (repl_run late_history (repl_do (RAdd 3 6380) (repl_run early_history (repl_start []))))) = 97"
  by code_simp+

theorem replica_stream_exact_witness:
  "\<exists>p. peer_of (repl_run late_history (repl_do (RAdd 3 6380) (repl_run early_history (repl_start [])))) 3 = Some p \<and>
       length (rp_received p) = 57 \<and>
       rp_received p = concat (map send_payload (drop (length (ms_sends (repl_run early_history (repl_start []))))
         (ms_sends (repl_run late_history (repl_do (RAdd 3 6380) (repl_run early_history (repl_start [])))))))"
proof -
  let ?s0 = "repl_run early_history (repl_start [])"
  let ?s = "repl_run late_history (repl_do (RAdd 3 6380) ?s0)"
  obtain p where p: "peer_of ?s 3 = Some p" "length (rp_received p) = 57" using late_history_evals(2) by auto
  have at: "\<forall>x\<in>set (early_history @ late_history). \<not> attaches 3 x" by simp
  from replica_stream_exact [OF at p(1)] late_history_evals(3-5) p show ?thesis by blast
qed

text \<open>Without the lock, two propagations may reach a replica in the order opposite to the one in which they began.\<close>

lemma concurrent_propagations_reorder:
  "map_option rp_received (peer_of (repl_run
     [RAdd 3 6380, RPropagate [example_frame [107]], RPropagate [example_frame [108]], RAdvance 0, RAdvance 1, RWrite 1 3 True, RWrite 0 3 True]
     (repl_start [])) 3) =
   (case (EncodeValues [example_frame [107]], EncodeValues [example_frame [108]]) of
      (Inr first, Inr second) \<Rightarrow> Some (second @ first) | _ \<Rightarrow> None)"
  by code_simp



end
