(* ===== verification/Interfaces.thy ===== *)
theory Interfaces
  imports Prelude
begin

text \<open>
  The contracts behind the collection kinds.  A set, a hash and a sorted set each have two
  encodings, a compact and a general one, and the value object dispatches between them.  A locale
  states what an encoding promises, so that the lemmas about the multi-element commands (which loop
  over their arguments) are proved once and hold for both encodings through its interpretations.
\<close>

section \<open>Byte-string sets\<close>

text \<open>One deletion per argument, counting those that found their element: the loops of \<^verbatim>\<open>setRemove\<close> and
  \<^verbatim>\<open>hashDel\<close>.\<close>

fun remove_loop :: "('s \<Rightarrow> 'a \<Rightarrow> 's \<times> bool) \<Rightarrow> 's \<Rightarrow> 'a list \<Rightarrow> nat \<Rightarrow> 's \<times> nat" where
  "remove_loop del s [] removed = (s, removed)"
| "remove_loop del s (m # ms) removed =
     (case del s m of
        (s', True) \<Rightarrow> remove_loop del s' ms (removed + 1)
      | (s', False) \<Rightarrow> remove_loop del s' ms removed)"

locale byte_set =
  fixes inv :: "'s \<Rightarrow> bool"
    and elems :: "'s \<Rightarrow> bytes set"
    and contains :: "'s \<Rightarrow> bytes \<Rightarrow> bool"
    and del :: "'s \<Rightarrow> bytes \<Rightarrow> 's \<times> bool"
    and members :: "'s \<Rightarrow> bytes list"
  assumes contains_iff: "inv s \<Longrightarrow> contains s m \<longleftrightarrow> m \<in> elems s"
    and del_inv: "inv s \<Longrightarrow> inv (fst (del s m))"
    and del_elems: "inv s \<Longrightarrow> elems (fst (del s m)) = elems s - {m}"
    and del_found: "inv s \<Longrightarrow> snd (del s m) \<longleftrightarrow> m \<in> elems s"
    and members_distinct: "inv s \<Longrightarrow> distinct (members s)"
    and members_set: "inv s \<Longrightarrow> set (members s) = elems s"
begin

lemma finite_elems: "inv s \<Longrightarrow> finite (elems s)"
  using members_set by (metis List.finite_set)

lemma length_members: "inv s \<Longrightarrow> length (members s) = card (elems s)"
  using members_distinct members_set distinct_card by metis

lemma remove_loop_spec:
  assumes "inv s" "remove_loop del s ms n = (s', k)"
  shows "inv s' \<and> elems s' = elems s - set ms \<and> k = n + card (elems s \<inter> set ms)"
  using assms
proof (induction ms arbitrary: s n)
  case (Cons m ms)
  obtain s1 b where d: "del s m = (s1, b)" by (cases "del s m")
  have s1: "inv s1" "elems s1 = elems s - {m}" "b \<longleftrightarrow> m \<in> elems s"
    using del_inv [OF Cons.prems(1), of m] del_elems [OF Cons.prems(1), of m]
      del_found [OF Cons.prems(1), of m] by (auto simp: d)
  have IH: "inv s' \<and> elems s' = elems s1 - set ms \<and> k = (if b then n + 1 else n) + card (elems s1 \<inter> set ms)"
    using Cons.IH [OF s1(1), of "if b then n + 1 else n"] Cons.prems(2) by (cases b) (auto simp: d)
  have "card (elems s \<inter> set (m # ms)) = (if b then 1 else 0) + card (elems s1 \<inter> set ms)"
  proof (cases b)
    case True
    then have "elems s \<inter> set (m # ms) = insert m (elems s1 \<inter> set ms)" "m \<notin> elems s1 \<inter> set ms"
      using s1 by auto
    then show ?thesis using True finite_elems [OF s1(1)] by simp
  next
    case False
    then have "elems s \<inter> set (m # ms) = elems s1 \<inter> set ms" using s1 by auto
    then show ?thesis using False by simp
  qed
  then show ?case using IH s1(2) by auto
qed simp

end

section \<open>Field maps\<close>

text \<open>One assignment per pair, counting the new fields: the loops of \<^verbatim>\<open>hashSet\<close> and \<^verbatim>\<open>hashSetGeneral\<close>,
  and with scores for values those of \<^verbatim>\<open>zsetAdd\<close> and \<^verbatim>\<open>zsetAddGeneral\<close>.\<close>

fun assign_loop :: "('s \<Rightarrow> 'k \<Rightarrow> 'v \<Rightarrow> 's \<times> bool) \<Rightarrow> 's \<Rightarrow> ('k \<times> 'v) list \<Rightarrow> nat \<Rightarrow> 's \<times> nat" where
  "assign_loop put s [] added = (s, added)"
| "assign_loop put s ((f, v) # ps) added =
     (case put s f v of
        (s', True) \<Rightarrow> assign_loop put s' ps (added + 1)
      | (s', False) \<Rightarrow> assign_loop put s' ps added)"

text \<open>What a sequence of assignments means: a later pair overrides an earlier one.\<close>

definition assigns :: "('k \<rightharpoonup> 'v) \<Rightarrow> ('k \<times> 'v) list \<Rightarrow> 'k \<rightharpoonup> 'v" where
  "assigns m ps = m ++ map_of (rev ps)"

locale assignable_map =
  fixes inv :: "'s \<Rightarrow> bool"
    and ok :: "'v \<Rightarrow> bool"
    and lookup :: "'s \<Rightarrow> ('k \<rightharpoonup> 'v)"
    and put :: "'s \<Rightarrow> 'k \<Rightarrow> 'v \<Rightarrow> 's \<times> bool"
  assumes put_inv: "inv s \<Longrightarrow> ok v \<Longrightarrow> inv (fst (put s k v))"
    and put_lookup: "inv s \<Longrightarrow> ok v \<Longrightarrow> lookup (fst (put s k v)) = (lookup s)(k \<mapsto> v)"
    and put_new: "inv s \<Longrightarrow> ok v \<Longrightarrow> snd (put s k v) \<longleftrightarrow> lookup s k = None"
    and finite_dom: "inv s \<Longrightarrow> finite (dom (lookup s))"
begin

lemma assign_loop_spec:
  assumes "inv s" "\<forall>v \<in> snd ` set ps. ok v" "assign_loop put s ps n = (s', k)"
  shows "inv s' \<and> lookup s' = assigns (lookup s) ps \<and>
         k = n + card (fst ` set ps - dom (lookup s))"
  using assms
proof (induction ps arbitrary: s n)
  case Nil
  then show ?case by (simp add: assigns_def)
next
  case (Cons p ps)
  obtain f v where p: "p = (f, v)" by (cases p)
  obtain s1 b where d: "put s f v = (s1, b)" by (cases "put s f v")
  have okv: "ok v" "\<forall>v \<in> snd ` set ps. ok v" using Cons.prems(2) by (auto simp: p)
  have s1: "inv s1" "lookup s1 = (lookup s)(f \<mapsto> v)" "b \<longleftrightarrow> lookup s f = None"
    using put_inv [OF Cons.prems(1) okv(1), of f] put_lookup [OF Cons.prems(1) okv(1), of f]
      put_new [OF Cons.prems(1) okv(1), of f] by (simp_all add: d)
  have IH: "inv s' \<and> lookup s' = assigns (lookup s1) ps \<and>
      k = (if b then n + 1 else n) + card (fst ` set ps - dom (lookup s1))"
    using Cons.IH [OF s1(1) okv(2), of "if b then n + 1 else n"] Cons.prems(3) by (cases b) (auto simp: d p)
  have "card (fst ` set (p # ps) - dom (lookup s)) = (if b then 1 else 0) + card (fst ` set ps - dom (lookup s1))"
  proof (cases b)
    case True
    then have "fst ` set (p # ps) - dom (lookup s) = insert f (fst ` set ps - dom (lookup s1))"
      using s1 by (auto simp: p dom_def)
    moreover have "f \<notin> fst ` set ps - dom (lookup s1)" using s1 by auto
    ultimately show ?thesis using True by simp
  next
    case False
    then have "fst ` set (p # ps) - dom (lookup s) = fst ` set ps - dom (lookup s1)"
      using s1 by (auto simp: p dom_def)
    then show ?thesis using False by simp
  qed
  moreover have "assigns (lookup s1) ps = assigns (lookup s) (p # ps)"
    by (rule ext) (auto simp: assigns_def s1 p map_add_def split: option.splits)
  ultimately show ?case using IH by simp
qed

end

text \<open>A hash also deletes fields and lists its entries.\<close>

locale field_map = assignable_map inv "\<lambda>v. True" lookup put
  for inv :: "'s \<Rightarrow> bool" and lookup :: "'s \<Rightarrow> (bytes \<rightharpoonup> bytes)"
    and put :: "'s \<Rightarrow> bytes \<Rightarrow> bytes \<Rightarrow> 's \<times> bool" +
  fixes del :: "'s \<Rightarrow> bytes \<Rightarrow> 's \<times> bool"
    and entries :: "'s \<Rightarrow> (bytes \<times> bytes) list"
  assumes del_inv: "inv s \<Longrightarrow> inv (fst (del s k))"
    and del_lookup: "inv s \<Longrightarrow> lookup (fst (del s k)) = (lookup s)(k := None)"
    and del_found: "inv s \<Longrightarrow> snd (del s k) \<longleftrightarrow> k \<in> dom (lookup s)"
    and entries_distinct: "inv s \<Longrightarrow> distinct (map fst (entries s))"
    and entries_lookup: "inv s \<Longrightarrow> map_of (entries s) = lookup s"

sublocale field_map \<subseteq> keys: byte_set inv "\<lambda>s. dom (lookup s)" "\<lambda>s k. lookup s k \<noteq> None" del "\<lambda>s. map fst (entries s)"
proof (unfold_locales, goal_cases)
  case (6 s)
  then show ?case using dom_map_of_conv_image_fst [of "entries s"] by (simp add: entries_lookup)
qed (auto simp: del_inv del_lookup del_found entries_distinct)

context field_map
begin

lemma del_loop_lookup:
  assumes "inv s" "remove_loop del s ks n = (s', k)"
  shows "lookup s' = (lookup s) |` (- set ks)"
  using assms
proof (induction ks arbitrary: s n)
  case (Cons a ks)
  obtain s1 b where d: "del s a = (s1, b)" by (cases "del s a")
  have "inv s1" "lookup s1 = (lookup s)(a := None)"
    using del_inv [OF Cons.prems(1), of a] del_lookup [OF Cons.prems(1), of a] by (simp_all add: d)
  moreover have "lookup s' = lookup s1 |` (- set ks)"
    using Cons.IH [OF \<open>inv s1\<close>] Cons.prems(2) by (cases b) (auto simp: d)
  ultimately show ?case by (auto simp: restrict_map_def)
qed (simp add: restrict_map_def)

lemma length_entries: "inv s \<Longrightarrow> length (entries s) = card (dom (lookup s))"
  using keys.length_members by simp

end

end
