(* ===== verification/Zset_Order.thy ===== *)
theory Zset_Order
  imports Interfaces Complex_Main "HOL-Library.Multiset" "HOL-Library.Product_Lexorder"
begin

text \<open>
  What the two sorted-set encodings share: scores, score ranges (\<^verbatim>\<open>types.go\<close>), the order on score and
  member, Go's \<^verbatim>\<open>slices.SortFunc\<close>, and the contract of a sorted set.  A score is a float64: NaN, an
  infinity or a finite value, of which only comparisons matter here; a finite value is the rational
  it denotes, so the two zeros, which Go compares as equal, are one value.  The contract determines
  the ordered listing from the member-to-score map, so any two encodings of the same map answer
  every range query alike.
\<close>

section \<open>Scores\<close>

datatype float64 = NaN | NInf | Fin rat | PInf

instantiation float64 :: linorder
begin

fun less_eq_float64 :: "float64 \<Rightarrow> float64 \<Rightarrow> bool" where
  "less_eq_float64 NaN y \<longleftrightarrow> True"
| "less_eq_float64 x NaN \<longleftrightarrow> False"
| "less_eq_float64 NInf y \<longleftrightarrow> True"
| "less_eq_float64 x NInf \<longleftrightarrow> False"
| "less_eq_float64 x PInf \<longleftrightarrow> True"
| "less_eq_float64 PInf y \<longleftrightarrow> False"
| "less_eq_float64 (Fin x) (Fin y) \<longleftrightarrow> x \<le> y"

definition less_float64 :: "float64 \<Rightarrow> float64 \<Rightarrow> bool" where
  "less_float64 x y \<longleftrightarrow> x \<le> y \<and> \<not> y \<le> x"

instance
proof
  fix x y z :: float64
  show "x < y \<longleftrightarrow> x \<le> y \<and> \<not> y \<le> x" by (rule less_float64_def)
  show "x \<le> x" by (cases x) auto
  show "x \<le> y \<Longrightarrow> y \<le> z \<Longrightarrow> x \<le> z" by (cases x; cases y; cases z) auto
  show "x \<le> y \<Longrightarrow> y \<le> x \<Longrightarrow> x = y" by (cases x; cases y) auto
  show "x \<le> y \<or> y \<le> x" by (cases x; cases y) auto
qed

end

text \<open>Go's comparisons, false whenever an operand is NaN.\<close>

definition f_lt :: "float64 \<Rightarrow> float64 \<Rightarrow> bool" where
  "f_lt x y \<longleftrightarrow> x \<noteq> NaN \<and> y \<noteq> NaN \<and> x < y"

definition f_eq :: "float64 \<Rightarrow> float64 \<Rightarrow> bool" where
  "f_eq x y \<longleftrightarrow> x \<noteq> NaN \<and> x = y"

type_synonym zentry = "bytes \<times> float64"

record ScoreRange =
  sr_Min :: float64
  sr_Max :: float64
  sr_MinExclusive :: bool
  sr_MaxExclusive :: bool

definition belowMin :: "ScoreRange \<Rightarrow> float64 \<Rightarrow> bool" where
  "belowMin r score \<longleftrightarrow> f_lt score (sr_Min r) \<or> (sr_MinExclusive r \<and> f_eq score (sr_Min r))"

definition aboveMax :: "ScoreRange \<Rightarrow> float64 \<Rightarrow> bool" where
  "aboveMax r score \<longleftrightarrow> f_lt (sr_Max r) score \<or> (sr_MaxExclusive r \<and> f_eq score (sr_Max r))"

definition zsetLess :: "float64 \<Rightarrow> bytes \<Rightarrow> float64 \<Rightarrow> bytes \<Rightarrow> bool" where
  "zsetLess leftScore leftMember rightScore rightMember =
     (if \<not> f_eq leftScore rightScore then f_lt leftScore rightScore else leftMember < rightMember)"

section \<open>Sorting\<close>

text \<open>\<^verbatim>\<open>slices.SortFunc\<close> on a short slice is an insertion sort: each element moves left past the elements
  the comparison puts after it.  The accumulator is the sorted prefix, last element first.\<close>

fun insert_last :: "('a \<Rightarrow> 'a \<Rightarrow> int) \<Rightarrow> 'a \<Rightarrow> 'a list \<Rightarrow> 'a list" where
  "insert_last cmp x [] = [x]"
| "insert_last cmp x (y # ys) = (if cmp x y < 0 then y # insert_last cmp x ys else x # y # ys)"

definition SortFunc :: "('a \<Rightarrow> 'a \<Rightarrow> int) \<Rightarrow> 'a list \<Rightarrow> 'a list" where
  "SortFunc cmp xs = rev (foldl (\<lambda>acc x. insert_last cmp x acc) [] xs)"

text \<open>The order of a sorted set, as a key on its entries, and the listing a map determines.\<close>

definition zkey :: "zentry \<Rightarrow> float64 \<times> bytes" where
  "zkey e = (snd e, fst e)"

definition zsorted :: "zentry list \<Rightarrow> bool" where
  "zsorted es \<longleftrightarrow> sorted_wrt (<) (map zkey es)"

definition zlisting :: "(bytes \<rightharpoonup> float64) \<Rightarrow> zentry list" where
  "zlisting m = map (\<lambda>(s, k). (k, s)) (sorted_list_of_set {(s, k). m k = Some s})"

text \<open>The entries with ranks \<open>start\<close> to \<open>stop\<close>, both included.\<close>

definition rank_range :: "'a list \<Rightarrow> int \<Rightarrow> int \<Rightarrow> 'a list" where
  "rank_range es start stop =
     (if start < 0 \<or> stop < start \<or> int (length es) \<le> start then []
      else take (nat (stop - start) + 1) (drop (nat start) es))"

definition score_range :: "ScoreRange \<Rightarrow> zentry list \<Rightarrow> zentry list" where
  "score_range r es = filter (\<lambda>e. \<not> belowMin r (snd e) \<and> \<not> aboveMax r (snd e)) es"

section \<open>The contract of a sorted set\<close>

locale sorted_map = assignable_map inv "\<lambda>s. s \<noteq> NaN" lookup put
  for inv :: "'s \<Rightarrow> bool" and lookup :: "'s \<Rightarrow> (bytes \<rightharpoonup> float64)"
    and put :: "'s \<Rightarrow> bytes \<Rightarrow> float64 \<Rightarrow> 's \<times> bool" +
  fixes ordered :: "'s \<Rightarrow> zentry list"
    and byRank :: "'s \<Rightarrow> int \<Rightarrow> int \<Rightarrow> zentry list"
    and byScore :: "'s \<Rightarrow> ScoreRange \<Rightarrow> zentry list"
  assumes ordered_sorted: "inv s \<Longrightarrow> zsorted (ordered s)"
    and ordered_distinct: "inv s \<Longrightarrow> distinct (map fst (ordered s))"
    and ordered_lookup: "inv s \<Longrightarrow> map_of (ordered s) = lookup s"
    and byRank_eq: "inv s \<Longrightarrow> byRank s a b = rank_range (ordered s) a b"
    and byScore_eq: "inv s \<Longrightarrow> byScore s r = score_range r (ordered s)"
begin

lemma ordered_listing: "inv s \<Longrightarrow> ordered s = zlisting (lookup s)"
proof -
  assume inv: "inv s"
  have "set (map zkey (ordered s)) = {(sc, k). lookup s k = Some sc}"
    using map_of_eq_Some_iff [OF ordered_distinct [OF inv]] ordered_lookup [OF inv]
    by (force simp: zkey_def)
  then have "map zkey (ordered s) = sorted_list_of_set {(sc, k). lookup s k = Some sc}"
    using ordered_sorted [OF inv] by (metis zsorted_def sorted_list_of_set_sort_remdups strict_sorted_equal
        strict_sorted_list_of_set set_sorted_list_of_set List.finite_set)
  then have "map (\<lambda>(s, k). (k, s)) (map zkey (ordered s)) = zlisting (lookup s)"
    by (simp add: zlisting_def)
  moreover have "map (\<lambda>(s, k). (k, s)) (map zkey es) = es" for es
    by (induction es) (auto simp: zkey_def)
  ultimately show ?thesis by simp
qed

lemma length_ordered: "inv s \<Longrightarrow> length (ordered s) = card (dom (lookup s))"
proof -
  assume inv: "inv s"
  have "dom (lookup s) = set (map fst (ordered s))"
    using ordered_lookup [OF inv] dom_map_of_conv_image_fst [of "ordered s"] by simp
  then show ?thesis using distinct_card [OF ordered_distinct [OF inv]] by simp
qed

end

section \<open>Lemmas\<close>

lemma f_lt_less [simp]: "x \<noteq> NaN \<Longrightarrow> y \<noteq> NaN \<Longrightarrow> f_lt x y \<longleftrightarrow> x < y"
  by (simp add: f_lt_def)

lemma f_eq_eq [simp]: "x \<noteq> NaN \<Longrightarrow> f_eq x y \<longleftrightarrow> x = y"
  by (simp add: f_eq_def)

lemma zsetLess_zkey: "s \<noteq> NaN \<Longrightarrow> s' \<noteq> NaN \<Longrightarrow> zsetLess s m s' m' \<longleftrightarrow> zkey (m, s) < zkey (m', s')"
  by (auto simp: zsetLess_def zkey_def)

lemma belowMin_mono: "belowMin r y \<Longrightarrow> x \<le> y \<Longrightarrow> x \<noteq> NaN \<Longrightarrow> belowMin r x"
  by (auto simp: belowMin_def f_lt_def f_eq_def)

lemma aboveMax_mono: "aboveMax r x \<Longrightarrow> x \<le> y \<Longrightarrow> y \<noteq> NaN \<Longrightarrow> aboveMax r y"
  by (auto simp: aboveMax_def f_lt_def f_eq_def)

lemma insert_last_mset: "mset (insert_last cmp x ys) = add_mset x (mset ys)"
  by (induction ys) auto

lemma insert_last_sorted:
  assumes "\<And>y. y \<in> set ys \<Longrightarrow> cmp x y < 0 \<longleftrightarrow> key x < key y"
    "sorted_wrt (\<lambda>a b. key b \<le> key a) ys"
  shows "sorted_wrt (\<lambda>a b. key b \<le> (key a :: 'b::linorder)) (insert_last cmp x ys)"
  using assms
proof (induction ys)
  case (Cons y ys)
  have "set (insert_last cmp x ys) = insert x (set ys)"
    using insert_last_mset [of cmp x ys] by (metis set_mset_add_mset_insert set_mset_mset)
  with Cons show ?case by (auto intro: order_trans)
qed simp

lemma SortFunc_spec:
  assumes "\<And>x y. x \<in> set xs \<Longrightarrow> y \<in> set xs \<Longrightarrow> cmp x y < 0 \<longleftrightarrow> key x < (key y :: 'b::linorder)"
  shows "mset (SortFunc cmp xs) = mset xs" "sorted (map key (SortFunc cmp xs))"
proof -
  have "mset (foldl (\<lambda>acc x. insert_last cmp x acc) acc ys) = mset acc + mset ys" for acc ys
    by (induction ys arbitrary: acc) (auto simp: insert_last_mset)
  from this [of "[]" xs] show "mset (SortFunc cmp xs) = mset xs" by (simp add: SortFunc_def)
  have "set ys \<subseteq> set xs \<Longrightarrow> set acc \<subseteq> set xs \<Longrightarrow> sorted_wrt (\<lambda>a b. key b \<le> key a) acc \<Longrightarrow>
    sorted_wrt (\<lambda>a b. key b \<le> key a) (foldl (\<lambda>acc x. insert_last cmp x acc) acc ys)" for acc ys
  proof (induction ys arbitrary: acc)
    case (Cons y ys)
    have "set (insert_last cmp y acc) = insert y (set acc)"
      using insert_last_mset [of cmp y acc] by (metis set_mset_add_mset_insert set_mset_mset)
    moreover have "sorted_wrt (\<lambda>a b. key b \<le> key a) (insert_last cmp y acc)"
      using Cons.prems assms by (intro insert_last_sorted) auto
    ultimately show ?case using Cons by auto
  qed simp
  from this [of xs "[]"] show "sorted (map key (SortFunc cmp xs))"
    by (simp add: SortFunc_def sorted_map sorted_wrt_rev)
qed

lemma zsorted_scores: "zsorted es \<Longrightarrow> sorted_wrt (\<lambda>e e'. snd e \<le> snd e') es"
  unfolding zsorted_def sorted_wrt_map by (erule sorted_wrt_mono_rel [rotated]) (auto simp: zkey_def)

lemma dropWhile_below:
  assumes "sorted_wrt (\<lambda>e e'. snd e \<le> snd e') es" "\<forall>e \<in> set es. snd e \<noteq> NaN"
  shows "dropWhile (\<lambda>e. belowMin r (snd e)) es = filter (\<lambda>e. \<not> belowMin r (snd e)) es"
  using assms
proof (induction es)
  case (Cons e es)
  then show ?case
    by (cases "belowMin r (snd e)") (auto simp: filter_id_conv intro!: filter_True [symmetric] dest: belowMin_mono)
qed simp

lemma takeWhile_above:
  assumes "sorted_wrt (\<lambda>e e'. snd e \<le> snd e') es" "\<forall>e \<in> set es. snd e \<noteq> NaN"
  shows "takeWhile (\<lambda>e. \<not> aboveMax r (snd e)) es = filter (\<lambda>e. \<not> aboveMax r (snd e)) es"
  using assms
proof (induction es)
  case (Cons e es)
  then show ?case
    by (cases "aboveMax r (snd e)") (auto intro!: filter_False [symmetric] dest: aboveMax_mono)
qed simp

end
