(* ===== verification/Geo.thy ===== *)
theory Geo
  imports Zset_Order Storage_Base
begin

text \<open>
  Geospatial positions (\<^verbatim>\<open>src/internal/command/geo.go\<close>): the interleaved geohash of a longitude and a latitude, the score ranges
  that GEORADIUS scans, and the distance computation.

  The rounding arithmetic of float64, its elementary functions and its conversions to and from text are a parameter, a record of
  operations; nothing is assumed of them but, where a theorem says so, that small integers convert exactly.

  Shown: interleaving loses nothing; a prefix of the interleaved bits is the interleaving of the prefixes, so that a geohash cell
  is one interval of scores; and the ranges to scan are ascending, separate, and match exactly the scores of the cell around the
  centre and its neighbours.
\<close>

unbundle bit_operations_syntax

section \<open>Float64 operations\<close>

record FloatOps =
  fo_add :: "float64 \<Rightarrow> float64 \<Rightarrow> float64"
  fo_sub :: "float64 \<Rightarrow> float64 \<Rightarrow> float64"
  fo_mul :: "float64 \<Rightarrow> float64 \<Rightarrow> float64"
  fo_div :: "float64 \<Rightarrow> float64 \<Rightarrow> float64"
  fo_sin :: "float64 \<Rightarrow> float64"
  fo_cos :: "float64 \<Rightarrow> float64"
  fo_asin :: "float64 \<Rightarrow> float64"
  fo_sqrt :: "float64 \<Rightarrow> float64"
  fo_log :: "float64 \<Rightarrow> float64"
  fo_Round :: "float64 \<Rightarrow> float64"
  fo_const :: "rat \<Rightarrow> float64"
  fo_ofUint64 :: "64 word \<Rightarrow> float64"
  fo_ParseFloat :: "bytes \<Rightarrow> float64 option"
  fo_FormatG :: "float64 \<Rightarrow> bytes"
  fo_FormatF :: "nat \<Rightarrow> float64 \<Rightarrow> bytes"

definition f_le :: "float64 \<Rightarrow> float64 \<Rightarrow> bool" where
  "f_le x y \<longleftrightarrow> f_lt x y \<or> f_eq x y"

fun f_abs :: "float64 \<Rightarrow> float64" where
  "f_abs NaN = NaN"
| "f_abs NInf = PInf"
| "f_abs PInf = PInf"
| "f_abs (Fin x) = Fin \<bar>x\<bar>"

definition f_max :: "float64 \<Rightarrow> float64 \<Rightarrow> float64" where
  "f_max x y = (if x = NaN \<or> y = NaN then NaN else max x y)"

text \<open>The conversions \<^verbatim>\<open>uint32(f)\<close> and \<^verbatim>\<open>uint64(f)\<close> truncate; the code applies them to values in range only.\<close>

fun f_trunc :: "float64 \<Rightarrow> 'a::len word" where
  "f_trunc (Fin x) = word_of_int \<lfloor>x\<rfloor>"
| "f_trunc _ = 0"

section \<open>Constants\<close>

definition geoLongitudeMin :: rat where "geoLongitudeMin = - 180"
definition geoLongitudeMax :: rat where "geoLongitudeMax = 180"
definition geoLatitudeMin :: rat where "geoLatitudeMin = - 85.05112878"
definition geoLatitudeMax :: rat where "geoLatitudeMax = 85.05112878"
definition geoStep :: nat where "geoStep = 26"
definition geoEarthRadiusMeters :: rat where "geoEarthRadiusMeters = 6372797.560856"
definition geoMetersPerKilometer :: rat where "geoMetersPerKilometer = 1000"
definition geoMetersPerMile :: rat where "geoMetersPerMile = 1609.34"
definition geoMetersPerFoot :: rat where "geoMetersPerFoot = 0.3048"

text \<open>\<^verbatim>\<open>math.Pi\<close>, an untyped constant of the standard library.\<close>

definition math_Pi :: rat where
  "math_Pi = 3.14159265358979323846264338327950288419716939937510582097494459"

section \<open>Bits\<close>

definition spreadBits :: "32 word \<Rightarrow> 64 word" where
  "spreadBits value =
     (let spread = ucast value :: 64 word;
          spread = (spread OR push_bit 16 spread) AND 0x0000FFFF0000FFFF;
          spread = (spread OR push_bit 8 spread) AND 0x00FF00FF00FF00FF;
          spread = (spread OR push_bit 4 spread) AND 0x0F0F0F0F0F0F0F0F;
          spread = (spread OR push_bit 2 spread) AND 0x3333333333333333;
          spread = (spread OR push_bit 1 spread) AND 0x5555555555555555
      in spread)"

definition squashBits :: "64 word \<Rightarrow> 32 word" where
  "squashBits spread =
     (let v = spread AND 0x5555555555555555;
          v = (v OR drop_bit 1 v) AND 0x3333333333333333;
          v = (v OR drop_bit 2 v) AND 0x0F0F0F0F0F0F0F0F;
          v = (v OR drop_bit 4 v) AND 0x00FF00FF00FF00FF;
          v = (v OR drop_bit 8 v) AND 0x0000FFFF0000FFFF;
          v = (v OR drop_bit 16 v) AND 0x00000000FFFFFFFF
      in ucast v)"

definition interleave64 :: "32 word \<Rightarrow> 32 word \<Rightarrow> 64 word" where
  "interleave64 x y = spreadBits x OR push_bit 1 (spreadBits y)"

definition deinterleave64 :: "64 word \<Rightarrow> 32 word \<times> 32 word" where
  "deinterleave64 interleaved = (squashBits interleaved, squashBits (drop_bit 1 interleaved))"

lemma bit_below_64: "bit (w :: 64 word) n \<Longrightarrow> n < 64"
  using bit_imp_le_length [of w n] by simp

lemma below_64_cases:
  fixes n :: nat
  assumes "n < 64"
  shows "n \<in> {0,1,2,3,4,5,6,7,8,9,10,11,12,13,14,15,16,17,18,19,20,21,22,23,24,25,26,27,28,29,30,31,
             32,33,34,35,36,37,38,39,40,41,42,43,44,45,46,47,48,49,50,51,52,53,54,55,56,57,58,59,60,61,62,63}"
  using assms by (simp add: less_Suc_eq numeral_eq_Suc)

text \<open>One step of spreading and one of squashing, bit by bit.\<close>

definition spread_step :: "nat \<Rightarrow> 64 word \<Rightarrow> 64 word \<Rightarrow> 64 word" where
  "spread_step k m s = (s OR push_bit k s) AND m"

definition squash_step :: "nat \<Rightarrow> 64 word \<Rightarrow> 64 word \<Rightarrow> 64 word" where
  "squash_step k m s = (s OR drop_bit k s) AND m"

lemma bit_spread_step: "n < 64 \<Longrightarrow> bit (spread_step k m s) n \<longleftrightarrow> bit m n \<and> (bit s n \<or> k \<le> n \<and> bit s (n - k))"
  by (auto simp: spread_step_def bit_and_iff bit_or_iff bit_push_bit_iff)

lemma bit_squash_step: "bit (squash_step k m s) n \<longleftrightarrow> bit m n \<and> (bit s n \<or> bit s (k + n))"
  by (auto simp: squash_step_def bit_and_iff bit_or_iff bit_drop_bit_eq)

lemma spreadBits_steps:
  "spreadBits v = spread_step 1 0x5555555555555555 (spread_step 2 0x3333333333333333 (spread_step 4 0x0F0F0F0F0F0F0F0F
     (spread_step 8 0x00FF00FF00FF00FF (spread_step 16 0x0000FFFF0000FFFF (ucast v)))))"
  by (simp only: spreadBits_def Let_def spread_step_def)

lemma squashBits_steps:
  "squashBits s = ucast (squash_step 16 0x00000000FFFFFFFF (squash_step 8 0x0000FFFF0000FFFF (squash_step 4 0x00FF00FF00FF00FF
     (squash_step 2 0x0F0F0F0F0F0F0F0F (squash_step 1 0x3333333333333333 (s AND 0x5555555555555555))))))"
  by (simp only: squashBits_def Let_def squash_step_def)

lemma bit_above_32: "32 \<le> n \<Longrightarrow> \<not> bit (v :: 32 word) n"
  using bit_imp_le_length [of v n] by auto

lemma bit_ucast_32: "bit (ucast (v :: 32 word) :: 64 word) n \<longleftrightarrow> bit v n"
  using bit_imp_le_length [of v n] by (auto simp: bit_ucast_iff)

lemma bit_spreadBits: "bit (spreadBits v) n \<longleftrightarrow> even n \<and> bit v (n div 2)"
proof (cases "n < 64")
  case True
  show ?thesis
    using below_64_cases [OF True] unfolding spreadBits_steps
    by (elim insertE emptyE) (simp_all add: bit_spread_step bit_ucast_32 bit_above_32)
next
  case False
  then show ?thesis using bit_below_64 [of "spreadBits v" n] bit_imp_le_length [of v "n div 2"] by auto
qed

lemma bit_squashBits: "bit (squashBits s) n \<longleftrightarrow> n < 32 \<and> bit s (2 * n)"
proof (cases "n < 32")
  case True
  then have "n < 64" by simp
  show ?thesis
    using below_64_cases [OF \<open>n < 64\<close>] True unfolding squashBits_steps
    by (elim insertE emptyE) (simp_all add: bit_squash_step bit_ucast_iff bit_and_iff flip: numeral_2_eq_2)
next
  case False
  then show ?thesis using bit_imp_le_length [of "squashBits s" n] by auto
qed

lemma bit_interleave64: "bit (interleave64 x y) n \<longleftrightarrow> (if even n then bit x (n div 2) else bit y (n div 2))"
proof (cases "n < 64")
  case True
  have "bit (interleave64 x y) n \<longleftrightarrow> bit (spreadBits x) n \<or> 1 \<le> n \<and> bit (spreadBits y) (n - 1)"
    unfolding interleave64_def bit_or_iff bit_push_bit_iff using True by simp
  then show ?thesis by (auto simp: bit_spreadBits elim: oddE)
next
  case False
  then show ?thesis
    using bit_below_64 [of "interleave64 x y" n] bit_imp_le_length [of x "n div 2"] bit_imp_le_length [of y "n div 2"] by auto
qed

lemma deinterleave_interleave: "deinterleave64 (interleave64 x y) = (x, y)"
  by (auto simp: deinterleave64_def bit_squashBits bit_interleave64 bit_drop_bit_eq bit_above_32 not_le intro!: bit_eqI)

lemma interleave_deinterleave: "interleave64 (fst (deinterleave64 bits)) (snd (deinterleave64 bits)) = bits"
proof (rule bit_eqI)
  fix n
  show "bit (interleave64 (fst (deinterleave64 bits)) (snd (deinterleave64 bits))) n = bit bits n"
    by (cases "even n") (auto simp: deinterleave64_def bit_squashBits bit_interleave64 bit_drop_bit_eq dest: bit_below_64)
qed

text \<open>C28. Interleaving loses nothing: the two coordinates come back, and every 64-bit number is the interleaving of the two numbers
  it separates into.\<close>

theorem interleave_round_trip:
  "deinterleave64 (interleave64 x y) = (x, y) \<and> interleave64 (fst (deinterleave64 bits)) (snd (deinterleave64 bits)) = bits"
  by (simp only: deinterleave_interleave interleave_deinterleave simp_thms)

text \<open>Dropping the low \<open>2 k\<close> bits of a geohash is dropping \<open>k\<close> bits of each coordinate.\<close>

lemma drop_interleave: "drop_bit (2 * k) (interleave64 x y) = interleave64 (drop_bit k x) (drop_bit k y)"
  by (rule bit_eqI) (auto simp: bit_drop_bit_eq bit_interleave64)

section \<open>Positions\<close>

definition degreesToRadians :: "FloatOps \<Rightarrow> float64 \<Rightarrow> float64" where
  "degreesToRadians fo degrees = fo_mul fo degrees (fo_const fo (math_Pi / 180))"

definition radiansToDegrees :: "FloatOps \<Rightarrow> float64 \<Rightarrow> float64" where
  "radiansToDegrees fo radians = fo_mul fo radians (fo_const fo (180 / math_Pi))"

definition geohashEncode :: "FloatOps \<Rightarrow> float64 \<Rightarrow> float64 \<Rightarrow> 64 word" where
  "geohashEncode fo longitude latitude =
     (let longitudeOffset = fo_div fo (fo_sub fo longitude (fo_const fo geoLongitudeMin)) (fo_const fo (geoLongitudeMax - geoLongitudeMin));
          latitudeOffset = fo_div fo (fo_sub fo latitude (fo_const fo geoLatitudeMin)) (fo_const fo (geoLatitudeMax - geoLatitudeMin));
          scale = fo_ofUint64 fo (push_bit geoStep 1)
      in interleave64 (f_trunc (fo_mul fo latitudeOffset scale)) (f_trunc (fo_mul fo longitudeOffset scale)))"

definition geohashBits :: "FloatOps \<Rightarrow> float64 \<Rightarrow> 64 word" where
  "geohashBits fo score =
     (if f_lt score (Fin 0) \<or> f_le (fo_ofUint64 fo (push_bit (2 * geoStep + 2) 1)) score then 0 else f_trunc score)"

definition geohashDecode :: "FloatOps \<Rightarrow> 64 word \<Rightarrow> float64 \<times> float64" where
  "geohashDecode fo bits =
     (let (latitudeBits, longitudeBits) = deinterleave64 bits;
          scale = fo_ofUint64 fo (push_bit geoStep 1);
          edge = (\<lambda>low span (n :: 32 word). fo_add fo (fo_const fo low) (fo_mul fo (fo_div fo (fo_ofUint64 fo (ucast n)) scale) (fo_const fo span)));
          latitudeMin = edge geoLatitudeMin (geoLatitudeMax - geoLatitudeMin) latitudeBits;
          latitudeMax = edge geoLatitudeMin (geoLatitudeMax - geoLatitudeMin) (latitudeBits + 1);
          longitudeMin = edge geoLongitudeMin (geoLongitudeMax - geoLongitudeMin) longitudeBits;
          longitudeMax = edge geoLongitudeMin (geoLongitudeMax - geoLongitudeMin) (longitudeBits + 1)
      in (fo_div fo (fo_add fo longitudeMin longitudeMax) (fo_const fo 2), fo_div fo (fo_add fo latitudeMin latitudeMax) (fo_const fo 2)))"

definition geoDistanceMeters :: "FloatOps \<Rightarrow> float64 \<Rightarrow> float64 \<Rightarrow> float64 \<Rightarrow> float64 \<Rightarrow> float64" where
  "geoDistanceMeters fo longitude1 latitude1 longitude2 latitude2 =
     (let longitude1Rad = degreesToRadians fo longitude1;
          longitude2Rad = degreesToRadians fo longitude2;
          v = fo_sin fo (fo_div fo (fo_sub fo longitude2Rad longitude1Rad) (fo_const fo 2))
      in if f_eq v (Fin 0)
         then fo_mul fo (fo_const fo geoEarthRadiusMeters) (f_abs (fo_sub fo (degreesToRadians fo latitude2) (degreesToRadians fo latitude1)))
         else
           let latitude1Rad = degreesToRadians fo latitude1;
               latitude2Rad = degreesToRadians fo latitude2;
               u = fo_sin fo (fo_div fo (fo_sub fo latitude2Rad latitude1Rad) (fo_const fo 2));
               a = fo_add fo (fo_mul fo u u) (fo_mul fo (fo_mul fo (fo_mul fo (fo_cos fo latitude1Rad) (fo_cos fo latitude2Rad)) v) v)
           in fo_mul fo (fo_const fo (2 * geoEarthRadiusMeters)) (fo_asin fo (fo_sqrt fo a)))"

section \<open>The ranges GEORADIUS scans\<close>

definition geoBoundingDeltas :: "FloatOps \<Rightarrow> float64 \<Rightarrow> float64 \<Rightarrow> float64 \<times> float64" where
  "geoBoundingDeltas fo latitude radiusMeters =
     (let radiusRadians = fo_div fo radiusMeters (fo_const fo geoEarthRadiusMeters);
          deltaLatitude = radiansToDegrees fo radiusRadians
      in if f_le (fo_const fo 90) (fo_add fo (f_abs latitude) deltaLatitude) then (deltaLatitude, fo_const fo 180)
         else
           let outerLatitude = fo_add fo (f_abs latitude) deltaLatitude;
               ratio = fo_div fo (fo_sin fo radiusRadians) (fo_cos fo (degreesToRadians fo outerLatitude))
           in if f_le (fo_const fo 1) ratio then (deltaLatitude, fo_const fo 180)
              else (deltaLatitude, radiansToDegrees fo (fo_asin fo ratio)))"

definition geoCellCovers :: "FloatOps \<Rightarrow> nat \<Rightarrow> float64 \<Rightarrow> float64 \<Rightarrow> bool" where
  "geoCellCovers fo step deltaLatitude deltaLongitude \<longleftrightarrow>
     (let cells = fo_ofUint64 fo (push_bit step 1);
          cellHeight = fo_div fo (fo_const fo (geoLatitudeMax - geoLatitudeMin)) cells;
          cellWidth = fo_div fo (fo_const fo (geoLongitudeMax - geoLongitudeMin)) cells
      in f_le deltaLatitude cellHeight \<and> f_le deltaLongitude cellWidth)"

text \<open>The loop that lowers the step.\<close>

fun geo_step_loop :: "FloatOps \<Rightarrow> float64 \<Rightarrow> float64 \<Rightarrow> nat \<Rightarrow> nat" where
  "geo_step_loop fo deltaLatitude deltaLongitude step =
     (if 1 < step \<and> \<not> geoCellCovers fo step deltaLatitude deltaLongitude
      then geo_step_loop fo deltaLatitude deltaLongitude (step - 1) else step)"

declare geo_step_loop.simps [simp del]

definition geoCellCoords :: "FloatOps \<Rightarrow> float64 \<Rightarrow> float64 \<Rightarrow> nat \<Rightarrow> 64 word \<times> 64 word" where
  "geoCellCoords fo longitude latitude step =
     (let (latitudeBits, longitudeBits) = deinterleave64 (geohashEncode fo longitude latitude);
          cells = push_bit step (1 :: 64 word);
          latCell = drop_bit (geoStep - step) (ucast latitudeBits :: 64 word);
          latCell = (if latCell \<ge> cells then cells - 1 else latCell);
          lonCell = drop_bit (geoStep - step) (ucast longitudeBits :: 64 word);
          lonCell = (if lonCell \<ge> cells then cells - 1 else lonCell)
      in (latCell, lonCell))"

definition cell_range :: "FloatOps \<Rightarrow> nat \<Rightarrow> int \<Rightarrow> int \<Rightarrow> ScoreRange" where
  "cell_range fo shift latCell lonCell =
     (let minBits = push_bit shift (interleave64 (word_of_int latCell) (word_of_int lonCell))
      in \<lparr>sr_Min = fo_ofUint64 fo minBits, sr_Max = fo_ofUint64 fo (minBits + push_bit shift 1), sr_MinExclusive = False,
          sr_MaxExclusive = True\<rparr>)"

fun merge_ranges :: "ScoreRange \<Rightarrow> ScoreRange list \<Rightarrow> ScoreRange list" where
  "merge_ranges lst [] = [lst]"
| "merge_ranges lst (scoreRange # ranges) =
     (if f_le (sr_Min scoreRange) (sr_Max lst)
      then merge_ranges (lst\<lparr>sr_Max := f_max (sr_Max lst) (sr_Max scoreRange)\<rparr>) ranges
      else lst # merge_ranges scoreRange ranges)"

definition neighbour_cells :: "nat \<Rightarrow> 64 word \<times> 64 word \<Rightarrow> (int \<times> int) list" where
  "neighbour_cells step centre =
     (let cells = 2 ^ step in
      concat (map (\<lambda>deltaLat.
        let latCell = uint (fst centre) + deltaLat
        in if latCell < 0 \<or> latCell \<ge> cells then []
           else map (\<lambda>deltaLon. (latCell, (uint (snd centre) + deltaLon + cells) mod cells)) [-1, 0, 1]) [-1, 0, 1]))"

definition geoNeighborCellRanges :: "FloatOps \<Rightarrow> float64 \<Rightarrow> float64 \<Rightarrow> nat \<Rightarrow> ScoreRange list" where
  "geoNeighborCellRanges fo longitude latitude step =
     (let shift = 2 * (geoStep - step);
          ranges = map (\<lambda>(latCell, lonCell). cell_range fo shift latCell lonCell)
            (neighbour_cells step (geoCellCoords fo longitude latitude step))
      in case SortFunc (\<lambda>a b. if f_lt (sr_Min a) (sr_Min b) then -1 else 0) ranges of
           [] \<Rightarrow> []
         | r # rs \<Rightarrow> merge_ranges r rs)"

definition geoRadiusStep :: "FloatOps \<Rightarrow> float64 \<Rightarrow> float64 \<Rightarrow> nat" where
  "geoRadiusStep fo latitude radiusMeters =
     (let (deltaLatitude, deltaLongitude) = geoBoundingDeltas fo latitude radiusMeters
      in geo_step_loop fo deltaLatitude deltaLongitude geoStep)"

definition geoRadiusScoreRanges :: "FloatOps \<Rightarrow> float64 \<Rightarrow> float64 \<Rightarrow> float64 \<Rightarrow> ScoreRange list" where
  "geoRadiusScoreRanges fo longitude latitude radiusMeters =
     (let step = geoRadiusStep fo latitude radiusMeters;
          cellRanges = geoNeighborCellRanges fo longitude latitude step
      in [\<lparr>sr_Min = NInf, sr_Max = Fin 0, sr_MinExclusive = False, sr_MaxExclusive = True\<rparr>] @ cellRanges @
         [\<lparr>sr_Min = fo_ofUint64 fo (push_bit (2 * geoStep) 1), sr_Max = PInf, sr_MinExclusive = False, sr_MaxExclusive = False\<rparr>])"

section \<open>What the ranges match\<close>

definition in_range :: "ScoreRange \<Rightarrow> float64 \<Rightarrow> bool" where
  "in_range r score \<longleftrightarrow> \<not> belowMin r score \<and> \<not> aboveMax r score"

text \<open>The conversion to float64 of unsigned integers up to \<open>2 ^ 53\<close>, and of powers of two, is exact.\<close>

definition exact_ints :: "FloatOps \<Rightarrow> bool" where
  "exact_ints fo \<longleftrightarrow>
     (\<forall>w. unat w \<le> 2 ^ 53 \<or> (\<exists>n. w = push_bit n 1) \<longrightarrow> fo_ofUint64 fo w = Fin (of_nat (unat w)))"

lemma unat_bound: "(\<And>m. bit (w :: 64 word) m \<Longrightarrow> m < n) \<Longrightarrow> unat w < 2 ^ n"
proof -
  assume b: "\<And>m. bit w m \<Longrightarrow> m < n"
  have "take_bit n w = w" by (rule bit_eqI) (auto simp: bit_take_bit_iff dest: b)
  then have "take_bit n (unat w) = unat w" by (metis unsigned_take_bit_eq)
  then show ?thesis by (metis take_bit_nat_less_exp)
qed

lemma bit_bound: "unat (w :: 'a::len word) < 2 ^ n \<Longrightarrow> bit w m \<Longrightarrow> m < n"
proof (rule ccontr)
  assume "unat w < 2 ^ n" "bit w m" "\<not> m < n"
  then have "bit (unat w) m" by (simp add: bit_unsigned_iff)
  moreover have "take_bit n (unat w) = unat w" using \<open>unat w < 2 ^ n\<close> by (simp add: take_bit_nat_eq_self)
  ultimately show False using \<open>\<not> m < n\<close> by (metis bit_take_bit_iff)
qed

lemma interleave_bound: "unat x < 2 ^ n \<Longrightarrow> unat y < 2 ^ n \<Longrightarrow> unat (interleave64 x y) < 2 ^ (2 * n)"
  by (rule unat_bound) (auto simp: bit_interleave64 dest: bit_bound split: if_splits elim!: evenE oddE)

lemma interleave_inject: "interleave64 x y = interleave64 x' y' \<longleftrightarrow> x = x' \<and> y = y'"
  by (metis deinterleave_interleave prod.inject)

text \<open>The cell of a score at a step: the leading bits of its two coordinates.\<close>

definition cell_of :: "nat \<Rightarrow> 64 word \<Rightarrow> int \<times> int" where
  "cell_of step bits = (uint (drop_bit (geoStep - step) (fst (deinterleave64 bits))), uint (drop_bit (geoStep - step) (snd (deinterleave64 bits))))"

lemma unat_push_bit_small: "unat (w :: 64 word) * 2 ^ k < 2 ^ 64 \<Longrightarrow> unat (push_bit k w) = unat w * 2 ^ k"
  by (simp only: unsigned_push_bit_eq push_bit_eq_mult[of _ "unat w"]) (simp add: take_bit_nat_eq_self)

lemma unat_cell: "0 \<le> a \<Longrightarrow> a < 2 ^ step \<Longrightarrow> step \<le> 26 \<Longrightarrow> unat (word_of_int a :: 32 word) < 2 ^ step \<and> uint (word_of_int a :: 32 word) = a"
proof -
  assume a: "0 \<le> a" "a < 2 ^ step" "step \<le> 26"
  have "(2::int) ^ step \<le> 2 ^ 26" using a(3) by (rule power_increasing) simp
  then have u: "uint (word_of_int a :: 32 word) = a" using a by (simp add: unsigned_of_int take_bit_int_eq_self)
  have "int (unat (word_of_int a :: 32 word)) < int (2 ^ step)" using u a by simp
  then show ?thesis using u by (simp only: of_nat_less_iff)
qed

text \<open>The interval of scores that a cell stands for.\<close>

lemma cell_interval:
  assumes step: "step \<le> 26" and lat: "0 \<le> a" "a < 2 ^ step" and lon: "0 \<le> b" "b < 2 ^ step"
  defines "sh \<equiv> 2 * (geoStep - step)"
  defines "w \<equiv> interleave64 (word_of_int a) (word_of_int b)"
  shows "unat (push_bit sh w) = unat w * 2 ^ sh" "unat (push_bit sh w + push_bit sh 1) = (unat w + 1) * 2 ^ sh"
    "(unat w + 1) * 2 ^ sh \<le> 2 ^ 52"
proof -
  have wb: "unat w < 2 ^ (2 * step)" unfolding w_def by (rule interleave_bound) (use unat_cell assms in blast)+
  have "2 * step + sh = 52" using step by (simp add: sh_def geoStep_def)
  then have "2 ^ (2 * step) * 2 ^ sh = (2 :: nat) ^ 52" by (metis power_add)
  then show le: "(unat w + 1) * 2 ^ sh \<le> 2 ^ 52" using wb by (metis Suc_leI add.commute mult_le_mono1 plus_1_eq_Suc)
  have "unat w * 2 ^ sh < 2 ^ 64" using le by (simp add: algebra_simps)
  then show p: "unat (push_bit sh w) = unat w * 2 ^ sh" by (rule unat_push_bit_small)
  have "unat (1 :: 64 word) * 2 ^ sh < 2 ^ 64" using le by (simp add: algebra_simps)
  then have o: "unat (push_bit sh (1 :: 64 word)) = 2 ^ sh" using unat_push_bit_small [of 1 sh] by simp
  have "(unat w + 1) * 2 ^ sh < 2 ^ 64" by (rule le_less_trans [OF le]) simp
  then have "(unat w * 2 ^ sh + 2 ^ sh) mod 2 ^ 64 = (unat w + 1) * 2 ^ sh" by (simp only: add_mult_distrib mult_1 mod_less)
  then show "unat (push_bit sh w + push_bit sh 1) = (unat w + 1) * 2 ^ sh"
    using unat_word_ariths(1) [of "push_bit sh w" "push_bit sh 1"] unfolding p o by simp
qed

lemma cell_range_eq:
  assumes ex: "exact_ints fo" and step: "step \<le> 26" and lat: "0 \<le> a" "a < 2 ^ step" and lon: "0 \<le> b" "b < 2 ^ step"
  defines "sh \<equiv> 2 * (geoStep - step)"
  defines "m \<equiv> unat (interleave64 (word_of_int a) (word_of_int b))"
  shows "cell_range fo sh a b =
     \<lparr>sr_Min = Fin (of_nat (m * 2 ^ sh)), sr_Max = Fin (of_nat ((m + 1) * 2 ^ sh)), sr_MinExclusive = False, sr_MaxExclusive = True\<rparr>"
    "(m + 1) * 2 ^ sh \<le> 2 ^ 52"
proof -
  note i = cell_interval [OF step lat lon]
  show le: "(m + 1) * 2 ^ sh \<le> 2 ^ 52" using i(3) by (simp add: m_def sh_def)
  have "(m + 1) * 2 ^ sh \<le> 2 ^ 53" using le by (rule order_trans) simp
  moreover have "m * 2 ^ sh \<le> 2 ^ 53" using calculation by (simp add: algebra_simps)
  ultimately show "cell_range fo sh a b =
     \<lparr>sr_Min = Fin (of_nat (m * 2 ^ sh)), sr_Max = Fin (of_nat ((m + 1) * 2 ^ sh)), sr_MinExclusive = False, sr_MaxExclusive = True\<rparr>"
    using ex i(1,2) unfolding cell_range_def Let_def exact_ints_def m_def sh_def by (metis (no_types, lifting))
qed

lemma div_interval: "m * 2 ^ k \<le> n \<and> n < (m + 1) * 2 ^ k \<longleftrightarrow> n div 2 ^ k = (m :: nat)"
proof
  assume "m * 2 ^ k \<le> n \<and> n < (m + 1) * 2 ^ k"
  then show "n div 2 ^ k = m" by (intro div_nat_eqI) (simp_all add: mult.commute)
next
  assume "n div 2 ^ k = m"
  then show "m * 2 ^ k \<le> n \<and> n < (m + 1) * 2 ^ k"
    using div_mult_mod_eq [of n "2 ^ k"] mod_less_divisor [of "2 ^ k" n, OF zero_less_power [OF zero_less_numeral]]
    by (simp only: add_mult_distrib mult_1) linarith
qed

lemma cell_range_matches:
  assumes ex: "exact_ints fo" and step: "step \<le> 26" and lat: "0 \<le> a" "a < 2 ^ step" and lon: "0 \<le> b" "b < 2 ^ step"
    and q: "0 \<le> q" "q < 2 ^ 52"
  shows "in_range (cell_range fo (2 * (geoStep - step)) a b) (Fin q) \<longleftrightarrow> cell_of step (word_of_int \<lfloor>q\<rfloor>) = (a, b)"
proof -
  define k where "k = geoStep - step"
  define n where "n = nat \<lfloor>q\<rfloor>"
  define wa :: "32 word" where "wa = word_of_int a"
  define wb :: "32 word" where "wb = word_of_int b"
  let ?m = "unat (interleave64 wa wb)"
  have n: "\<lfloor>q\<rfloor> = int n" using q by (simp add: n_def)
  have "n < 2 ^ 52" using q n floor_less_iff [of q "2 ^ 52"] by simp
  then have un: "unat (word_of_int \<lfloor>q\<rfloor> :: 64 word) = n" by (simp add: n unsigned_of_nat take_bit_nat_eq_self)
  have u: "uint wa = a" "uint wb = b" using unat_cell lat lon step by (auto simp: wa_def wb_def)
  have "in_range (cell_range fo (2 * k) a b) (Fin q) \<longleftrightarrow> of_nat (?m * 2 ^ (2 * k)) \<le> q \<and> q < of_nat ((?m + 1) * 2 ^ (2 * k))"
    unfolding k_def wa_def wb_def cell_range_eq(1) [OF ex step lat lon]
    by (auto simp: in_range_def belowMin_def aboveMax_def f_lt_def f_eq_def less_float64_def)
  also have "\<dots> \<longleftrightarrow> ?m * 2 ^ (2 * k) \<le> n \<and> n < (?m + 1) * 2 ^ (2 * k)"
    using n le_floor_iff [of "int (?m * 2 ^ (2 * k))" q] floor_less_iff [of q "int ((?m + 1) * 2 ^ (2 * k))"]
    by (metis of_int_of_nat_eq of_nat_le_iff of_nat_less_iff)
  also have "\<dots> \<longleftrightarrow> n div 2 ^ (2 * k) = ?m" by (rule div_interval)
  also have "\<dots> \<longleftrightarrow> drop_bit (2 * k) (word_of_int \<lfloor>q\<rfloor>) = interleave64 wa wb"
    by (simp only: word_unat_eq_iff unat_drop_bit_eq drop_bit_eq_div [where 'a = nat] un)
  also have "\<dots> \<longleftrightarrow> interleave64 (drop_bit k (fst (deinterleave64 (word_of_int \<lfloor>q\<rfloor>)))) (drop_bit k (snd (deinterleave64 (word_of_int \<lfloor>q\<rfloor>)))) = interleave64 wa wb"
    by (simp only: drop_interleave [symmetric] interleave_deinterleave)
  also have "\<dots> \<longleftrightarrow> cell_of step (word_of_int \<lfloor>q\<rfloor>) = (a, b)"
    unfolding interleave_inject cell_of_def k_def by (auto simp: u [symmetric] word_uint_eq_iff)
  finally show ?thesis by (simp add: k_def)
qed

definition half_open :: "ScoreRange \<Rightarrow> bool" where
  "half_open r \<longleftrightarrow>
     (\<exists>x y. r = \<lparr>sr_Min = Fin x, sr_Max = Fin y, sr_MinExclusive = False, sr_MaxExclusive = True\<rparr> \<and> x < y)"

lemma in_half_open: "half_open r \<Longrightarrow> s \<noteq> NaN \<Longrightarrow> in_range r s \<longleftrightarrow> sr_Min r \<le> s \<and> s < sr_Max r"
  by (cases s) (auto simp: half_open_def in_range_def belowMin_def aboveMax_def f_lt_def f_eq_def less_float64_def)

lemma merge_ranges_spec:
  assumes "half_open lst" "\<forall>r\<in>set rs. half_open r" "sorted (map sr_Min (lst # rs))"
  shows "(\<forall>r\<in>set (merge_ranges lst rs). half_open r \<and> sr_Min lst \<le> sr_Min r \<and> (\<exists>r'\<in>set (lst # rs). sr_Max r \<le> sr_Max r')) \<and>
         sorted_wrt (\<lambda>a b. sr_Max a < sr_Min b) (merge_ranges lst rs) \<and>
         (\<forall>s. s \<noteq> NaN \<longrightarrow> (\<exists>r\<in>set (merge_ranges lst rs). in_range r s) \<longleftrightarrow> (\<exists>r\<in>set (lst # rs). in_range r s))"
  using assms
proof (induction lst rs rule: merge_ranges.induct)
  case (1 lst)
  then show ?case by simp
next
  case (2 lst r rs)
  obtain x y where l: "lst = \<lparr>sr_Min = Fin x, sr_Max = Fin y, sr_MinExclusive = False, sr_MaxExclusive = True\<rparr>" "x < y"
    using 2(3) by (auto simp: half_open_def)
  obtain x' y' where r: "r = \<lparr>sr_Min = Fin x', sr_Max = Fin y', sr_MinExclusive = False, sr_MaxExclusive = True\<rparr>" "x' < y'"
    using 2(4) by (auto simp: half_open_def)
  have xx: "x \<le> x'" using 2(5) l r by simp
  show ?case
  proof (cases "f_le (sr_Min r) (sr_Max lst)")
    case True
    let ?l = "lst\<lparr>sr_Max := f_max (sr_Max lst) (sr_Max r)\<rparr>"
    have le: "x' \<le> y" using True l r by (auto simp: f_le_def f_lt_def f_eq_def less_float64_def)
    have eq: "?l = \<lparr>sr_Min = Fin x, sr_Max = Fin (max y y'), sr_MinExclusive = False, sr_MaxExclusive = True\<rparr>"
      using l r by (auto simp: f_max_def max_def)
    then have h: "half_open ?l" using l unfolding half_open_def by (simp add: less_max_iff_disj)
    have IH: "(\<forall>q\<in>set (merge_ranges ?l rs). half_open q \<and> sr_Min ?l \<le> sr_Min q \<and> (\<exists>r'\<in>set (?l # rs). sr_Max q \<le> sr_Max r')) \<and>
         sorted_wrt (\<lambda>a b. sr_Max a < sr_Min b) (merge_ranges ?l rs) \<and>
         (\<forall>s. s \<noteq> NaN \<longrightarrow> (\<exists>q\<in>set (merge_ranges ?l rs). in_range q s) \<longleftrightarrow> (\<exists>q\<in>set (?l # rs). in_range q s))"
      by (rule 2(1) [OF True h]) (use 2(4,5) in auto)
    have "in_range ?l s \<longleftrightarrow> in_range lst s \<or> in_range r s" if "s \<noteq> NaN" for s
      unfolding eq using l r le xx that
      by (cases s) (auto simp: in_range_def belowMin_def aboveMax_def f_lt_def f_eq_def less_float64_def less_max_iff_disj max_def)
    moreover have "sr_Max ?l = sr_Max lst \<or> sr_Max ?l = sr_Max r" using eq l r by (auto simp: max_def)
    moreover have "merge_ranges lst (r # rs) = merge_ranges ?l rs" using True by simp
    ultimately show ?thesis using IH by auto
  next
    case False
    have IH: "(\<forall>q\<in>set (merge_ranges r rs). half_open q \<and> sr_Min r \<le> sr_Min q \<and> (\<exists>r'\<in>set (r # rs). sr_Max q \<le> sr_Max r')) \<and>
         sorted_wrt (\<lambda>a b. sr_Max a < sr_Min b) (merge_ranges r rs) \<and>
         (\<forall>s. s \<noteq> NaN \<longrightarrow> (\<exists>q\<in>set (merge_ranges r rs). in_range q s) \<longleftrightarrow> (\<exists>q\<in>set (r # rs). in_range q s))"
      by (rule 2(2) [OF False]) (use 2(4,5) in auto)
    have lt: "sr_Max lst < sr_Min r" using False l r by (auto simp: f_le_def f_lt_def f_eq_def less_float64_def)
    have le: "sr_Min lst \<le> sr_Min r" using l r xx by simp
    show ?thesis using False IH lt le 2(3) by (auto intro: less_le_trans order_trans)
  qed
qed

lemma cells_bound:
  assumes "step \<le> 26"
  shows "uint (if w \<ge> push_bit step 1 then push_bit step 1 - 1 else w) < 2 ^ step" "0 \<le> uint (w :: 64 word)"
proof -
  have "unat (1 :: 64 word) * 2 ^ step < 2 ^ 64"
    using power_increasing [of step 26 "2 :: nat"] assms by simp
  then have c: "unat (push_bit step 1 :: 64 word) = 2 ^ step" using unat_push_bit_small [of 1 step] by simp
  then have "unat (push_bit step 1 - 1 :: 64 word) = 2 ^ step - 1" by (subst unat_minus_one) (auto simp: word_unat_eq_iff)
  then have "unat (if w \<ge> push_bit step 1 then push_bit step 1 - 1 else w) < 2 ^ step"
    using c by (auto simp: word_le_nat_alt)
  then have "int (unat (if w \<ge> push_bit step 1 then push_bit step 1 - 1 else w)) < int (2 ^ step)" by (simp only: of_nat_less_iff)
  then show "uint (if w \<ge> push_bit step 1 then push_bit step 1 - 1 else w) < 2 ^ step" by (simp only: uint_nat of_nat_power of_nat_numeral)
qed simp

lemma geoCellCoords_bound:
  "step \<le> 26 \<Longrightarrow> uint (fst (geoCellCoords fo lon lat step)) < 2 ^ step \<and> uint (snd (geoCellCoords fo lon lat step)) < 2 ^ step"
  unfolding geoCellCoords_def Let_def split_beta fst_conv snd_conv by (intro conjI cells_bound(1))

lemma neighbour_cells_iff:
  assumes "0 \<le> a" "a < 2 ^ step" "0 \<le> b" "b < 2 ^ step" "uint (fst centre) < 2 ^ step" "uint (snd centre) < 2 ^ step"
  shows "(a, b) \<in> set (neighbour_cells step centre) \<longleftrightarrow>
    \<bar>a - uint (fst centre)\<bar> \<le> 1 \<and> (\<exists>d\<in>{-1, 0, 1}. b = (uint (snd centre) + d) mod 2 ^ step)"
proof -
  have m: "(x + d + n) mod n = (x + d) mod n" for x d n :: int by simp
  have "(a, b) \<in> set (neighbour_cells step centre) \<longleftrightarrow>
      (\<exists>e\<in>{-1, 0, 1}. a = uint (fst centre) + e) \<and> (\<exists>d\<in>{-1, 0, 1}. b = (uint (snd centre) + d) mod 2 ^ step)"
    using assms(1,2) by (auto simp: neighbour_cells_def Let_def split: if_splits)
  moreover have "(\<exists>e\<in>{-1, 0, 1}. a = uint (fst centre) + e) \<longleftrightarrow> \<bar>a - uint (fst centre)\<bar> \<le> 1" by auto
  ultimately show ?thesis by simp
qed

lemma neighbour_cells_bound:
  "(a, b) \<in> set (neighbour_cells step centre) \<Longrightarrow> 0 \<le> a \<and> a < 2 ^ step \<and> 0 \<le> b \<and> b < 2 ^ step"
  by (auto simp: neighbour_cells_def Let_def split: if_splits)

lemma neighbour_cells_nonempty: "uint (fst centre) < 2 ^ step \<Longrightarrow> neighbour_cells step centre \<noteq> []"
  by (simp add: neighbour_cells_def Let_def)

lemma geo_step_bounds: "1 \<le> n \<Longrightarrow> 1 \<le> geo_step_loop fo x y n \<and> geo_step_loop fo x y n \<le> n"
proof (induction fo x y n rule: geo_step_loop.induct)
  case (1 fo x y n)
  show ?case
  proof (cases "1 < n \<and> \<not> geoCellCovers fo n x y")
    case True
    then have "1 \<le> n - 1" by linarith
    then have "1 \<le> geo_step_loop fo x y (n - 1) \<and> geo_step_loop fo x y (n - 1) \<le> n - 1" using 1(1) True by blast
    then have "1 \<le> geo_step_loop fo x y (n - 1) \<and> geo_step_loop fo x y (n - 1) \<le> n" by linarith
    then show ?thesis using True by (simp add: geo_step_loop.simps [of fo x y n])
  qed (use 1(2) in \<open>auto simp: geo_step_loop.simps [of fo x y n]\<close>)
qed

lemma neighbour_ranges:
  fixes lon lat
  assumes ex: "exact_ints fo" and step: "step \<le> 26"
  defines "rs \<equiv> geoNeighborCellRanges fo lon lat step"
  shows "\<forall>r\<in>set rs. half_open r \<and> Fin 0 \<le> sr_Min r \<and> sr_Max r \<le> Fin (2 ^ 52)"
    "sorted_wrt (\<lambda>a b. sr_Max a < sr_Min b) rs"
    "s \<noteq> NaN \<Longrightarrow> (\<exists>r\<in>set rs. in_range r s) \<longleftrightarrow>
       (\<exists>(a, b)\<in>set (neighbour_cells step (geoCellCoords fo lon lat step)). in_range (cell_range fo (2 * (geoStep - step)) a b) s)"
proof -
  let ?cmp = "\<lambda>a b :: ScoreRange. if f_lt (sr_Min a) (sr_Min b) then - 1 else 0 :: int"
  let ?cells = "neighbour_cells step (geoCellCoords fo lon lat step)"
  let ?raw = "map (\<lambda>(a, b). cell_range fo (2 * (geoStep - step)) a b) ?cells"
  have cell: "half_open r \<and> Fin 0 \<le> sr_Min r \<and> sr_Max r \<le> Fin (2 ^ 52)" if raw: "r \<in> set ?raw" for r
  proof -
    obtain p where p: "p \<in> set ?cells" "r = (case p of (a, b) \<Rightarrow> cell_range fo (2 * (geoStep - step)) a b)"
      using raw unfolding set_map by blast
    obtain a b where "p = (a, b)" by (rule prod.exhaust)
    with p have ab: "(a, b) \<in> set ?cells" "r = cell_range fo (2 * (geoStep - step)) a b" by simp_all
    let ?m = "unat (interleave64 (word_of_int a) (word_of_int b))"
    let ?sh = "2 * (geoStep - step)"
    have e: "r = \<lparr>sr_Min = Fin (of_nat (?m * 2 ^ ?sh)), sr_Max = Fin (of_nat ((?m + 1) * 2 ^ ?sh)), sr_MinExclusive = False, sr_MaxExclusive = True\<rparr>"
      and le: "(?m + 1) * 2 ^ ?sh \<le> 2 ^ 52"
      using cell_range_eq [OF ex step, of a b] neighbour_cells_bound [OF ab(1)] ab(2) by auto
    have "(of_nat ((?m + 1) * 2 ^ ?sh) :: rat) \<le> of_nat (2 ^ 52)" using le by (simp only: of_nat_le_iff)
    then have "(of_nat ((?m + 1) * 2 ^ ?sh) :: rat) \<le> 2 ^ 52" by (simp only: of_nat_power of_nat_numeral)
    moreover have "?m * 2 ^ ?sh < (?m + 1) * 2 ^ ?sh" by simp
    then have "(of_nat (?m * 2 ^ ?sh) :: rat) < of_nat ((?m + 1) * 2 ^ ?sh)" by (simp only: of_nat_less_iff)
    ultimately show ?thesis unfolding half_open_def e by (simp del: of_nat_mult of_nat_add)
  qed
  have cmp: "?cmp x y < 0 \<longleftrightarrow> sr_Min x < sr_Min y" if "x \<in> set ?raw" "y \<in> set ?raw" for x y
    using cell [OF that(1)] cell [OF that(2)] by (auto simp: f_lt_def half_open_def)
  have ms: "mset (SortFunc ?cmp ?raw) = mset ?raw" and so: "sorted (map sr_Min (SortFunc ?cmp ?raw))"
    using SortFunc_spec [of ?raw ?cmp sr_Min] cmp by auto
  then have st: "set (SortFunc ?cmp ?raw) = set ?raw" by (metis set_mset_mset)
  have "SortFunc ?cmp ?raw \<noteq> []"
    using ms neighbour_cells_nonempty [of "geoCellCoords fo lon lat step" step] geoCellCoords_bound [OF step, of fo lon lat]
    by (metis (no_types, lifting) list.map_disc_iff mset_zero_iff_right)
  then obtain r0 rest where sorted: "SortFunc ?cmp ?raw = r0 # rest" by (cases "SortFunc ?cmp ?raw") auto
  have rs: "rs = merge_ranges r0 rest" using sorted by (simp add: rs_def geoNeighborCellRanges_def Let_def)
  have in_raw: "set (r0 # rest) = set ?raw" using st unfolding sorted .
  have cell': "half_open r \<and> Fin 0 \<le> sr_Min r \<and> sr_Max r \<le> Fin (2 ^ 52)" if "r \<in> set (r0 # rest)" for r
    by (rule cell) (use that in \<open>simp only: in_raw\<close>)
  have h: "half_open r0" "\<forall>r\<in>set rest. half_open r" "sorted (map sr_Min (r0 # rest))"
    using cell' so unfolding sorted by simp_all
  note m = merge_ranges_spec [OF h]
  show "\<forall>r\<in>set rs. half_open r \<and> Fin 0 \<le> sr_Min r \<and> sr_Max r \<le> Fin (2 ^ 52)"
    using m cell' unfolding rs by (meson list.set_intros(1) order_trans)
  show "sorted_wrt (\<lambda>a b. sr_Max a < sr_Min b) rs" using m unfolding rs by blast
  show "(\<exists>r\<in>set rs. in_range r s) \<longleftrightarrow> (\<exists>(a, b)\<in>set ?cells. in_range (cell_range fo (2 * (geoStep - step)) a b) s)" if "s \<noteq> NaN"
    using m that unfolding rs in_raw by (simp add: split_beta)
qed

lemma squash_bound: "unat bits < 2 ^ 52 \<Longrightarrow> k \<le> 26 \<Longrightarrow> unat (drop_bit (26 - k) (squashBits bits)) < 2 ^ k"
proof -
  assume b: "unat bits < 2 ^ 52" and k: "k \<le> 26"
  have "take_bit k (drop_bit (26 - k) (squashBits bits)) = drop_bit (26 - k) (squashBits bits)"
    by (rule bit_eqI) (auto simp: bit_take_bit_iff bit_drop_bit_eq bit_squashBits dest: bit_bound [OF b])
  then have "take_bit k (unat (drop_bit (26 - k) (squashBits bits))) = unat (drop_bit (26 - k) (squashBits bits))"
    by (metis unsigned_take_bit_eq)
  then show ?thesis by (metis take_bit_nat_less_exp)
qed

lemma cell_of_bound:
  assumes "step \<le> 26" "unat bits < 2 ^ 52"
  shows "0 \<le> fst (cell_of step bits) \<and> fst (cell_of step bits) < 2 ^ step \<and> 0 \<le> snd (cell_of step bits) \<and> snd (cell_of step bits) < 2 ^ step"
proof -
  have "unat (drop_bit 1 bits) < 2 ^ 52" using assms(2) by (simp only: unat_drop_bit_eq drop_bit_eq_div [where 'a = nat])
      (meson div_le_dividend le_less_trans)
  then have "int (unat (drop_bit (26 - step) (squashBits bits))) < int (2 ^ step)"
    "int (unat (drop_bit (26 - step) (squashBits (drop_bit 1 bits)))) < int (2 ^ step)"
    using squash_bound [OF _ assms(1)] assms(2) by (simp_all only: of_nat_less_iff)
  then show ?thesis by (simp add: cell_of_def deinterleave64_def geoStep_def)
qed

text \<open>C14. The ranges that GEORADIUS scans are exactly right.  They are ascending and no score lies in two of them, so that scanning
  them in order yields members in order and none twice; and, whatever the rounding of float64 arithmetic does to the centre, a score
  lies in one of them iff it is no 52-bit geohash (negative or too large, which any scan must look at) or its geohash cell at the
  chosen depth is the centre's cell or one of the eight around it, with longitudes wrapping at the antimeridian.\<close>

theorem geo_scan_exact:
  fixes fo longitude latitude radius score
  defines "step \<equiv> geoRadiusStep fo latitude radius"
  defines "centre \<equiv> geoCellCoords fo longitude latitude step"
  defines "ranges \<equiv> geoRadiusScoreRanges fo longitude latitude radius"
  assumes "exact_ints fo" "score \<noteq> NaN"
  shows "sorted_wrt (\<lambda>a b. sr_Max a < sr_Min b \<or> (sr_Max a = sr_Min b \<and> sr_MaxExclusive a)) ranges \<and>
    ((\<exists>r\<in>set ranges. in_range r score) \<longleftrightarrow>
       score < Fin 0 \<or> Fin (2 ^ 52) \<le> score \<or>
       \<bar>fst (cell_of step (geohashBits fo score)) - uint (fst centre)\<bar> \<le> 1 \<and>
       (\<exists>d\<in>{-1, 0, 1}. snd (cell_of step (geohashBits fo score)) = (uint (snd centre) + d) mod 2 ^ step))"
proof -
  have step: "step \<le> 26"
    using geo_step_bounds [of geoStep fo] by (simp add: step_def geoRadiusStep_def geoStep_def split_beta)
  let ?low = "\<lparr>sr_Min = NInf, sr_Max = Fin 0, sr_MinExclusive = False, sr_MaxExclusive = True\<rparr>"
  let ?high = "\<lparr>sr_Min = Fin (2 ^ 52), sr_Max = PInf, sr_MinExclusive = False, sr_MaxExclusive = False\<rparr>"
  let ?cells = "geoNeighborCellRanges fo longitude latitude step"
  have pow: "fo_ofUint64 fo (push_bit n 1) = Fin (2 ^ n)" if "n < 64" for n
  proof -
    have "(2 :: nat) ^ n < 2 ^ 64" using that by (rule power_strict_increasing) simp
    then have "unat (push_bit n (1 :: 64 word)) = 2 ^ n" using unat_push_bit_small [of 1 n] by simp
    then show ?thesis using assms(4) unfolding exact_ints_def by (metis of_nat_power of_nat_numeral)
  qed
  have ranges: "ranges = ?low # ?cells @ [?high]"
    using pow [of 52] by (simp add: ranges_def geoRadiusScoreRanges_def step_def Let_def geoStep_def)
  note n = neighbour_ranges [OF assms(4) step, where lon = longitude and lat = latitude]
  have sep: "sorted_wrt (\<lambda>a b. sr_Max a < sr_Min b \<or> (sr_Max a = sr_Min b \<and> sr_MaxExclusive a)) ranges"
  proof -
    let ?R = "\<lambda>a b. sr_Max a < sr_Min b \<or> (sr_Max a = sr_Min b \<and> sr_MaxExclusive a)"
    have c: "sorted_wrt ?R ?cells" by (rule sorted_wrt_mono_rel [OF _ n(2)]) simp
    have l: "?R ?low x" if "x \<in> set ?cells" for x using n(1) that by (auto simp: order.order_iff_strict [of "Fin 0"])
    have h: "?R x ?high" if "x \<in> set ?cells" for x
      using bspec [OF n(1) that] by (auto simp: half_open_def order.order_iff_strict [of _ "Fin _"])
    have lh: "?R ?low ?high" by (simp add: less_float64_def)
    show ?thesis unfolding ranges using c l h lh by (simp add: sorted_wrt_append)
  qed
  have low: "in_range ?low score \<longleftrightarrow> score < Fin 0" and high: "in_range ?high score \<longleftrightarrow> Fin (2 ^ 52) \<le> score"
    using assms(5) by (cases score; auto simp: in_range_def belowMin_def aboveMax_def f_lt_def f_eq_def less_float64_def)+
  have any: "(\<exists>r\<in>set ranges. in_range r score) \<longleftrightarrow> score < Fin 0 \<or> Fin (2 ^ 52) \<le> score \<or> (\<exists>r\<in>set ?cells. in_range r score)"
    unfolding ranges list.set set_append bex_Un bex_simps low high using high by auto
  show ?thesis
  proof (cases "score < Fin 0 \<or> Fin (2 ^ 52) \<le> score")
    case True
    then show ?thesis using sep any by blast
  next
    case False
    then obtain q where q: "score = Fin q" "0 \<le> q" "q < 2 ^ 52" using assms(5) by (cases score) (auto simp: less_float64_def)
    have bits: "geohashBits fo score = word_of_int \<lfloor>q\<rfloor>"
      using q pow [of 54] by (auto simp: geohashBits_def geoStep_def f_lt_def f_le_def f_eq_def less_float64_def)
    define k where "k = nat \<lfloor>q\<rfloor>"
    have k: "\<lfloor>q\<rfloor> = int k" using q by (simp add: k_def)
    have "k < 2 ^ 52" using q k floor_less_iff [of q "2 ^ 52"] by simp
    then have small: "unat (geohashBits fo score) < 2 ^ 52" by (simp add: bits k unsigned_of_nat take_bit_nat_eq_self)
    obtain a b where ab: "cell_of step (geohashBits fo score) = (a, b)" by fastforce
    have "(\<exists>r\<in>set ?cells. in_range r score) \<longleftrightarrow> (a, b) \<in> set (neighbour_cells step centre)"
    proof -
      have "in_range (cell_range fo (2 * (geoStep - step)) x y) score \<longleftrightarrow> (a, b) = (x, y)" if "(x, y) \<in> set (neighbour_cells step centre)" for x y
        using cell_range_matches [OF assms(4) step, of x y q] neighbour_cells_bound [OF that] q ab bits by simp
      then show ?thesis using n(3) [OF assms(5)] unfolding centre_def by auto
    qed
    also have "\<dots> \<longleftrightarrow> \<bar>a - uint (fst centre)\<bar> \<le> 1 \<and> (\<exists>d\<in>{-1, 0, 1}. b = (uint (snd centre) + d) mod 2 ^ step)"
      by (rule neighbour_cells_iff)
        (use cell_of_bound [OF step small, unfolded ab] geoCellCoords_bound [OF step, of fo longitude latitude] in \<open>simp_all add: centre_def\<close>)
    finally show ?thesis using sep any False by (simp add: ab)
  qed
qed

text \<open>Operations to try the definitions on: exact rational arithmetic, with the elementary functions left out.\<close>

fun lift2 :: "(rat \<Rightarrow> rat \<Rightarrow> rat) \<Rightarrow> float64 \<Rightarrow> float64 \<Rightarrow> float64" where
  "lift2 f (Fin x) (Fin y) = Fin (f x y)"
| "lift2 f _ _ = NaN"

definition exact_ops :: FloatOps where
  "exact_ops =
     \<lparr>fo_add = lift2 (+), fo_sub = lift2 (-), fo_mul = lift2 (*), fo_div = lift2 (/), fo_sin = id, fo_cos = (\<lambda>_. Fin 1), fo_asin = id,
      fo_sqrt = id, fo_log = id,
      fo_Round = (\<lambda>x. case x of Fin q \<Rightarrow> Fin (of_int \<lfloor>q + 1 / 2\<rfloor>) | _ \<Rightarrow> x), fo_const = Fin, fo_ofUint64 = (\<lambda>w. Fin (of_nat (unat w))), fo_ParseFloat = map_option (Fin \<circ> of_int) \<circ> ParseInt,
      fo_FormatG = (\<lambda>x. case x of Fin q \<Rightarrow> formatInt \<lfloor>q\<rfloor> | _ \<Rightarrow> []), fo_FormatF = (\<lambda>n x. case x of Fin q \<Rightarrow> formatInt \<lfloor>q\<rfloor> | _ \<Rightarrow> [])\<rparr>"

lemma exact_ops_ints: "exact_ints exact_ops"
  by (simp add: exact_ints_def exact_ops_def)

lemma zero_bits: "interleave64 0 0 = 0" "deinterleave64 0 = (0, 0)"
  by (simp_all add: interleave64_def spreadBits_def deinterleave64_def squashBits_def)

lemma south_west_cell:
  assumes "step \<le> 26"
  shows "geoCellCoords exact_ops (Fin geoLongitudeMin) (Fin geoLatitudeMin) step = (0, 0)"
proof -
  have e: "geohashEncode exact_ops (Fin geoLongitudeMin) (Fin geoLatitudeMin) = 0"
    by (simp add: geohashEncode_def exact_ops_def zero_bits)
  have "unat (1 :: 64 word) * 2 ^ step < 2 ^ 64" using power_increasing [of step 26 "2 :: nat"] assms by simp
  then have "unat (push_bit step 1 :: 64 word) = 2 ^ step" using unat_push_bit_small [of 1 step] by simp
  then have "\<not> (0 :: 64 word) \<ge> push_bit step 1" by (simp add: word_le_nat_alt)
  then show ?thesis unfolding geoCellCoords_def e by (simp add: zero_bits Let_def)
qed

theorem geo_scan_exact_witness:
  "\<exists>r\<in>set (geoRadiusScoreRanges exact_ops (Fin geoLongitudeMin) (Fin geoLatitudeMin) (Fin 1000)). in_range r (Fin 0)"
proof -
  let ?step = "geoRadiusStep exact_ops (Fin geoLatitudeMin) (Fin 1000)"
  have "?step \<le> 26"
    using geo_step_bounds [of geoStep exact_ops] unfolding geoRadiusStep_def by (simp add: geoStep_def split_beta)
  note cell = south_west_cell [OF this]
  have bits: "geohashBits exact_ops (Fin 0) = 0" unfolding geohashBits_def by simp
  have zero: "cell_of ?step (geohashBits exact_ops (Fin 0)) = (0, 0)" unfolding bits cell_of_def zero_bits by simp
  have "\<bar>fst (0 :: int, 0 :: int) - uint (fst (0 :: 64 word, 0 :: 64 word))\<bar> \<le> 1 \<and>
      (\<exists>d\<in>{-1, 0, 1}. snd (0 :: int, 0 :: int) = (uint (snd (0 :: 64 word, 0 :: 64 word)) + d) mod 2 ^ ?step)"
    by simp
  then show ?thesis
    using geo_scan_exact [OF exact_ops_ints, of "Fin 0" "Fin geoLongitudeMin" "Fin geoLatitudeMin" "Fin 1000"]
    unfolding cell zero by blast
qed

end
