(* ===== verification/Intset.thy ===== *)
theory Intset
  imports Interfaces
begin

text \<open>
  The compact set encoding of \<^verbatim>\<open>src/internal/storage/intset.go\<close>: members that are canonical decimal
  int64 literals, kept as a strictly ascending slice of integers.  The model follows the loops of
  the code (in-place duplicate removal, two-pointer merge, binary search).  Shown: the slice stays
  strictly ascending, and every operation is the set operation on the byte strings it stands for.
\<close>

section \<open>Definitions\<close>

record IntSet =
  is_values :: "int list"

abbreviation intSetMaxEntries :: nat where "intSetMaxEntries \<equiv> 512"

definition parseIntSetMember :: "bytes \<Rightarrow> int option" where
  "parseIntSetMember member =
     (case ParseInt member of
        None \<Rightarrow> None
      | Some value \<Rightarrow> if formatInt value \<noteq> member then None else Some value)"

fun parseIntSetMembers_loop :: "int list \<Rightarrow> bytes list \<Rightarrow> int list option" where
  "parseIntSetMembers_loop values [] = Some values"
| "parseIntSetMembers_loop values (m # ms) =
     (case parseIntSetMember m of
        None \<Rightarrow> None
      | Some value \<Rightarrow> parseIntSetMembers_loop (values @ [value]) ms)"

definition parseIntSetMembers :: "bytes list \<Rightarrow> int list option" where
  "parseIntSetMembers members = parseIntSetMembers_loop [] members"

text \<open>The loop of \<^verbatim>\<open>compactUniqueInts\<close>: \<open>k\<close> is the position being read, \<open>w\<close> the write index, and the
  slice is updated in place, at or behind the position being read.\<close>

function compactUnique_loop :: "int list \<Rightarrow> nat \<Rightarrow> nat \<Rightarrow> int list \<times> nat" where
  "compactUnique_loop values k w =
     (if k < length values
      then if values ! k = values ! (w - 1)
           then compactUnique_loop values (k + 1) w
           else compactUnique_loop (values[w := values ! k]) (k + 1) (w + 1)
      else (values, w))"
  by pat_completeness auto
termination
  by (relation "measure (\<lambda>(values, k, w). length values - k)") auto

declare compactUnique_loop.simps [simp del]

definition compactUniqueInts :: "int list \<Rightarrow> int list" where
  "compactUniqueInts values =
     (if length values < 2 then values
      else case compactUnique_loop values 1 1 of (values', w) \<Rightarrow> take w values')"

definition newIntSet :: "bytes list \<Rightarrow> IntSet option" where
  "newIntSet members =
     (case parseIntSetMembers members of
        None \<Rightarrow> None
      | Some values \<Rightarrow> Some \<lparr>is_values = compactUniqueInts (sort values)\<rparr>)"

definition cloneIntSet :: "IntSet \<Rightarrow> IntSet" where
  "cloneIntSet src = \<lparr>is_values = [] @ is_values src\<rparr>"

definition is_len :: "IntSet \<Rightarrow> nat" where
  "is_len s = length (is_values s)"

text \<open>The two-pointer merge of \<^verbatim>\<open>addMany\<close>, on the suffixes behind its two indices.\<close>

fun merge_loop :: "int list \<Rightarrow> int list \<Rightarrow> int list \<Rightarrow> nat \<Rightarrow> int list \<times> nat" where
  "merge_loop (l # ls) (r # rs) merged added =
     (if l < r then merge_loop ls (r # rs) (merged @ [l]) added
      else if l > r then merge_loop (l # ls) rs (merged @ [r]) (added + 1)
      else merge_loop ls rs (merged @ [l]) added)"
| "merge_loop ls [] merged added = (merged @ ls, added)"
| "merge_loop [] rs merged added = (merged @ rs, added + length rs)"

definition is_addMany :: "IntSet \<Rightarrow> bytes list \<Rightarrow> IntSet \<times> nat \<times> bool" where
  "is_addMany s members =
     (case parseIntSetMembers members of
        None \<Rightarrow> (s, 0, False)
      | Some values \<Rightarrow>
          if length values = 0 then (s, 0, True)
          else
            let values = compactUniqueInts (sort values) in
            if length (is_values s) = 0 then (s\<lparr>is_values := values\<rparr>, length values, True)
            else case merge_loop (is_values s) values [] 0 of
                   (merged, added) \<Rightarrow> (s\<lparr>is_values := merged\<rparr>, added, True))"

definition is_contains :: "IntSet \<Rightarrow> bytes \<Rightarrow> bool" where
  "is_contains s member =
     (case parseIntSetMember member of
        None \<Rightarrow> False
      | Some value \<Rightarrow> snd (binarySearch (is_values s) value))"

definition is_remove :: "IntSet \<Rightarrow> bytes \<Rightarrow> IntSet \<times> bool" where
  "is_remove s member =
     (case parseIntSetMember member of
        None \<Rightarrow> (s, False)
      | Some value \<Rightarrow>
          (case binarySearch (is_values s) value of
             (index, exists) \<Rightarrow>
               if \<not> exists then (s, False)
               else (s\<lparr>is_values := take index (is_values s) @ drop (index + 1) (is_values s)\<rparr>, True)))"

definition is_members :: "IntSet \<Rightarrow> bytes list" where
  "is_members s = map formatInt (is_values s)"

definition is_generalSet :: "IntSet \<Rightarrow> bytes goset" where
  "is_generalSet s = foldl (\<lambda>members value. gs_insert (formatInt value) members) [] (is_values s)"

text \<open>The invariant and the set of byte strings an integer set stands for.\<close>

definition is_inv :: "IntSet \<Rightarrow> bool" where
  "is_inv s \<longleftrightarrow> sorted_wrt (<) (is_values s) \<and> (\<forall>v \<in> set (is_values s). int64_range v)"

definition is_elems :: "IntSet \<Rightarrow> bytes set" where
  "is_elems s = formatInt ` set (is_values s)"

section \<open>Parsing members\<close>

lemma parseIntSetMember_iff: "parseIntSetMember m = Some v \<longleftrightarrow> int64_range v \<and> m = formatInt v"
  using ParseInt_formatInt [of v] ParseInt_range [of m]
  by (auto simp: parseIntSetMember_def split: option.splits)

lemma parseIntSetMembers_loop_iff:
  "parseIntSetMembers_loop acc ms = Some vs \<longleftrightarrow>
   (\<exists>ws. vs = acc @ ws \<and> map formatInt ws = ms \<and> (\<forall>w \<in> set ws. int64_range w))"
proof (induction ms arbitrary: acc)
  case (Cons m ms)
  show ?case
  proof (cases "parseIntSetMember m")
    case None
    then have "\<nexists>v. int64_range v \<and> m = formatInt v" by (metis parseIntSetMember_iff option.distinct(1))
    then show ?thesis using None by (auto simp: map_eq_Cons_conv)
  next
    case (Some v)
    then have v: "int64_range v" "m = formatInt v" by (simp_all add: parseIntSetMember_iff)
    have "map formatInt ws = m # ms \<and> (\<forall>w \<in> set ws. int64_range w) \<longleftrightarrow>
          (\<exists>us. ws = v # us \<and> map formatInt us = ms \<and> (\<forall>w \<in> set us. int64_range w))" for ws
      using v by (cases ws) (auto simp: formatInt_inject)
    then show ?thesis using Some Cons.IH [of "acc @ [v]"] by auto
  qed
qed auto

lemma parseIntSetMembers_iff:
  "parseIntSetMembers ms = Some vs \<longleftrightarrow> map formatInt vs = ms \<and> (\<forall>v \<in> set vs. int64_range v)"
  by (auto simp: parseIntSetMembers_def parseIntSetMembers_loop_iff)

section \<open>Removing duplicates\<close>

lemma compactUnique_loop_spec:
  assumes "0 < w" "w \<le> k" "k \<le> length vs" "sorted_wrt (<) (take w vs)"
    "sorted (vs ! (w - 1) # drop k vs)"
  shows "case compactUnique_loop vs k w of (vs', w') \<Rightarrow>
           w' \<le> length vs' \<and> sorted_wrt (<) (take w' vs') \<and> set (take w' vs') = set (take w vs) \<union> set (drop k vs)"
  using assms
proof (induction vs k w rule: compactUnique_loop.induct)
  case (1 vs k w)
  show ?case
  proof (cases "k < length vs")
    case False
    then have "compactUnique_loop vs k w = (vs, w)" by (simp add: compactUnique_loop.simps [of vs k w])
    with False "1.prems" show ?thesis by simp
  next
    case k: True
    then have dk: "drop k vs = vs ! k # drop (k + 1) vs" by (simp add: Cons_nth_drop_Suc)
    have last: "vs ! (w - 1) \<in> set (take w vs)"
      using "1.prems" k nth_mem [of "w - 1" "take w vs"] by simp
    show ?thesis
    proof (cases "vs ! k = vs ! (w - 1)")
      case True
      have "compactUnique_loop vs k w = compactUnique_loop vs (k + 1) w"
        using k True by (simp add: compactUnique_loop.simps [of vs k w])
      with "1.IH"(1) [OF k True] "1.prems" k dk last True show ?thesis
        by (auto split: prod.splits)
    next
      case False
      let ?vs = "vs[w := vs ! k]"
      have w: "w < length vs" using "1.prems" k by simp
      have tk: "take (w + 1) ?vs = take w vs @ [vs ! k]"
        using w by (simp add: take_Suc_conv_app_nth take_update_cancel)
      have dr: "drop (k + 1) ?vs = drop (k + 1) vs" using "1.prems" by simp
      have step: "compactUnique_loop vs k w = compactUnique_loop ?vs (k + 1) (w + 1)"
        using k False by (simp add: compactUnique_loop.simps [of vs k w])
      have le: "x \<le> vs ! (w - 1)" if x: "x \<in> set (take w vs)" for x
      proof -
        obtain i where "i < length (take w vs)" "take w vs ! i = x"
          using x unfolding in_set_conv_nth by blast
        moreover from this have "i < w - 1 \<or> i = w - 1" by auto
        ultimately show ?thesis
          using sorted_wrt_nth_less [OF "1.prems"(4), of i "w - 1"] w by auto
      qed
      have "vs ! (w - 1) < vs ! k" using "1.prems"(5) dk False by auto
      then have "sorted_wrt (<) (take (w + 1) ?vs)"
        using "1.prems"(4) le unfolding tk by (fastforce simp: sorted_wrt_append)
      moreover have "sorted (?vs ! (w + 1 - 1) # drop (k + 1) ?vs)"
        unfolding dr using "1.prems"(5) w by (simp add: dk)
      ultimately have IH: "case compactUnique_loop ?vs (k + 1) (w + 1) of (vs', w') \<Rightarrow>
           w' \<le> length vs' \<and> sorted_wrt (<) (take w' vs') \<and>
           set (take w' vs') = set (take (w + 1) ?vs) \<union> set (drop (k + 1) ?vs)"
        using "1.IH"(2) [OF k False] "1.prems" k by simp
      have "set (take (w + 1) ?vs) \<union> set (drop (k + 1) ?vs) = set (take w vs) \<union> set (drop k vs)"
        unfolding tk dr dk by auto
      then show ?thesis using IH step by (simp split: prod.splits)
    qed
  qed
qed

lemma compactUniqueInts_sort:
  "sorted_wrt (<) (compactUniqueInts (sort vs)) \<and> set (compactUniqueInts (sort vs)) = set vs"
proof (cases "length vs < 2")
  case True
  then consider "vs = []" | v where "vs = [v]" by (cases vs; cases "tl vs") auto
  then show ?thesis by cases (auto simp: compactUniqueInts_def)
next
  case False
  then obtain x xs where s: "sort vs = x # xs" by (cases "sort vs") (auto dest: arg_cong [of _ _ length])
  have "sorted (x # xs)" using sorted_sort [of vs] by (simp add: s)
  then show ?thesis
    using compactUnique_loop_spec [of 1 1 "x # xs"] False set_sort [of "\<lambda>x. x" vs]
    by (auto simp: compactUniqueInts_def s split: prod.splits)
qed

section \<open>Merging\<close>

lemma merge_loop_spec:
  assumes "sorted_wrt (<) ls" "sorted_wrt (<) rs" "sorted_wrt (<) acc"
    "\<forall>a \<in> set acc. (\<forall>l \<in> set ls. a < l) \<and> (\<forall>r \<in> set rs. a < r)" "merge_loop ls rs acc n = (ms, k)"
  shows "sorted_wrt (<) ms \<and> set ms = set acc \<union> set ls \<union> set rs \<and> k = n + card (set rs - set ls)"
  using assms
proof (induction ls rs acc n rule: merge_loop.induct)
  case (1 l ls r rs acc n)
  consider "l < r" | "r < l" | "l = r" by linarith
  then show ?case
  proof cases
    case 1
    then have "set (r # rs) - set (l # ls) = set (r # rs) - set ls"
      using "1.prems"(2) by fastforce
    moreover have "sorted_wrt (<) ms \<and> set ms = set (acc @ [l]) \<union> set ls \<union> set (r # rs) \<and>
        k = n + card (set (r # rs) - set ls)"
      using 1 "1.prems" by (intro "1.IH"(1)) (auto simp: sorted_wrt_append intro: less_trans)
    ultimately show ?thesis by auto
  next
    case 2
    then have "set (r # rs) - set (l # ls) = insert r (set rs - set (l # ls))" "r \<notin> set rs"
      using "1.prems"(1,2) by fastforce+
    moreover have "sorted_wrt (<) ms \<and> set ms = set (acc @ [r]) \<union> set (l # ls) \<union> set rs \<and>
        k = (n + 1) + card (set rs - set (l # ls))"
      using 2 "1.prems" by (intro "1.IH"(2)) (auto simp: sorted_wrt_append intro: less_trans)
    ultimately show ?thesis by auto
  next
    case 3
    then have "set (r # rs) - set (l # ls) = set rs - set ls"
      using "1.prems"(2) by fastforce
    moreover have "sorted_wrt (<) ms \<and> set ms = set (acc @ [l]) \<union> set ls \<union> set rs \<and>
        k = n + card (set rs - set ls)"
      using 3 "1.prems" by (intro "1.IH"(3)) (auto simp: sorted_wrt_append intro: less_trans)
    ultimately show ?thesis using 3 by auto
  qed
next
  case (2 ls acc n)
  then show ?case by (auto simp: sorted_wrt_append)
next
  case (3 r rs acc n)
  then have "distinct (r # rs)" using strict_sorted_iff by blast
  with 3 show ?case by (auto simp: sorted_wrt_append distinct_card)
qed

section \<open>The operations are set operations\<close>

lemma inj_formatInt: "inj_on formatInt {v. int64_range v}"
  by (auto intro: inj_onI simp: formatInt_inject)

lemma card_formatInt: "\<forall>v \<in> A. int64_range v \<Longrightarrow> card (formatInt ` A) = card A"
  by (rule card_image, rule inj_on_subset [OF inj_formatInt]) auto

lemma newIntSet_spec: "newIntSet ms = Some s \<Longrightarrow> is_inv s \<and> is_elems s = set ms"
  using compactUniqueInts_sort
  by (auto simp: newIntSet_def parseIntSetMembers_iff is_inv_def is_elems_def split: option.splits)

lemma is_elems_iff: "is_inv s \<Longrightarrow> int64_range v \<Longrightarrow> formatInt v \<in> is_elems s \<longleftrightarrow> v \<in> set (is_values s)"
  by (auto simp: is_elems_def is_inv_def formatInt_inject)

lemma is_addMany_spec:
  assumes "is_inv s" "is_addMany s ms = (s', k, True)"
  shows "is_inv s' \<and> is_elems s' = is_elems s \<union> set ms \<and> k = card (set ms - is_elems s)"
proof -
  obtain vs where vs: "parseIntSetMembers ms = Some vs"
    using assms(2) by (auto simp: is_addMany_def split: option.splits)
  then have ms: "ms = map formatInt vs" "\<forall>v \<in> set vs. int64_range v" by (auto simp: parseIntSetMembers_iff)
  define us where "us = compactUniqueInts (sort vs)"
  have us: "sorted_wrt (<) us" "set us = set vs" using compactUniqueInts_sort by (auto simp: us_def)
  have len: "length us = card (set vs)" using us strict_sorted_iff distinct_card by metis
  have "set ms - is_elems s = formatInt ` (set vs - set (is_values s))"
    using ms assms(1) by (auto simp: is_elems_iff)
  then have card: "card (set ms - is_elems s) = card (set vs - set (is_values s))"
    using ms(2) by (simp add: card_formatInt)
  consider "vs = []" | "vs \<noteq> []" "is_values s = []" | "vs \<noteq> []" "is_values s \<noteq> []" by blast
  then show ?thesis
  proof cases
    case 1
    then show ?thesis using assms vs ms by (simp add: is_addMany_def)
  next
    case 2
    then show ?thesis
      using assms vs ms us len card by (auto simp: is_addMany_def Let_def us_def [symmetric] is_inv_def is_elems_def)
  next
    case 3
    obtain m n where m: "merge_loop (is_values s) us [] 0 = (m, n)" by fastforce
    have "sorted_wrt (<) m \<and> set m = set [] \<union> set (is_values s) \<union> set us \<and> n = 0 + card (set us - set (is_values s))"
      by (rule merge_loop_spec [OF _ us(1) _ _ m]) (use assms(1) in \<open>auto simp: is_inv_def\<close>)
    then show ?thesis
      using 3 assms vs ms us card m by (auto simp: is_addMany_def Let_def us_def [symmetric] is_inv_def is_elems_def)
  qed
qed

lemma is_addMany_refused:
  "is_addMany s ms = (s', k, False) \<Longrightarrow> s' = s \<and> k = 0 \<and> (\<exists>m \<in> set ms. \<nexists>v. int64_range v \<and> m = formatInt v)"
proof -
  assume a: "is_addMany s ms = (s', k, False)"
  then have none: "parseIntSetMembers ms = None"
    by (auto simp: is_addMany_def Let_def split: option.splits if_splits prod.splits)
  have "\<exists>m \<in> set ms. \<nexists>v. int64_range v \<and> m = formatInt v"
  proof (rule ccontr)
    assume "\<not> ?thesis"
    then obtain f where f: "\<forall>m \<in> set ms. int64_range (f m) \<and> m = formatInt (f m)" by metis
    then have "parseIntSetMembers ms = Some (map f ms)"
      by (auto simp: parseIntSetMembers_iff intro: map_idI)
    then show False using none by simp
  qed
  then show ?thesis using a none by (simp add: is_addMany_def)
qed

lemma binarySearch_index: "snd (binarySearch vs v) \<Longrightarrow> fst (binarySearch vs v) < length vs \<and> vs ! fst (binarySearch vs v) = v"
  by (auto simp: binarySearch_def Let_def)

lemma remove_index:
  assumes "distinct vs" "i < length vs"
  shows "set (take i vs @ drop (i + 1) vs) = set vs - {vs ! i}"
proof -
  have "vs = take i vs @ vs ! i # drop (i + 1) vs" using assms(2) by (simp add: id_take_nth_drop)
  then show ?thesis using assms(1) by (metis distinct_append distinct.simps(2) set_append list.simps(15)
    Un_insert_right Diff_insert_absorb Un_iff disjoint_iff list.set_intros(1) insert_iff)
qed

lemma is_remove_spec:
  assumes "is_inv s" "is_remove s m = (s', b)"
  shows "is_inv s' \<and> is_elems s' = is_elems s - {m} \<and> (b \<longleftrightarrow> m \<in> is_elems s)"
proof (cases "b")
  case False
  have "m \<notin> is_elems s"
  proof
    assume "m \<in> is_elems s"
    then obtain v where v: "v \<in> set (is_values s)" "m = formatInt v" by (auto simp: is_elems_def)
    then have "parseIntSetMember m = Some v" using assms(1) by (simp add: parseIntSetMember_iff is_inv_def)
    then show False
      using assms False v binarySearch_found [of "is_values s" v]
      by (auto simp: is_remove_def is_inv_def split: prod.splits if_splits)
  qed
  then show ?thesis using assms False by (auto simp: is_remove_def split: option.splits prod.splits if_splits)
next
  case True
  then obtain v i where v: "parseIntSetMember m = Some v" "binarySearch (is_values s) v = (i, True)"
    "s' = s\<lparr>is_values := take i (is_values s) @ drop (i + 1) (is_values s)\<rparr>"
    using assms(2) by (auto simp: is_remove_def split: option.splits prod.splits if_splits)
  have i: "i < length (is_values s)" "is_values s ! i = v" using binarySearch_index [of "is_values s" v] v(2) by auto
  have m: "int64_range v" "m = formatInt v" using v(1) by (simp_all add: parseIntSetMember_iff)
  have srt: "sorted_wrt (<) (is_values s)" using assms(1) by (simp add: is_inv_def)
  then have d: "distinct (is_values s)" by (simp add: strict_sorted_iff)
  have vals: "set (is_values s') = set (is_values s) - {v}" using remove_index [OF d i(1)] i(2) v(3) by simp
  have "sorted_wrt (<) (is_values s')"
    using srt sorted_wrt_append [of "(<)" "take i (is_values s)" "drop i (is_values s)"] v(3)
      set_drop_subset_set_drop [of i "i + 1" "is_values s"]
    by (auto simp: sorted_wrt_append sorted_wrt_drop)
  then have "is_inv s'" using assms(1) vals by (auto simp: is_inv_def)
  moreover have "is_elems s' = is_elems s - {m}"
    using vals assms(1) m by (auto simp: is_elems_def is_inv_def formatInt_inject)
  moreover have "m \<in> is_elems s" using m i by (auto simp: is_elems_def)
  ultimately show ?thesis using True by simp
qed

lemma is_members_spec: "is_inv s \<Longrightarrow> distinct (is_members s) \<and> set (is_members s) = is_elems s"
  by (auto simp: is_members_def is_elems_def is_inv_def distinct_map strict_sorted_iff
      intro: inj_on_subset [OF inj_formatInt])

lemma is_generalSet_spec: "is_inv s \<Longrightarrow> distinct (is_generalSet s) \<and> set (is_generalSet s) = is_elems s"
proof -
  have "distinct acc \<Longrightarrow> distinct (foldl (\<lambda>ms v. gs_insert (formatInt v) ms) acc vs) \<and>
        set (foldl (\<lambda>ms v. gs_insert (formatInt v) ms) acc vs) = set acc \<union> formatInt ` set vs" for acc vs
    by (induction vs arbitrary: acc) auto
  from this [of "[]" "is_values s"] show ?thesis by (simp add: is_generalSet_def is_elems_def)
qed

lemma is_contains_iff: "is_inv s \<Longrightarrow> is_contains s m \<longleftrightarrow> m \<in> is_elems s"
proof (cases "parseIntSetMember m")
  case None
  moreover assume "is_inv s"
  ultimately have "m \<notin> is_elems s"
    by (auto simp: is_elems_def is_inv_def) (metis parseIntSetMember_iff option.distinct(1))
  then show ?thesis using None by (simp add: is_contains_def)
next
  case (Some v)
  then have "int64_range v" "m = formatInt v" by (simp_all add: parseIntSetMember_iff)
  moreover assume "is_inv s"
  ultimately show ?thesis
    using binarySearch_found [of "is_values s" v] is_elems_iff [of s v]
    by (simp add: is_contains_def is_inv_def parseIntSetMember_iff [THEN iffD2])
qed

interpretation intset: byte_set is_inv is_elems is_contains is_remove is_members
  using is_remove_spec is_members_spec
  by unfold_locales (auto simp: is_contains_iff prod_eq_iff)

lemma is_len_card: "is_inv s \<Longrightarrow> is_len s = card (is_elems s)"
  using intset.length_members [of s] by (simp add: is_len_def is_members_def)

section \<open>Properties\<close>

text \<open>C33. Adding members to an integer set in one merge is set union: the slice stays strictly ascending,
  the members afterwards are exactly the old ones and the new ones, and the reply counts the members
  that were not there before.  If some member is not a canonical int64 literal, nothing changes.\<close>

theorem addMany_is_union:
  assumes "is_inv s" "is_addMany s ms = (s', added, ok)"
  shows "is_inv s' \<and>
         (if ok then is_elems s' = is_elems s \<union> set ms \<and> added = card (set ms - is_elems s) else s' = s)"
proof (cases ok)
  case True
  then show ?thesis using is_addMany_spec [OF assms(1)] assms(2) by simp
next
  case False
  then show ?thesis using is_addMany_refused [of s ms s' added] assms by simp
qed

theorem addMany_is_union_witness:
  "is_addMany \<lparr>is_values = [- 3, 7]\<rparr> [str ''12'', str ''7'', str ''-40'', str ''12''] =
     (\<lparr>is_values = [- 40, - 3, 7, 12]\<rparr>, 2, True) \<and>
   is_elems \<lparr>is_values = [- 40, - 3, 7, 12]\<rparr> =
     is_elems \<lparr>is_values = [- 3, 7]\<rparr> \<union> set [str ''12'', str ''7'', str ''-40'', str ''12'']"
proof -
  have p: "parseIntSetMembers [str ''12'', str ''7'', str ''-40'', str ''12''] = Some [12, 7, - 40, 12]"
    by (simp add: parseIntSetMembers_iff int64_range_def formatInt_def nat_digits.simps str_def)
  have "is_addMany \<lparr>is_values = [- 3, 7]\<rparr> [str ''12'', str ''7'', str ''-40'', str ''12''] =
     (\<lparr>is_values = [- 40, - 3, 7, 12]\<rparr>, 2, True)"
    by (simp add: is_addMany_def p compactUniqueInts_def compactUnique_loop.simps Let_def)
  moreover have "is_inv \<lparr>is_values = [- 3, 7]\<rparr>" by (simp add: is_inv_def int64_range_def)
  ultimately show ?thesis
    using addMany_is_union [of "\<lparr>is_values = [- 3, 7]\<rparr>" "[str ''12'', str ''7'', str ''-40'', str ''12'']"] by simp
qed

end
