(* ===== verification/Compact_Hash.thy ===== *)
theory Compact_Hash
  imports Interfaces
begin

text \<open>
  The compact hash encoding of \<^verbatim>\<open>src/internal/storage/compact_hash.go\<close>: fields and values lie in one
  byte arena and the entries hold offsets into it.  A value that is not longer than the one it
  replaces is written over it in place; a longer one rebuilds the arena.  Shown: the regions never
  overlap, so an in-place write disturbs no other field, and the structure is the finite map its
  entries denote.
\<close>

section \<open>Definitions\<close>

abbreviation compactHashMaxEntries :: nat where "compactHashMaxEntries \<equiv> 8"
abbreviation compactHashMaxStringSize :: nat where "compactHashMaxStringSize \<equiv> 64"

record compactHashEntry =
  fieldStart :: nat
  fieldLen :: nat
  valueStart :: nat
  valueLen :: nat

record CompactHash =
  ch_entries :: "compactHashEntry list"
  ch_arena :: bytes

definition ch_len :: "CompactHash \<Rightarrow> nat" where
  "ch_len h = length (ch_entries h)"

definition ch_field :: "CompactHash \<Rightarrow> compactHashEntry \<Rightarrow> bytes" where
  "ch_field h entry = slice (ch_arena h) (fieldStart entry) (fieldLen entry)"

definition ch_value :: "CompactHash \<Rightarrow> compactHashEntry \<Rightarrow> bytes" where
  "ch_value h entry = slice (ch_arena h) (valueStart entry) (valueLen entry)"

fun bytes_equal_loop :: "bytes \<Rightarrow> bytes \<Rightarrow> nat \<Rightarrow> bool" where
  "bytes_equal_loop [] field i = True"
| "bytes_equal_loop (b # bs) field i = (if b \<noteq> field ! i then False else bytes_equal_loop bs field (i + 1))"

definition ch_fieldEqual :: "CompactHash \<Rightarrow> compactHashEntry \<Rightarrow> bytes \<Rightarrow> bool" where
  "ch_fieldEqual h entry field =
     (if fieldLen entry \<noteq> length field then False
      else bytes_equal_loop (slice (ch_arena h) (fieldStart entry) (fieldLen entry)) field 0)"

definition ch_get :: "CompactHash \<Rightarrow> bytes \<Rightarrow> bytes option" where
  "ch_get h field =
     (case List.find (\<lambda>entry. ch_fieldEqual h entry field) (ch_entries h) of
        None \<Rightarrow> None
      | Some entry \<Rightarrow> Some (ch_value h entry))"

definition ch_all :: "CompactHash \<Rightarrow> (bytes \<times> bytes) list" where
  "ch_all h = map (\<lambda>entry. (ch_field h entry, ch_value h entry)) (ch_entries h)"

text \<open>
  \<^verbatim>\<open>set\<close>, \<^verbatim>\<open>rebuild\<close> and \<^verbatim>\<open>newCompactHash\<close> call each other.  A rebuild assigns fields that are already
  distinct, so it never starts another; the recursion is bounded by the number of rebuilds allowed
  below the current call, and running out of them is \<open>None\<close>.
\<close>

type_synonym ch_setter = "CompactHash \<Rightarrow> bytes \<Rightarrow> bytes \<Rightarrow> (CompactHash \<times> bool) option"

fun newCompactHash_loop :: "ch_setter \<Rightarrow> CompactHash \<Rightarrow> (bytes \<times> bytes) list \<Rightarrow> CompactHash option" where
  "newCompactHash_loop st h [] = Some h"
| "newCompactHash_loop st h ((f, v) # pairs) =
     (case st h f v of None \<Rightarrow> None | Some (h', _) \<Rightarrow> newCompactHash_loop st h' pairs)"

definition rebuild_pairs :: "CompactHash \<Rightarrow> nat \<Rightarrow> (bytes \<times> bytes) list \<Rightarrow> (bytes \<times> bytes) list" where
  "rebuild_pairs h skip replacements = replacements @ take skip (ch_all h) @ drop (skip + 1) (ch_all h)"

definition ch_rebuild_with :: "ch_setter \<Rightarrow> CompactHash \<Rightarrow> nat \<Rightarrow> (bytes \<times> bytes) list \<Rightarrow> CompactHash option" where
  "ch_rebuild_with st h skip replacements =
     newCompactHash_loop st \<lparr>ch_entries = [], ch_arena = []\<rparr> (rebuild_pairs h skip replacements)"

definition ch_set_with :: "ch_setter \<Rightarrow> ch_setter" where
  "ch_set_with st h field value =
     (case find_index (\<lambda>entry. ch_fieldEqual h entry field) (ch_entries h) of
        Some i \<Rightarrow>
          let entry = ch_entries h ! i in
          if length value \<le> valueLen entry
          then Some (h\<lparr>ch_arena := overwrite (ch_arena h) (valueStart entry) value,
                       ch_entries := (ch_entries h)[i := entry\<lparr>valueLen := length value\<rparr>]\<rparr>, False)
          else (case ch_rebuild_with st h i [(field, value)] of
                  None \<Rightarrow> None
                | Some h' \<Rightarrow> Some (h', False))
      | None \<Rightarrow>
          let fStart = length (ch_arena h);
              arena = ch_arena h @ field;
              vStart = length arena;
              arena = arena @ value
          in Some (h\<lparr>ch_arena := arena,
                     ch_entries := ch_entries h @
                       [\<lparr>fieldStart = fStart, fieldLen = length field,
                         valueStart = vStart, valueLen = length value\<rparr>]\<rparr>, True))"

primrec ch_set_fuel :: "nat \<Rightarrow> ch_setter" where
  "ch_set_fuel 0 = ch_set_with (\<lambda>h f v. None)"
| "ch_set_fuel (Suc n) = ch_set_with (ch_set_fuel n)"

definition ch_set :: "CompactHash \<Rightarrow> bytes \<Rightarrow> bytes \<Rightarrow> CompactHash \<times> bool" where
  "ch_set h field value = (case ch_set_fuel 1 h field value of Some r \<Rightarrow> r | None \<Rightarrow> (h, False))"

definition newCompactHash :: "(bytes \<times> bytes) list \<Rightarrow> CompactHash" where
  "newCompactHash pairs = foldl (\<lambda>h (f, v). fst (ch_set h f v)) \<lparr>ch_entries = [], ch_arena = []\<rparr> pairs"

definition ch_rebuild :: "CompactHash \<Rightarrow> nat \<Rightarrow> (bytes \<times> bytes) list \<Rightarrow> CompactHash" where
  "ch_rebuild h skip replacements = newCompactHash (rebuild_pairs h skip replacements)"

definition ch_del :: "CompactHash \<Rightarrow> bytes \<Rightarrow> CompactHash \<times> bool" where
  "ch_del h field =
     (case find_index (\<lambda>entry. ch_fieldEqual h entry field) (ch_entries h) of
        None \<Rightarrow> (h, False)
      | Some i \<Rightarrow> (ch_rebuild h i [], True))"

definition cloneCompactHash :: "CompactHash \<Rightarrow> CompactHash" where
  "cloneCompactHash src = \<lparr>ch_entries = [] @ ch_entries src, ch_arena = ch_arena src\<rparr>"

text \<open>The regions lie in the arena one after another, and no field occurs twice.\<close>

definition ch_inv :: "CompactHash \<Rightarrow> bool" where
  "ch_inv h \<longleftrightarrow>
     sorted_wrt (\<lambda>e e'. valueStart e + valueLen e \<le> fieldStart e') (ch_entries h) \<and>
     (\<forall>e \<in> set (ch_entries h). fieldStart e + fieldLen e \<le> valueStart e \<and>
        valueStart e + valueLen e \<le> length (ch_arena h)) \<and>
     distinct (map fst (ch_all h))"

section \<open>Looking up\<close>

lemma bytes_equal_loop_iff:
  "length bs + i = length f \<Longrightarrow> bytes_equal_loop bs f i \<longleftrightarrow> bs = drop i f"
proof (induction bs arbitrary: i)
  case (Cons b bs)
  then have "drop i f = f ! i # drop (i + 1) f" by (simp add: Cons_nth_drop_Suc)
  with Cons show ?case by auto
qed simp

lemma ch_fieldEqual_iff:
  "fieldStart e + fieldLen e \<le> length (ch_arena h) \<Longrightarrow> ch_fieldEqual h e f \<longleftrightarrow> ch_field h e = f"
  using bytes_equal_loop_iff [of "ch_field h e" 0 f] by (auto simp: ch_fieldEqual_def ch_field_def)

lemma ch_inv_range:
  "ch_inv h \<Longrightarrow> e \<in> set (ch_entries h) \<Longrightarrow>
   fieldStart e + fieldLen e \<le> valueStart e \<and> valueStart e + valueLen e \<le> length (ch_arena h)"
  by (simp add: ch_inv_def)

lemma ch_inv_fieldEqual: "ch_inv h \<Longrightarrow> e \<in> set (ch_entries h) \<Longrightarrow> ch_fieldEqual h e f \<longleftrightarrow> ch_field h e = f"
  using ch_inv_range [of h e] by (intro ch_fieldEqual_iff) auto

lemma ch_get_map_of: "ch_inv h \<Longrightarrow> ch_get h f = map_of (ch_all h) f"
proof -
  assume "ch_inv h"
  then have "List.find (\<lambda>e. ch_fieldEqual h e f) (ch_entries h) = List.find (\<lambda>e. ch_field h e = f) (ch_entries h)"
    by (intro find_cong) (auto simp: ch_inv_fieldEqual)
  then show ?thesis by (simp add: ch_get_def ch_all_def map_of_find split: option.splits)
qed

lemma ch_find_None:
  "ch_inv h \<Longrightarrow> find_index (\<lambda>e. ch_fieldEqual h e f) (ch_entries h) = None \<longleftrightarrow> map_of (ch_all h) f = None"
  by (auto simp: find_index_None ch_all_def ch_inv_fieldEqual image_image map_of_eq_None_iff)

lemma ch_find_Some:
  "ch_inv h \<Longrightarrow> find_index (\<lambda>e. ch_fieldEqual h e f) (ch_entries h) = Some i \<Longrightarrow>
   i < length (ch_entries h) \<and> ch_field h (ch_entries h ! i) = f"
  by (auto dest!: find_index_Some simp: ch_inv_fieldEqual)

section \<open>Assigning\<close>

lemma ch_append:
  assumes "ch_inv h" "map_of (ch_all h) f = None"
    "h' = h\<lparr>ch_arena := (ch_arena h @ f) @ v, ch_entries := ch_entries h @
           [\<lparr>fieldStart = length (ch_arena h), fieldLen = length f,
             valueStart = length (ch_arena h @ f), valueLen = length v\<rparr>]\<rparr>"
  shows "ch_inv h' \<and> ch_all h' = ch_all h @ [(f, v)]"
proof -
  have old: "ch_field h' e = ch_field h e" "ch_value h' e = ch_value h e" if "e \<in> set (ch_entries h)" for e
    using ch_inv_range [OF assms(1) that] by (simp_all add: ch_field_def ch_value_def assms(3))
  have all: "ch_all h' = ch_all h @ [(f, v)]"
    using slice_append_end(1) [of "ch_arena h @ f" v]
    by (auto simp: ch_all_def old assms(3) ch_field_def ch_value_def)
       (auto simp: old [unfolded assms(3) ch_field_def ch_value_def, simplified])
  have "sorted_wrt (\<lambda>e e'. valueStart e + valueLen e \<le> fieldStart e') (ch_entries h')"
    using assms(1) by (simp add: assms(3) sorted_wrt_append ch_inv_def)
  moreover have "distinct (map fst (ch_all h'))"
    using assms(1,2) by (simp add: all ch_inv_def map_of_eq_None_iff)
  ultimately show ?thesis
    using assms(1) all by (fastforce simp: ch_inv_def assms(3))
qed

lemma ch_overwrite:
  assumes inv: "ch_inv h" and i: "i < length (ch_entries h)" and e: "e = ch_entries h ! i"
    and v: "length v \<le> valueLen e"
    and h': "h' = h\<lparr>ch_arena := overwrite (ch_arena h) (valueStart e) v,
           ch_entries := (ch_entries h)[i := e\<lparr>valueLen := length v\<rparr>]\<rparr>"
  shows "ch_inv h' \<and> ch_all h' = (ch_all h)[i := (ch_field h e, v)]"
proof -
  let ?e = "e\<lparr>valueLen := length v\<rparr>"
  have e_in: "e \<in> set (ch_entries h)" using i e by simp
  note re = ch_inv_range [OF inv e_in]
  have len: "length (ch_arena h') = length (ch_arena h)" using re v h' by simp
  have other: "ch_field h' d = ch_field h d \<and> ch_value h' d = ch_value h d"
    if d: "d = ch_entries h ! j" "j < length (ch_entries h)" "j \<noteq> i" for d j
  proof -
    have rd: "fieldStart d + fieldLen d \<le> valueStart d" "valueStart d + valueLen d \<le> length (ch_arena h)"
      using ch_inv_range [OF inv] d by auto
    have srt: "sorted_wrt (\<lambda>e e'. valueStart e + valueLen e \<le> fieldStart e') (ch_entries h)"
      using inv by (simp add: ch_inv_def)
    consider "valueStart d + valueLen d \<le> fieldStart e" | "valueStart e + valueLen e \<le> fieldStart d"
      using sorted_wrt_nth_less [OF srt, of i j] sorted_wrt_nth_less [OF srt, of j i] d i e
      by (cases "i < j") auto
    then show ?thesis
      using rd re v
      by cases (simp_all add: ch_field_def ch_value_def h' slice_overwrite_before slice_overwrite_after)
  qed
  have self: "ch_field h' ?e = ch_field h e" "ch_value h' ?e = v"
    using re v by (simp_all add: ch_field_def ch_value_def h' slice_overwrite_before)
  have all: "ch_all h' = (ch_all h)[i := (ch_field h e, v)]"
  proof (rule nth_equalityI)
    show "length (ch_all h') = length ((ch_all h)[i := (ch_field h e, v)])" by (simp add: ch_all_def h')
    fix j assume "j < length (ch_all h')"
    then have j: "j < length (ch_entries h)" by (simp add: ch_all_def h')
    have "ch_all h' ! j = (ch_field h' (ch_entries h' ! j), ch_value h' (ch_entries h' ! j))"
      using j by (simp add: ch_all_def h')
    also have "\<dots> = (ch_all h)[i := (ch_field h e, v)] ! j"
      using j i other [OF refl j] self by (cases "j = i") (auto simp: ch_all_def h')
    finally show "ch_all h' ! j = (ch_all h)[i := (ch_field h e, v)] ! j" .
  qed
  have "sorted_wrt (\<lambda>e e'. valueStart e + valueLen e \<le> fieldStart e') (ch_entries h')"
    unfolding sorted_wrt_iff_nth_less
  proof (intro allI impI)
    fix a b assume ab: "a < b" "b < length (ch_entries h')"
    then have "valueStart (ch_entries h ! a) + valueLen (ch_entries h ! a) \<le> fieldStart (ch_entries h ! b)"
      using inv by (auto simp: ch_inv_def sorted_wrt_iff_nth_less h')
    then show "valueStart (ch_entries h' ! a) + valueLen (ch_entries h' ! a) \<le> fieldStart (ch_entries h' ! b)"
      using ab v e by (cases "a = i"; cases "b = i") (auto simp: h')
  qed
  moreover have "distinct (map fst (ch_all h'))"
  proof -
    have "map fst (ch_all h) ! i = ch_field h e" using i e by (simp add: ch_all_def)
    then have "map fst (ch_all h') = map fst (ch_all h)"
      unfolding all map_update using list_update_id [of "map fst (ch_all h)" i] by simp
    then show ?thesis using inv by (simp add: ch_inv_def)
  qed
  moreover have "fieldStart d + fieldLen d \<le> valueStart d \<and> valueStart d + valueLen d \<le> length (ch_arena h')"
    if "d \<in> set (ch_entries h')" for d
    using that ch_inv_range [OF inv] re v unfolding len by (auto simp: h' dest!: set_update_subset_insert [THEN subsetD])
  ultimately show ?thesis using all by (auto simp: ch_inv_def)
qed

lemma ch_empty: "ch_inv \<lparr>ch_entries = [], ch_arena = []\<rparr> \<and> ch_all \<lparr>ch_entries = [], ch_arena = []\<rparr> = []"
  by (simp add: ch_inv_def ch_all_def)

lemma ch_set_with_new:
  assumes "ch_inv h" "map_of (ch_all h) f = None"
  obtains h' where "ch_set_with st h f v = Some (h', True)" "ch_inv h'" "ch_all h' = ch_all h @ [(f, v)]"
proof -
  have "find_index (\<lambda>e. ch_fieldEqual h e f) (ch_entries h) = None"
    using ch_find_None [OF assms(1)] assms(2) by blast
  then show ?thesis
    using ch_append [OF assms refl, of v] that by (simp add: ch_set_with_def Let_def)
qed

lemma newCompactHash_loop_distinct:
  assumes "\<And>h f v. st h f v = ch_set_with st' h f v" "ch_inv h" "distinct (map fst (ch_all h @ pairs))"
  shows "\<exists>h'. newCompactHash_loop st h pairs = Some h' \<and> ch_inv h' \<and> ch_all h' = ch_all h @ pairs"
  using assms(2,3)
proof (induction pairs arbitrary: h)
  case (Cons p pairs)
  obtain f v where p: "p = (f, v)" by (cases p)
  have "map_of (ch_all h) f = None" using Cons.prems(2) by (auto simp: p map_of_eq_None_iff)
  then obtain h1 where h1: "ch_set_with st' h f v = Some (h1, True)" "ch_inv h1" "ch_all h1 = ch_all h @ [(f, v)]"
    using ch_set_with_new [OF Cons.prems(1)] by metis
  then show ?case using Cons.IH [OF h1(2)] Cons.prems(2) assms(1) by (auto simp: p)
qed simp

lemma rebuild_pairs_spec:
  assumes "ch_inv h" "i < length (ch_entries h)" "ch_field h (ch_entries h ! i) = f"
  shows "distinct (map fst (rebuild_pairs h i [(f, v)]))" "distinct (map fst (rebuild_pairs h i []))"
    "map_of (rebuild_pairs h i [(f, v)]) = (map_of (ch_all h))(f \<mapsto> v)"
    "map_of (rebuild_pairs h i []) = (map_of (ch_all h))(f := None)"
proof -
  have i: "i < length (ch_all h)" "fst (ch_all h ! i) = f" using assms(2,3) by (simp_all add: ch_all_def)
  define xs ys w where "xs = take i (ch_all h)" and "ys = drop (i + 1) (ch_all h)" and "w = snd (ch_all h ! i)"
  have all: "ch_all h = xs @ (f, w) # ys"
    using id_take_nth_drop [OF i(1)] i(2) by (simp add: xs_def ys_def w_def flip: i(2))
  have d: "distinct (map fst (xs @ (f, w) # ys))" using assms(1) all by (simp add: ch_inv_def)
  have rb: "rebuild_pairs h i rs = rs @ xs @ ys" for rs by (simp add: rebuild_pairs_def xs_def ys_def)
  show "distinct (map fst (rebuild_pairs h i [(f, v)]))" "distinct (map fst (rebuild_pairs h i []))"
    using d by (auto simp: rb)
  show "map_of (rebuild_pairs h i [(f, v)]) = (map_of (ch_all h))(f \<mapsto> v)"
    by (rule ext) (auto simp: rb all map_add_def split: option.splits)
  have "map_of xs f = None" "map_of ys f = None" using d by (simp_all add: map_of_eq_None_iff)
  then show "map_of (rebuild_pairs h i []) = (map_of (ch_all h))(f := None)"
    by (intro ext) (auto simp: rb all map_add_def split: option.splits)
qed

text \<open>One rebuild below a call to \<^verbatim>\<open>set\<close> is all it ever needs.\<close>

lemma ch_set_fuel_spec:
  assumes "ch_inv h"
  shows "\<exists>h' b. ch_set_fuel (Suc n) h f v = Some (h', b) \<and> ch_inv h' \<and>
           map_of (ch_all h') = (map_of (ch_all h))(f \<mapsto> v) \<and> (b \<longleftrightarrow> map_of (ch_all h) f = None)"
proof (cases "find_index (\<lambda>e. ch_fieldEqual h e f) (ch_entries h)")
  case None
  then have new: "map_of (ch_all h) f = None" using ch_find_None [OF assms] by blast
  obtain h' where h': "ch_set_with (ch_set_fuel n) h f v = Some (h', True)" "ch_inv h'" "ch_all h' = ch_all h @ [(f, v)]"
    by (rule ch_set_with_new [OF assms new])
  moreover have "map_of (ch_all h @ [(f, v)]) = (map_of (ch_all h))(f \<mapsto> v)"
    using new by (intro ext) (auto simp: map_add_def split: option.splits)
  ultimately show ?thesis using new by auto
next
  case (Some i)
  then have i: "i < length (ch_entries h)" "ch_field h (ch_entries h ! i) = f"
    using ch_find_Some [OF assms] by blast+
  have old: "map_of (ch_all h) f \<noteq> None" using ch_find_None [OF assms] Some by force
  show ?thesis
  proof (cases "length v \<le> valueLen (ch_entries h ! i)")
    case True
    note ow = ch_overwrite [OF assms i(1) refl True refl]
    have "i < length (ch_all h)" "distinct (map fst (ch_all h))" "fst (ch_all h ! i) = f"
      using assms i by (simp_all add: ch_inv_def ch_all_def)
    then have "map_of ((ch_all h)[i := (f, v)]) = (map_of (ch_all h))(f \<mapsto> v)"
      by (rule map_of_list_update)
    then show ?thesis using ow True old i(2) by (simp add: ch_set_with_def Some Let_def)
  next
    case False
    note rb = rebuild_pairs_spec [OF assms i]
    have "\<exists>h'. newCompactHash_loop (ch_set_fuel n) \<lparr>ch_entries = [], ch_arena = []\<rparr> (rebuild_pairs h i [(f, v)]) =
        Some h' \<and> ch_inv h' \<and> ch_all h' = ch_all \<lparr>ch_entries = [], ch_arena = []\<rparr> @ rebuild_pairs h i [(f, v)]"
      by (rule newCompactHash_loop_distinct [where st' = "case n of 0 \<Rightarrow> \<lambda>h f v. None | Suc m \<Rightarrow> ch_set_fuel m"])
         (use ch_empty rb(1) in \<open>auto split: nat.splits\<close>)
    then show ?thesis
      using False old rb(3) ch_empty by (auto simp: ch_set_with_def Some Let_def ch_rebuild_with_def)
  qed
qed

lemma ch_set_spec:
  assumes "ch_inv h" "ch_set h f v = (h', b)"
  shows "ch_inv h' \<and> map_of (ch_all h') = (map_of (ch_all h))(f \<mapsto> v) \<and> (b \<longleftrightarrow> map_of (ch_all h) f = None)"
  using ch_set_fuel_spec [OF assms(1), of 0 f v] assms(2) by (auto simp: ch_set_def)

lemma newCompactHash_distinct:
  "ch_inv h \<Longrightarrow> distinct (map fst (ch_all h @ pairs)) \<Longrightarrow>
   ch_inv (foldl (\<lambda>h (f, v). fst (ch_set h f v)) h pairs) \<and>
   ch_all (foldl (\<lambda>h (f, v). fst (ch_set h f v)) h pairs) = ch_all h @ pairs"
proof (induction pairs arbitrary: h)
  case (Cons p pairs)
  obtain f v where p: "p = (f, v)" by (cases p)
  have new: "map_of (ch_all h) f = None" using Cons.prems(2) by (auto simp: p map_of_eq_None_iff)
  obtain h1 where h1: "ch_set_with (ch_set_fuel 0) h f v = Some (h1, True)" "ch_inv h1" "ch_all h1 = ch_all h @ [(f, v)]"
    by (rule ch_set_with_new [OF Cons.prems(1) new])
  then have "ch_set h f v = (h1, True)" by (simp add: ch_set_def)
  then show ?case using Cons.IH [OF h1(2)] h1(3) Cons.prems(2) by (simp add: p)
qed simp

lemma ch_del_spec:
  assumes "ch_inv h" "ch_del h f = (h', b)"
  shows "ch_inv h' \<and> map_of (ch_all h') = (map_of (ch_all h))(f := None) \<and> (b \<longleftrightarrow> map_of (ch_all h) f \<noteq> None)"
proof (cases "find_index (\<lambda>e. ch_fieldEqual h e f) (ch_entries h)")
  case None
  then have "map_of (ch_all h) f = None" using ch_find_None [OF assms(1)] by blast
  moreover from this have "(map_of (ch_all h))(f := None) = map_of (ch_all h)"
    by (intro ext) auto
  ultimately show ?thesis using assms None by (simp add: ch_del_def)
next
  case (Some i)
  then have i: "i < length (ch_entries h)" "ch_field h (ch_entries h ! i) = f"
    using ch_find_Some [OF assms(1)] by blast+
  have old: "map_of (ch_all h) f \<noteq> None" using ch_find_None [OF assms(1)] Some by force
  note rb = rebuild_pairs_spec [OF assms(1) i]
  show ?thesis
    using newCompactHash_distinct [of "\<lparr>ch_entries = [], ch_arena = []\<rparr>" "rebuild_pairs h i []"] ch_empty rb(2,4)
      assms(2) old by (auto simp: ch_del_def Some ch_rebuild_def newCompactHash_def)
qed

interpretation chash: field_map ch_inv ch_get ch_set ch_del ch_all
proof (unfold_locales, goal_cases)
  case (1 s v k)
  then show ?case using ch_set_spec [OF 1(1), of k v] by (cases "ch_set s k v") auto
next
  case (2 s v k)
  then show ?case using ch_set_spec [OF 2(1), of k v] by (cases "ch_set s k v") (auto simp: ch_get_map_of)
next
  case (3 s v k)
  then show ?case using ch_set_spec [OF 3(1), of k v]
    by (cases "ch_set s k v") (auto simp: ch_get_map_of)
next
  case (4 s)
  then have "dom (ch_get s) = fst ` set (ch_all s)"
    by (auto simp: ch_get_map_of dom_map_of_conv_image_fst [symmetric] dom_def)
  then show ?case by simp
next
  case (5 s k)
  then show ?case using ch_del_spec [OF 5(1), of k] by (cases "ch_del s k") auto
next
  case (6 s k)
  then show ?case using ch_del_spec [OF 6(1), of k] by (cases "ch_del s k") (auto simp: ch_get_map_of)
next
  case (7 s k)
  then show ?case using ch_del_spec [OF 7(1), of k]
    by (cases "ch_del s k") (auto simp: ch_get_map_of domIff)
next
  case (8 s)
  then show ?case by (simp add: ch_inv_def)
next
  case (9 s)
  then show ?case by (simp add: ch_get_map_of fun_eq_iff)
qed

section \<open>Properties\<close>

text \<open>C34. The compact hash is a finite map.  Whether a value is overwritten in place or forces a rebuild,
  \<^verbatim>\<open>set\<close> changes exactly its own field and reports whether the field is new, \<^verbatim>\<open>del\<close> removes exactly its
  own field, and both keep the arena regions disjoint and the fields distinct.\<close>

theorem compact_hash_is_map:
  assumes "ch_inv h" "ch_set h f v = (h1, new)" "ch_del h f = (h2, found)"
  shows "ch_inv h1 \<and> ch_get h1 = (ch_get h)(f \<mapsto> v) \<and> (new \<longleftrightarrow> ch_get h f = None) \<and>
         ch_inv h2 \<and> ch_get h2 = (ch_get h)(f := None) \<and> (found \<longleftrightarrow> ch_get h f \<noteq> None)"
  using chash.put_inv [OF assms(1), of f v] chash.put_lookup [OF assms(1), of f v] chash.put_new [OF assms(1), of f v]
    chash.del_inv [OF assms(1), of f] chash.del_lookup [OF assms(1), of f] chash.del_found [OF assms(1), of f]
  by (auto simp: assms(2,3))

theorem compact_hash_is_map_witness:
  "let h = newCompactHash [(str ''a'', str ''one''), (str ''b'', str ''two'')] in
   ch_inv h \<and> ch_arena h = str ''aonebtwo'' \<and>
   ch_arena (fst (ch_set h (str ''a'') (str ''x''))) = str ''axnebtwo'' \<and>
   ch_get (fst (ch_set h (str ''a'') (str ''x''))) = (ch_get h)(str ''a'' \<mapsto> str ''x'')"
proof -
  let ?h = "newCompactHash [(str ''a'', str ''one''), (str ''b'', str ''two'')]"
  have h: "?h = \<lparr>ch_entries = [\<lparr>fieldStart = 0, fieldLen = 1, valueStart = 1, valueLen = 3\<rparr>,
      \<lparr>fieldStart = 4, fieldLen = 1, valueStart = 5, valueLen = 3\<rparr>], ch_arena = str ''aonebtwo''\<rparr>"
    by (simp add: newCompactHash_def ch_set_def ch_set_with_def ch_fieldEqual_def slice_def str_def Let_def)
  have inv: "ch_inv ?h"
    using newCompactHash_distinct [of "\<lparr>ch_entries = [], ch_arena = []\<rparr>"
        "[(str ''a'', str ''one''), (str ''b'', str ''two'')]"] ch_empty
    by (simp add: newCompactHash_def str_def)
  have "ch_arena (fst (ch_set ?h (str ''a'') (str ''x''))) = str ''axnebtwo''"
    unfolding h by (simp add: ch_set_def ch_set_with_def ch_fieldEqual_def slice_def overwrite_def str_def Let_def)
  moreover have "ch_get (fst (ch_set ?h (str ''a'') (str ''x''))) = (ch_get ?h)(str ''a'' \<mapsto> str ''x'')"
    using compact_hash_is_map [OF inv surjective_pairing surjective_pairing, of "str ''a''" "str ''x''"] by blast
  ultimately show ?thesis using inv h by (simp add: Let_def)
qed

end
