(* ===== verification/Compact_Zset.thy ===== *)
theory Compact_Zset
  imports Zset_Order
begin

text \<open>
  The compact sorted-set encoding of \<^verbatim>\<open>src/internal/storage/compact_zset.go\<close>: member bytes in an arena,
  entries with score and offsets re-sorted after every change.  Shown: the entries stay strictly
  ordered by score and member, and the encoding meets the contract of a sorted set.
\<close>

section \<open>Definitions\<close>

abbreviation compactZSetMaxEntries :: nat where "compactZSetMaxEntries \<equiv> 8"
abbreviation compactZSetMaxMemberLen :: nat where "compactZSetMaxMemberLen \<equiv> 64"

record compactZSetEntry =
  memberStart :: nat
  memberLen :: nat
  ze_score :: float64

record CompactZSet =
  cz_entries :: "compactZSetEntry list"
  cz_arena :: bytes

definition cz_len :: "CompactZSet \<Rightarrow> nat" where
  "cz_len s = length (cz_entries s)"

definition cz_memberBytes :: "CompactZSet \<Rightarrow> compactZSetEntry \<Rightarrow> bytes" where
  "cz_memberBytes s entry = slice (cz_arena s) (memberStart entry) (memberLen entry)"

definition cz_memberEqual :: "CompactZSet \<Rightarrow> compactZSetEntry \<Rightarrow> bytes \<Rightarrow> bool" where
  "cz_memberEqual s entry member \<longleftrightarrow> cz_memberBytes s entry = member"

text \<open>\<^verbatim>\<open>bytes.Compare\<close>.\<close>

definition bytes_Compare :: "bytes \<Rightarrow> bytes \<Rightarrow> int" where
  "bytes_Compare a b = (if a < b then -1 else if b < a then 1 else 0)"

definition cz_cmp :: "CompactZSet \<Rightarrow> compactZSetEntry \<Rightarrow> compactZSetEntry \<Rightarrow> int" where
  "cz_cmp s left right =
     (if f_lt (ze_score left) (ze_score right) then -1
      else if f_lt (ze_score right) (ze_score left) then 1
      else bytes_Compare (cz_memberBytes s left) (cz_memberBytes s right))"

definition cz_sort :: "CompactZSet \<Rightarrow> CompactZSet" where
  "cz_sort s = s\<lparr>cz_entries := SortFunc (cz_cmp s) (cz_entries s)\<rparr>"

definition cz_add :: "CompactZSet \<Rightarrow> bytes \<Rightarrow> float64 \<Rightarrow> CompactZSet \<times> bool" where
  "cz_add s member score =
     (case find_index (\<lambda>entry. cz_memberEqual s entry member) (cz_entries s) of
        Some i \<Rightarrow>
          let entry = cz_entries s ! i in
          if f_eq (ze_score entry) score then (s, False)
          else (cz_sort (s\<lparr>cz_entries := (cz_entries s)[i := entry\<lparr>ze_score := score\<rparr>]\<rparr>), False)
      | None \<Rightarrow>
          let start = length (cz_arena s) in
          (cz_sort (s\<lparr>cz_arena := cz_arena s @ member,
                      cz_entries := cz_entries s @
                        [\<lparr>memberStart = start, memberLen = length member, ze_score = score\<rparr>]\<rparr>), True))"

definition newCompactZSet :: "zentry list \<Rightarrow> CompactZSet" where
  "newCompactZSet entries =
     foldl (\<lambda>s (member, score). fst (cz_add s member score)) \<lparr>cz_entries = [], cz_arena = []\<rparr> entries"

definition cloneCompactZSet :: "CompactZSet \<Rightarrow> CompactZSet" where
  "cloneCompactZSet src = \<lparr>cz_entries = [] @ cz_entries src, cz_arena = cz_arena src\<rparr>"

definition cz_score :: "CompactZSet \<Rightarrow> bytes \<Rightarrow> float64 option" where
  "cz_score s member =
     map_option ze_score (List.find (\<lambda>entry. cz_memberEqual s entry member) (cz_entries s))"

definition cz_item :: "CompactZSet \<Rightarrow> compactZSetEntry \<Rightarrow> zentry" where
  "cz_item s entry = (cz_memberBytes s entry, ze_score entry)"

definition cz_rangeByRank :: "CompactZSet \<Rightarrow> int \<Rightarrow> int \<Rightarrow> zentry list" where
  "cz_rangeByRank s start stop =
     (if start < 0 \<or> stop < start \<or> start \<ge> int (length (cz_entries s)) then []
      else
        let stop = (if stop \<ge> int (length (cz_entries s)) then int (length (cz_entries s)) - 1 else stop)
        in map (cz_item s) (slice (cz_entries s) (nat start) (nat (stop + 1) - nat start)))"

fun cz_rangeByScore_loop :: "CompactZSet \<Rightarrow> ScoreRange \<Rightarrow> compactZSetEntry list \<Rightarrow> zentry list \<Rightarrow> zentry list" where
  "cz_rangeByScore_loop s r [] items = items"
| "cz_rangeByScore_loop s r (entry # entries) items =
     (if aboveMax r (ze_score entry) then items
      else if \<not> belowMin r (ze_score entry)
      then cz_rangeByScore_loop s r entries (items @ [cz_item s entry])
      else cz_rangeByScore_loop s r entries items)"

definition cz_rangeByScore :: "CompactZSet \<Rightarrow> ScoreRange \<Rightarrow> zentry list" where
  "cz_rangeByScore s r = cz_rangeByScore_loop s r (cz_entries s) []"

text \<open>The entries in order, and the invariant.\<close>

definition cz_ordered :: "CompactZSet \<Rightarrow> zentry list" where
  "cz_ordered s = map (cz_item s) (cz_entries s)"

definition cz_inv :: "CompactZSet \<Rightarrow> bool" where
  "cz_inv s \<longleftrightarrow>
     (\<forall>e \<in> set (cz_entries s). memberStart e + memberLen e \<le> length (cz_arena s) \<and> ze_score e \<noteq> NaN) \<and>
     distinct (map fst (cz_ordered s)) \<and> zsorted (cz_ordered s)"

section \<open>Sorting restores the invariant\<close>

lemma cz_cmp_key:
  "ze_score x \<noteq> NaN \<Longrightarrow> ze_score y \<noteq> NaN \<Longrightarrow> cz_cmp s x y < 0 \<longleftrightarrow> zkey (cz_item s x) < zkey (cz_item s y)"
  by (auto simp: cz_cmp_def bytes_Compare_def zkey_def cz_item_def)

lemma cz_sort_spec:
  assumes "\<forall>e \<in> set (cz_entries s). memberStart e + memberLen e \<le> length (cz_arena s) \<and> ze_score e \<noteq> NaN"
    "distinct (map fst (cz_ordered s))"
  shows "cz_inv (cz_sort s) \<and> map_of (cz_ordered (cz_sort s)) = map_of (cz_ordered s)"
proof -
  let ?es = "SortFunc (cz_cmp s) (cz_entries s)"
  have srt: "mset ?es = mset (cz_entries s)" "sorted (map (\<lambda>e. zkey (cz_item s e)) ?es)"
    using assms(1) by (intro SortFunc_spec; simp add: cz_cmp_key)+
  have item: "cz_item (cz_sort s) = cz_item s"
    by (simp add: cz_sort_def cz_item_def cz_memberBytes_def fun_eq_iff)
  then have ord: "cz_ordered (cz_sort s) = map (cz_item s) ?es"
    by (simp add: cz_ordered_def) (simp add: cz_sort_def)
  then have m: "mset (cz_ordered (cz_sort s)) = mset (cz_ordered s)"
    using srt(1) by (simp add: cz_ordered_def)
  have d: "distinct (map fst (cz_ordered (cz_sort s)))"
    using m assms(2) by (metis mset_eq_imp_distinct_iff mset_map)
  then have "distinct (map zkey (cz_ordered (cz_sort s)))"
    by (auto simp: distinct_map inj_on_def zkey_def)
  then have "zsorted (cz_ordered (cz_sort s))"
    using srt(2) by (simp add: zsorted_def strict_sorted_iff ord comp_def)
  moreover have "set ?es = set (cz_entries s)" using srt(1) mset_eq_setD by blast
  moreover have "map_of (cz_ordered (cz_sort s)) = map_of (cz_ordered s)"
    using map_of_inject_set [OF d assms(2)] mset_eq_setD [OF m] by blast
  ultimately show ?thesis using d assms(1) by (auto simp: cz_inv_def cz_sort_def)
qed

lemma cz_inv_find:
  "find_index (\<lambda>e. cz_memberEqual s e m) (cz_entries s) = None \<longleftrightarrow> map_of (cz_ordered s) m = None"
  by (auto simp: find_index_None cz_memberEqual_def cz_ordered_def cz_item_def image_image map_of_eq_None_iff)

lemma cz_add_spec:
  assumes "cz_inv s" "score \<noteq> NaN" "cz_add s m score = (s', b)"
  shows "cz_inv s' \<and> map_of (cz_ordered s') = (map_of (cz_ordered s))(m \<mapsto> score) \<and>
         (b \<longleftrightarrow> map_of (cz_ordered s) m = None)"
proof (cases "find_index (\<lambda>e. cz_memberEqual s e m) (cz_entries s)")
  case None
  then have new: "map_of (cz_ordered s) m = None" using cz_inv_find by blast
  let ?s = "s\<lparr>cz_arena := cz_arena s @ m, cz_entries := cz_entries s @
              [\<lparr>memberStart = length (cz_arena s), memberLen = length m, ze_score = score\<rparr>]\<rparr>"
  have "cz_item ?s e = cz_item s e" if "e \<in> set (cz_entries s)" for e
    using assms(1) that by (simp add: cz_item_def cz_memberBytes_def cz_inv_def)
  then have ord: "cz_ordered ?s = cz_ordered s @ [(m, score)]"
    by (simp add: cz_ordered_def) (simp add: cz_item_def cz_memberBytes_def slice_append_end)
  have "cz_inv (cz_sort ?s) \<and> map_of (cz_ordered (cz_sort ?s)) = map_of (cz_ordered ?s)"
    by (rule cz_sort_spec)
       (use assms(1,2) new in \<open>auto simp: ord cz_inv_def map_of_eq_None_iff\<close>)
  moreover have "map_of (cz_ordered ?s) = (map_of (cz_ordered s))(m \<mapsto> score)"
    unfolding ord using new by (intro ext) (auto simp: map_add_def split: option.splits)
  ultimately show ?thesis using assms(3) None new by (auto simp: cz_add_def Let_def)
next
  case (Some i)
  then have i: "i < length (cz_entries s)" "cz_memberBytes s (cz_entries s ! i) = m"
    using find_index_Some by (fastforce simp: cz_memberEqual_def)+
  have old: "map_of (cz_ordered s) m \<noteq> None" using cz_inv_find [of s m] Some by force
  let ?e = "cz_entries s ! i"
  have e: "?e \<in> set (cz_entries s)" using i by simp
  have ith: "cz_ordered s ! i = (m, ze_score ?e)" "i < length (cz_ordered s)"
    using i by (simp_all add: cz_ordered_def cz_item_def)
  have d: "distinct (map fst (cz_ordered s))" using assms(1) by (simp add: cz_inv_def)
  show ?thesis
  proof (cases "f_eq (ze_score ?e) score")
    case True
    then have "map_of (cz_ordered s) m = Some score"
      using ith d assms(1,2) e by (metis cz_inv_def f_eq_eq map_of_eq_Some_iff nth_mem)
    then show ?thesis using assms Some True old by (auto simp: cz_add_def Let_def)
  next
    case False
    let ?s = "s\<lparr>cz_entries := (cz_entries s)[i := ?e\<lparr>ze_score := score\<rparr>]\<rparr>"
    have "cz_item ?s e' = cz_item s e'" for e' by (simp add: cz_item_def cz_memberBytes_def)
    then have "cz_item ?s = cz_item s" by (rule ext)
    then have ord: "cz_ordered ?s = (cz_ordered s)[i := (m, score)]"
      using i by (simp add: cz_ordered_def map_update) (simp add: cz_item_def cz_memberBytes_def)
    have "map fst (cz_ordered ?s) = map fst (cz_ordered s)"
      unfolding ord map_update using list_update_id [of "map fst (cz_ordered s)" i] ith by simp
    then have "cz_inv (cz_sort ?s) \<and> map_of (cz_ordered (cz_sort ?s)) = map_of (cz_ordered ?s)"
      using assms(1,2) d e
      by (intro cz_sort_spec) (auto simp: cz_inv_def dest!: set_update_subset_insert [THEN subsetD])
    moreover have "map_of (cz_ordered ?s) = (map_of (cz_ordered s))(m \<mapsto> score)"
      unfolding ord by (rule map_of_list_update) (use ith d in auto)
    ultimately show ?thesis using assms(3) Some False old by (auto simp: cz_add_def Let_def)
  qed
qed

lemma cz_score_map_of: "cz_score s m = map_of (cz_ordered s) m"
  by (simp add: cz_score_def cz_ordered_def cz_item_def [abs_def] cz_memberEqual_def map_of_find)

lemma cz_rangeByRank_eq: "cz_rangeByRank s a b = rank_range (cz_ordered s) a b"
proof (cases "a < 0 \<or> b < a \<or> a \<ge> int (length (cz_entries s))")
  case True
  then show ?thesis by (auto simp: cz_rangeByRank_def rank_range_def cz_ordered_def)
next
  case False
  let ?n = "length (cz_entries s)"
  have "take (nat (int ?n - 1 + 1) - nat a) (drop (nat a) xs) = take (nat (b - a) + 1) (drop (nat a) xs)"
    if "length xs = ?n" "int ?n \<le> b" for xs :: "zentry list"
    using that False by simp
  moreover have "nat (b + 1) - nat a = nat (b - a) + 1" using False by auto
  ultimately show ?thesis
    using False by (auto simp: cz_rangeByRank_def rank_range_def cz_ordered_def slice_def take_map drop_map Let_def)
qed

lemma cz_rangeByScore_loop_eq:
  "cz_rangeByScore_loop s r es items =
   items @ map (cz_item s) (filter (\<lambda>e. \<not> belowMin r (ze_score e)) (takeWhile (\<lambda>e. \<not> aboveMax r (ze_score e)) es))"
  by (induction s r es items rule: cz_rangeByScore_loop.induct) auto

lemma cz_rangeByScore_eq: "cz_inv s \<Longrightarrow> cz_rangeByScore s r = score_range r (cz_ordered s)"
proof -
  assume inv: "cz_inv s"
  have "cz_rangeByScore s r = filter (\<lambda>e. \<not> belowMin r (snd e)) (takeWhile (\<lambda>e. \<not> aboveMax r (snd e)) (cz_ordered s))"
    by (simp add: cz_rangeByScore_def cz_rangeByScore_loop_eq cz_ordered_def takeWhile_map filter_map comp_def cz_item_def)
  moreover have "takeWhile (\<lambda>e. \<not> aboveMax r (snd e)) (cz_ordered s) = filter (\<lambda>e. \<not> aboveMax r (snd e)) (cz_ordered s)"
    by (rule takeWhile_above [OF zsorted_scores]) (use inv in \<open>auto simp: cz_inv_def cz_ordered_def cz_item_def\<close>)
  ultimately show ?thesis by (simp add: score_range_def conj_commute)
qed

interpretation czset: sorted_map cz_inv cz_score cz_add cz_ordered cz_rangeByRank cz_rangeByScore
proof (unfold_locales, goal_cases)
  case (1 s v k)
  then show ?case using cz_add_spec [OF 1, of k] by (cases "cz_add s k v") auto
next
  case (2 s v k)
  then show ?case using cz_add_spec [OF 2, of k] by (cases "cz_add s k v") (auto simp: cz_score_map_of)
next
  case (3 s v k)
  then show ?case using cz_add_spec [OF 3, of k] by (cases "cz_add s k v") (auto simp: cz_score_map_of)
next
  case (4 s)
  have "cz_score s = map_of (cz_ordered s)" by (simp add: cz_score_map_of fun_eq_iff)
  then show ?case by (simp add: finite_dom_map_of)
qed (auto simp: cz_inv_def cz_score_map_of cz_rangeByRank_eq cz_rangeByScore_eq fun_eq_iff)

section \<open>Properties\<close>

text \<open>A compact sorted set stays strictly ordered by score, then member, whatever is added to it: adding
  assigns exactly one member its score and reports whether the member is new, and the entries are
  afterwards the ordered listing of the resulting member-to-score map.\<close>

theorem compact_zset_add:
  assumes "cz_inv s" "score \<noteq> NaN" "cz_add s m score = (s', new)"
  shows "cz_inv s' \<and> cz_score s' = (cz_score s)(m \<mapsto> score) \<and> (new \<longleftrightarrow> cz_score s m = None) \<and>
         cz_ordered s' = zlisting ((cz_score s)(m \<mapsto> score))"
proof -
  have "cz_inv s'" "cz_score s' = (cz_score s)(m \<mapsto> score)" "new \<longleftrightarrow> cz_score s m = None"
    using czset.put_inv [OF assms(1,2), of m] czset.put_lookup [OF assms(1,2), of m]
      czset.put_new [OF assms(1,2), of m] by (simp_all add: assms(3))
  then show ?thesis using czset.ordered_listing [of s'] by simp
qed

theorem compact_zset_add_witness:
  "\<exists>s new. cz_add \<lparr>cz_entries = [\<lparr>memberStart = 0, memberLen = 1, ze_score = Fin 1\<rparr>,
                              \<lparr>memberStart = 1, memberLen = 1, ze_score = Fin 2\<rparr>], cz_arena = str ''ab''\<rparr>
             (str ''a'') (Fin 3) = (s, new) \<and>
           cz_inv s \<and> \<not> new \<and> cz_ordered s = [(str ''b'', Fin 2), (str ''a'', Fin 3)]"
proof -
  let ?s = "\<lparr>cz_entries = [\<lparr>memberStart = 0, memberLen = 1, ze_score = Fin 1\<rparr>,
              \<lparr>memberStart = 1, memberLen = 1, ze_score = Fin 2\<rparr>], cz_arena = str ''ab''\<rparr>"
  have inv: "cz_inv ?s"
    by (simp add: cz_inv_def cz_ordered_def cz_item_def cz_memberBytes_def slice_def str_def zsorted_def zkey_def
        less_float64_def)
  obtain s new where a: "cz_add ?s (str ''a'') (Fin 3) = (s, new)" by fastforce
  moreover have "cz_inv s \<and> (new \<longleftrightarrow> cz_score ?s (str ''a'') = None)"
    using compact_zset_add [OF inv _ a] by blast
  moreover have "cz_ordered s = [(str ''b'', Fin 2), (str ''a'', Fin 3)]"
    using a by (auto simp: cz_add_def cz_memberEqual_def cz_memberBytes_def slice_def str_def Let_def f_eq_def f_lt_def
        cz_sort_def SortFunc_def cz_cmp_def less_float64_def cz_ordered_def cz_item_def)
  ultimately show ?thesis
    by (auto simp: cz_score_def cz_memberEqual_def cz_memberBytes_def slice_def str_def)
qed

end
