(* ===== verification/Skiplist.thy ===== *)
theory Skiplist
  imports Zset_Order
begin

text \<open>
  The general sorted-set encoding of \<^verbatim>\<open>src/internal/storage/zset.go\<close>: a map from members to scores and a
  skip list with spans.  The skip list is modelled on an explicit heap: nodes are addresses, the
  forward, backward, header and tail pointers are address values, and every pointer write of the
  code is a heap update.  Shown: each operation keeps the representation invariant (at every level
  the forward pointers thread exactly the nodes of that height in order, and each span is the exact
  rank distance), hence the structure meets the contract of a sorted set for every outcome of the
  random level draws.

  A walk along forward pointers is bounded by fuel, one step per allocated node; the lemmas show that
  a list satisfying the invariant never runs out.
\<close>

section \<open>Definitions\<close>

abbreviation zsetMaxLevel :: nat where "zsetMaxLevel \<equiv> 16"

record zsetLevel =
  lv_forward :: "nat option"
  lv_span :: int

record zsetNode =
  zn_member :: bytes
  zn_score :: float64
  zn_backward :: "nat option"
  zn_levels :: "zsetLevel list"

type_synonym zheap = "nat \<Rightarrow> zsetNode"

text \<open>Address 0 is the header; \<open>sl_fresh\<close> is the next address the allocator hands out.\<close>

record zsetSkipList =
  sl_heap :: zheap
  sl_fresh :: nat
  sl_tail :: "nat option"
  sl_level :: nat
  sl_length :: nat

record SortedSet =
  ss_index :: "(bytes, float64) gomap"
  ss_order :: zsetSkipList

definition zeroLevel :: zsetLevel where
  "zeroLevel = \<lparr>lv_forward = None, lv_span = 0\<rparr>"

definition newZSetSkipList :: zsetSkipList where
  "newZSetSkipList =
     \<lparr>sl_heap = (\<lambda>_. \<lparr>zn_member = [], zn_score = Fin 0, zn_backward = None,
                       zn_levels = replicate zsetMaxLevel zeroLevel\<rparr>),
      sl_fresh = 1, sl_tail = None, sl_level = 1, sl_length = 0\<rparr>"

definition newSortedSet :: SortedSet where
  "newSortedSet = \<lparr>ss_index = [], ss_order = newZSetSkipList\<rparr>"

definition ss_len :: "SortedSet \<Rightarrow> nat" where
  "ss_len s = length (ss_index s)"

definition lev :: "zheap \<Rightarrow> nat \<Rightarrow> nat \<Rightarrow> zsetLevel" where
  "lev h x i = zn_levels (h x) ! i"

definition setlev :: "zheap \<Rightarrow> nat \<Rightarrow> nat \<Rightarrow> zsetLevel \<Rightarrow> zheap" where
  "setlev h x i l = h(x := (h x)\<lparr>zn_levels := (zn_levels (h x))[i := l]\<rparr>)"

text \<open>
  The inner loop every search shares: follow level \<open>i\<close> while the next node passes the test, which
  may also look at the rank reached there.  The result is the node where the loop stops and its
  accumulated rank.
\<close>

fun walk :: "nat \<Rightarrow> zheap \<Rightarrow> nat \<Rightarrow> (zsetNode \<Rightarrow> int \<Rightarrow> bool) \<Rightarrow> nat \<Rightarrow> int \<Rightarrow> (nat \<times> int) option" where
  "walk 0 h i test x rank = None"
| "walk (Suc fuel) h i test x rank =
     (case lv_forward (lev h x i) of
        None \<Rightarrow> Some (x, rank)
      | Some next \<Rightarrow>
          if test (h next) (rank + lv_span (lev h x i))
          then walk fuel h i test next (rank + lv_span (lev h x i))
          else Some (x, rank))"

text \<open>The outer loop, from the top level down; the result lists \<open>(update[i], rank[i])\<close> by level.\<close>

primrec descend ::
  "nat \<Rightarrow> zheap \<Rightarrow> (zsetNode \<Rightarrow> int \<Rightarrow> bool) \<Rightarrow> nat \<Rightarrow> nat \<Rightarrow> int \<Rightarrow> (nat \<times> int) list \<Rightarrow> (nat \<times> int) list option"
where
  "descend fuel h test 0 x rank path = Some path"
| "descend fuel h test (Suc i) x rank path =
     (case walk fuel h i test x rank of
        None \<Rightarrow> None
      | Some (x', rank') \<Rightarrow> descend fuel h test i x' rank' ((x', rank') # path))"

definition search :: "zsetSkipList \<Rightarrow> (zsetNode \<Rightarrow> int \<Rightarrow> bool) \<Rightarrow> (nat \<times> int) list option" where
  "search sl test = descend (sl_fresh sl) (sl_heap sl) test (sl_level sl) 0 0 []"

text \<open>\<^verbatim>\<open>randomZSetLevel\<close>; \<open>coin k\<close> is the outcome of the k-th comparison \<^verbatim>\<open>rand.Float64() < zsetP\<close>.\<close>

function randomLevel_loop :: "(nat \<Rightarrow> bool) \<Rightarrow> nat \<Rightarrow> nat" where
  "randomLevel_loop coin level =
     (if level < zsetMaxLevel \<and> coin level then randomLevel_loop coin (level + 1) else level)"
  by pat_completeness auto
termination
  by (relation "measure (\<lambda>(coin, level). zsetMaxLevel - level)") auto

declare randomLevel_loop.simps [simp del]

definition randomZSetLevel :: "(nat \<Rightarrow> bool) \<Rightarrow> nat" where
  "randomZSetLevel coin = randomLevel_loop coin 1"

definition raise_header :: "nat \<Rightarrow> zheap \<Rightarrow> nat \<Rightarrow> zheap" where
  "raise_header len h i = setlev h 0 i ((lev h 0 i)\<lparr>lv_span := int len\<rparr>)"

text \<open>The body of the linking loop of \<^verbatim>\<open>insert\<close>.\<close>

definition link_level :: "nat \<Rightarrow> (nat \<times> int) list \<Rightarrow> zheap \<Rightarrow> nat \<Rightarrow> zheap" where
  "link_level x path h i =
     (let u = fst (path ! i);
          gap = snd (path ! 0) - snd (path ! i);
          old = lev h u i;
          h = setlev h x i ((lev h x i)\<lparr>lv_forward := lv_forward old\<rparr>);
          h = setlev h u i ((lev h u i)\<lparr>lv_forward := Some x\<rparr>);
          h = setlev h x i ((lev h x i)\<lparr>lv_span := lv_span (lev h u i) - gap\<rparr>)
      in setlev h u i ((lev h u i)\<lparr>lv_span := gap + 1\<rparr>))"

definition widen_level :: "(nat \<times> int) list \<Rightarrow> zheap \<Rightarrow> nat \<Rightarrow> zheap" where
  "widen_level path h i =
     (let u = fst (path ! i) in setlev h u i ((lev h u i)\<lparr>lv_span := lv_span (lev h u i) + 1\<rparr>))"

definition sl_insert :: "(nat \<Rightarrow> bool) \<Rightarrow> zsetSkipList \<Rightarrow> float64 \<Rightarrow> bytes \<Rightarrow> zsetSkipList option" where
  "sl_insert coin sl score member =
     (case search sl (\<lambda>next rank. zsetLess (zn_score next) (zn_member next) score member) of
        None \<Rightarrow> None
      | Some path \<Rightarrow>
          let level = randomZSetLevel coin;
              h = sl_heap sl;
              h = foldl (raise_header (sl_length sl)) h [sl_level sl..<level];
              path = path @ replicate (level - sl_level sl) (0, 0);
              toplevel = max (sl_level sl) level;
              x = sl_fresh sl;
              h = h(x := \<lparr>zn_member = member, zn_score = score, zn_backward = None,
                           zn_levels = replicate level zeroLevel\<rparr>);
              h = foldl (link_level x path) h [0..<level];
              h = foldl (widen_level path) h [level..<toplevel];
              u0 = fst (path ! 0);
              h = h(x := (h x)\<lparr>zn_backward := (if u0 = 0 then None else Some u0)\<rparr>);
              sl = sl\<lparr>sl_fresh := x + 1, sl_level := toplevel, sl_length := sl_length sl + 1\<rparr>
          in (case lv_forward (lev h x 0) of
                Some f \<Rightarrow> Some (sl\<lparr>sl_heap := h(f := (h f)\<lparr>zn_backward := Some x\<rparr>)\<rparr>)
              | None \<Rightarrow> Some (sl\<lparr>sl_heap := h, sl_tail := Some x\<rparr>)))"

definition unlink_level :: "nat \<Rightarrow> (nat \<times> int) list \<Rightarrow> zheap \<Rightarrow> nat \<Rightarrow> zheap" where
  "unlink_level node path h i =
     (let u = fst (path ! i) in
      if lv_forward (lev h u i) = Some node
      then let h = setlev h u i ((lev h u i)\<lparr>lv_span := lv_span (lev h u i) + (lv_span (lev h node i) - 1)\<rparr>)
           in setlev h u i ((lev h u i)\<lparr>lv_forward := lv_forward (lev h node i)\<rparr>)
      else setlev h u i ((lev h u i)\<lparr>lv_span := lv_span (lev h u i) - 1\<rparr>))"

fun shrink_level :: "zheap \<Rightarrow> nat \<Rightarrow> nat" where
  "shrink_level h level =
     (if level > 1 \<and> lv_forward (lev h 0 (level - 1)) = None then shrink_level h (level - 1) else level)"

declare shrink_level.simps [simp del]

definition deleteNode :: "zsetSkipList \<Rightarrow> nat \<Rightarrow> (nat \<times> int) list \<Rightarrow> zsetSkipList" where
  "deleteNode sl node path =
     (let h = foldl (unlink_level node path) (sl_heap sl) [0..<sl_level sl];
          sl = (case lv_forward (lev h node 0) of
                  Some f \<Rightarrow> sl\<lparr>sl_heap := h(f := (h f)\<lparr>zn_backward := zn_backward (h node)\<rparr>)\<rparr>
                | None \<Rightarrow> sl\<lparr>sl_heap := h, sl_tail := zn_backward (h node)\<rparr>)
      in sl\<lparr>sl_level := shrink_level (sl_heap sl) (sl_level sl), sl_length := sl_length sl - 1\<rparr>)"

definition sl_delete :: "zsetSkipList \<Rightarrow> float64 \<Rightarrow> bytes \<Rightarrow> (zsetSkipList \<times> bool) option" where
  "sl_delete sl score member =
     (case search sl (\<lambda>next rank. zsetLess (zn_score next) (zn_member next) score member) of
        None \<Rightarrow> None
      | Some path \<Rightarrow>
          (case lv_forward (lev (sl_heap sl) (fst (path ! 0)) 0) of
             None \<Rightarrow> Some (sl, False)
           | Some x \<Rightarrow>
               if \<not> f_eq (zn_score (sl_heap sl x)) score \<or> zn_member (sl_heap sl x) \<noteq> member
               then Some (sl, False)
               else Some (deleteNode sl x path, True)))"

text \<open>\<^verbatim>\<open>add\<close>, with the heap's fresh address selecting the draws of the insertion it performs.\<close>

definition ss_add :: "(nat \<Rightarrow> nat \<Rightarrow> bool) \<Rightarrow> SortedSet \<Rightarrow> bytes \<Rightarrow> float64 \<Rightarrow> SortedSet \<times> bool" where
  "ss_add coin s member score =
     (let order = ss_order s;
          ins = (\<lambda>order exists.
            case sl_insert (coin (sl_fresh order)) order score member of
              None \<Rightarrow> (s, False)
            | Some order' \<Rightarrow> (\<lparr>ss_index = gm_set (ss_index s) member score, ss_order = order'\<rparr>, \<not> exists))
      in case gm_get (ss_index s) member of
           Some current \<Rightarrow>
             if f_eq current score then (s, False)
             else (case sl_delete order current member of
                     None \<Rightarrow> (s, False)
                   | Some (order', _) \<Rightarrow> ins order' True)
         | None \<Rightarrow> ins order False)"

definition ss_score :: "SortedSet \<Rightarrow> bytes \<Rightarrow> float64 option" where
  "ss_score s member = gm_get (ss_index s) member"

definition getByRank :: "zsetSkipList \<Rightarrow> int \<Rightarrow> nat option" where
  "getByRank sl rank =
     (if rank \<le> 0 \<or> rank > int (sl_length sl) then None
      else case search sl (\<lambda>next reached. reached \<le> rank) of
             None \<Rightarrow> None
           | Some path \<Rightarrow> map_option fst (List.find (\<lambda>(x, traversed). traversed = rank) (rev path)))"

text \<open>The loop filling \<open>items\<close> in \<^verbatim>\<open>rangeByRank\<close>; each step dereferences the current node.\<close>

primrec collect :: "zheap \<Rightarrow> nat option \<Rightarrow> nat \<Rightarrow> zentry list" where
  "collect h node 0 = []"
| "collect h node (Suc n) =
     (case node of
        None \<Rightarrow> []
      | Some x \<Rightarrow> (zn_member (h x), zn_score (h x)) # collect h (lv_forward (lev h x 0)) n)"

definition ss_rangeByRank :: "SortedSet \<Rightarrow> int \<Rightarrow> int \<Rightarrow> zentry list" where
  "ss_rangeByRank s start stop =
     (if start < 0 \<or> stop < start \<or> start \<ge> int (sl_length (ss_order s)) then []
      else
        let stop = (if stop \<ge> int (sl_length (ss_order s)) then int (sl_length (ss_order s)) - 1 else stop)
        in case getByRank (ss_order s) (start + 1) of
             None \<Rightarrow> []
           | Some x \<Rightarrow> collect (sl_heap (ss_order s)) (Some x) (nat (stop - start + 1)))"

definition firstInScoreRange :: "zsetSkipList \<Rightarrow> ScoreRange \<Rightarrow> nat option" where
  "firstInScoreRange sl r =
     (case search sl (\<lambda>next rank. belowMin r (zn_score next)) of
        None \<Rightarrow> None
      | Some path \<Rightarrow> lv_forward (lev (sl_heap sl) (fst (path ! 0)) 0))"

primrec score_loop :: "nat \<Rightarrow> zheap \<Rightarrow> ScoreRange \<Rightarrow> nat option \<Rightarrow> zentry list \<Rightarrow> zentry list" where
  "score_loop 0 h r node items = items"
| "score_loop (Suc fuel) h r node items =
     (case node of
        None \<Rightarrow> items
      | Some x \<Rightarrow>
          if aboveMax r (zn_score (h x)) then items
          else score_loop fuel h r (lv_forward (lev h x 0)) (items @ [(zn_member (h x), zn_score (h x))]))"

definition ss_rangeByScore :: "SortedSet \<Rightarrow> ScoreRange \<Rightarrow> zentry list" where
  "ss_rangeByScore s r =
     score_loop (sl_fresh (ss_order s)) (sl_heap (ss_order s)) r (firstInScoreRange (ss_order s) r) []"

text \<open>The nodes in order, as the level-0 iteration of \<^verbatim>\<open>cloneSortedSet\<close> meets them.\<close>

definition ss_ordered :: "SortedSet \<Rightarrow> zentry list" where
  "ss_ordered s = collect (sl_heap (ss_order s)) (lv_forward (lev (sl_heap (ss_order s)) 0 0)) (sl_fresh (ss_order s))"

definition cloneSortedSet :: "(nat \<Rightarrow> nat \<Rightarrow> bool) \<Rightarrow> SortedSet \<Rightarrow> SortedSet" where
  "cloneSortedSet coin src =
     foldl (\<lambda>cloned (member, score). fst (ss_add coin cloned member score)) newSortedSet (ss_ordered src)"

section \<open>The representation invariant\<close>

definition hgt :: "zheap \<Rightarrow> nat \<Rightarrow> nat" where
  "hgt h x = length (zn_levels (h x))"

definition item :: "zheap \<Rightarrow> nat \<Rightarrow> zentry" where
  "item h x = (zn_member (h x), zn_score (h x))"

text \<open>What a level-\<open>i\<close> entry says about the nodes behind it: the next node taller than \<open>i\<close>, and how many
  ranks away it (or else the end of the list) is.\<close>

definition nxt :: "(nat \<Rightarrow> nat) \<Rightarrow> nat \<Rightarrow> nat list \<Rightarrow> zsetLevel" where
  "nxt ht i zs =
     (let k = length (takeWhile (\<lambda>z. ht z \<le> i) zs)
      in if k < length zs then \<lparr>lv_forward = Some (zs ! k), lv_span = int k + 1\<rparr>
         else \<lparr>lv_forward = None, lv_span = int (length zs)\<rparr>)"

text \<open>The rank of the last node taller than \<open>i\<close> among the first \<open>p\<close>, or 0 for the header.\<close>

definition prk :: "(nat \<Rightarrow> nat) \<Rightarrow> nat list \<Rightarrow> nat \<Rightarrow> nat \<Rightarrow> nat" where
  "prk ht ns i p = p - length (takeWhile (\<lambda>z. ht z \<le> i) (rev (take p ns)))"

text \<open>The node of rank \<open>r\<close>; the header has rank 0.\<close>

abbreviation nd :: "nat list \<Rightarrow> nat \<Rightarrow> nat" where
  "nd ns r \<equiv> (0 # ns) ! r"

definition sl_rep :: "zsetSkipList \<Rightarrow> nat list \<Rightarrow> bool" where
  "sl_rep sl ns \<longleftrightarrow>
     distinct ns \<and> 0 \<notin> set ns \<and> (\<forall>x \<in> set ns. x < sl_fresh sl) \<and> 0 < sl_fresh sl \<and>
     length ns = sl_length sl \<and>
     hgt (sl_heap sl) 0 = zsetMaxLevel \<and> 1 \<le> sl_level sl \<and> sl_level sl \<le> zsetMaxLevel \<and>
     (\<forall>x \<in> set ns. 1 \<le> hgt (sl_heap sl) x \<and> hgt (sl_heap sl) x \<le> sl_level sl) \<and>
     (\<forall>x \<in> set ns. zn_score (sl_heap sl x) \<noteq> NaN) \<and> zsorted (map (item (sl_heap sl)) ns) \<and>
     (\<forall>r \<le> length ns. \<forall>i < sl_level sl. i < hgt (sl_heap sl) (nd ns r) \<longrightarrow>
        lev (sl_heap sl) (nd ns r) i = nxt (hgt (sl_heap sl)) i (drop r ns)) \<and>
     (\<forall>i < zsetMaxLevel. sl_level sl \<le> i \<longrightarrow> lv_forward (lev (sl_heap sl) 0 i) = None) \<and>
     (\<forall>k < length ns. zn_backward (sl_heap sl (ns ! k)) = (if k = 0 then None else Some (ns ! (k - 1)))) \<and>
     sl_tail sl = (if ns = [] then None else Some (last ns))"

lemma sl_repI:
  assumes "distinct ns" "0 \<notin> set ns" "\<And>x. x \<in> set ns \<Longrightarrow> x < sl_fresh sl" "0 < sl_fresh sl"
    "length ns = sl_length sl" "hgt (sl_heap sl) 0 = zsetMaxLevel" "1 \<le> sl_level sl" "sl_level sl \<le> zsetMaxLevel"
    "\<And>x. x \<in> set ns \<Longrightarrow> 1 \<le> hgt (sl_heap sl) x" "\<And>x. x \<in> set ns \<Longrightarrow> hgt (sl_heap sl) x \<le> sl_level sl"
    "\<And>x. x \<in> set ns \<Longrightarrow> zn_score (sl_heap sl x) \<noteq> NaN" "zsorted (map (item (sl_heap sl)) ns)"
    "\<And>r i. r \<le> length ns \<Longrightarrow> i < sl_level sl \<Longrightarrow> i < hgt (sl_heap sl) (nd ns r) \<Longrightarrow>
        lev (sl_heap sl) (nd ns r) i = nxt (hgt (sl_heap sl)) i (drop r ns)"
    "\<And>i. i < zsetMaxLevel \<Longrightarrow> sl_level sl \<le> i \<Longrightarrow> lv_forward (lev (sl_heap sl) 0 i) = None"
    "\<And>k. k < length ns \<Longrightarrow> zn_backward (sl_heap sl (ns ! k)) = (if k = 0 then None else Some (ns ! (k - 1)))"
    "sl_tail sl = (if ns = [] then None else Some (last ns))"
  shows "sl_rep sl ns"
  unfolding sl_rep_def by (intro conjI ballI allI impI) (assumption | rule assms)+

section \<open>Successors and predecessors\<close>

lemma nxt_found:
  "j < length zs \<Longrightarrow> i < ht (zs ! j) \<Longrightarrow> (\<And>k. k < j \<Longrightarrow> ht (zs ! k) \<le> i) \<Longrightarrow>
   nxt ht i zs = \<lparr>lv_forward = Some (zs ! j), lv_span = int j + 1\<rparr>"
proof -
  assume *: "j < length zs" "i < ht (zs ! j)" "\<And>k. k < j \<Longrightarrow> ht (zs ! k) \<le> i"
  then have "length (takeWhile (\<lambda>z. ht z \<le> i) zs) = j"
    using length_takeWhile_less_P_nth [of j "\<lambda>z. ht z \<le> i" zs] nth_length_takeWhile [of "\<lambda>z. ht z \<le> i" zs]
    by (metis linorder_neqE_nat not_le nth_take set_takeWhileD takeWhile_eq_take nth_mem length_takeWhile_le
        less_le_trans order_less_imp_le)
  with *(1) show ?thesis by (simp add: nxt_def)
qed

lemma nxt_none: "(\<And>z. z \<in> set zs \<Longrightarrow> ht z \<le> i) \<Longrightarrow> nxt ht i zs = \<lparr>lv_forward = None, lv_span = int (length zs)\<rparr>"
proof -
  assume "\<And>z. z \<in> set zs \<Longrightarrow> ht z \<le> i"
  then have tw: "takeWhile (\<lambda>z. ht z \<le> i) zs = zs" by (simp add: takeWhile_eq_all_conv)
  show ?thesis by (simp only: nxt_def tw Let_def less_irrefl if_False)
qed

lemma nxt_cases:
  obtains (none) "\<And>z. z \<in> set zs \<Longrightarrow> ht z \<le> i" "nxt ht i zs = \<lparr>lv_forward = None, lv_span = int (length zs)\<rparr>"
  | (found) j where "j < length zs" "i < ht (zs ! j)" "\<And>k. k < j \<Longrightarrow> ht (zs ! k) \<le> i"
      "nxt ht i zs = \<lparr>lv_forward = Some (zs ! j), lv_span = int j + 1\<rparr>"
proof (cases "\<forall>z \<in> set zs. ht z \<le> i")
  case True
  then show ?thesis using none nxt_none by blast
next
  case False
  then obtain j where j: "j < length zs" "\<not> ht (zs ! j) \<le> i" by (auto simp: in_set_conv_nth)
  define m where "m = (LEAST j. j < length zs \<and> \<not> ht (zs ! j) \<le> i)"
  have m: "m < length zs" "\<not> ht (zs ! m) \<le> i" "\<And>k. k < m \<Longrightarrow> ht (zs ! k) \<le> i"
    using LeastI [of "\<lambda>j. j < length zs \<and> \<not> ht (zs ! j) \<le> i" j] j
      not_less_Least [of _ "\<lambda>j. j < length zs \<and> \<not> ht (zs ! j) \<le> i"] less_trans
    unfolding m_def [symmetric] by blast+
  then show ?thesis using found [of m] nxt_found [of m zs i ht] by simp
qed

lemma prk_unique:
  assumes "r \<le> p" "p \<le> length ns" "r = 0 \<or> i < ht (ns ! (r - 1))" "\<And>k. r \<le> k \<Longrightarrow> k < p \<Longrightarrow> ht (ns ! k) \<le> i"
  shows "prk ht ns i p = r"
proof -
  have "take p ns = take r ns @ drop r (take p ns)" using assms(1) by (metis append_take_drop_id min.absorb1 take_take)
  then have rv: "rev (take p ns) = rev (drop r (take p ns)) @ rev (take r ns)" by (metis rev_append)
  have "\<forall>z \<in> set (rev (drop r (take p ns))). ht z \<le> i"
    using assms by (auto simp: in_set_conv_nth)
  then have "takeWhile (\<lambda>z. ht z \<le> i) (rev (take p ns)) =
      rev (drop r (take p ns)) @ takeWhile (\<lambda>z. ht z \<le> i) (rev (take r ns))"
    unfolding rv by (intro takeWhile_append2) auto
  moreover have "takeWhile (\<lambda>z. ht z \<le> i) (rev (take r ns)) = []"
  proof (cases r)
    case (Suc q)
    then have "rev (take r ns) = ns ! q # rev (take q ns)" using assms by (simp add: take_Suc_conv_app_nth)
    then show ?thesis using assms(3) Suc by simp
  qed simp
  ultimately show ?thesis using assms by (simp add: prk_def)
qed

lemma prk_spec:
  assumes "p \<le> length ns"
  shows "prk ht ns i p \<le> p" "prk ht ns i p = 0 \<or> i < ht (ns ! (prk ht ns i p - 1))"
    "prk ht ns i p \<le> k \<Longrightarrow> k < p \<Longrightarrow> ht (ns ! k) \<le> i"
proof -
  define S where "S = {r. r \<le> p \<and> (r = 0 \<or> i < ht (ns ! (r - 1)))}"
  have S: "finite S" by (rule finite_subset [of _ "{..p}"]) (auto simp: S_def)
  have "0 \<in> S" by (simp add: S_def)
  then have M: "Max S \<in> S" using Max_in [OF S] by blast
  have "ht (ns ! k) \<le> i" if "Max S \<le> k" "k < p" for k
  proof (rule ccontr)
    assume "\<not> ?thesis"
    then have "k + 1 \<in> S" using that by (auto simp: S_def)
    then show False using Max_ge [OF S] that by fastforce
  qed
  moreover have "Max S \<le> p" "Max S = 0 \<or> i < ht (ns ! (Max S - 1))" using M by (auto simp: S_def)
  moreover from calculation have "prk ht ns i p = Max S" using assms by (intro prk_unique) auto
  ultimately show "prk ht ns i p \<le> p" "prk ht ns i p = 0 \<or> i < ht (ns ! (prk ht ns i p - 1))"
    "prk ht ns i p \<le> k \<Longrightarrow> k < p \<Longrightarrow> ht (ns ! k) \<le> i" by auto
qed

section \<open>Searching\<close>

lemma sl_rep_hgt: "sl_rep sl ns \<Longrightarrow> z \<in> set ns \<Longrightarrow> 1 \<le> hgt (sl_heap sl) z \<and> hgt (sl_heap sl) z \<le> sl_level sl"
  by (simp add: sl_rep_def)

lemma nth_in_drop: "r \<le> k \<Longrightarrow> k < length ns \<Longrightarrow> ns ! k \<in> set (drop r ns)"
  by (metis Cons_nth_drop_Suc list.set_intros(1) set_drop_subset_set_drop subsetD)

lemma sl_rep_lev:
  "sl_rep sl ns \<Longrightarrow> r \<le> length ns \<Longrightarrow> i < sl_level sl \<Longrightarrow> r = 0 \<or> i < hgt (sl_heap sl) (ns ! (r - 1)) \<Longrightarrow>
   lev (sl_heap sl) (nd ns r) i = nxt (hgt (sl_heap sl)) i (drop r ns)"
  by (cases r) (auto simp: sl_rep_def)

lemma walk_spec:
  assumes rep: "sl_rep sl ns" and i: "i < sl_level sl" and p: "p \<le> length ns"
    and test: "\<And>k. k < length ns \<Longrightarrow> test (sl_heap sl (ns ! k)) (int k + 1) \<longleftrightarrow> k < p"
    and r: "r \<le> p" "r = 0 \<or> i < hgt (sl_heap sl) (ns ! (r - 1))" and fuel: "p - r < fuel"
  shows "walk fuel (sl_heap sl) i test (nd ns r) (int r) =
         Some (nd ns (prk (hgt (sl_heap sl)) ns i p), int (prk (hgt (sl_heap sl)) ns i p))"
  using r fuel
proof (induction fuel arbitrary: r)
  case (Suc fuel)
  let ?h = "sl_heap sl"
  have lev: "lev ?h (nd ns r) i = nxt (hgt ?h) i (drop r ns)"
    using sl_rep_lev [OF rep _ i] Suc.prems p by simp
  show ?case
  proof (cases rule: nxt_cases [of "drop r ns" "hgt ?h" i])
    case none
    have "prk (hgt ?h) ns i p = r"
      using Suc.prems p none(1) nth_in_drop [of r _ ns] by (intro prk_unique) auto
    then show ?thesis by (simp add: lev none)
  next
    case (found j)
    let ?k = "r + j"
    have k: "?k < length ns" "drop r ns ! j = ns ! ?k" "i < hgt ?h (ns ! ?k)"
      using found by auto
    have rank: "int r + lv_span (lev ?h (nd ns r) i) = int (?k + 1)" by (simp add: lev found(4))
    show ?thesis
    proof (cases "?k < p")
      case True
      have "walk fuel ?h i test (nd ns (?k + 1)) (int (?k + 1)) =
            Some (nd ns (prk (hgt ?h) ns i p), int (prk (hgt ?h) ns i p))"
        using True k Suc.prems by (intro Suc.IH) auto
      then show ?thesis using test [OF k(1)] True k rank by (simp add: lev found(4) ac_simps)
    next
      case False
      have "prk (hgt ?h) ns i p = r"
        using Suc.prems p False found(3) by (intro prk_unique) (auto dest: found(3) simp: le_iff_add)
      then show ?thesis using test [OF k(1)] False k by (simp add: lev found(4) ac_simps)
    qed
  qed
qed simp

lemma descend_spec:
  assumes rep: "sl_rep sl ns" and p: "p \<le> length ns"
    and test: "\<And>k. k < length ns \<Longrightarrow> test (sl_heap sl (ns ! k)) (int k + 1) \<longleftrightarrow> k < p"
    and m: "m \<le> sl_level sl" and r: "r \<le> p" "r = 0 \<or> m \<le> hgt (sl_heap sl) (ns ! (r - 1))"
    and fuel: "p < fuel"
  shows "descend fuel (sl_heap sl) test m (nd ns r) (int r) path =
         Some (map (\<lambda>i. (nd ns (prk (hgt (sl_heap sl)) ns i p), int (prk (hgt (sl_heap sl)) ns i p))) [0..<m] @ path)"
  using m r
proof (induction m arbitrary: r path)
  case (Suc m)
  let ?h = "sl_heap sl" and ?r = "prk (hgt (sl_heap sl)) ns m p"
  have "walk fuel ?h m test (nd ns r) (int r) = Some (nd ns ?r, int ?r)"
    using Suc.prems fuel by (intro walk_spec [OF rep _ p test]) auto
  moreover have "descend fuel ?h test m (nd ns ?r) (int ?r) ((nd ns ?r, int ?r) # path) =
    Some (map (\<lambda>i. (nd ns (prk (hgt ?h) ns i p), int (prk (hgt ?h) ns i p))) [0..<m] @ (nd ns ?r, int ?r) # path)"
    using Suc.prems prk_spec(1,2) [OF p, of "hgt ?h" m] by (intro Suc.IH) auto
  ultimately show ?case by simp
qed simp

lemma length_le_fresh: "sl_rep sl ns \<Longrightarrow> length ns < sl_fresh sl"
proof -
  assume rep: "sl_rep sl ns"
  then have "set ns \<subseteq> {1..<sl_fresh sl}" "distinct ns" "0 < sl_fresh sl"
    by (auto simp: sl_rep_def Suc_le_eq intro: gr0I)
  then show ?thesis
    using card_mono [of "{1..<sl_fresh sl}" "set ns"] by (auto simp: distinct_card)
qed

lemma search_spec:
  assumes rep: "sl_rep sl ns" and p: "p \<le> length ns"
    and test: "\<And>k. k < length ns \<Longrightarrow> test (sl_heap sl (ns ! k)) (int k + 1) \<longleftrightarrow> k < p"
  shows "search sl test =
         Some (map (\<lambda>i. (nd ns (prk (hgt (sl_heap sl)) ns i p), int (prk (hgt (sl_heap sl)) ns i p))) [0..<sl_level sl])"
  using descend_spec [OF rep p test order_refl, of 0 "sl_fresh sl" "[]"] length_le_fresh [OF rep] p
  by (simp add: search_def)

section \<open>Successors in an edited list\<close>

lemma nxt_skip:
  assumes "\<And>z. z \<in> set pre \<Longrightarrow> ht z \<le> i"
  shows "nxt ht i (pre @ zs) = (nxt ht i zs)\<lparr>lv_span := lv_span (nxt ht i zs) + int (length pre)\<rparr>"
proof -
  have "takeWhile (\<lambda>z. ht z \<le> i) (pre @ zs) = pre @ takeWhile (\<lambda>z. ht z \<le> i) zs"
    using assms by (intro takeWhile_append2) auto
  then show ?thesis by (simp add: nxt_def Let_def nth_append)
qed

lemma nxt_stop:
  assumes "z \<in> set pre" "i < ht z"
  shows "nxt ht i (pre @ zs) = nxt ht i pre"
proof -
  have tw: "takeWhile (\<lambda>z. ht z \<le> i) (pre @ zs) = takeWhile (\<lambda>z. ht z \<le> i) pre"
    using assms by (intro takeWhile_append1) auto
  have "length (takeWhile (\<lambda>z. ht z \<le> i) pre) < length pre"
    using assms by (metis length_takeWhile_le nat_less_le not_le set_takeWhileD takeWhile_eq_take take_all order_refl)
  then show ?thesis by (simp add: nxt_def Let_def tw nth_append)
qed

lemma nxt_head: "i < ht x \<Longrightarrow> nxt ht i (x # zs) = \<lparr>lv_forward = Some x, lv_span = 1\<rparr>"
  using nxt_found [of 0 "x # zs" i ht] by simp

lemma nxt_cong: "(\<And>z. z \<in> set zs \<Longrightarrow> ht z = ht' z) \<Longrightarrow> nxt ht i zs = nxt ht' i zs"
proof -
  assume "\<And>z. z \<in> set zs \<Longrightarrow> ht z = ht' z"
  then have "takeWhile (\<lambda>z. ht z \<le> i) zs = takeWhile (\<lambda>z. ht' z \<le> i) zs" by (intro takeWhile_cong) auto
  then show ?thesis by (simp add: nxt_def)
qed

lemma drop_split: "r \<le> p \<Longrightarrow> p \<le> length ns \<Longrightarrow> drop r ns = drop r (take p ns) @ drop p ns"
  by (metis append_take_drop_id drop_append drop_take length_take min.absorb2 diff_is_0_eq drop_0)

text \<open>Between the predecessor at level \<open>i\<close> and position \<open>p\<close> there is no node taller than \<open>i\<close>.\<close>

lemma between_low:
  assumes "p \<le> length ns" "z \<in> set (drop (prk ht ns i p) (take p ns))"
  shows "ht z \<le> i"
proof -
  obtain k where "k < length (drop (prk ht ns i p) (take p ns))" "drop (prk ht ns i p) (take p ns) ! k = z"
    using assms(2) by (auto simp: in_set_conv_nth)
  then show ?thesis using prk_spec(3) [OF assms(1), of ht i "prk ht ns i p + k"] assms(1) by auto
qed

lemma before_high:
  assumes "p \<le> length ns" "r < prk ht ns i p"
  shows "\<exists>z \<in> set (drop r (take p ns)). i < ht z"
proof -
  let ?q = "prk ht ns i p"
  have "i < ht (ns ! (?q - 1))" "?q \<le> p" using prk_spec(1,2) [OF assms(1), of ht i] assms(2) by auto
  moreover have "take p ns ! (?q - 1) \<in> set (drop r (take p ns))"
    using assms calculation(2) by (intro nth_in_drop) auto
  ultimately show ?thesis using assms by (intro bexI [of _ "take p ns ! (?q - 1)"]) auto
qed

lemma nxt_at_pred:
  assumes "p \<le> length ns" "r = prk ht ns i p"
  shows "nxt ht i (drop r ns) = (nxt ht i (drop p ns))\<lparr>lv_span := lv_span (nxt ht i (drop p ns)) + int (p - r)\<rparr>"
  using nxt_skip [of "drop r (take p ns)" ht i "drop p ns"] between_low [OF assms(1), of _ ht i]
    drop_split [of r p ns] prk_spec(1) [OF assms(1), of ht i] assms by (simp add: min_absorb2)

lemma nxt_insert:
  assumes p: "p \<le> length ns" and ht: "\<And>z. z \<in> set ns \<Longrightarrow> ht' z = ht z" and r: "r \<le> prk ht ns i p"
    and ns': "ns' = take p ns @ x # drop p ns"
  shows "nxt ht' i (drop r ns') =
     (if r < prk ht ns i p then nxt ht i (drop r ns)
      else if i < ht' x then \<lparr>lv_forward = Some x, lv_span = int (p - r) + 1\<rparr>
      else (nxt ht i (drop r ns))\<lparr>lv_span := lv_span (nxt ht i (drop r ns)) + 1\<rparr>)"
proof -
  have rp: "r \<le> p" using r prk_spec(1) [OF p, of ht i] by simp
  have d': "drop r ns' = drop r (take p ns) @ x # drop p ns" using rp p by (simp add: ns')
  have d: "drop r ns = drop r (take p ns) @ drop p ns" using drop_split [OF rp p] .
  have pre: "ht' z = ht z" if "z \<in> set (drop r (take p ns)) \<union> set (drop p ns)" for z
    using ht that by (auto dest: in_set_dropD in_set_takeD)
  show ?thesis
  proof (cases "r < prk ht ns i p")
    case True
    then obtain z where z: "z \<in> set (drop r (take p ns))" "i < ht z" using before_high [OF p] by blast
    then show ?thesis
      using True nxt_stop [of z _ i ht'] nxt_stop [of z _ i ht] pre nxt_cong [of "drop r (take p ns)" ht' ht i]
      by (simp add: d d' del: drop_drop)
  next
    case False
    then have eq: "r = prk ht ns i p" using r by simp
    have low: "ht' z \<le> i" if "z \<in> set (drop r (take p ns))" for z
      using between_low [OF p, of z ht i] that pre eq by simp
    have len: "int (length (drop r (take p ns))) = int (p - r)" using p by (simp add: min_absorb2)
    have "nxt ht' i (drop r ns') = (nxt ht' i (x # drop p ns))\<lparr>lv_span := lv_span (nxt ht' i (x # drop p ns)) + int (p - r)\<rparr>"
      unfolding d' len [symmetric] by (rule nxt_skip) (rule low)
    moreover have "nxt ht' i (drop p ns) = nxt ht i (drop p ns)" by (rule nxt_cong) (use pre in auto)
    moreover have "nxt ht' i (x # drop p ns) = (nxt ht' i (drop p ns))\<lparr>lv_span := lv_span (nxt ht' i (drop p ns)) + 1\<rparr>"
      if "\<not> i < ht' x" using nxt_skip [of "[x]" ht' i "drop p ns"] that by simp
    ultimately show ?thesis
      using False nxt_head [of i ht' x] nxt_at_pred [OF p eq] by auto
  qed
qed

lemma nxt_delete:
  assumes p: "p < length ns" and r: "r \<le> prk ht ns i p" and ns': "ns' = take p ns @ drop (p + 1) ns"
  shows "nxt ht i (drop r ns') =
     (if r < prk ht ns i p then nxt ht i (drop r ns)
      else if i < ht (ns ! p)
      then \<lparr>lv_forward = lv_forward (nxt ht i (drop (p + 1) ns)),
            lv_span = int (p - r) + lv_span (nxt ht i (drop (p + 1) ns))\<rparr>
      else (nxt ht i (drop r ns))\<lparr>lv_span := lv_span (nxt ht i (drop r ns)) - 1\<rparr>)"
    and "r = prk ht ns i p \<Longrightarrow> i < ht (ns ! p) \<Longrightarrow>
         nxt ht i (drop r ns) = \<lparr>lv_forward = Some (ns ! p), lv_span = int (p - r) + 1\<rparr>"
    and "r = prk ht ns i p \<Longrightarrow> \<not> i < ht (ns ! p) \<Longrightarrow>
         nxt ht i (drop r ns) = (nxt ht i (drop (p + 1) ns))\<lparr>lv_span := lv_span (nxt ht i (drop (p + 1) ns)) + int (p - r) + 1\<rparr>"
proof -
  have p': "p \<le> length ns" using p by simp
  have rp: "r \<le> p" using r prk_spec(1) [OF p', of ht i] by simp
  have dp: "drop p ns = ns ! p # drop (p + 1) ns" using p by (simp add: Cons_nth_drop_Suc)
  have d': "drop r ns' = drop r (take p ns) @ drop (p + 1) ns" using rp p by (simp add: ns')
  have d: "drop r ns = drop r (take p ns) @ drop p ns" using drop_split [OF rp p'] .
  have len: "int (length (drop r (take p ns))) = int (p - r)" using p by (simp add: min_absorb2)
  have tall: "nxt ht i (drop p ns) = \<lparr>lv_forward = Some (ns ! p), lv_span = 1\<rparr>" if "i < ht (ns ! p)"
    unfolding dp using that by (rule nxt_head)
  have short: "nxt ht i (drop p ns) = (nxt ht i (drop (p + 1) ns))\<lparr>lv_span := lv_span (nxt ht i (drop (p + 1) ns)) + 1\<rparr>"
    if "\<not> i < ht (ns ! p)" unfolding dp using nxt_skip [of "[ns ! p]" ht i "drop (p + 1) ns"] that by simp
  show eq1: "nxt ht i (drop r ns) = \<lparr>lv_forward = Some (ns ! p), lv_span = int (p - r) + 1\<rparr>"
    if "r = prk ht ns i p" "i < ht (ns ! p)"
    using nxt_at_pred [OF p' that(1)] tall [OF that(2)] by simp
  show eq2: "nxt ht i (drop r ns) = (nxt ht i (drop (p + 1) ns))\<lparr>lv_span := lv_span (nxt ht i (drop (p + 1) ns)) + int (p - r) + 1\<rparr>"
    if "r = prk ht ns i p" "\<not> i < ht (ns ! p)"
    using nxt_at_pred [OF p' that(1)] short [OF that(2)] by simp
  show "nxt ht i (drop r ns') =
     (if r < prk ht ns i p then nxt ht i (drop r ns)
      else if i < ht (ns ! p)
      then \<lparr>lv_forward = lv_forward (nxt ht i (drop (p + 1) ns)),
            lv_span = int (p - r) + lv_span (nxt ht i (drop (p + 1) ns))\<rparr>
      else (nxt ht i (drop r ns))\<lparr>lv_span := lv_span (nxt ht i (drop r ns)) - 1\<rparr>)"
  proof (cases "r < prk ht ns i p")
    case True
    then obtain z where z: "z \<in> set (drop r (take p ns))" "i < ht z" using before_high [OF p'] by blast
    then show ?thesis using True nxt_stop [of z _ i ht] by (simp add: d d' del: drop_drop)
  next
    case False
    then have eq: "r = prk ht ns i p" using r by simp
    have "nxt ht i (drop r ns') = (nxt ht i (drop (p + 1) ns))\<lparr>lv_span := lv_span (nxt ht i (drop (p + 1) ns)) + int (p - r)\<rparr>"
      unfolding d' len [symmetric] by (rule nxt_skip) (use between_low [OF p', of _ ht i] eq in auto)
    then show ?thesis using False eq2 [OF eq] by (cases "nxt ht i (drop (p + 1) ns)") auto
  qed
qed

section \<open>Heap updates, one column at a time\<close>

text \<open>Everything about a heap except the level entries.\<close>

definition frame :: "zheap \<Rightarrow> (nat \<Rightarrow> nat) \<times> (nat \<Rightarrow> zentry) \<times> (nat \<Rightarrow> nat option)" where
  "frame h = (hgt h, item h, \<lambda>x. zn_backward (h x))"

lemma frame_setlev [simp]: "frame (setlev h x i l) = frame h"
  by (auto simp: frame_def setlev_def hgt_def item_def fun_eq_iff)

lemma lev_setlev: "i < hgt h x \<Longrightarrow> lev (setlev h x i l) y j = (if y = x \<and> j = i then l else lev h y j)"
  by (auto simp: lev_def setlev_def hgt_def)

lemma set_backward [simp]:
  "hgt (h(x := (h x)\<lparr>zn_backward := b\<rparr>)) = hgt h" "item (h(x := (h x)\<lparr>zn_backward := b\<rparr>)) = item h"
  "lev (h(x := (h x)\<lparr>zn_backward := b\<rparr>)) = lev h"
  by (auto simp: hgt_def item_def lev_def fun_eq_iff)

lemma frame_hgt: "frame h = frame h' \<Longrightarrow> hgt h = hgt h'"
  by (simp add: frame_def)

text \<open>A loop over levels whose body rewrites column \<open>i\<close> as a function of that column.\<close>

lemma foldl_columns:
  assumes step: "\<And>h i. frame h = fr \<Longrightarrow> a \<le> i \<Longrightarrow> i < b \<Longrightarrow>
      frame (f h i) = fr \<and> (\<forall>y j. lev (f h i) y j = (if j = i then F i (\<lambda>y. lev h y i) y else lev h y j))"
    and "frame h = fr"
  shows "frame (foldl f h [a..<b]) = fr \<and>
     (\<forall>y j. lev (foldl f h [a..<b]) y j = (if a \<le> j \<and> j < b then F j (\<lambda>y. lev h y j) y else lev h y j))"
  using step
proof (induction b)
  case (Suc b)
  show ?case
  proof (cases "a \<le> b")
    case True
    have IH: "frame (foldl f h [a..<b]) = fr \<and>
     (\<forall>y j. lev (foldl f h [a..<b]) y j = (if a \<le> j \<and> j < b then F j (\<lambda>y. lev h y j) y else lev h y j))"
      using Suc.prems by (intro Suc.IH) auto
    then have "frame (f (foldl f h [a..<b]) b) = fr"
      "lev (f (foldl f h [a..<b]) b) y j = (if j = b then F b (\<lambda>y. lev (foldl f h [a..<b]) y b) y else lev (foldl f h [a..<b]) y j)" for y j
      using Suc.prems [of "foldl f h [a..<b]" b] True by auto
    then show ?thesis using IH True by (auto simp: less_Suc_eq)
  next
    case False
    then show ?thesis using assms(2) by auto
  qed
qed (simp add: assms(2))

definition link_column :: "nat \<Rightarrow> nat \<Rightarrow> int \<Rightarrow> (nat \<Rightarrow> zsetLevel) \<Rightarrow> nat \<Rightarrow> zsetLevel" where
  "link_column x u gap c =
     c(x := \<lparr>lv_forward = lv_forward (c u), lv_span = lv_span (c u) - gap\<rparr>,
       u := \<lparr>lv_forward = Some x, lv_span = gap + 1\<rparr>)"

lemma link_level_column:
  assumes "i < hgt h x" "i < hgt h (fst (path ! i))" "fst (path ! i) \<noteq> x"
  shows "frame (link_level x path h i) = frame h"
    "lev (link_level x path h i) y j =
      (if j = i then link_column x (fst (path ! i)) (snd (path ! 0) - snd (path ! i)) (\<lambda>y. lev h y i) y else lev h y j)"
proof -
  have hg: "hgt (setlev h' z k l) = hgt h'" for h' z k l
    using frame_setlev frame_hgt by blast
  show "frame (link_level x path h i) = frame h" by (simp add: link_level_def Let_def)
  show "lev (link_level x path h i) y j =
      (if j = i then link_column x (fst (path ! i)) (snd (path ! 0) - snd (path ! i)) (\<lambda>y. lev h y i) y else lev h y j)"
    using assms by (auto simp: link_level_def Let_def lev_setlev hg link_column_def)
qed

lemma widen_level_column:
  assumes "i < hgt h (fst (path ! i))"
  shows "frame (widen_level path h i) = frame h"
    "lev (widen_level path h i) y j =
      (if j = i then ((\<lambda>y. lev h y i)(fst (path ! i) := (lev h (fst (path ! i)) i)
          \<lparr>lv_span := lv_span (lev h (fst (path ! i)) i) + 1\<rparr>)) y else lev h y j)"
  using assms by (auto simp: widen_level_def Let_def lev_setlev)

lemma raise_header_column:
  assumes "i < hgt h 0"
  shows "frame (raise_header n h i) = frame h"
    "lev (raise_header n h i) y j =
      (if j = i then ((\<lambda>y. lev h y i)(0 := (lev h 0 i)\<lparr>lv_span := int n\<rparr>)) y else lev h y j)"
  using assms by (auto simp: raise_header_def lev_setlev)

definition unlink_column :: "nat \<Rightarrow> nat \<Rightarrow> (nat \<Rightarrow> zsetLevel) \<Rightarrow> nat \<Rightarrow> zsetLevel" where
  "unlink_column node u c =
     (if lv_forward (c u) = Some node
      then c(u := \<lparr>lv_forward = lv_forward (c node), lv_span = lv_span (c u) + (lv_span (c node) - 1)\<rparr>)
      else c(u := (c u)\<lparr>lv_span := lv_span (c u) - 1\<rparr>))"

lemma unlink_level_column:
  assumes "i < hgt h (fst (path ! i))" "fst (path ! i) \<noteq> node"
  shows "frame (unlink_level node path h i) = frame h"
    "lev (unlink_level node path h i) y j =
      (if j = i then unlink_column node (fst (path ! i)) (\<lambda>y. lev h y i) y else lev h y j)"
proof -
  have hg: "hgt (setlev h' z k l) = hgt h'" for h' z k l
    using frame_setlev frame_hgt by blast
  show "frame (unlink_level node path h i) = frame h" by (simp add: unlink_level_def Let_def)
  show "lev (unlink_level node path h i) y j =
      (if j = i then unlink_column node (fst (path ! i)) (\<lambda>y. lev h y i) y else lev h y j)"
    using assms by (auto simp: unlink_level_def Let_def lev_setlev hg unlink_column_def)
qed

lemma randomZSetLevel_range: "1 \<le> randomZSetLevel coin \<and> randomZSetLevel coin \<le> zsetMaxLevel"
proof -
  have "l \<le> zsetMaxLevel \<Longrightarrow> l \<le> randomLevel_loop coin l \<and> randomLevel_loop coin l \<le> zsetMaxLevel" for l
  proof (induction coin l rule: randomLevel_loop.induct)
    case (1 coin level)
    then show ?case by (subst (1 2) randomLevel_loop.simps) auto
  qed
  then show ?thesis by (auto simp: randomZSetLevel_def)
qed

section \<open>Insertion\<close>

text \<open>The unused levels of the header already look like levels of the list once their span is set, so
  raising the level of the list keeps the invariant.\<close>

lemma raise_rep:
  assumes rep: "sl_rep sl ns" and L: "L \<le> zsetMaxLevel"
  defines "h1 \<equiv> foldl (raise_header (sl_length sl)) (sl_heap sl) [sl_level sl..<L]"
  shows "sl_rep (sl\<lparr>sl_heap := h1, sl_level := max (sl_level sl) L\<rparr>) ns" "frame h1 = frame (sl_heap sl)"
proof -
  let ?h = "sl_heap sl"
  have "frame h1 = frame ?h \<and> (\<forall>y j. lev h1 y j = (if sl_level sl \<le> j \<and> j < L
     then ((\<lambda>y. lev ?h y j)(0 := (lev ?h 0 j)\<lparr>lv_span := int (sl_length sl)\<rparr>)) y else lev ?h y j))"
    unfolding h1_def
  proof (rule foldl_columns)
    fix h i assume "frame h = frame ?h" "i < L"
    then have "i < hgt h 0" using rep L by (auto simp: sl_rep_def dest!: frame_hgt)
    then show "frame (raise_header (sl_length sl) h i) = frame ?h \<and>
      (\<forall>y j. lev (raise_header (sl_length sl) h i) y j = (if j = i then
         ((\<lambda>y. lev h y i)(0 := (lev h 0 i)\<lparr>lv_span := int (sl_length sl)\<rparr>)) y else lev h y j))"
      using \<open>frame h = frame ?h\<close> by (simp add: raise_header_column)
  qed simp
  then have fr: "frame h1 = frame ?h" and lv: "\<And>y j. lev h1 y j = (if sl_level sl \<le> j \<and> j < L \<and> y = 0
      then (lev ?h 0 j)\<lparr>lv_span := int (sl_length sl)\<rparr> else lev ?h y j)" by auto
  have eqs: "hgt h1 = hgt ?h" "item h1 = item ?h" "\<And>y. zn_backward (h1 y) = zn_backward (?h y)"
    using fr by (simp_all add: frame_def fun_eq_iff)
  have sc: "zn_score (h1 y) = zn_score (?h y)" for y using eqs(2) by (simp add: item_def fun_eq_iff)
  have "lev h1 (nd ns r) i = nxt (hgt ?h) i (drop r ns)"
    if "r \<le> length ns" "i < max (sl_level sl) L" "i < hgt ?h (nd ns r)" for r i
  proof (cases "i < sl_level sl")
    case True
    then show ?thesis using that rep lv by (auto simp: sl_rep_def)
  next
    case False
    then have "r = 0" using that sl_rep_hgt [OF rep nth_mem [of "r - 1" ns]] by (cases r) auto
    moreover have "nxt (hgt ?h) i ns = \<lparr>lv_forward = None, lv_span = int (length ns)\<rparr>"
      using rep False by (intro nxt_none) (auto simp: sl_rep_def)
    moreover have "lv_forward (lev ?h 0 i) = None" "length ns = sl_length sl"
      using rep False that L by (auto simp: sl_rep_def)
    ultimately show ?thesis using False that lv by (cases "lev ?h 0 i") auto
  qed
  moreover have "lv_forward (lev h1 0 i) = None" if "i < zsetMaxLevel" "max (sl_level sl) L \<le> i" for i
    using rep that lv by (auto simp: sl_rep_def)
  ultimately show "sl_rep (sl\<lparr>sl_heap := h1, sl_level := max (sl_level sl) L\<rparr>) ns"
    using rep L by (auto simp: sl_rep_def eqs sc)
  show "frame h1 = frame ?h" by (rule fr)
qed

text \<open>Where a key belongs.\<close>

definition key_pos :: "zheap \<Rightarrow> nat list \<Rightarrow> float64 \<Rightarrow> bytes \<Rightarrow> nat" where
  "key_pos h ns score member = length (takeWhile (\<lambda>x. zkey (item h x) < zkey (member, score)) ns)"

lemma sl_rep_sorted: "sl_rep sl ns \<Longrightarrow> i < j \<Longrightarrow> j < length ns \<Longrightarrow>
   zkey (item (sl_heap sl) (ns ! i)) < zkey (item (sl_heap sl) (ns ! j))"
  using sorted_wrt_nth_less [of "(<)" "map zkey (map (item (sl_heap sl)) ns)" i j]
  by (simp add: sl_rep_def zsorted_def)

lemma key_pos_spec:
  assumes "sl_rep sl ns"
  shows "key_pos (sl_heap sl) ns score member \<le> length ns"
    "k < length ns \<Longrightarrow> zkey (item (sl_heap sl) (ns ! k)) < zkey (member, score) \<longleftrightarrow> k < key_pos (sl_heap sl) ns score member"
  unfolding key_pos_def
  by (simp add: length_takeWhile_le, rule takeWhile_downward) (auto intro: less_trans dest: sl_rep_sorted [OF assms])

lemma search_key:
  assumes rep: "sl_rep sl ns" and sc: "score \<noteq> NaN" and p_def: "p = key_pos (sl_heap sl) ns score member"
  shows "search sl (\<lambda>next rank. zsetLess (zn_score next) (zn_member next) score member) =
         Some (map (\<lambda>i. (nd ns (prk (hgt (sl_heap sl)) ns i p), int (prk (hgt (sl_heap sl)) ns i p))) [0..<sl_level sl])"
proof (rule search_spec [OF rep])
  show "p \<le> length ns" using key_pos_spec(1) [OF rep] by (simp add: p_def)
  fix k assume k: "k < length ns"
  then have "zn_score (sl_heap sl (ns ! k)) \<noteq> NaN" using rep by (simp add: sl_rep_def)
  then show "zsetLess (zn_score (sl_heap sl (ns ! k))) (zn_member (sl_heap sl (ns ! k))) score member \<longleftrightarrow> k < p"
    using zsetLess_zkey [OF _ sc] key_pos_spec(2) [OF rep k, of member score] by (simp add: item_def p_def)
qed

text \<open>The node reached at level \<open>i\<close> has that level, and is never the inserted node.\<close>

lemma pred_node:
  assumes "sl_rep sl ns" "p \<le> length ns" "i < sl_level sl"
  shows "i < hgt (sl_heap sl) (nd ns (prk (hgt (sl_heap sl)) ns i p))"
    "nd ns (prk (hgt (sl_heap sl)) ns i p) \<in> insert 0 (set ns)"
proof -
  let ?r = "prk (hgt (sl_heap sl)) ns i p"
  have r: "?r \<le> p" "?r = 0 \<or> i < hgt (sl_heap sl) (ns ! (?r - 1))" using prk_spec [OF assms(2)] by blast+
  show "i < hgt (sl_heap sl) (nd ns ?r)" using r assms(1,3) by (cases ?r) (auto simp: sl_rep_def)
  show "nd ns ?r \<in> insert 0 (set ns)" using r(1) assms(2) by (cases ?r) auto
qed

lemma nd_inj: "distinct ns \<Longrightarrow> 0 \<notin> set ns \<Longrightarrow> r \<le> length ns \<Longrightarrow> r' \<le> length ns \<Longrightarrow> nd ns r = nd ns r' \<longleftrightarrow> r = r'"
  by (rule nth_eq_iff_index_eq) auto

lemma prk_zero: "p \<le> length ns \<Longrightarrow> (\<And>z. z \<in> set ns \<Longrightarrow> 1 \<le> ht z) \<Longrightarrow> prk ht ns 0 p = p"
proof (rule prk_unique)
  assume *: "p \<le> length ns" "\<And>z. z \<in> set ns \<Longrightarrow> 1 \<le> ht z"
  show "p = 0 \<or> 0 < ht (ns ! (p - 1))" 
  proof (cases p)
    case (Suc n)
    then have "ns ! n \<in> set ns" using *(1) by simp
    from *(2) [OF this] show ?thesis using Suc by simp
  qed simp
qed auto

lemma le_prk: "p \<le> length ns \<Longrightarrow> r \<le> p \<Longrightarrow> r = 0 \<or> i < ht (ns ! (r - 1)) \<Longrightarrow> r \<le> prk ht ns i p"
  using prk_spec(3) [of p ns ht i "r - 1"] by (cases r; cases "prk ht ns i p \<le> r - 1") auto

lemma ins_nth: "p \<le> length ns \<Longrightarrow> k \<le> length ns \<Longrightarrow>
   (take p ns @ x # drop p ns) ! k = (if k < p then ns ! k else if k = p then x else ns ! (k - 1))"
  by (auto simp: nth_append nth_Cons')

text \<open>The level entries after the linking and widening loops.\<close>

lemma link_widen:
  assumes rep: "sl_rep sl ns" and L: "1 \<le> L" "L \<le> sl_level sl" and p: "p \<le> length ns"
  defines "h \<equiv> sl_heap sl" and "x \<equiv> sl_fresh sl"
  defines "u \<equiv> \<lambda>i. nd ns (prk (hgt h) ns i p)"
  defines "path \<equiv> map (\<lambda>i. (u i, int (prk (hgt h) ns i p))) [0..<sl_level sl]"
  assumes h2: "frame h2 = ((hgt h)(x := L), (item h)(x := it), bw)" "\<And>y j. y \<noteq> x \<Longrightarrow> lev h2 y j = lev h y j"
  defines "h4 \<equiv> foldl (widen_level path) (foldl (link_level x path) h2 [0..<L]) [L..<sl_level sl]"
  shows "frame h4 = frame h2"
    "y \<noteq> x \<Longrightarrow> lev h4 y j =
       (if j < sl_level sl \<and> y = u j
        then if j < L then \<lparr>lv_forward = Some x, lv_span = int (p - prk (hgt h) ns j p) + 1\<rparr>
             else (lev h y j)\<lparr>lv_span := lv_span (lev h y j) + 1\<rparr>
        else lev h y j)"
    "j < L \<Longrightarrow> lev h4 x j = \<lparr>lv_forward = lv_forward (lev h (u j) j),
                             lv_span = lv_span (lev h (u j) j) - int (p - prk (hgt h) ns j p)\<rparr>"
proof -
  have ux: "u j \<noteq> x" if "j < sl_level sl" for j
    using pred_node(2) [OF rep p that] rep by (auto simp: u_def h_def x_def sl_rep_def)
  have uh: "j < hgt h (u j)" if "j < sl_level sl" for j
    using pred_node(1) [OF rep p that] by (simp add: u_def h_def)
  have path: "path ! j = (u j, int (prk (hgt h) ns j p))" if "j < sl_level sl" for j
    using that by (simp add: path_def)
  have z: "prk (hgt h) ns 0 p = p" using rep by (intro prk_zero [OF p]) (auto simp: sl_rep_def h_def)
  have gap: "snd (path ! 0) - snd (path ! j) = int (p - prk (hgt h) ns j p)" if "j < sl_level sl" for j
    using path [OF that] path [of 0] z prk_spec(1) [OF p, of "hgt h" j] that by (simp add: of_nat_diff)
  let ?F = "\<lambda>i. link_column x (u i) (int (p - prk (hgt h) ns i p))"
  have A: "frame (foldl (link_level x path) h2 [0..<L]) = frame h2 \<and>
     (\<forall>y j. lev (foldl (link_level x path) h2 [0..<L]) y j = (if 0 \<le> j \<and> j < L then ?F j (\<lambda>y. lev h2 y j) y else lev h2 y j))"
  proof (rule foldl_columns)
    fix g i assume g: "frame g = frame h2" and i: "i < L"
    have hg: "hgt g = (hgt h)(x := L)" using g h2(1) by (simp add: frame_def)
    have i': "i < sl_level sl" using i L by simp
    have "i < hgt g x" "i < hgt g (fst (path ! i))" "fst (path ! i) \<noteq> x"
      using i i' ux [OF i'] uh [OF i'] path [OF i'] by (simp_all add: hg)
    from link_level_column [OF this]
    show "frame (link_level x path g i) = frame h2 \<and>
        (\<forall>y j. lev (link_level x path g i) y j = (if j = i then ?F i (\<lambda>y. lev g y i) y else lev g y j))"
      using g path [OF i'] gap [OF i'] by simp
  qed simp
  let ?h3 = "foldl (link_level x path) h2 [0..<L]"
  let ?G = "\<lambda>i c. c(u i := (c (u i))\<lparr>lv_span := lv_span (c (u i)) + 1\<rparr>)"
  have B: "frame h4 = frame h2 \<and>
     (\<forall>y j. lev h4 y j = (if L \<le> j \<and> j < sl_level sl then ?G j (\<lambda>y. lev ?h3 y j) y else lev ?h3 y j))"
    unfolding h4_def
  proof (rule foldl_columns)
    fix g i assume g: "frame g = frame h2" and i: "i < sl_level sl"
    have hg: "hgt g = (hgt h)(x := L)" using g h2(1) by (simp add: frame_def)
    have "i < hgt g (fst (path ! i))" using ux [OF i] uh [OF i] path [OF i] by (simp add: hg)
    from widen_level_column [OF this]
    show "frame (widen_level path g i) = frame h2 \<and>
        (\<forall>y j. lev (widen_level path g i) y j = (if j = i then ?G i (\<lambda>y. lev g y i) y else lev g y j))"
      using g path [OF i] by simp
  qed (use A in simp)
  show "frame h4 = frame h2" using B by simp
  show "lev h4 y j =
       (if j < sl_level sl \<and> y = u j
        then if j < L then \<lparr>lv_forward = Some x, lv_span = int (p - prk (hgt h) ns j p) + 1\<rparr>
             else (lev h y j)\<lparr>lv_span := lv_span (lev h y j) + 1\<rparr>
        else lev h y j)" if "y \<noteq> x"
    using A B that h2(2) [of y] L by (auto simp: link_column_def)
  show "lev h4 x j = \<lparr>lv_forward = lv_forward (lev h (u j) j),
                             lv_span = lv_span (lev h (u j) j) - int (p - prk (hgt h) ns j p)\<rparr>" if "j < L"
  proof -
    have "u j \<noteq> x" using ux that L by simp
    then show ?thesis using A B that h2(2) [of "u j"] by (auto simp: link_column_def)
  qed
qed

lemma insert_levels:
  assumes rep: "sl_rep sl ns" and L: "1 \<le> L" "L \<le> sl_level sl" and p: "p \<le> length ns"
  defines "h \<equiv> sl_heap sl" and "x \<equiv> sl_fresh sl"
  defines "u \<equiv> \<lambda>i. nd ns (prk (hgt h) ns i p)" and "ns' \<equiv> take p ns @ x # drop p ns"
  assumes ht': "hgt h' = (hgt h)(x := L)"
    and lev: "\<And>y j. y \<noteq> x \<Longrightarrow> lev h' y j =
       (if j < sl_level sl \<and> y = u j
        then if j < L then \<lparr>lv_forward = Some x, lv_span = int (p - prk (hgt h) ns j p) + 1\<rparr>
             else (lev h y j)\<lparr>lv_span := lv_span (lev h y j) + 1\<rparr>
        else lev h y j)"
      "\<And>j. j < L \<Longrightarrow> lev h' x j = \<lparr>lv_forward = lv_forward (lev h (u j) j),
                             lv_span = lv_span (lev h (u j) j) - int (p - prk (hgt h) ns j p)\<rparr>"
    and r: "r \<le> length ns'" "i < sl_level sl" "i < hgt h' (nd ns' r)"
  shows "lev h' (nd ns' r) i = nxt (hgt h') i (drop r ns')"
proof -
  have x: "x \<notin> set ns" "x \<noteq> 0" using rep by (auto simp: x_def sl_rep_def)
  have d: "distinct ns" "0 \<notin> set ns" using rep by (auto simp: sl_rep_def)
  let ?q = "prk (hgt h) ns i p"
  have q: "?q \<le> p" by (rule prk_spec(1) [OF p])
  have same: "hgt h' z = hgt h z" if "z \<in> set ns" for z using that x by (auto simp: ht')
  have old: "lev h (nd ns k) i = nxt (hgt h) i (drop k ns)" if "k \<le> length ns" "k = 0 \<or> i < hgt h (ns ! (k - 1))" for k
    using sl_rep_lev [OF rep that(1) r(2)] that(2) by (simp add: h_def)
  have lu: "lev h (u i) i = nxt (hgt h) i (drop ?q ns)"
    using old [of ?q] prk_spec(2) [OF p, of "hgt h" i] q p by (auto simp: u_def)
  consider "r \<le> p" | "r = p + 1" | "p + 1 < r" by linarith
  then show ?thesis
  proof cases
    case 1
    then have y: "nd ns' r = nd ns r" using p by (cases r) (auto simp: ns'_def nth_append)
    have yx: "nd ns r \<noteq> x" using 1 p x by (cases r) auto
    have ir: "r = 0 \<or> i < hgt h (ns ! (r - 1))"
      using r(3) y yx 1 p by (cases r) (auto simp: ht')
    have rq: "r \<le> ?q" by (rule le_prk [OF p 1]) (use ir in auto)
    have eq: "nd ns r = u i \<longleftrightarrow> r = ?q" unfolding u_def using nd_inj [OF d] 1 p q by auto
    have n: "nxt (hgt h') i (drop r ns') =
     (if r < ?q then nxt (hgt h) i (drop r ns)
      else if i < hgt h' x then \<lparr>lv_forward = Some x, lv_span = int (p - r) + 1\<rparr>
      else (nxt (hgt h) i (drop r ns))\<lparr>lv_span := lv_span (nxt (hgt h) i (drop r ns)) + 1\<rparr>)"
      by (rule nxt_insert [OF p same rq ns'_def [THEN meta_eq_to_obj_eq]])
    show ?thesis
      unfolding y n lev(1) [OF yx] using eq rq r(2) old [of r] ir 1 p by (auto simp: ht')
  next
    case 2
    then have y: "nd ns' r = x" using p by (simp add: ns'_def nth_append)
    have iL: "i < L" using r(3) y by (simp add: ht')
    have "drop r ns' = drop p ns" using 2 p by (simp add: ns'_def)
    moreover have "nxt (hgt h') i (drop p ns) = nxt (hgt h) i (drop p ns)"
      by (rule nxt_cong) (use same in \<open>auto dest: in_set_dropD\<close>)
    ultimately show ?thesis
      unfolding y lev(2) [OF iL] lu using nxt_at_pred [OF p refl, of "hgt h" i]
      by (cases "nxt (hgt h) i (drop p ns)") simp
  next
    case 3
    then obtain k where k: "r = Suc k" "p < k" "k \<le> length ns" using r(1) p by (cases r) (auto simp: ns'_def)
    then have y: "nd ns' r = nd ns k" using p by (cases k) (auto simp: ns'_def nth_append nth_Cons')
    have yx: "nd ns k \<noteq> x" using k x by (cases k) auto
    have "nd ns k \<noteq> u i" unfolding u_def using nd_inj [OF d, of k ?q] k q p by auto
    moreover have "drop r ns' = drop k ns" using k p by (simp add: ns'_def Suc_diff_le)
    moreover have "nxt (hgt h') i (drop k ns) = nxt (hgt h) i (drop k ns)"
      by (rule nxt_cong) (use same in \<open>auto dest: in_set_dropD\<close>)
    moreover have "k = 0 \<or> i < hgt h (ns ! (k - 1))" using r(3) y yx k by (cases k) (auto simp: ht')
    ultimately show ?thesis unfolding y using lev(1) [OF yx] old [OF k(3)] by simp
  qed
qed

lemma insert_backward:
  assumes rep: "sl_rep sl ns" and p: "p \<le> length ns"
  defines "h \<equiv> sl_heap sl" and "x \<equiv> sl_fresh sl"
  defines "ns' \<equiv> take p ns @ x # drop p ns"
  assumes bw: "\<And>y. zn_backward (h' y) =
      (if p < length ns \<and> y = ns ! p then Some x
       else if y = x then if nd ns p = 0 then None else Some (nd ns p) else zn_backward (h y))"
    and k: "k < length ns'"
  shows "zn_backward (h' (ns' ! k)) = (if k = 0 then None else Some (ns' ! (k - 1)))"
proof -
  have x: "x \<notin> set ns" using rep by (auto simp: x_def sl_rep_def)
  have d: "distinct ns" "0 \<notin> set ns" using rep by (auto simp: sl_rep_def)
  have old: "zn_backward (h (ns ! j)) = (if j = 0 then None else Some (ns ! (j - 1)))" if "j < length ns" for j
    using rep that by (simp add: sl_rep_def h_def)
  have kl: "k \<le> length ns" using k p by (simp add: ns'_def)
  note nth = ins_nth [OF p, where x = x, folded ns'_def]
  consider "k < p" | "k = p" | "k = p + 1" | "p + 1 < k" by linarith
  then show ?thesis
  proof cases
    case 1
    then have kk: "k < length ns" "k \<noteq> p" using p by simp_all
    have "ns ! k \<noteq> x" using x kk(1) by auto
    moreover have "\<not> (p < length ns \<and> ns ! k = ns ! p)" using d(1) kk by (simp add: nth_eq_iff_index_eq)
    ultimately have "zn_backward (h' (ns ! k)) = zn_backward (h (ns ! k))" unfolding bw by auto
    then show ?thesis using 1 nth [of k] nth [of "k - 1"] kk old [of k] by simp
  next
    case 2
    have "x \<noteq> ns ! p \<or> \<not> p < length ns" using x by auto
    moreover have "nd ns p = 0 \<longleftrightarrow> p = 0" using nd_inj [OF d p, of 0] by simp
    ultimately show ?thesis
      using 2 nth [of p] nth [of "p - 1"] p by (cases p) (auto simp: bw)
  next
    case 3
    then show ?thesis using nth [of k] nth [of p] p kl by (auto simp: bw)
  next
    case 4
    then have "ns ! (k - 1) \<noteq> ns ! p" "ns ! (k - 1) \<noteq> x"
      using d(1) kl x by (auto simp: nth_eq_iff_index_eq)
    then show ?thesis using 4 nth [of k] nth [of "k - 1"] kl old [of "k - 1"] by (auto simp: bw)
  qed
qed

lemma items_insert:
  assumes "x \<notin> set ns" "item h' = (item h)(x := (m, sc))"
  shows "map (item h') (take p ns @ x # drop p ns) = take p (map (item h) ns) @ (m, sc) # drop p (map (item h) ns)"
proof -
  have "map (item h') zs = map (item h) zs" if "set zs \<subseteq> set ns" for zs
    using assms that by (auto simp: subset_iff)
  from this [of "take p ns"] this [of "drop p ns"] show ?thesis
    by (simp add: set_take_subset set_drop_subset assms(2) take_map drop_map del: map_eq_conv)
qed

lemma zsorted_insert:
  assumes "zsorted es" "\<And>k. k < p \<Longrightarrow> k < length es \<Longrightarrow> zkey (es ! k) < zkey e"
    "\<And>k. p \<le> k \<Longrightarrow> k < length es \<Longrightarrow> zkey e < zkey (es ! k)"
  shows "zsorted (take p es @ e # drop p es)"
proof -
  have srt: "sorted_wrt (\<lambda>a b. zkey a < zkey b) (take p es @ drop p es)"
    using assms(1) by (simp add: zsorted_def sorted_wrt_map)
  have "zkey a < zkey e" if "a \<in> set (take p es)" for a
    using that assms(2) by (auto simp: in_set_conv_nth)
  moreover have "zkey e < zkey b" if b: "b \<in> set (drop p es)" for b
    using b assms(3) by (auto simp: in_set_conv_nth)
  ultimately show ?thesis
    using srt unfolding zsorted_def sorted_wrt_map by (auto simp: sorted_wrt_append simp del: append_take_drop_id)
qed

text \<open>The whole insertion, once the list is as high as the new node.\<close>

lemma insert_rep:
  assumes rep: "sl_rep sl ns" and L: "1 \<le> L" "L \<le> sl_level sl" and sc: "score \<noteq> NaN"
    and new: "\<And>z. z \<in> set ns \<Longrightarrow> item (sl_heap sl) z \<noteq> (member, score)"
    and p: "p = key_pos (sl_heap sl) ns score member"
  defines "x \<equiv> sl_fresh sl"
  defines "ns' \<equiv> take p ns @ x # drop p ns"
  assumes fr: "hgt h' = (hgt (sl_heap sl))(x := L)" "item h' = (item (sl_heap sl))(x := (member, score))"
    "\<And>y. zn_backward (h' y) =
      (if p < length ns \<and> y = ns ! p then Some x
       else if y = x then if nd ns p = 0 then None else Some (nd ns p) else zn_backward (sl_heap sl y))"
    and lev: "\<And>y j. y \<noteq> x \<Longrightarrow> lev h' y j =
       (if j < sl_level sl \<and> y = nd ns (prk (hgt (sl_heap sl)) ns j p)
        then if j < L then \<lparr>lv_forward = Some x, lv_span = int (p - prk (hgt (sl_heap sl)) ns j p) + 1\<rparr>
             else (lev (sl_heap sl) y j)\<lparr>lv_span := lv_span (lev (sl_heap sl) y j) + 1\<rparr>
        else lev (sl_heap sl) y j)"
      "\<And>j. j < L \<Longrightarrow> lev h' x j =
         \<lparr>lv_forward = lv_forward (lev (sl_heap sl) (nd ns (prk (hgt (sl_heap sl)) ns j p)) j),
          lv_span = lv_span (lev (sl_heap sl) (nd ns (prk (hgt (sl_heap sl)) ns j p)) j) - int (p - prk (hgt (sl_heap sl)) ns j p)\<rparr>"
    and sl': "sl' = sl\<lparr>sl_heap := h', sl_fresh := x + 1, sl_length := sl_length sl + 1,
                       sl_tail := (if p < length ns then sl_tail sl else Some x)\<rparr>"
  shows "sl_rep sl' ns'"
proof -
  let ?h = "sl_heap sl"
  have pl: "p \<le> length ns" using key_pos_spec(1) [OF rep] p by simp
  have x: "x \<notin> set ns" "x \<noteq> 0" using rep by (auto simp: x_def sl_rep_def)
  have len: "length ns' = length ns + 1" using pl by (simp add: ns'_def)
  have set': "set ns' = insert x (set ns)"
    unfolding ns'_def using set_append [of "take p ns" "drop p ns"] by auto
  have dist: "distinct ns'"
  proof -
    have "distinct (take p ns @ drop p ns)" using rep by (simp add: sl_rep_def)
    then show ?thesis using x(1) unfolding ns'_def
      by (auto simp del: append_take_drop_id dest: in_set_takeD in_set_dropD)
  qed
  have srt: "zsorted (map (item h') ns')"
    unfolding ns'_def items_insert [OF x(1) fr(2)]
  proof (rule zsorted_insert)
    show "zsorted (map (item ?h) ns)" using rep by (simp add: sl_rep_def)
    fix k assume k: "k < length (map (item ?h) ns)"
    then show "zkey (map (item ?h) ns ! k) < zkey (member, score)" if "k < p"
      using key_pos_spec(2) [OF rep, of k member score] that p by simp
    show "zkey (member, score) < zkey (map (item ?h) ns ! k)" if "p \<le> k"
    proof -
      have "\<not> zkey (item ?h (ns ! k)) < zkey (member, score)"
        using key_pos_spec(2) [OF rep, of k member score] that p k by simp
      moreover have "zkey (item ?h (ns ! k)) \<noteq> zkey (member, score)"
        using new [of "ns ! k"] k by (auto simp: zkey_def prod_eq_iff)
      ultimately show ?thesis using k by auto
    qed
  qed
  have levels: "lev h' (nd ns' r) i = nxt (hgt h') i (drop r ns')"
    if "r \<le> length ns'" "i < sl_level sl" "i < hgt h' (nd ns' r)" for r i
    by (rule insert_levels [OF rep L pl, folded x_def, OF fr(1) lev, folded ns'_def, OF _ _ that])
  have bwd: "zn_backward (h' (ns' ! k)) = (if k = 0 then None else Some (ns' ! (k - 1)))" if "k < length ns'" for k
    by (rule insert_backward [OF rep pl, folded x_def, OF fr(3), folded ns'_def, OF that])
  have scores: "zn_score (h' y) = (if y = x then score else zn_score (?h y))" for y
    using fr(2) by (auto simp: item_def fun_eq_iff split: if_splits)
  have over: "lv_forward (lev h' 0 i) = None" if "i < zsetMaxLevel" "sl_level sl \<le> i" for i
    using lev(1) [of 0 i] x(2) that rep by (simp add: sl_rep_def)
  have last: "last ns' = (if p < length ns then last ns else x)"
    using pl by (auto simp: ns'_def last_drop)
  note old = rep [unfolded sl_rep_def]
  show ?thesis
  proof (rule sl_repI)
    show "0 < sl_fresh sl'" "length ns' = sl_length sl'" "1 \<le> sl_level sl'" "sl_level sl' \<le> zsetMaxLevel"
      using old len by (simp_all add: sl')
    show "hgt (sl_heap sl') 0 = zsetMaxLevel" using old x by (simp add: sl' fr(1))
    show "0 \<notin> set ns'" using old x by (simp add: set')
    show "z < sl_fresh sl'" if "z \<in> set ns'" for z
      using that old by (auto simp: set' sl' x_def less_Suc_eq)
    show "1 \<le> hgt (sl_heap sl') z" "hgt (sl_heap sl') z \<le> sl_level sl'" if "z \<in> set ns'" for z
      using that old L by (auto simp: set' sl' fr(1))
    show "zn_score (sl_heap sl' z) \<noteq> NaN" if "z \<in> set ns'" for z
      using that old sc by (auto simp: set' sl' scores)
    show "sl_tail sl' = (if ns' = [] then None else Some (last ns'))"
      using old last len by (auto simp: sl')
    have heap': "sl_heap sl' = h'" "sl_level sl' = sl_level sl" by (simp_all add: sl')
    show "distinct ns'" by (rule dist)
    show "zsorted (map (item (sl_heap sl')) ns')" unfolding heap' by (rule srt)
    show "lev (sl_heap sl') (nd ns' r) i = nxt (hgt (sl_heap sl')) i (drop r ns')"
      if "r \<le> length ns'" "i < sl_level sl'" "i < hgt (sl_heap sl') (nd ns' r)" for r i
      using levels that unfolding heap' by blast
    show "lv_forward (lev (sl_heap sl') 0 i) = None" if "i < zsetMaxLevel" "sl_level sl' \<le> i" for i
      using over that unfolding heap' by blast
    show "zn_backward (sl_heap sl' (ns' ! k)) = (if k = 0 then None else Some (ns' ! (k - 1)))" if "k < length ns'" for k
      using bwd that unfolding heap' by blast
  qed
qed

lemma prk_high: "p \<le> length ns \<Longrightarrow> (\<And>z. z \<in> set ns \<Longrightarrow> ht z \<le> i) \<Longrightarrow> prk ht ns i p = 0"
  by (rule prk_unique) auto

lemma nxt_low: "(\<And>z. z \<in> set zs \<Longrightarrow> 1 \<le> ht z) \<Longrightarrow> lv_forward (nxt ht 0 zs) = (case zs of [] \<Rightarrow> None | z # _ \<Rightarrow> Some z)"
proof (cases zs)
  case (Cons z zs')
  assume "\<And>z. z \<in> set zs \<Longrightarrow> 1 \<le> ht z"
  from this [of z] Cons show ?thesis using nxt_head [of 0 ht z zs'] by simp
qed (simp add: nxt_def)

lemma sl_rep_next:
  assumes "sl_rep sl ns" "p \<le> length ns"
  shows "lv_forward (lev (sl_heap sl) (nd ns p) 0) = (if p < length ns then Some (ns ! p) else None)"
proof -
  have h: "1 \<le> hgt (sl_heap sl) z" if "z \<in> set ns" for z using sl_rep_hgt [OF assms(1) that] by simp
  have "p = 0 \<or> 0 < hgt (sl_heap sl) (ns ! (p - 1))" using h [of "ns ! (p - 1)"] assms(2) by (cases p) auto
  then have "lev (sl_heap sl) (nd ns p) 0 = nxt (hgt (sl_heap sl)) 0 (drop p ns)"
    using sl_rep_lev [OF assms, of 0] assms(1) by (auto simp: sl_rep_def)
  then show ?thesis
    using nxt_low [of "drop p ns" "hgt (sl_heap sl)", OF h [OF in_set_dropD]] assms(2)
    by (auto simp: Cons_nth_drop_Suc [symmetric])
qed

lemma sl_insert_spec:
  assumes rep: "sl_rep sl ns" and sc: "score \<noteq> NaN"
    and new: "\<And>z. z \<in> set ns \<Longrightarrow> item (sl_heap sl) z \<noteq> (member, score)"
    and p_def: "p = key_pos (sl_heap sl) ns score member"
  shows "\<exists>sl' ns'. sl_insert coin sl score member = Some sl' \<and> sl_rep sl' ns' \<and>
     map (item (sl_heap sl')) ns' =
       take p (map (item (sl_heap sl)) ns) @ (member, score) # drop p (map (item (sl_heap sl)) ns)"
proof -
  define L where "L = randomZSetLevel coin"
  define h1 where "h1 = foldl (raise_header (sl_length sl)) (sl_heap sl) [sl_level sl..<L]"
  define sl1 where "sl1 = sl\<lparr>sl_heap := h1, sl_level := max (sl_level sl) L\<rparr>"
  define x where "x = sl_fresh sl1"
  have L: "1 \<le> L" "L \<le> zsetMaxLevel" "L \<le> sl_level sl1" using randomZSetLevel_range by (simp_all add: L_def sl1_def)
  have rep1: "sl_rep sl1 ns" and fr: "frame h1 = frame (sl_heap sl)"
    unfolding sl1_def h1_def by (rule raise_rep [OF rep L(2)])+
  have heap1: "sl_heap sl1 = h1" by (simp add: sl1_def)
  have same: "hgt (sl_heap sl) = hgt h1" "item (sl_heap sl) = item h1" using fr by (simp_all add: frame_def)
  have p: "p = key_pos (sl_heap sl1) ns score member" by (simp add: p_def key_pos_def same heap1)
  have pl: "p \<le> length ns" using key_pos_spec(1) [OF rep] by (simp add: p_def)
  define r where "r i = prk (hgt h1) ns i p" for i
  define path where "path = map (\<lambda>i. (nd ns (r i), int (r i))) [0..<sl_level sl1]"
  have path: "map (\<lambda>i. (nd ns (r i), int (r i))) [0..<sl_level sl] @ replicate (L - sl_level sl) (0, 0) = path"
  proof -
    have "r i = 0" if "sl_level sl \<le> i" for i
      unfolding r_def using sl_rep_hgt [OF rep] that by (intro prk_high [OF pl]) (fastforce simp: same)
    then have "map (\<lambda>i. (nd ns (r i), int (r i))) [sl_level sl..<max (sl_level sl) L] = replicate (L - sl_level sl) (0, 0)"
      by (intro nth_equalityI) auto
    moreover have "[0..<sl_level sl1] = [0..<sl_level sl] @ [sl_level sl..<max (sl_level sl) L]"
      using upt_add_eq_append [of 0 "sl_level sl" "max (sl_level sl) L - sl_level sl"] by (simp add: sl1_def)
    ultimately show ?thesis by (simp add: path_def)
  qed
  define h2 where "h2 = h1(x := \<lparr>zn_member = member, zn_score = score, zn_backward = None, zn_levels = replicate L zeroLevel\<rparr>)"
  have h2: "frame h2 = ((hgt h1)(x := L), (item h1)(x := (member, score)), (\<lambda>y. zn_backward (h1 y))(x := None))"
    "y \<noteq> x \<Longrightarrow> lev h2 y j = lev h1 y j" for y j
    by (auto simp: frame_def h2_def hgt_def item_def lev_def fun_eq_iff)
  define h4 where "h4 = foldl (widen_level path) (foldl (link_level x path) h2 [0..<L]) [L..<sl_level sl1]"
  note lw = link_widen [OF rep1 L(1,3) pl, folded x_def, unfolded heap1, OF h2, folded r_def, folded path_def, folded h4_def]
  define u0 where "u0 = nd ns p"
  have r0: "r 0 = p" unfolding r_def using sl_rep_hgt [OF rep1] by (intro prk_zero [OF pl]) (simp add: heap1)
  have path0: "fst (path ! 0) = u0" using L(1,3) r0 by (simp add: path_def u0_def)
  define h5 where "h5 = h4(x := (h4 x)\<lparr>zn_backward := (if u0 = 0 then None else Some u0)\<rparr>)"
  have f0: "lv_forward (lev h5 x 0) = (if p < length ns then Some (ns ! p) else None)"
    using lw(3) [of 0] L(1) r0 sl_rep_next [OF rep1 pl] by (simp add: h5_def lev_def heap1)
  define h6 where "h6 = (if p < length ns then h5(ns ! p := (h5 (ns ! p))\<lparr>zn_backward := Some x\<rparr>) else h5)"
  have lev6: "lev h6 = lev h4" by (auto simp: h6_def h5_def lev_def fun_eq_iff)
  have fr4: "frame h4 = frame h2" by (rule lw(1))
  have fr6: "hgt h6 = (hgt h1)(x := L)" "item h6 = (item h1)(x := (member, score))"
  proof -
    have "hgt h6 = hgt h5" "item h6 = item h5" "hgt h5 = hgt h4" "item h5 = item h4"
      unfolding h6_def by simp_all (simp_all add: h5_def)
    then show "hgt h6 = (hgt h1)(x := L)" "item h6 = (item h1)(x := (member, score))"
      using fr4 h2(1) by (simp_all add: frame_def)
  qed
  have bw6: "zn_backward (h6 y) = (if p < length ns \<and> y = ns ! p then Some x
       else if y = x then if nd ns p = 0 then None else Some (nd ns p) else zn_backward (h1 y))" for y
    using fr4 h2(1) by (auto simp: frame_def h6_def h5_def u0_def fun_eq_iff)
  define sl' where "sl' = sl1\<lparr>sl_heap := h6, sl_fresh := x + 1, sl_length := sl_length sl1 + 1,
                       sl_tail := (if p < length ns then sl_tail sl1 else Some x)\<rparr>"
  have xs: "sl_fresh sl = x" and ls: "max (sl_level sl) L = sl_level sl1" by (simp_all add: x_def sl1_def)
  have "sl_insert coin sl score member = Some sl'"
    unfolding sl_insert_def search_key [OF rep sc p_def] option.case Let_def
    unfolding same(1) r_def [symmetric] L_def [symmetric]
    unfolding path path0 h1_def [symmetric] xs ls
    unfolding h2_def [symmetric]
    unfolding h4_def [symmetric]
    unfolding h5_def [symmetric] f0 sl'_def h6_def sl1_def by simp
  moreover have rep': "sl_rep sl' (take p ns @ x # drop p ns)"
    using insert_rep [OF rep1 L(1,3) sc _ p, folded x_def, unfolded heap1, OF _ fr6 bw6, folded r_def, unfolded lev6, OF _ lw(2,3) sl'_def]
     new by (simp add: same)
  moreover have "map (item (sl_heap sl')) (take p ns @ x # drop p ns) =
      take p (map (item (sl_heap sl)) ns) @ (member, score) # drop p (map (item (sl_heap sl)) ns)"
  proof -
    have "x \<notin> set ns" using rep1 by (auto simp: x_def sl_rep_def)
    from items_insert [OF this fr6(2)] show ?thesis by (simp add: sl'_def same)
  qed
  ultimately show ?thesis by blast
qed

section \<open>Deletion\<close>

lemma nxt_in_set: "lv_forward (nxt ht i zs) = Some z \<Longrightarrow> z \<in> set zs"
  by (cases rule: nxt_cases [of zs ht i]) auto

lemma unlink_all:
  assumes rep: "sl_rep sl ns" and p: "p < length ns"
  defines "h \<equiv> sl_heap sl"
  defines "u \<equiv> \<lambda>i. nd ns (prk (hgt h) ns i p)"
  defines "path \<equiv> map (\<lambda>i. (u i, int (prk (hgt h) ns i p))) [0..<sl_level sl]"
  defines "h1 \<equiv> foldl (unlink_level (ns ! p) path) h [0..<sl_level sl]"
  shows "frame h1 = frame h"
    "lev h1 y j = (if j < sl_level sl then unlink_column (ns ! p) (u j) (\<lambda>y. lev h y j) y else lev h y j)"
    "j < sl_level sl \<Longrightarrow> u j \<noteq> ns ! p"
proof -
  have d: "distinct ns" "0 \<notin> set ns" using rep by (auto simp: sl_rep_def)
  have p': "p \<le> length ns" using p by simp
  show un: "u j \<noteq> ns ! p" if "j < sl_level sl" for j
    using nd_inj [OF d, of "prk (hgt h) ns j p" "p + 1"] prk_spec(1) [OF p', of "hgt h" j] p by (simp add: u_def)
  have "frame h1 = frame h \<and> (\<forall>y j. lev h1 y j =
     (if 0 \<le> j \<and> j < sl_level sl then unlink_column (ns ! p) (u j) (\<lambda>y. lev h y j) y else lev h y j))"
    unfolding h1_def
  proof (rule foldl_columns)
    fix g i assume g: "frame g = frame h" and i: "i < sl_level sl"
    have path: "fst (path ! i) = u i" using i by (simp add: path_def)
    have "i < hgt g (fst (path ! i))" "fst (path ! i) \<noteq> ns ! p"
      using pred_node(1) [OF rep p' i] un [OF i] frame_hgt [OF g] unfolding path by (simp_all add: u_def h_def)
    from unlink_level_column [OF this]
    show "frame (unlink_level (ns ! p) path g i) = frame h \<and> (\<forall>y j. lev (unlink_level (ns ! p) path g i) y j =
        (if j = i then unlink_column (ns ! p) (u i) (\<lambda>y. lev g y i) y else lev g y j))"
      using g path by simp
  qed simp
  then show "frame h1 = frame h"
    "lev h1 y j = (if j < sl_level sl then unlink_column (ns ! p) (u j) (\<lambda>y. lev h y j) y else lev h y j)" by auto
qed

lemma delete_levels:
  assumes rep: "sl_rep sl ns" and p: "p < length ns"
  defines "h \<equiv> sl_heap sl"
  defines "ns' \<equiv> take p ns @ drop (p + 1) ns"
  assumes lev: "\<And>y j. j < sl_level sl \<Longrightarrow>
      lev h' y j = unlink_column (ns ! p) (nd ns (prk (hgt h) ns j p)) (\<lambda>y. lev h y j) y"
    and r: "r \<le> length ns'" "i < sl_level sl" "i < hgt h (nd ns' r)"
  shows "lev h' (nd ns' r) i = nxt (hgt h) i (drop r ns')"
proof -
  have d: "distinct ns" "0 \<notin> set ns" using rep by (auto simp: sl_rep_def)
  have p': "p \<le> length ns" using p by simp
  let ?q = "prk (hgt h) ns i p"
  have q: "?q \<le> p" "?q = 0 \<or> i < hgt h (ns ! (?q - 1))" using prk_spec(1,2) [OF p', of "hgt h" i] by auto
  have old: "lev h (nd ns k) i = nxt (hgt h) i (drop k ns)" if "k \<le> length ns" "k = 0 \<or> i < hgt h (ns ! (k - 1))" for k
    using sl_rep_lev [OF rep that(1) r(2)] that(2) by (simp add: h_def)
  have nxt_not: "lv_forward (nxt (hgt h) i (drop (p + 1) ns)) \<noteq> Some (ns ! p)"
  proof
    assume "lv_forward (nxt (hgt h) i (drop (p + 1) ns)) = Some (ns ! p)"
    then have "ns ! p \<in> set (drop (p + 1) ns)" by (rule nxt_in_set)
    moreover have "distinct (drop p ns)" "drop p ns = ns ! p # drop (p + 1) ns" using d(1) p by (simp_all add: Cons_nth_drop_Suc)
    ultimately show False by simp
  qed
  note del = nxt_delete [OF p _ ns'_def [THEN meta_eq_to_obj_eq], of _ "hgt h" i]
  have keep: "lev h' (nd ns k) i = nxt (hgt h) i (drop k ns)"
    if "k \<le> length ns" "k \<noteq> ?q" "k = 0 \<or> i < hgt h (ns ! (k - 1))" for k
  proof -
    have "nd ns k \<noteq> nd ns ?q" using nd_inj [OF d, of k ?q] that q p by simp
    then show ?thesis using lev [OF r(2), of "nd ns k"] old [OF that(1,3)] by (simp add: unlink_column_def)
  qed
  have node: "lev h (ns ! p) i = nxt (hgt h) i (drop (p + 1) ns)" if "i < hgt h (ns ! p)"
    using old [of "p + 1"] that p by simp
  show ?thesis
  proof (cases "r \<le> p")
    case True
    then have y: "nd ns' r = nd ns r" using p by (cases r) (auto simp: ns'_def nth_append)
    have ir: "r = 0 \<or> i < hgt h (ns ! (r - 1))" using r(3) y True p by (cases r) auto
    have rq: "r \<le> ?q" by (rule le_prk [OF p' True]) (use ir in auto)
    show ?thesis
    proof (cases "r = ?q")
      case False
      then show ?thesis using keep [of r] ir True p rq del(1) [OF rq] by (simp add: y)
    next
      case True
      have l: "lev h (nd ns r) i = nxt (hgt h) i (drop r ns)" using old [of r] ir \<open>r \<le> p\<close> p by simp
      show ?thesis
      proof (cases "i < hgt h (ns ! p)")
        case tall: True
        show ?thesis unfolding y lev [OF r(2)] del(1) [OF rq]
          using True tall l del(2) [OF rq True tall] node [OF tall] by (simp add: unlink_column_def)
      next
        case short: False
        show ?thesis unfolding y lev [OF r(2)] del(1) [OF rq]
          using True short l del(3) [OF rq True short] nxt_not by (simp add: unlink_column_def)
      qed
    qed
  next
    case False
    then have y: "nd ns' r = nd ns (r + 1)" and r': "r + 1 \<le> length ns" using p r(1)
      by (cases r; auto simp: ns'_def nth_append)+
    have "drop r ns' = drop (r + 1) ns" using False p by (simp add: ns'_def Suc_diff_le)
    then show ?thesis using keep [OF r'] r(3) False q by (simp add: y)
  qed
qed

lemma shrink_level_spec:
  "1 \<le> level \<Longrightarrow> 1 \<le> shrink_level h level \<and> shrink_level h level \<le> level \<and>
   (\<forall>i < level. shrink_level h level \<le> i \<longrightarrow> lv_forward (lev h 0 i) = None)"
proof (induction h level rule: shrink_level.induct)
  case (1 h level)
  show ?case
  proof (cases "level > 1 \<and> lv_forward (lev h 0 (level - 1)) = None")
    case True
    then have "shrink_level h level = shrink_level h (level - 1)" by (subst shrink_level.simps) simp
    moreover have "i < level \<Longrightarrow> i = level - 1 \<or> i < level - 1" for i by linarith
    ultimately show ?thesis using 1 True by fastforce
  next
    case False
    then have "shrink_level h level = level" by (subst shrink_level.simps) auto
    then show ?thesis using 1 by simp
  qed
qed

lemma shrink_rep:
  assumes rep: "sl_rep sl ns"
  shows "sl_rep (sl\<lparr>sl_level := shrink_level (sl_heap sl) (sl_level sl)\<rparr>) ns"
proof -
  let ?h = "sl_heap sl" and ?l = "shrink_level (sl_heap sl) (sl_level sl)"
  note old = rep [unfolded sl_rep_def]
  have l: "1 \<le> ?l" "?l \<le> sl_level sl" "\<And>i. i < sl_level sl \<Longrightarrow> ?l \<le> i \<Longrightarrow> lv_forward (lev ?h 0 i) = None"
    using shrink_level_spec [of "sl_level sl" ?h] old by auto
  have low: "hgt ?h z \<le> ?l" if z: "z \<in> set ns" for z
  proof (rule ccontr)
    assume high: "\<not> ?thesis"
    then have ls: "?l < sl_level sl" using sl_rep_hgt [OF rep z] by simp
    have "lev ?h 0 ?l = nxt (hgt ?h) ?l ns" using sl_rep_lev [OF rep _ ls, of 0] by simp
    then have "lv_forward (nxt (hgt ?h) ?l ns) = None" using l(3) [OF ls] by simp
    then show False using z high by (cases rule: nxt_cases [of ns "hgt ?h" ?l]) auto
  qed
  have over: "lv_forward (lev ?h 0 i) = None" if "i < zsetMaxLevel" "?l \<le> i" for i
    using l(3) [of i] that old by (cases "i < sl_level sl") auto
  show ?thesis by (rule sl_repI) (use old l(1,2) low over in auto)
qed

lemma zsorted_delete: "zsorted es \<Longrightarrow> zsorted (take p es @ drop (p + 1) es)"
proof -
  assume srt: "zsorted es"
  have "sorted_wrt (<) (map zkey (take p es @ drop p es))" using srt by (simp add: zsorted_def)
  moreover have "set (drop (p + 1) es) \<subseteq> set (drop p es)" by (rule set_drop_subset_set_drop) simp
  moreover have "sorted_wrt (<) (drop (p + 1) (map zkey es))"
    using srt unfolding zsorted_def by (rule sorted_wrt_drop)
  ultimately show ?thesis unfolding zsorted_def map_append sorted_wrt_append drop_map by fastforce
qed

text \<open>The list without the node, before the level of the list is adjusted.\<close>

lemma delete_rep:
  assumes rep: "sl_rep sl ns" and p: "p < length ns"
  defines "ns' \<equiv> take p ns @ drop (p + 1) ns"
  assumes fr: "hgt h' = hgt (sl_heap sl)" "item h' = item (sl_heap sl)"
    "\<And>y. zn_backward (h' y) =
      (if p + 1 < length ns \<and> y = ns ! (p + 1) then zn_backward (sl_heap sl (ns ! p)) else zn_backward (sl_heap sl y))"
    and lev: "\<And>y j. lev h' y j = (if j < sl_level sl
       then unlink_column (ns ! p) (nd ns (prk (hgt (sl_heap sl)) ns j p)) (\<lambda>y. lev (sl_heap sl) y j) y else lev (sl_heap sl) y j)"
    and sl': "sl' = sl\<lparr>sl_heap := h', sl_length := sl_length sl - 1,
                       sl_tail := (if p + 1 < length ns then sl_tail sl else zn_backward (sl_heap sl (ns ! p)))\<rparr>"
  shows "sl_rep sl' ns'"
proof -
  let ?h = "sl_heap sl"
  note old = rep [unfolded sl_rep_def]
  have heap': "sl_heap sl' = h'" "sl_level sl' = sl_level sl" "sl_fresh sl' = sl_fresh sl" by (simp_all add: sl')
  have sub: "set ns' \<subseteq> set ns" using set_take_subset [of p ns] set_drop_subset [of "p + 1" ns] by (auto simp: ns'_def)
  have len: "length ns' = length ns - 1" using p by (simp add: ns'_def)
  have dist: "distinct ns'" 
    using old distinct_append [of "take p ns" "drop (p + 1) ns"] p
    by (auto simp: ns'_def set_take_disj_set_drop_if_distinct)
  have bw: "zn_backward (?h (ns ! k)) = (if k = 0 then None else Some (ns ! (k - 1)))" if "k < length ns" for k
    using old that by simp
  have nth: "ns' ! k = (if k < p then ns ! k else ns ! (k + 1))" if "k < length ns'" for k
    using that p by (simp add: ns'_def nth_append)
  have bwd: "zn_backward (h' (ns' ! k)) = (if k = 0 then None else Some (ns' ! (k - 1)))" if k: "k < length ns'" for k
  proof -
    consider "k < p" | "k = p" | "p < k" by linarith
    then show ?thesis
    proof cases
      case 1
      then have "ns' ! k \<noteq> ns ! (p + 1) \<or> \<not> p + 1 < length ns"
        using nth [OF k] old p nth_eq_iff_index_eq [of ns k "p + 1"] by auto
      then show ?thesis using 1 fr(3) [of "ns' ! k"] nth [OF k] nth [of "k - 1"] k bw [of k] p by auto
    next
      case 2
      then show ?thesis using fr(3) [of "ns' ! k"] nth [OF k] nth [of "k - 1"] k bw [of p] p len by auto
    next
      case 3
      then have "ns' ! k \<noteq> ns ! (p + 1)"
        using nth [OF k] k len old p nth_eq_iff_index_eq [of ns "k + 1" "p + 1"] by auto
      then show ?thesis using 3 fr(3) [of "ns' ! k"] nth [OF k] nth [of "k - 1"] k bw [of "k + 1"] p len by auto
    qed
  qed
  have last: "sl_tail sl' = (if ns' = [] then None else Some (last ns'))"
  proof (cases "p + 1 < length ns")
    case True
    then show ?thesis using old by (auto simp: sl' ns'_def)
  next
    case False
    then have "p = length ns - 1" "ns' = take p ns" using p by (auto simp: ns'_def)
    then show ?thesis using False bw [OF p] p by (auto simp: sl' last_conv_nth)
  qed
  show ?thesis
  proof (rule sl_repI)
    show "0 < sl_fresh sl'" "length ns' = sl_length sl'" "1 \<le> sl_level sl'" "sl_level sl' \<le> zsetMaxLevel"
      "hgt (sl_heap sl') 0 = zsetMaxLevel" "0 \<notin> set ns'"
      using old len sub by (auto simp: sl' fr(1))
    show "z < sl_fresh sl'" "1 \<le> hgt (sl_heap sl') z" "hgt (sl_heap sl') z \<le> sl_level sl'"
      "zn_score (sl_heap sl' z) \<noteq> NaN" if "z \<in> set ns'" for z
      using that sub old fr(2) by (auto simp: heap' fr(1) item_def fun_eq_iff)
    show "zsorted (map (item (sl_heap sl')) ns')"
      using zsorted_delete [of "map (item ?h) ns" p] old
      by (simp add: heap' fr(2) ns'_def take_map drop_map)
    show "lev (sl_heap sl') (nd ns' r) i = nxt (hgt (sl_heap sl')) i (drop r ns')"
      if "r \<le> length ns'" "i < sl_level sl'" "i < hgt (sl_heap sl') (nd ns' r)" for r i
      using delete_levels [OF rep p, folded ns'_def, of h' r i] lev that unfolding heap' fr(1) by simp
    show "lv_forward (lev (sl_heap sl') 0 i) = None" if "i < zsetMaxLevel" "sl_level sl' \<le> i" for i
      using lev [of 0 i] that old by (simp add: heap')
    show "zn_backward (sl_heap sl' (ns' ! k)) = (if k = 0 then None else Some (ns' ! (k - 1)))" if "k < length ns'" for k
      using bwd that unfolding heap' by blast
  qed (rule dist last)+
qed

lemma deleteNode_rep:
  assumes rep: "sl_rep sl ns" and p: "p < length ns"
    and path: "path = map (\<lambda>i. (nd ns (prk (hgt (sl_heap sl)) ns i p), int (prk (hgt (sl_heap sl)) ns i p))) [0..<sl_level sl]"
  shows "sl_rep (deleteNode sl (ns ! p) path) (take p ns @ drop (p + 1) ns)"
    "item (sl_heap (deleteNode sl (ns ! p) path)) = item (sl_heap sl)"
proof -
  let ?h = "sl_heap sl" and ?x = "ns ! p"
  define h1 where "h1 = foldl (unlink_level ?x path) ?h [0..<sl_level sl]"
  note all = unlink_all [OF rep p, folded path, folded h1_def]
  have lev0: "lev h1 ?x 0 = lev ?h ?x 0" using all(2) [of ?x 0] all(3) [of 0] rep
    by (auto simp: unlink_column_def sl_rep_def)
  have f0: "lv_forward (lev h1 ?x 0) = (if p + 1 < length ns then Some (ns ! (p + 1)) else None)"
    using sl_rep_next [OF rep, of "p + 1"] p by (simp add: lev0)
  have fr: "hgt h1 = hgt ?h" "item h1 = item ?h" "\<And>y. zn_backward (h1 y) = zn_backward (?h y)"
    using all(1) by (simp_all add: frame_def fun_eq_iff)
  define h2 where "h2 = (if p + 1 < length ns then h1(ns ! (p + 1) := (h1 (ns ! (p + 1)))\<lparr>zn_backward := zn_backward (h1 ?x)\<rparr>) else h1)"
  define sl2 where "sl2 = sl\<lparr>sl_heap := h2, sl_length := sl_length sl - 1,
      sl_tail := (if p + 1 < length ns then sl_tail sl else zn_backward (?h ?x))\<rparr>"
  have fr2: "hgt h2 = hgt ?h" "item h2 = item ?h" "lev h2 = lev h1" using fr by (simp_all add: h2_def)
  have bw2: "zn_backward (h2 y) = (if p + 1 < length ns \<and> y = ns ! (p + 1) then zn_backward (?h ?x) else zn_backward (?h y))" for y
    by (simp add: h2_def fr(3))
  have rep2: "sl_rep sl2 (take p ns @ drop (p + 1) ns)"
    by (rule delete_rep [OF rep p fr2(1,2) bw2 _ sl2_def]) (simp add: fr2(3) all(2))
  have eq: "deleteNode sl ?x path = sl2\<lparr>sl_level := shrink_level (sl_heap sl2) (sl_level sl2)\<rparr>"
    unfolding deleteNode_def Let_def h1_def [symmetric] f0 sl2_def h2_def by (simp add: fr(3))
  show "sl_rep (deleteNode sl ?x path) (take p ns @ drop (p + 1) ns)"
    unfolding eq by (rule shrink_rep [OF rep2])
  show "item (sl_heap (deleteNode sl ?x path)) = item ?h" unfolding eq by (simp add: sl2_def fr2(2))
qed

lemma key_pos_present:
  assumes rep: "sl_rep sl ns" and p: "p < length ns" "item (sl_heap sl) (ns ! p) = (member, score)"
  shows "key_pos (sl_heap sl) ns score member = p"
proof -
  let ?q = "key_pos (sl_heap sl) ns score member"
  note pos = key_pos_spec(2) [OF rep, of _ member score]
  have "\<not> p < ?q" using pos [OF p(1)] p(2) by simp
  moreover have "k < ?q" if "k < p" for k
    using pos [of k] sl_rep_sorted [OF rep that p(1)] that p by simp
  ultimately show ?thesis by (metis less_irrefl linorder_neqE_nat)
qed

lemma sl_delete_spec:
  assumes rep: "sl_rep sl ns" and p: "p < length ns" "item (sl_heap sl) (ns ! p) = (member, score)"
  shows "\<exists>sl'. sl_delete sl score member = Some (sl', True) \<and> sl_rep sl' (take p ns @ drop (p + 1) ns) \<and>
     item (sl_heap sl') = item (sl_heap sl)"
proof -
  let ?path = "map (\<lambda>i. (nd ns (prk (hgt (sl_heap sl)) ns i p), int (prk (hgt (sl_heap sl)) ns i p))) [0..<sl_level sl]"
  have sc: "score \<noteq> NaN" "1 \<le> sl_level sl" using rep p by (auto simp: sl_rep_def item_def)
  have r0: "prk (hgt (sl_heap sl)) ns 0 p = p" using sl_rep_hgt [OF rep] p by (intro prk_zero) auto
  have "fst (?path ! 0) = nd ns p" using sc(2) r0 by simp
  then have f: "lv_forward (lev (sl_heap sl) (fst (?path ! 0)) 0) = Some (ns ! p)"
    using sl_rep_next [OF rep, of p] p by simp
  have "sl_delete sl score member = Some (deleteNode sl (ns ! p) ?path, True)"
    unfolding sl_delete_def search_key [OF rep sc(1) key_pos_present [OF rep p, symmetric]] option.case f
    using p(2) sc(1) by (simp add: item_def)
  then show ?thesis using deleteNode_rep [OF rep p(1) refl] by blast
qed

section \<open>Range queries\<close>

lemma find_SomeD: "List.find P xs = Some e \<Longrightarrow> e \<in> set xs \<and> P e"
  by (auto simp: find_Some_iff)

lemma getByRank_spec:
  assumes rep: "sl_rep sl ns"
  shows "getByRank sl rank = (if 1 \<le> rank \<and> rank \<le> int (length ns) then Some (ns ! (nat rank - 1)) else None)"
proof (cases "1 \<le> rank \<and> rank \<le> int (length ns)")
  case True
  let ?p = "nat rank" and ?ht = "hgt (sl_heap sl)"
  let ?pt = "\<lambda>i. (nd ns (prk ?ht ns i ?p), int (prk ?ht ns i ?p))"
  have p: "?p \<le> length ns" "1 \<le> ?p" using True by auto
  have s: "search sl (\<lambda>next reached. reached \<le> rank) = Some (map ?pt [0..<sl_level sl])"
    by (rule search_spec [OF rep p(1)]) (use True in auto)
  have r0: "?pt 0 = (nd ns ?p, rank)" using sl_rep_hgt [OF rep] prk_zero [OF p(1), of ?ht] True by simp
  have mem: "?pt 0 \<in> set (rev (map ?pt [0..<sl_level sl]))" using rep by (auto simp: sl_rep_def)
  have uniq: "x = nd ns ?p" if "(x, rank) \<in> set (rev (map ?pt [0..<sl_level sl]))" for x
  proof -
    from that obtain i where i: "x = nd ns (prk ?ht ns i ?p)" "rank = int (prk ?ht ns i ?p)" by auto
    then have "prk ?ht ns i ?p = ?p" by (metis nat_int)
    then show ?thesis using i(1) by simp
  qed
  obtain e where e: "List.find (\<lambda>(x, traversed). traversed = rank) (rev (map ?pt [0..<sl_level sl])) = Some e"
    using mem r0 by (cases "List.find (\<lambda>(x, traversed). traversed = rank) (rev (map ?pt [0..<sl_level sl]))")
      (auto simp: find_None_iff)
  have "fst e = nd ns ?p" using uniq [of "fst e"] find_SomeD [OF e] by (cases e) simp
  then show ?thesis
    using True rep p(2) e unfolding getByRank_def s option.case by (auto simp: sl_rep_def nth_Cons')
qed (use rep in \<open>auto simp: getByRank_def sl_rep_def\<close>)

lemma collect_spec:
  assumes rep: "sl_rep sl ns" and "p \<le> length ns"
  shows "collect (sl_heap sl) (if p < length ns then Some (ns ! p) else None) n = take n (drop p (map (item (sl_heap sl)) ns))"
  using assms(2)
proof (induction n arbitrary: p)
  case (Suc n)
  show ?case
  proof (cases "p < length ns")
    case True
    then have "drop p (map (item (sl_heap sl)) ns) = item (sl_heap sl) (ns ! p) # drop (p + 1) (map (item (sl_heap sl)) ns)"
      by (simp add: Cons_nth_drop_Suc [symmetric] drop_map)
    then show ?thesis using True Suc.IH [of "p + 1"] sl_rep_next [OF rep, of "p + 1"]
      by (simp add: item_def [of "sl_heap sl" "ns ! p"])
  qed (use Suc.prems in simp)
qed simp

lemma score_loop_spec:
  assumes rep: "sl_rep sl ns" and "p \<le> length ns" "length ns - p < fuel"
  shows "score_loop fuel (sl_heap sl) r (if p < length ns then Some (ns ! p) else None) acc =
     acc @ takeWhile (\<lambda>e. \<not> aboveMax r (snd e)) (drop p (map (item (sl_heap sl)) ns))"
  using assms(2,3)
proof (induction fuel arbitrary: p acc)
  case (Suc fuel)
  show ?case
  proof (cases "p < length ns")
    case True
    then have d: "drop p (map (item (sl_heap sl)) ns) = item (sl_heap sl) (ns ! p) # drop (p + 1) (map (item (sl_heap sl)) ns)"
      by (simp add: Cons_nth_drop_Suc [symmetric] drop_map)
    show ?thesis unfolding d
      using True Suc.IH [of "p + 1"] Suc.prems sl_rep_next [OF rep, of "p + 1"]
      by (simp add: item_def [of "sl_heap sl" "ns ! p"])
  qed (use Suc.prems in simp)
qed simp

section \<open>The sorted set\<close>

definition ss_items :: "zsetSkipList \<Rightarrow> nat list \<Rightarrow> zentry list" where
  "ss_items sl ns = map (item (sl_heap sl)) ns"

definition ss_inv :: "SortedSet \<Rightarrow> bool" where
  "ss_inv s \<longleftrightarrow> gm_wf (ss_index s) \<and>
     (\<exists>ns. sl_rep (ss_order s) ns \<and> distinct (map fst (ss_items (ss_order s) ns)) \<and>
           map_of (ss_items (ss_order s) ns) = map_of (ss_index s))"

lemma newSortedSet_inv: "ss_inv newSortedSet"
  by (simp add: ss_inv_def newSortedSet_def exI [of _ "[]"] newZSetSkipList_def sl_rep_def hgt_def lev_def
      zeroLevel_def nxt_def zsorted_def ss_items_def)

lemma map_of_put_in: "m \<notin> fst ` set xs \<Longrightarrow> map_of (xs @ (m, v) # ys) = (map_of (xs @ ys))(m \<mapsto> v)"
  by (induction xs) auto

lemma map_of_take_out: "distinct (map fst (xs @ (m, v) # ys)) \<Longrightarrow> map_of (xs @ ys) = (map_of (xs @ (m, v) # ys))(m := None)"
  by (induction xs) (auto simp: fun_eq_iff map_of_eq_None_iff)

lemma ss_items_NaN: "sl_rep sl ns \<Longrightarrow> e \<in> set (ss_items sl ns) \<Longrightarrow> snd e \<noteq> NaN"
  by (auto simp: sl_rep_def ss_items_def item_def)

lemma ss_insert:
  assumes rep: "sl_rep sl ns" and d: "distinct (map fst (ss_items sl ns))" and sc: "score \<noteq> NaN"
    and new: "map_of (ss_items sl ns) member = None"
  shows "\<exists>sl' ns'. sl_insert coin sl score member = Some sl' \<and> sl_rep sl' ns' \<and>
     distinct (map fst (ss_items sl' ns')) \<and> map_of (ss_items sl' ns') = (map_of (ss_items sl ns))(member \<mapsto> score)"
proof -
  let ?es = "ss_items sl ns"
  have fresh: "member \<notin> fst ` set ?es" using new by (simp add: map_of_eq_None_iff)
  then have "item (sl_heap sl) z \<noteq> (member, score)" if "z \<in> set ns" for z
    using that by (force simp: ss_items_def)
  from sl_insert_spec [OF rep sc this refl] obtain sl' ns' p where
    sl': "sl_insert coin sl score member = Some sl'" "sl_rep sl' ns'"
      "ss_items sl' ns' = take p ?es @ (member, score) # drop p ?es" unfolding ss_items_def by blast
  have "distinct (map fst (take p ?es @ drop p ?es))" using d by simp
  then have "distinct (map fst (ss_items sl' ns'))"
    using fresh unfolding sl'(3) by (auto simp del: append_take_drop_id dest: in_set_takeD in_set_dropD)
  moreover have "member \<notin> fst ` set (take p ?es)" using fresh by (auto dest: in_set_takeD)
  ultimately show ?thesis using sl' map_of_put_in [of member "take p ?es" score "drop p ?es"] by auto
qed

lemma ss_delete:
  assumes rep: "sl_rep sl ns" and d: "distinct (map fst (ss_items sl ns))"
    and old: "map_of (ss_items sl ns) member = Some score"
  shows "\<exists>sl' ns'. sl_delete sl score member = Some (sl', True) \<and> sl_rep sl' ns' \<and>
     distinct (map fst (ss_items sl' ns')) \<and> map_of (ss_items sl' ns') = (map_of (ss_items sl ns))(member := None)"
proof -
  let ?es = "ss_items sl ns"
  obtain p where p: "p < length ns" "item (sl_heap sl) (ns ! p) = (member, score)"
    using map_of_SomeD [OF old] by (auto simp: ss_items_def in_set_conv_nth)
  from sl_delete_spec [OF rep p] obtain sl' where sl': "sl_delete sl score member = Some (sl', True)"
    "sl_rep sl' (take p ns @ drop (p + 1) ns)" "item (sl_heap sl') = item (sl_heap sl)" by blast
  have items: "ss_items sl' (take p ns @ drop (p + 1) ns) = take p ?es @ drop (p + 1) ?es"
    by (simp add: ss_items_def sl'(3) take_map drop_map)
  have es: "?es = take p ?es @ (member, score) # drop (p + 1) ?es"
    using p id_take_nth_drop [of p ?es] by (simp add: ss_items_def)
  then have dd: "distinct (map fst (take p ?es @ (member, score) # drop (p + 1) ?es))" using d by simp
  then have "distinct (map fst (take p ?es @ drop (p + 1) ?es))" by simp
  moreover have "map_of (take p ?es @ drop (p + 1) ?es) = (map_of ?es)(member := None)"
    using map_of_take_out [OF dd] by (simp only: es [symmetric])
  ultimately show ?thesis using sl' items by metis
qed

lemma ss_add_spec:
  assumes inv: "ss_inv s" and sc: "score \<noteq> NaN"
  shows "ss_inv (fst (ss_add coin s m score))" "ss_score (fst (ss_add coin s m score)) = (ss_score s)(m \<mapsto> score)"
    "snd (ss_add coin s m score) \<longleftrightarrow> ss_score s m = None"
proof -
  from inv obtain ns where ns: "sl_rep (ss_order s) ns" "distinct (map fst (ss_items (ss_order s) ns))"
    "map_of (ss_items (ss_order s) ns) = map_of (ss_index s)" "gm_wf (ss_index s)" unfolding ss_inv_def by blast
  have idx: "map_of (gm_set (ss_index s) m score) = (map_of (ss_index s))(m \<mapsto> score)" by (simp add: update_conv')
  have "ss_inv (fst (ss_add coin s m score)) \<and> ss_score (fst (ss_add coin s m score)) = (ss_score s)(m \<mapsto> score) \<and>
    (snd (ss_add coin s m score) \<longleftrightarrow> ss_score s m = None)"
  proof (cases "map_of (ss_index s) m")
    case None
    then obtain sl' ns' where "sl_insert (coin (sl_fresh (ss_order s))) (ss_order s) score m = Some sl'" "sl_rep sl' ns'"
      "distinct (map fst (ss_items sl' ns'))" "map_of (ss_items sl' ns') = (map_of (ss_index s))(m \<mapsto> score)"
      using ss_insert [OF ns(1,2) sc, of m "coin (sl_fresh (ss_order s))"] ns(3) by metis
    then show ?thesis using None ns(4) idx
      by (auto simp: ss_add_def Let_def ss_score_def ss_inv_def fun_eq_iff)
  next
    case (Some current)
    have cur: "current \<noteq> NaN" using ss_items_NaN [OF ns(1), of "(m, current)"] Some ns(3) by (metis map_of_SomeD snd_conv)
    show ?thesis
    proof (cases "current = score")
      case True
      then show ?thesis using Some cur inv by (auto simp: ss_add_def ss_score_def fun_eq_iff)
    next
      case False
      obtain sl1 ns1 where d: "sl_delete (ss_order s) current m = Some (sl1, True)" "sl_rep sl1 ns1"
        "distinct (map fst (ss_items sl1 ns1))" "map_of (ss_items sl1 ns1) = (map_of (ss_index s))(m := None)"
        using ss_delete [OF ns(1,2), of m current] ns(3) Some by metis
      then obtain sl' ns' where "sl_insert (coin (sl_fresh sl1)) sl1 score m = Some sl'" "sl_rep sl' ns'"
        "distinct (map fst (ss_items sl' ns'))" "map_of (ss_items sl' ns') = (map_of (ss_index s))(m \<mapsto> score)"
        using ss_insert [OF d(2,3) sc, of m "coin (sl_fresh sl1)"] by auto
      then show ?thesis using Some False cur d(1) ns(4) idx
        by (auto simp: ss_add_def Let_def ss_score_def ss_inv_def fun_eq_iff)
    qed
  qed
  then show "ss_inv (fst (ss_add coin s m score))" "ss_score (fst (ss_add coin s m score)) = (ss_score s)(m \<mapsto> score)"
    "snd (ss_add coin s m score) \<longleftrightarrow> ss_score s m = None" by auto
qed

lemma ss_ordered_items: "sl_rep (ss_order s) ns \<Longrightarrow> ss_ordered s = ss_items (ss_order s) ns"
  using collect_spec [of "ss_order s" ns 0 "sl_fresh (ss_order s)"] sl_rep_next [of "ss_order s" ns 0]
    length_le_fresh [of "ss_order s" ns] by (simp add: ss_ordered_def ss_items_def)

lemma ss_rangeByRank_eq: "sl_rep (ss_order s) ns \<Longrightarrow> ss_rangeByRank s a b = rank_range (ss_ordered s) a b"
proof -
  assume rep: "sl_rep (ss_order s) ns"
  let ?es = "map (item (sl_heap (ss_order s))) ns" and ?n = "sl_length (ss_order s)"
  have n: "length ns = ?n" using rep by (simp add: sl_rep_def)
  show ?thesis
  proof (cases "a < 0 \<or> b < a \<or> a \<ge> int ?n")
    case True
    then show ?thesis using n by (auto simp: ss_rangeByRank_def rank_range_def ss_ordered_items [OF rep] ss_items_def)
  next
    case False
    then have "nat a < ?n" by linarith
    then have "collect (sl_heap (ss_order s)) (Some (ns ! nat a)) k = take k (drop (nat a) ?es)" for k
      using collect_spec [OF rep, of "nat a" k] n by (simp del: collect.simps)
    moreover have "getByRank (ss_order s) (a + 1) = Some (ns ! nat a)"
      using getByRank_spec [OF rep, of "a + 1"] False n by (simp add: nat_add_distrib)
    ultimately have "ss_rangeByRank s a b = take (nat ((if b \<ge> int ?n then int ?n - 1 else b) - a + 1)) (drop (nat a) ?es)"
      using False by (simp add: ss_rangeByRank_def Let_def del: collect.simps)
    also have "\<dots> = take (nat (b - a) + 1) (drop (nat a) ?es)"
      using False n by (auto simp: nat_add_distrib)
    finally show ?thesis using False n by (simp add: rank_range_def ss_ordered_items [OF rep] ss_items_def)
  qed
qed

lemma ss_rangeByScore_eq: "sl_rep (ss_order s) ns \<Longrightarrow> ss_rangeByScore s r = score_range r (ss_ordered s)"
proof -
  assume rep: "sl_rep (ss_order s) ns"
  let ?sl = "ss_order s"
  let ?es = "ss_items ?sl ns" and ?below = "\<lambda>e. belowMin r (snd e)"
  let ?p = "length (takeWhile ?below ?es)"
  have len: "length ?es = length ns" by (simp add: ss_items_def)
  have p: "?p \<le> length ns" using length_takeWhile_le [of ?below ?es] len by simp
  have nan: "\<forall>e \<in> set ?es. snd e \<noteq> NaN" using ss_items_NaN [OF rep] by blast
  have srt: "sorted_wrt (\<lambda>e e'. snd e \<le> snd e') ?es"
    using rep by (intro zsorted_scores) (simp add: sl_rep_def ss_items_def)
  have "belowMin r (zn_score (sl_heap ?sl (ns ! k))) \<longleftrightarrow> k < ?p" if "k < length ns" for k
  proof -
    have "?below (?es ! k) \<longleftrightarrow> k < ?p"
      by (rule takeWhile_downward) (use srt nan that len in \<open>auto intro: belowMin_mono simp: sorted_wrt_iff_nth_less\<close>)
    then show ?thesis using that by (simp add: ss_items_def item_def)
  qed
  from search_spec [OF rep p, of "\<lambda>next rank. belowMin r (zn_score next)"] this
  have "firstInScoreRange ?sl r = lv_forward (lev (sl_heap ?sl) (nd ns (prk (hgt (sl_heap ?sl)) ns 0 ?p)) 0)"
    using rep by (simp add: firstInScoreRange_def sl_rep_def)
  also have "\<dots> = (if ?p < length ns then Some (ns ! ?p) else None)"
    using prk_zero [OF p, of "hgt (sl_heap ?sl)"] sl_rep_hgt [OF rep] sl_rep_next [OF rep p] by simp
  finally have "ss_rangeByScore s r = takeWhile (\<lambda>e. \<not> aboveMax r (snd e)) (drop ?p ?es)"
    using score_loop_spec [OF rep p, of "sl_fresh ?sl" r "[]"] length_le_fresh [OF rep]
    by (simp add: ss_rangeByScore_def ss_items_def)
  also have "drop ?p ?es = filter (\<lambda>e. \<not> ?below e) ?es"
    using dropWhile_below [OF srt nan] by (simp add: dropWhile_eq_drop)
  also have "takeWhile (\<lambda>e. \<not> aboveMax r (snd e)) \<dots> = filter (\<lambda>e. \<not> aboveMax r (snd e)) (filter (\<lambda>e. \<not> ?below e) ?es)"
    using srt nan by (intro takeWhile_above) (auto simp: sorted_wrt_filter)
  finally show ?thesis by (simp add: score_range_def ss_ordered_items [OF rep] conj_commute)
qed

interpretation zset: sorted_map ss_inv ss_score "ss_add coin" ss_ordered ss_rangeByRank ss_rangeByScore for coin
proof (unfold_locales, goal_cases)
  case (4 s)
  then show ?case by (simp add: ss_score_def [abs_def] finite_dom_map_of)
next
  case (5 s)
  then obtain ns where "sl_rep (ss_order s) ns" by (auto simp: ss_inv_def)
  then show ?case by (simp add: ss_ordered_items ss_items_def) (simp add: sl_rep_def)
next
  case (6 s)
  then show ?case by (auto simp: ss_inv_def ss_ordered_items)
next
  case (7 s)
  then show ?case by (auto simp: ss_inv_def ss_ordered_items ss_score_def [abs_def])
qed (use ss_add_spec ss_rangeByRank_eq ss_rangeByScore_eq in \<open>auto simp: ss_inv_def\<close>)

lemma ss_len_card: "ss_inv s \<Longrightarrow> ss_len s = card (dom (ss_score s))"
  using distinct_card [of "map fst (ss_index s)"]
  by (auto simp: ss_inv_def ss_len_def ss_score_def [abs_def] gm_wf_def)

lemma map_of_rev_distinct: "distinct (map fst es) \<Longrightarrow> map_of (rev es) = map_of es"
  by (subst map_of_inject_set) (simp_all add: rev_map [symmetric])

lemma ss_adds:
  assumes "ss_inv s" "\<forall>e \<in> set es. snd e \<noteq> NaN"
  shows "ss_inv (foldl (\<lambda>c (m, sc). fst (ss_add coin c m sc)) s es) \<and>
         ss_score (foldl (\<lambda>c (m, sc). fst (ss_add coin c m sc)) s es) = assigns (ss_score s) es"
  using assms
proof (induction es arbitrary: s)
  case Nil
  then show ?case by (simp add: assigns_def)
next
  case (Cons e es)
  obtain m sc where e: "e = (m, sc)" by (cases e)
  have "sc \<noteq> NaN" using Cons.prems e by simp
  from ss_add_spec(1,2) [OF Cons.prems(1) this, of coin m] Cons.IH [of "fst (ss_add coin s m sc)"] Cons.prems(2)
  show ?case by (simp add: e assigns_def map_add_def fun_eq_iff split: option.splits)
qed

lemma cloneSortedSet_spec:
  assumes inv: "ss_inv s"
  shows "ss_inv (cloneSortedSet coin s)" "ss_score (cloneSortedSet coin s) = ss_score s"
proof -
  obtain ns where ns: "sl_rep (ss_order s) ns" "distinct (map fst (ss_items (ss_order s) ns))"
    "map_of (ss_items (ss_order s) ns) = map_of (ss_index s)" using inv unfolding ss_inv_def by blast
  have "\<forall>e \<in> set (ss_ordered s). snd e \<noteq> NaN" using ss_items_NaN [OF ns(1)] ss_ordered_items [OF ns(1)] by simp
  from ss_adds [OF newSortedSet_inv this, of coin]
  have *: "ss_inv (cloneSortedSet coin s)" "ss_score (cloneSortedSet coin s) = assigns (ss_score newSortedSet) (ss_ordered s)"
    by (simp_all add: cloneSortedSet_def)
  have "map_of (rev (ss_ordered s)) = map_of (ss_ordered s)"
    using ns(2) ss_ordered_items [OF ns(1)] by (intro map_of_rev_distinct) simp
  then have "assigns (ss_score newSortedSet) (ss_ordered s) = ss_score s"
    using ns(3) ss_ordered_items [OF ns(1)] by (simp add: assigns_def ss_score_def [abs_def] newSortedSet_def map_add_def fun_eq_iff split: option.splits)
  with * show "ss_inv (cloneSortedSet coin s)" "ss_score (cloneSortedSet coin s) = ss_score s" by simp_all
qed

section \<open>Properties\<close>

text \<open>C3. For every outcome of the random level draws, adding to a skip-list sorted set keeps the
  forward pointers, spans, backward pointers and tail consistent, assigns exactly one member its
  score, reports whether the member is new, and leaves the list in score-then-member order; the rank
  and score range queries, which navigate by spans and levels, return exactly the slice of that order
  they are asked for.\<close>

theorem skiplist_add:
  assumes "ss_inv s" "score \<noteq> NaN" "ss_add coin s m score = (s', new)"
  shows "ss_inv s' \<and> ss_score s' = (ss_score s)(m \<mapsto> score) \<and> (new \<longleftrightarrow> ss_score s m = None) \<and>
         ss_rangeByRank s' a b = rank_range (zlisting ((ss_score s)(m \<mapsto> score))) a b \<and>
         ss_rangeByScore s' r = score_range r (zlisting ((ss_score s)(m \<mapsto> score)))"
proof -
  have "ss_inv s'" "ss_score s' = (ss_score s)(m \<mapsto> score)" "new \<longleftrightarrow> ss_score s m = None"
    using ss_add_spec [OF assms(1,2), of coin m] by (simp_all add: assms(3))
  then show ?thesis using zset.ordered_listing [of s'] zset.byRank_eq [of s'] zset.byScore_eq [of s'] by simp
qed

theorem skiplist_add_witness:
  "\<exists>s new. ss_add (\<lambda>_ i. i < 3) newSortedSet (str ''a'') (Fin 1) = (s, new) \<and> ss_inv s \<and> new \<and>
     ss_score s (str ''a'') = Some (Fin 1) \<and> ss_rangeByRank s 0 0 = [(str ''a'', Fin 1)]"
proof -
  obtain s new where a: "ss_add (\<lambda>_ i. i < 3) newSortedSet (str ''a'') (Fin 1) = (s, new)" by fastforce
  have emp: "ss_score newSortedSet = (\<lambda>_. None)" by (simp add: ss_score_def [abs_def] newSortedSet_def)
  have "{(sc, k). (if k = str ''a'' then Some (Fin 1) else None) = Some sc} = {(Fin 1, str ''a'')}"
    by (auto split: if_splits)
  then have "zlisting ((ss_score newSortedSet)(str ''a'' \<mapsto> Fin 1)) = [(str ''a'', Fin 1)]"
    by (simp add: zlisting_def emp fun_upd_def)
  then show ?thesis
    using a skiplist_add [OF newSortedSet_inv _ a, of 0 0] by (auto simp: emp rank_range_def)
qed

end
