(* ===== verification/Streams.thy ===== *)
theory Streams
  imports Storage_Base
begin

text \<open>
  Streams, from \<^verbatim>\<open>src/internal/storage/stream.go\<close>: entry IDs, their textual form, appending with an
  explicit or generated ID, and reading the entries behind an ID.  Shown: the entries stay in strictly
  ascending ID order, an accepted append is the new last entry, a read returns exactly the entries
  behind the given ID, and printing and parsing IDs are inverse.
\<close>

section \<open>Definitions\<close>

record streamID =
  milliseconds :: int
  sequence :: int

record streamRecord =
  rec_id :: streamID
  rec_idText :: bytes
  rec_values :: "bytes list"

record StreamValue =
  st_entries :: "streamRecord list"
  st_lastID :: streamID
  st_hasEntries :: bool

record StreamEntry =
  se_ID :: bytes
  se_Values :: "bytes list"

definition newStream :: StreamValue where
  "newStream = \<lparr>st_entries = [], st_lastID = \<lparr>milliseconds = 0, sequence = 0\<rparr>, st_hasEntries = False\<rparr>"

definition cloneStreamValue :: "StreamValue \<Rightarrow> StreamValue" where
  "cloneStreamValue src =
     \<lparr>st_entries = map (\<lambda>e. \<lparr>rec_id = rec_id e, rec_idText = rec_idText e, rec_values = rec_values e\<rparr>) (st_entries src),
      st_lastID = st_lastID src, st_hasEntries = st_hasEntries src\<rparr>"

definition id_String :: "streamID \<Rightarrow> bytes" where
  "id_String sid = formatInt (milliseconds sid) @ str ''-'' @ formatInt (sequence sid)"

definition compareStreamIDs :: "streamID \<Rightarrow> streamID \<Rightarrow> int" where
  "compareStreamIDs left right =
     (if milliseconds left < milliseconds right then - 1
      else if milliseconds left > milliseconds right then 1
      else if sequence left < sequence right then - 1
      else if sequence left > sequence right then 1
      else 0)"

definition parseNonNegativeStreamInt :: "bytes \<Rightarrow> store_error + int" where
  "parseNonNegativeStreamInt raw =
     (case ParseInt raw of
        None \<Rightarrow> Inl ErrInvalidStreamID
      | Some v \<Rightarrow> if v < 0 then Inl ErrInvalidStreamID else Inr v)"

text \<open>\<^verbatim>\<open>strings.Cut(s, "-")\<close>.\<close>

definition cutDash :: "bytes \<Rightarrow> bytes \<times> bytes \<times> bool" where
  "cutDash s = (case IndexByte s 45 of
                  Some i \<Rightarrow> (take i s, drop (i + 1) s, True)
                | None \<Rightarrow> (s, [], False))"

definition parseStreamAddID :: "bytes \<Rightarrow> store_error + streamID" where
  "parseStreamAddID raw =
     (case cutDash raw of
        (msPart, seqPart, ok) \<Rightarrow>
          if \<not> ok \<or> msPart = [] \<or> seqPart = [] \<or> 45 \<in> set seqPart then Inl ErrInvalidStreamID
          else case parseNonNegativeStreamInt msPart of
                 Inl e \<Rightarrow> Inl e
               | Inr ms \<Rightarrow>
                   (case parseNonNegativeStreamInt seqPart of
                      Inl e \<Rightarrow> Inl e
                    | Inr sq \<Rightarrow> Inr \<lparr>milliseconds = ms, sequence = sq\<rparr>))"

definition parseStreamReadID :: "bytes \<Rightarrow> streamID \<Rightarrow> store_error + streamID" where
  "parseStreamReadID raw latest =
     (if raw = str ''$'' then Inr latest
      else if \<not> snd (snd (cutDash raw)) then
        (case parseNonNegativeStreamInt raw of
           Inl e \<Rightarrow> Inl e
         | Inr ms \<Rightarrow> Inr \<lparr>milliseconds = ms, sequence = 0\<rparr>)
      else parseStreamAddID raw)"

definition ValidateXAddID :: "bytes \<Rightarrow> store_error option" where
  "ValidateXAddID raw =
     (if raw = str ''*'' then None
      else case parseStreamAddID raw of Inl e \<Rightarrow> Some e | Inr _ \<Rightarrow> None)"

definition ValidateXReadID :: "bytes \<Rightarrow> store_error option" where
  "ValidateXReadID raw =
     (if raw = str ''$'' then None
      else if \<not> snd (snd (cutDash raw)) then
        (case parseNonNegativeStreamInt raw of Inl e \<Rightarrow> Some e | Inr _ \<Rightarrow> None)
      else case parseStreamAddID raw of Inl e \<Rightarrow> Some e | Inr _ \<Rightarrow> None)"

definition nextAutoID :: "StreamValue \<Rightarrow> int \<Rightarrow> streamID" where
  "nextAutoID s nowMillis =
     (if \<not> st_hasEntries s then \<lparr>milliseconds = nowMillis, sequence = 0\<rparr>
      else if nowMillis < milliseconds (st_lastID s) then
        \<lparr>milliseconds = milliseconds (st_lastID s), sequence = wrap64 (sequence (st_lastID s) + 1)\<rparr>
      else if nowMillis = milliseconds (st_lastID s) then
        \<lparr>milliseconds = nowMillis, sequence = wrap64 (sequence (st_lastID s) + 1)\<rparr>
      else \<lparr>milliseconds = nowMillis, sequence = 0\<rparr>)"

definition st_append :: "StreamValue \<Rightarrow> streamID \<Rightarrow> bytes list \<Rightarrow> StreamValue" where
  "st_append s sid values =
     \<lparr>st_entries = st_entries s @ [\<lparr>rec_id = sid, rec_idText = id_String sid, rec_values = values\<rparr>],
      st_lastID = sid, st_hasEntries = True\<rparr>"

definition st_add :: "StreamValue \<Rightarrow> bytes \<Rightarrow> bytes list \<Rightarrow> int \<Rightarrow> store_error + (StreamValue \<times> bytes)" where
  "st_add s rawID values nowMillis =
     (if rawID = str ''*'' then
        let sid = nextAutoID s nowMillis in Inr (st_append s sid values, id_String sid)
      else
        case parseStreamAddID rawID of
          Inl e \<Rightarrow> Inl e
        | Inr sid \<Rightarrow>
            if st_hasEntries s \<and> compareStreamIDs sid (st_lastID s) \<le> 0 then Inl ErrStreamIDTooSmall
            else Inr (st_append s sid values, id_String sid))"

definition st_entry :: "streamRecord \<Rightarrow> StreamEntry" where
  "st_entry r = \<lparr>se_ID = rec_idText r, se_Values = rec_values r\<rparr>"

definition st_entriesAfter :: "StreamValue \<Rightarrow> bytes \<Rightarrow> store_error + StreamEntry list" where
  "st_entriesAfter s rawID =
     (if st_entries s = [] then Inr []
      else
        case parseStreamReadID rawID (st_lastID s) of
          Inl e \<Rightarrow> Inl e
        | Inr after \<Rightarrow>
            let start = sort_Search (length (st_entries s))
                          (\<lambda>i. compareStreamIDs (rec_id (st_entries s ! i)) after > 0)
            in if start = length (st_entries s) then Inr []
               else Inr (map st_entry (drop start (st_entries s))))"

section \<open>Order and printing of IDs\<close>

definition id_key :: "streamID \<Rightarrow> int \<times> int" where
  "id_key sid = (milliseconds sid, sequence sid)"

definition id_less :: "streamID \<Rightarrow> streamID \<Rightarrow> bool" where
  "id_less a b \<longleftrightarrow> milliseconds a < milliseconds b \<or> milliseconds a = milliseconds b \<and> sequence a < sequence b"

definition id_ok :: "streamID \<Rightarrow> bool" where
  "id_ok sid \<longleftrightarrow> 0 \<le> milliseconds sid \<and> milliseconds sid < 2 ^ 63 \<and> 0 \<le> sequence sid \<and> sequence sid < 2 ^ 63"

text \<open>The invariant of a stored stream.\<close>

definition st_inv :: "StreamValue \<Rightarrow> bool" where
  "st_inv s \<longleftrightarrow>
     sorted_wrt id_less (map rec_id (st_entries s)) \<and>
     (\<forall>r \<in> set (st_entries s). id_ok (rec_id r) \<and> rec_idText r = id_String (rec_id r)) \<and>
     (st_hasEntries s \<longleftrightarrow> st_entries s \<noteq> []) \<and>
     (st_entries s \<noteq> [] \<longrightarrow> st_lastID s = rec_id (last (st_entries s)))"

lemma compare_less [simp]: "compareStreamIDs a b < 0 \<longleftrightarrow> id_less a b" "0 < compareStreamIDs a b \<longleftrightarrow> id_less b a"
  by (auto simp: compareStreamIDs_def id_less_def)

lemma id_less_trans: "id_less a b \<Longrightarrow> id_less b c \<Longrightarrow> id_less a c"
  by (auto simp: id_less_def)

lemma id_less_irrefl [simp]: "\<not> id_less a a"
  by (simp add: id_less_def)

lemma compare_le: "compareStreamIDs a b \<le> 0 \<longleftrightarrow> \<not> id_less b a"
  using compare_less(2) [of a b] by linarith

lemma formatInt_no_dash: "0 \<le> i \<Longrightarrow> 45 \<notin> set (formatInt i)"
  by (auto simp: formatInt_def dest!: nat_digits_digits is_digit_neq(1))

lemma parse_String: "id_ok sid \<Longrightarrow> parseStreamAddID (id_String sid) = Inr sid"
proof -
  assume ok: "id_ok sid"
  then have "cutDash (id_String sid) = (formatInt (milliseconds sid), formatInt (sequence sid), True)"
    using formatInt_no_dash [of "milliseconds sid"] by (simp add: cutDash_def id_String_def id_ok_def str_def)
  moreover have "parseNonNegativeStreamInt (formatInt (milliseconds sid)) = Inr (milliseconds sid)"
    "parseNonNegativeStreamInt (formatInt (sequence sid)) = Inr (sequence sid)"
    using ok by (simp_all add: parseNonNegativeStreamInt_def id_ok_def int64_range_def)
  ultimately show ?thesis
    using ok formatInt_no_dash [of "sequence sid"] by (simp add: parseStreamAddID_def id_ok_def)
qed

lemma parseStreamAddID_ok: "parseStreamAddID raw = Inr sid \<Longrightarrow> id_ok sid"
  by (auto simp: parseStreamAddID_def parseNonNegativeStreamInt_def id_ok_def int64_range_def
      split: prod.splits if_splits sum.splits option.splits dest!: ParseInt_range)

lemma parseStreamReadID_ok: "parseStreamReadID raw latest = Inr sid \<Longrightarrow> id_ok latest \<Longrightarrow> id_ok sid"
  using parseStreamAddID_ok [of raw sid]
  by (auto simp: parseStreamReadID_def parseNonNegativeStreamInt_def id_ok_def int64_range_def
      split: if_splits sum.splits option.splits dest!: ParseInt_range)

lemma id_String_not_special: "id_ok sid \<Longrightarrow> id_String sid \<noteq> str ''*'' \<and> id_String sid \<noteq> str ''$''"
proof -
  assume ok: "id_ok sid"
  have "45 \<in> set (id_String sid)" by (simp add: id_String_def str_def)
  moreover have "45 \<notin> set (str ''*'')" "45 \<notin> set (str ''$'')" by (simp_all add: str_def)
  ultimately show ?thesis by metis
qed

lemma parse_read_String: "id_ok sid \<Longrightarrow> parseStreamReadID (id_String sid) latest = Inr sid"
proof -
  assume ok: "id_ok sid"
  have "snd (snd (cutDash (id_String sid)))"
    using formatInt_no_dash [of "milliseconds sid"] ok by (simp add: cutDash_def id_String_def id_ok_def str_def)
  then show ?thesis using parse_String [OF ok] id_String_not_special [OF ok] by (simp add: parseStreamReadID_def)
qed

section \<open>Appending and reading\<close>

lemma newStream_inv: "st_inv newStream"
  by (simp add: st_inv_def newStream_def)

lemma cloneStreamValue_eq [simp]: "cloneStreamValue s = s"
  by (simp add: cloneStreamValue_def map_idI)

lemma append_inv:
  assumes "st_inv s" "id_ok sid" "st_hasEntries s \<Longrightarrow> id_less (st_lastID s) sid"
  shows "st_inv (st_append s sid values)"
proof -
  have "id_less (rec_id r) sid" if "r \<in> set (st_entries s)" for r
  proof -
    have ne: "st_entries s \<noteq> []" using that by auto
    then have last: "id_less (rec_id (last (st_entries s))) sid" using assms(1,3) by (simp add: st_inv_def)
    show ?thesis
    proof (cases "r = last (st_entries s)")
      case False
      have es: "st_entries s = butlast (st_entries s) @ [last (st_entries s)]" using ne by simp
      have "sorted_wrt id_less (map rec_id (butlast (st_entries s) @ [last (st_entries s)]))"
        using assms(1) ne by (simp add: st_inv_def)
      moreover have "r \<in> set (butlast (st_entries s))" using that False es
        by (metis Un_iff empty_iff list.set(1) set_append set_ConsD list.set_intros(1))
      ultimately have "id_less (rec_id r) (rec_id (last (st_entries s)))" by (simp add: sorted_wrt_append)
      then show ?thesis using last id_less_trans by blast
    qed (use last in simp)
  qed
  then show ?thesis using assms(1,2) by (auto simp: st_inv_def st_append_def sorted_wrt_append)
qed

text \<open>A generated ID is above the last one as long as its sequence number does not overflow.\<close>

lemma nextAutoID_ok:
  assumes "st_inv s" "0 \<le> now" "now < 2 ^ 63"
    "st_hasEntries s \<Longrightarrow> now \<le> milliseconds (st_lastID s) \<Longrightarrow> sequence (st_lastID s) < 2 ^ 63 - 1"
  shows "id_ok (nextAutoID s now)" "st_hasEntries s \<Longrightarrow> id_less (st_lastID s) (nextAutoID s now)"
proof -
  have last: "id_ok (st_lastID s)" if "st_hasEntries s" using assms(1) that by (auto simp: st_inv_def)
  have wr: "wrap64 (sequence (st_lastID s) + 1) = sequence (st_lastID s) + 1"
    if "st_hasEntries s" "now \<le> milliseconds (st_lastID s)"
    using last [OF that(1)] assms(4) [OF that] by (intro wrap64_id) (simp add: id_ok_def int64_range_def)
  show "id_ok (nextAutoID s now)"
    using last wr assms(2-4) by (auto simp: nextAutoID_def id_ok_def)
  show "id_less (st_lastID s) (nextAutoID s now)" if "st_hasEntries s"
    using wr that by (auto simp: nextAutoID_def id_less_def)
qed

lemma entriesAfter_spec:
  assumes inv: "st_inv s" and ne: "st_entries s \<noteq> []" and after: "parseStreamReadID raw (st_lastID s) = Inr after"
  shows "st_entriesAfter s raw = Inr (map st_entry (filter (\<lambda>r. id_less after (rec_id r)) (st_entries s)))"
proof -
  let ?es = "st_entries s"
  let ?f = "\<lambda>i. compareStreamIDs (rec_id (?es ! i)) after > 0"
  let ?k = "sort_Search (length ?es) ?f"
  have srt: "id_less (rec_id (?es ! i)) (rec_id (?es ! j))" if "i < j" "j < length ?es" for i j
    using inv that sorted_wrt_nth_less [of id_less "map rec_id ?es" i j] by (simp add: st_inv_def)
  have mono: "?f b" if "a \<le> b" "b < length ?es" "?f a" for a b
    using that srt [of a b] id_less_trans by (cases "a = b") auto
  note k = sort_Search_spec [of "length ?es" ?f, OF mono]
  have "filter (\<lambda>r. id_less after (rec_id r)) ?es =
        filter (\<lambda>r. id_less after (rec_id r)) (take ?k ?es) @ filter (\<lambda>r. id_less after (rec_id r)) (drop ?k ?es)"
    by (metis append_take_drop_id filter_append)
  also have "filter (\<lambda>r. id_less after (rec_id r)) (take ?k ?es) = []"
    using k(1,2) by (auto simp: filter_empty_conv in_set_conv_nth)
  also have "filter (\<lambda>r. id_less after (rec_id r)) (drop ?k ?es) = drop ?k ?es"
    using k(3) by (auto simp: filter_id_conv in_set_conv_nth)
  finally show ?thesis using ne after by (auto simp: st_entriesAfter_def Let_def)
qed

lemma st_inv_last: "st_inv s \<Longrightarrow> r \<in> set (st_entries s) \<Longrightarrow> r \<noteq> last (st_entries s) \<Longrightarrow> id_less (rec_id r) (st_lastID s)"
proof -
  assume inv: "st_inv s" and r: "r \<in> set (st_entries s)" "r \<noteq> last (st_entries s)"
  then obtain i where i: "i < length (st_entries s)" "st_entries s ! i = r" by (auto simp: in_set_conv_nth)
  have ne: "st_entries s \<noteq> []" using r by auto
  then have "i < length (st_entries s) - 1" using i r(2) by (cases "i = length (st_entries s) - 1") (auto simp: last_conv_nth)
  then show ?thesis
    using inv i ne sorted_wrt_nth_less [of id_less "map rec_id (st_entries s)" i "length (st_entries s) - 1"]
    by (simp add: st_inv_def last_conv_nth)
qed

section \<open>Properties\<close>

text \<open>C35. Appending to a stream, with an explicit or a generated ID, either is refused or adds exactly one
  entry behind all others: its ID is greater than every earlier ID, the returned text is that ID in
  printed form, and the stream stays in strictly ascending order.  For generated IDs (and only for them) this needs a clock
  reading that is a valid non-negative int64 and, when the clock is not past the last entry, a last sequence number that can
  still be incremented.\<close>

theorem stream_add_ascending:
  assumes "st_inv s"
    "raw = str ''*'' \<longrightarrow> 0 \<le> now \<and> now < 2 ^ 63 \<and>
       (st_hasEntries s \<and> now \<le> milliseconds (st_lastID s) \<longrightarrow> sequence (st_lastID s) < 2 ^ 63 - 1)"
    "st_add s raw values now = Inr (s', text)"
  shows "st_inv s' \<and>
    (\<exists>sid. id_ok sid \<and> text = id_String sid \<and> (raw \<noteq> str ''*'' \<longrightarrow> parseStreamAddID raw = Inr sid) \<and>
       st_entries s' = st_entries s @ [\<lparr>rec_id = sid, rec_idText = text, rec_values = values\<rparr>] \<and>
       (\<forall>r \<in> set (st_entries s). id_less (rec_id r) sid))"
proof -
  obtain sid where sid: "id_ok sid" "text = id_String sid" "s' = st_append s sid values"
    "raw \<noteq> str ''*'' \<longrightarrow> parseStreamAddID raw = Inr sid" "st_hasEntries s \<Longrightarrow> id_less (st_lastID s) sid"
  proof (cases "raw = str ''*''")
    case True
    then show ?thesis
      using that [of "nextAutoID s now"] assms nextAutoID_ok [of s now] by (auto simp: st_add_def Let_def)
  next
    case False
    then obtain sid where "parseStreamAddID raw = Inr sid" "\<not> (st_hasEntries s \<and> compareStreamIDs sid (st_lastID s) \<le> 0)"
      "s' = st_append s sid values" "text = id_String sid"
      using assms(3) by (auto simp: st_add_def split: sum.splits if_splits)
    then show ?thesis using that [of sid] parseStreamAddID_ok [of raw sid] False by (auto simp: compare_le)
  qed
  have inv: "st_inv s'" unfolding sid(3) by (rule append_inv [OF assms(1) sid(1,5)])
  have "id_less (rec_id r) sid" if "r \<in> set (st_entries s)" for r
    using inv that by (auto simp: sid(3) st_inv_def st_append_def sorted_wrt_append)
  then show ?thesis using inv sid by (auto simp: st_append_def)
qed

theorem stream_add_ascending_witness:
  "\<exists>s'. st_add newStream (str ''*'') [str ''f'', str ''v''] 7 = Inr (s', str ''7-0'') \<and> st_inv s' \<and> length (st_entries s') = 1"
proof -
  let ?s = "st_append newStream \<lparr>milliseconds = 7, sequence = 0\<rparr> [str ''f'', str ''v'']"
  have a: "st_add newStream (str ''*'') [str ''f'', str ''v''] 7 = Inr (?s, str ''7-0'')"
    by (simp add: st_add_def nextAutoID_def newStream_def id_String_def formatInt_def nat_digits.simps str_def)
  have "\<not> st_hasEntries newStream" by (simp add: newStream_def)
  then have "st_inv ?s" using stream_add_ascending [OF newStream_inv _ a] by simp
  then show ?thesis using a by (simp add: st_append_def newStream_def)
qed

text \<open>Reading behind an ID returns exactly the stream's entries whose ID is greater, in order; an ID that
  \<^verbatim>\<open>XADD\<close> returned denotes its own entry again, and \<^verbatim>\<open>$\<close> denotes the last one, behind which there is nothing.\<close>

theorem stream_read_exact:
  assumes "st_inv s" "st_entries s \<noteq> []"
  shows "(\<forall>after. parseStreamReadID raw (st_lastID s) = Inr after \<longrightarrow>
            st_entriesAfter s raw = Inr (map st_entry (filter (\<lambda>r. id_less after (rec_id r)) (st_entries s)))) \<and>
         (\<forall>r \<in> set (st_entries s). parseStreamReadID (rec_idText r) (st_lastID s) = Inr (rec_id r)) \<and>
         st_entriesAfter s (str ''$'') = Inr []"
proof -
  have "filter (\<lambda>r. id_less (st_lastID s) (rec_id r)) (st_entries s) = []"
  proof -
    have "\<not> id_less (st_lastID s) (rec_id r)" if "r \<in> set (st_entries s)" for r
      using st_inv_last [OF assms(1) that] id_less_trans [of "rec_id r" "st_lastID s" "rec_id r"] assms
      by (cases "r = last (st_entries s)") (auto simp: st_inv_def)
    then show ?thesis by (simp add: filter_empty_conv)
  qed
  then have "st_entriesAfter s (str ''$'') = Inr []"
    using entriesAfter_spec [OF assms, of "str ''$''" "st_lastID s"] by (simp add: parseStreamReadID_def)
  then show ?thesis
    using entriesAfter_spec [OF assms] parse_read_String assms(1) by (auto simp: st_inv_def)
qed

theorem stream_read_exact_witness:
  "let s = st_append (st_append newStream \<lparr>milliseconds = 7, sequence = 0\<rparr> [str ''a'']) \<lparr>milliseconds = 7, sequence = 1\<rparr> [str ''b'']
   in st_entriesAfter s (str ''7-0'') = Inr [\<lparr>se_ID = str ''7-1'', se_Values = [str ''b'']\<rparr>]"
proof -
  let ?s1 = "st_append newStream \<lparr>milliseconds = 7, sequence = 0\<rparr> [str ''a'']"
  let ?s = "st_append ?s1 \<lparr>milliseconds = 7, sequence = 1\<rparr> [str ''b'']"
  have "st_inv ?s"
    by (rule append_inv [OF append_inv [OF newStream_inv]]) (simp_all add: id_ok_def newStream_def st_append_def id_less_def)
  moreover have "st_entries ?s \<noteq> []" by (simp add: st_append_def)
  moreover have "parseStreamReadID (str ''7-0'') (st_lastID ?s) = Inr \<lparr>milliseconds = 7, sequence = 0\<rparr>"
    using parse_read_String [of "\<lparr>milliseconds = 7, sequence = 0\<rparr>"]
    by (simp add: id_ok_def id_String_def formatInt_def nat_digits.simps str_def)
  ultimately have "st_entriesAfter ?s (str ''7-0'') =
      Inr (map st_entry (filter (\<lambda>r. id_less \<lparr>milliseconds = 7, sequence = 0\<rparr> (rec_id r)) (st_entries ?s)))"
    using stream_read_exact [of ?s "str ''7-0''"] by blast
  then show ?thesis
    by (simp add: st_append_def newStream_def id_less_def st_entry_def id_String_def formatInt_def nat_digits.simps str_def)
qed

text \<open>The generated sequence number wraps around: behind an entry with the greatest sequence number, an
  automatic ID in the same millisecond is smaller than the last one, so the append is accepted but the
  stream is no longer ascending.\<close>

theorem auto_id_wraps:
  "\<exists>s s'. st_inv s \<and> st_add s (str ''*'') [] 5 = Inr (s', str ''5--9223372036854775808'') \<and> \<not> st_inv s'"
proof -
  let ?s = "st_append newStream \<lparr>milliseconds = 5, sequence = 9223372036854775807\<rparr> []"
  let ?s' = "st_append ?s \<lparr>milliseconds = 5, sequence = - 9223372036854775808\<rparr> []"
  have "st_inv ?s" by (rule append_inv [OF newStream_inv]) (simp_all add: id_ok_def newStream_def)
  moreover have "st_add ?s (str ''*'') [] 5 = Inr (?s', str ''5--9223372036854775808'')"
    by (simp add: st_add_def nextAutoID_def st_append_def wrap64_def id_String_def formatInt_def nat_digits.simps str_def Let_def)
  moreover have "\<not> st_inv ?s'" by (simp add: st_inv_def st_append_def newStream_def id_less_def)
  ultimately show ?thesis by blast
qed

end
