(* ===== verification/Value_Object.thy ===== *)
theory Value_Object
  imports Intset Compact_Hash Compact_Zset Skiplist Streams
begin

text \<open>
  The value object of \<^verbatim>\<open>src/internal/storage/types.go\<close> and the operations that dispatch between a
  compact and a general encoding, from \<^verbatim>\<open>collection_value.go\<close>.  A value object is the tagged record of
  the code; pointers that may be nil are options.  Its methods are modelled on a non-nil receiver,
  which is what every caller passes.

  Shown: on a well-formed value object no operation reports \<^verbatim>\<open>errInvalidValueObjectState\<close>; every
  operation keeps well-formedness, which includes the size limits of the compact encodings; and what
  an operation computes depends only on the abstract value (a map, a set, a sorted map), so the switch
  from a compact to a general encoding is invisible.
\<close>

section \<open>Data\<close>

datatype ValueKind =
    ValueKindString | ValueKindList | ValueKindZSet | ValueKindStream | ValueKindHash | ValueKindSet

datatype ValueEncoding = ValueEncodingGeneral | ValueEncodingCompact

record ValueObject =
  vo_String :: bytes
  vo_List :: "bytes list"
  vo_ZSet :: "SortedSet option"
  vo_CompactZSet :: "CompactZSet option"
  vo_ZSetEncoding :: ValueEncoding
  vo_Stream :: "StreamValue option"
  vo_Hash :: "(bytes, bytes) gomap option"
  vo_CompactHash :: "CompactHash option"
  vo_HashEncoding :: ValueEncoding
  vo_Set :: "bytes goset option"
  vo_IntSet :: "IntSet option"
  vo_SetEncoding :: ValueEncoding
  vo_ExpiresAt :: int
  vo_LastAccessedAt :: int
  vo_Kind :: ValueKind

text \<open>A composite literal: all fields zero but the ones given.  \<open>now\<close> is the clock reading the
  constructors take.\<close>

definition zeroValue :: "ValueKind \<Rightarrow> int \<Rightarrow> int \<Rightarrow> ValueObject" where
  "zeroValue kind expiresAt now =
     \<lparr>vo_String = [], vo_List = [], vo_ZSet = None, vo_CompactZSet = None, vo_ZSetEncoding = ValueEncodingGeneral,
      vo_Stream = None, vo_Hash = None, vo_CompactHash = None, vo_HashEncoding = ValueEncodingGeneral,
      vo_Set = None, vo_IntSet = None, vo_SetEncoding = ValueEncodingGeneral,
      vo_ExpiresAt = expiresAt, vo_LastAccessedAt = now, vo_Kind = kind\<rparr>"

definition touch :: "ValueObject \<Rightarrow> int \<Rightarrow> ValueObject" where
  "touch v now = v\<lparr>vo_LastAccessedAt := now\<rparr>"

definition newOwnedStringValue :: "bytes \<Rightarrow> int \<Rightarrow> int \<Rightarrow> ValueObject" where
  "newOwnedStringValue data expiresAt now = (zeroValue ValueKindString expiresAt now)\<lparr>vo_String := data\<rparr>"

definition newStringValue :: "bytes \<Rightarrow> int \<Rightarrow> int \<Rightarrow> ValueObject" where
  "newStringValue data expiresAt now = newOwnedStringValue data expiresAt now"

definition newListValue :: "bytes list \<Rightarrow> int \<Rightarrow> int \<Rightarrow> ValueObject" where
  "newListValue items expiresAt now = (zeroValue ValueKindList expiresAt now)\<lparr>vo_List := items\<rparr>"

definition newZSetValue :: "SortedSet \<Rightarrow> int \<Rightarrow> int \<Rightarrow> ValueObject" where
  "newZSetValue s expiresAt now = (zeroValue ValueKindZSet expiresAt now)\<lparr>vo_ZSet := Some s\<rparr>"

definition newCompactZSetValue :: "CompactZSet \<Rightarrow> int \<Rightarrow> int \<Rightarrow> ValueObject" where
  "newCompactZSetValue s expiresAt now =
     (zeroValue ValueKindZSet expiresAt now)\<lparr>vo_CompactZSet := Some s, vo_ZSetEncoding := ValueEncodingCompact\<rparr>"

definition newStreamValue :: "StreamValue \<Rightarrow> int \<Rightarrow> int \<Rightarrow> ValueObject" where
  "newStreamValue stream expiresAt now = (zeroValue ValueKindStream expiresAt now)\<lparr>vo_Stream := Some stream\<rparr>"

definition newHashValue :: "(bytes, bytes) gomap \<Rightarrow> int \<Rightarrow> int \<Rightarrow> ValueObject" where
  "newHashValue flds expiresAt now = (zeroValue ValueKindHash expiresAt now)\<lparr>vo_Hash := Some flds\<rparr>"

definition newCompactHashValue :: "CompactHash \<Rightarrow> int \<Rightarrow> int \<Rightarrow> ValueObject" where
  "newCompactHashValue hash expiresAt now =
     (zeroValue ValueKindHash expiresAt now)\<lparr>vo_CompactHash := Some hash, vo_HashEncoding := ValueEncodingCompact\<rparr>"

definition newSetValue :: "bytes goset \<Rightarrow> int \<Rightarrow> int \<Rightarrow> ValueObject" where
  "newSetValue members expiresAt now = (zeroValue ValueKindSet expiresAt now)\<lparr>vo_Set := Some members\<rparr>"

definition newIntSetValue :: "IntSet \<Rightarrow> int \<Rightarrow> int \<Rightarrow> ValueObject" where
  "newIntSetValue members expiresAt now =
     (zeroValue ValueKindSet expiresAt now)\<lparr>vo_IntSet := Some members, vo_SetEncoding := ValueEncodingCompact\<rparr>"

definition StringValue :: "ValueObject \<Rightarrow> store_error + bytes" where
  "StringValue v = (if vo_Kind v \<noteq> ValueKindString then Inl ErrWrongType else Inr (vo_String v))"

definition ListValue :: "ValueObject \<Rightarrow> store_error + bytes list" where
  "ListValue v = (if vo_Kind v \<noteq> ValueKindList then Inl ErrWrongType else Inr (vo_List v))"

definition StreamValueOf :: "ValueObject \<Rightarrow> store_error + StreamValue" where
  "StreamValueOf v =
     (if vo_Kind v \<noteq> ValueKindStream then Inl ErrWrongType
      else case vo_Stream v of None \<Rightarrow> Inl errInvalidValueObjectState | Some s \<Rightarrow> Inr s)"

section \<open>Hashes\<close>

text \<open>The checks every hash method starts with: the kind, then the payload of the current encoding.\<close>

definition hashPayload :: "ValueObject \<Rightarrow> store_error + (CompactHash + (bytes, bytes) gomap)" where
  "hashPayload v =
     (if vo_Kind v \<noteq> ValueKindHash then Inl ErrWrongType
      else if vo_HashEncoding v = ValueEncodingCompact then
        (case vo_CompactHash v of None \<Rightarrow> Inl errInvalidValueObjectState | Some h \<Rightarrow> Inr (Inl h))
      else
        (case vo_Hash v of None \<Rightarrow> Inl errInvalidValueObjectState | Some m \<Rightarrow> Inr (Inr m)))"

definition hashLen :: "ValueObject \<Rightarrow> store_error + nat" where
  "hashLen v = (case hashPayload v of
     Inl e \<Rightarrow> Inl e
   | Inr (Inl h) \<Rightarrow> Inr (ch_len h)
   | Inr (Inr m) \<Rightarrow> Inr (length m))"

definition hashGet :: "ValueObject \<Rightarrow> bytes \<Rightarrow> store_error + bytes option" where
  "hashGet v field = (case hashPayload v of
     Inl e \<Rightarrow> Inl e
   | Inr (Inl h) \<Rightarrow> Inr (ch_get h field)
   | Inr (Inr m) \<Rightarrow> Inr (gm_get m field))"

text \<open>Assignment and deletion on a Go map, with the presence test the loops make.\<close>

definition gm_put :: "('k, 'v) gomap \<Rightarrow> 'k \<Rightarrow> 'v \<Rightarrow> ('k, 'v) gomap \<times> bool" where
  "gm_put m k v = (gm_set m k v, gm_get m k = None)"

definition gm_remove :: "('k, 'v) gomap \<Rightarrow> 'k \<Rightarrow> ('k, 'v) gomap \<times> bool" where
  "gm_remove m k = (if gm_get m k \<noteq> None then (gm_del m k, True) else (m, False))"

definition hashSetGeneral :: "(bytes, bytes) gomap \<Rightarrow> (bytes \<times> bytes) list \<Rightarrow> (bytes, bytes) gomap \<times> nat" where
  "hashSetGeneral hash pairs = assign_loop gm_put hash pairs 0"

fun compactHashCanSet_loop :: "CompactHash \<Rightarrow> (bytes \<times> bytes) list \<Rightarrow> nat \<Rightarrow> bytes goset \<Rightarrow> bool" where
  "compactHashCanSet_loop h [] projectedLen newFields = True"
| "compactHashCanSet_loop h ((f, v) # pairs) projectedLen newFields =
     (if length f > compactHashMaxStringSize \<or> length v > compactHashMaxStringSize then False
      else if ch_get h f \<noteq> None then compactHashCanSet_loop h pairs projectedLen newFields
      else if f \<in> set newFields then compactHashCanSet_loop h pairs projectedLen newFields
      else if projectedLen + 1 > compactHashMaxEntries then False
      else compactHashCanSet_loop h pairs (projectedLen + 1) (gs_insert f newFields))"

definition compactHashCanSet :: "CompactHash \<Rightarrow> (bytes \<times> bytes) list \<Rightarrow> bool" where
  "compactHashCanSet h pairs = compactHashCanSet_loop h pairs (ch_len h) []"

definition compactHashGeneralMap :: "CompactHash \<Rightarrow> (bytes, bytes) gomap" where
  "compactHashGeneralMap h = foldl (\<lambda>flds entry. gm_set flds (ch_field h entry) (ch_value h entry)) [] (ch_entries h)"

text \<open>The value after \<^verbatim>\<open>upgradeCompactHash\<close>.\<close>

definition upgradeCompactHash :: "ValueObject \<Rightarrow> CompactHash \<Rightarrow> ValueObject" where
  "upgradeCompactHash v h =
     v\<lparr>vo_Hash := Some (compactHashGeneralMap h), vo_CompactHash := None, vo_HashEncoding := ValueEncodingGeneral\<rparr>"

text \<open>\<^verbatim>\<open>hashSet\<close>; after an upgrade the recursive call takes the general branch.\<close>

definition hashSet :: "ValueObject \<Rightarrow> (bytes \<times> bytes) list \<Rightarrow> store_error + (ValueObject \<times> nat)" where
  "hashSet v pairs = (case hashPayload v of
     Inl e \<Rightarrow> Inl e
   | Inr (Inl h) \<Rightarrow>
       if \<not> compactHashCanSet h pairs then
         (case hashSetGeneral (compactHashGeneralMap h) pairs of
            (m, added) \<Rightarrow> Inr ((upgradeCompactHash v h)\<lparr>vo_Hash := Some m\<rparr>, added))
       else
         (case assign_loop ch_set h pairs 0 of (h', added) \<Rightarrow> Inr (v\<lparr>vo_CompactHash := Some h'\<rparr>, added))
   | Inr (Inr m) \<Rightarrow>
       (case hashSetGeneral m pairs of (m', added) \<Rightarrow> Inr (v\<lparr>vo_Hash := Some m'\<rparr>, added)))"

definition hashDel :: "ValueObject \<Rightarrow> bytes list \<Rightarrow> store_error + (ValueObject \<times> nat)" where
  "hashDel v flds = (case hashPayload v of
     Inl e \<Rightarrow> Inl e
   | Inr (Inl h) \<Rightarrow> (case remove_loop ch_del h flds 0 of (h', removed) \<Rightarrow> Inr (v\<lparr>vo_CompactHash := Some h'\<rparr>, removed))
   | Inr (Inr m) \<Rightarrow> (case remove_loop gm_remove m flds 0 of (m', removed) \<Rightarrow> Inr (v\<lparr>vo_Hash := Some m'\<rparr>, removed)))"

definition hashEntries :: "ValueObject \<Rightarrow> store_error + (bytes \<times> bytes) list" where
  "hashEntries v = (case hashPayload v of
     Inl e \<Rightarrow> Inl e
   | Inr (Inl h) \<Rightarrow> Inr (ch_all h)
   | Inr (Inr m) \<Rightarrow> Inr m)"

definition HashValue :: "ValueObject \<Rightarrow> store_error + (bytes, bytes) gomap" where
  "HashValue v = (case hashPayload v of
     Inl e \<Rightarrow> Inl e
   | Inr (Inl h) \<Rightarrow> Inr (foldl (\<lambda>flds (f, x). gm_set flds f x) [] (ch_all h))
   | Inr (Inr m) \<Rightarrow> Inr m)"

definition cloneHashValue :: "ValueObject \<Rightarrow> int \<Rightarrow> int \<Rightarrow> store_error + ValueObject" where
  "cloneHashValue v expiresAt now = (case hashPayload v of
     Inl e \<Rightarrow> Inl e
   | Inr (Inl h) \<Rightarrow> Inr (newCompactHashValue (cloneCompactHash h) expiresAt now)
   | Inr (Inr m) \<Rightarrow> Inr (newHashValue (foldl (\<lambda>flds (f, x). gm_set flds f x) [] m) expiresAt now))"

fun hashMapForPairs_loop :: "(bytes \<times> bytes) list \<Rightarrow> (bytes, bytes) gomap \<Rightarrow> bool \<Rightarrow> (bytes, bytes) gomap \<times> bool" where
  "hashMapForPairs_loop [] flds compactEligible = (flds, compactEligible)"
| "hashMapForPairs_loop ((f, v) # pairs) flds compactEligible =
     hashMapForPairs_loop pairs (gm_set flds f v)
       (if length f > compactHashMaxStringSize \<or> length v > compactHashMaxStringSize then False else compactEligible)"

definition hashMapForPairs :: "(bytes \<times> bytes) list \<Rightarrow> (bytes, bytes) gomap \<times> bool" where
  "hashMapForPairs pairs = hashMapForPairs_loop pairs [] True"

definition newCompactHashFromMap :: "(bytes, bytes) gomap \<Rightarrow> CompactHash" where
  "newCompactHashFromMap flds = foldl (\<lambda>h (f, v). fst (ch_set h f v)) \<lparr>ch_entries = [], ch_arena = []\<rparr> flds"

definition newHashValueForPairs :: "(bytes \<times> bytes) list \<Rightarrow> int \<Rightarrow> int \<Rightarrow> ValueObject" where
  "newHashValueForPairs pairs expiresAt now =
     (case hashMapForPairs pairs of
        (flds, compactEligible) \<Rightarrow>
          if compactEligible \<and> length flds \<le> compactHashMaxEntries
          then newCompactHashValue (newCompactHashFromMap flds) expiresAt now
          else newHashValue flds expiresAt now)"

section \<open>Sorted sets\<close>

definition zsetPayload :: "ValueObject \<Rightarrow> store_error + (CompactZSet + SortedSet)" where
  "zsetPayload v =
     (if vo_Kind v \<noteq> ValueKindZSet then Inl ErrWrongType
      else if vo_ZSetEncoding v = ValueEncodingCompact then
        (case vo_CompactZSet v of None \<Rightarrow> Inl errInvalidValueObjectState | Some s \<Rightarrow> Inr (Inl s))
      else
        (case vo_ZSet v of None \<Rightarrow> Inl errInvalidValueObjectState | Some s \<Rightarrow> Inr (Inr s)))"

definition zsetLen :: "ValueObject \<Rightarrow> store_error + nat" where
  "zsetLen v = (case zsetPayload v of
     Inl e \<Rightarrow> Inl e
   | Inr (Inl s) \<Rightarrow> Inr (cz_len s)
   | Inr (Inr s) \<Rightarrow> Inr (ss_len s))"

definition compactZSetContains :: "CompactZSet \<Rightarrow> bytes \<Rightarrow> bool" where
  "compactZSetContains s member \<longleftrightarrow> (\<exists>entry \<in> set (cz_entries s). cz_memberEqual s entry member)"

fun compactZSetCanAdd_loop :: "CompactZSet \<Rightarrow> zentry list \<Rightarrow> nat \<Rightarrow> bytes goset \<Rightarrow> bool" where
  "compactZSetCanAdd_loop s [] projectedLen newMembers = True"
| "compactZSetCanAdd_loop s ((m, sc) # es) projectedLen newMembers =
     (if length m > compactZSetMaxMemberLen then False
      else if compactZSetContains s m then compactZSetCanAdd_loop s es projectedLen newMembers
      else if m \<in> set newMembers then compactZSetCanAdd_loop s es projectedLen newMembers
      else if projectedLen + 1 > compactZSetMaxEntries then False
      else compactZSetCanAdd_loop s es (projectedLen + 1) (gs_insert m newMembers))"

definition compactZSetCanAdd :: "CompactZSet \<Rightarrow> zentry list \<Rightarrow> bool" where
  "compactZSetCanAdd s es = compactZSetCanAdd_loop s es (cz_len s) []"

definition compactZSetGeneralSet :: "(nat \<Rightarrow> nat \<Rightarrow> bool) \<Rightarrow> CompactZSet \<Rightarrow> SortedSet" where
  "compactZSetGeneralSet coin s =
     foldl (\<lambda>g entry. fst (ss_add coin g (cz_memberBytes s entry) (ze_score entry))) newSortedSet (cz_entries s)"

definition upgradeCompactZSet :: "(nat \<Rightarrow> nat \<Rightarrow> bool) \<Rightarrow> ValueObject \<Rightarrow> CompactZSet \<Rightarrow> ValueObject" where
  "upgradeCompactZSet coin v s =
     v\<lparr>vo_ZSet := Some (compactZSetGeneralSet coin s), vo_CompactZSet := None, vo_ZSetEncoding := ValueEncodingGeneral\<rparr>"

definition zsetAddGeneral :: "(nat \<Rightarrow> nat \<Rightarrow> bool) \<Rightarrow> SortedSet \<Rightarrow> zentry list \<Rightarrow> SortedSet \<times> nat" where
  "zsetAddGeneral coin s es = assign_loop (ss_add coin) s es 0"

definition zsetAdd :: "(nat \<Rightarrow> nat \<Rightarrow> bool) \<Rightarrow> ValueObject \<Rightarrow> zentry list \<Rightarrow> store_error + (ValueObject \<times> nat)" where
  "zsetAdd coin v es = (case zsetPayload v of
     Inl e \<Rightarrow> Inl e
   | Inr (Inl s) \<Rightarrow>
       if \<not> compactZSetCanAdd s es then
         (case zsetAddGeneral coin (compactZSetGeneralSet coin s) es of
            (g, added) \<Rightarrow> Inr ((upgradeCompactZSet coin v s)\<lparr>vo_ZSet := Some g\<rparr>, added))
       else
         (case assign_loop cz_add s es 0 of (s', added) \<Rightarrow> Inr (v\<lparr>vo_CompactZSet := Some s'\<rparr>, added))
   | Inr (Inr s) \<Rightarrow>
       (case zsetAddGeneral coin s es of (s', added) \<Rightarrow> Inr (v\<lparr>vo_ZSet := Some s'\<rparr>, added)))"

definition zsetScore :: "ValueObject \<Rightarrow> bytes \<Rightarrow> store_error + float64 option" where
  "zsetScore v member = (case zsetPayload v of
     Inl e \<Rightarrow> Inl e
   | Inr (Inl s) \<Rightarrow> Inr (cz_score s member)
   | Inr (Inr s) \<Rightarrow> Inr (ss_score s member))"

definition zsetRangeByRank :: "ValueObject \<Rightarrow> int \<Rightarrow> int \<Rightarrow> store_error + zentry list" where
  "zsetRangeByRank v start stop = (case zsetPayload v of
     Inl e \<Rightarrow> Inl e
   | Inr (Inl s) \<Rightarrow> Inr (cz_rangeByRank s start stop)
   | Inr (Inr s) \<Rightarrow> Inr (ss_rangeByRank s start stop))"

definition zsetRangeByScore :: "ValueObject \<Rightarrow> ScoreRange \<Rightarrow> store_error + zentry list" where
  "zsetRangeByScore v r = (case zsetPayload v of
     Inl e \<Rightarrow> Inl e
   | Inr (Inl s) \<Rightarrow> Inr (cz_rangeByScore s r)
   | Inr (Inr s) \<Rightarrow> Inr (ss_rangeByScore s r))"

definition ZSetValue :: "(nat \<Rightarrow> nat \<Rightarrow> bool) \<Rightarrow> ValueObject \<Rightarrow> store_error + SortedSet" where
  "ZSetValue coin v = (case zsetPayload v of
     Inl e \<Rightarrow> Inl e
   | Inr (Inl s) \<Rightarrow>
       Inr (foldl (\<lambda>g (m, sc). fst (ss_add coin g m sc)) newSortedSet (cz_rangeByRank s 0 (int (cz_len s) - 1)))
   | Inr (Inr s) \<Rightarrow> Inr s)"

definition cloneZSetValue :: "(nat \<Rightarrow> nat \<Rightarrow> bool) \<Rightarrow> ValueObject \<Rightarrow> int \<Rightarrow> int \<Rightarrow> store_error + ValueObject" where
  "cloneZSetValue coin v expiresAt now = (case zsetPayload v of
     Inl e \<Rightarrow> Inl e
   | Inr (Inl s) \<Rightarrow> Inr (newCompactZSetValue (cloneCompactZSet s) expiresAt now)
   | Inr (Inr s) \<Rightarrow> Inr (newZSetValue (cloneSortedSet coin s) expiresAt now))"

fun zsetMapForEntries_loop :: "zentry list \<Rightarrow> (bytes, float64) gomap \<Rightarrow> bool \<Rightarrow> (bytes, float64) gomap \<times> bool" where
  "zsetMapForEntries_loop [] members compactEligible = (members, compactEligible)"
| "zsetMapForEntries_loop ((m, sc) # es) members compactEligible =
     zsetMapForEntries_loop es (gm_set members m sc)
       (if length m > compactZSetMaxMemberLen then False else compactEligible)"

definition zsetMapForEntries :: "zentry list \<Rightarrow> (bytes, float64) gomap \<times> bool" where
  "zsetMapForEntries es = zsetMapForEntries_loop es [] True"

definition newCompactZSetFromMap :: "(bytes, float64) gomap \<Rightarrow> CompactZSet" where
  "newCompactZSetFromMap members =
     foldl (\<lambda>s (m, sc). fst (cz_add s m sc)) \<lparr>cz_entries = [], cz_arena = []\<rparr> members"

definition newSortedSetFromMap :: "(nat \<Rightarrow> nat \<Rightarrow> bool) \<Rightarrow> (bytes, float64) gomap \<Rightarrow> SortedSet" where
  "newSortedSetFromMap coin members = foldl (\<lambda>s (m, sc). fst (ss_add coin s m sc)) newSortedSet members"

definition newZSetValueForEntries :: "(nat \<Rightarrow> nat \<Rightarrow> bool) \<Rightarrow> zentry list \<Rightarrow> int \<Rightarrow> int \<Rightarrow> ValueObject" where
  "newZSetValueForEntries coin es expiresAt now =
     (case zsetMapForEntries es of
        (members, compactEligible) \<Rightarrow>
          if compactEligible \<and> length members \<le> compactZSetMaxEntries
          then newCompactZSetValue (newCompactZSetFromMap members) expiresAt now
          else newZSetValue (newSortedSetFromMap coin members) expiresAt now)"

section \<open>Sets\<close>

definition setPayload :: "ValueObject \<Rightarrow> store_error + (IntSet + bytes goset)" where
  "setPayload v =
     (if vo_Kind v \<noteq> ValueKindSet then Inl ErrWrongType
      else if vo_SetEncoding v = ValueEncodingCompact then
        (case vo_IntSet v of None \<Rightarrow> Inl errInvalidValueObjectState | Some s \<Rightarrow> Inr (Inl s))
      else
        (case vo_Set v of None \<Rightarrow> Inl errInvalidValueObjectState | Some s \<Rightarrow> Inr (Inr s)))"

definition setLen :: "ValueObject \<Rightarrow> store_error + nat" where
  "setLen v = (case setPayload v of
     Inl e \<Rightarrow> Inl e
   | Inr (Inl s) \<Rightarrow> Inr (is_len s)
   | Inr (Inr s) \<Rightarrow> Inr (length s))"

fun mustAddSetMembers :: "bytes goset \<Rightarrow> bytes list \<Rightarrow> nat \<Rightarrow> bytes goset \<times> nat" where
  "mustAddSetMembers s [] added = (s, added)"
| "mustAddSetMembers s (m # ms) added =
     (if m \<in> set s then mustAddSetMembers s ms added
      else mustAddSetMembers (gs_insert m s) ms (added + 1))"

definition setAdd :: "ValueObject \<Rightarrow> bytes list \<Rightarrow> store_error + (ValueObject \<times> nat)" where
  "setAdd v members = (case setPayload v of
     Inl e \<Rightarrow> Inl e
   | Inr (Inl s) \<Rightarrow>
       (case is_addMany s members of
          (s', added, ok) \<Rightarrow>
            if \<not> ok then
              (case mustAddSetMembers (is_generalSet s') members 0 of
                 (g, added) \<Rightarrow>
                   Inr (v\<lparr>vo_IntSet := None, vo_Set := Some g, vo_SetEncoding := ValueEncodingGeneral\<rparr>, added))
            else if is_len s' > intSetMaxEntries then
              Inr (v\<lparr>vo_Set := Some (is_generalSet s'), vo_IntSet := None, vo_SetEncoding := ValueEncodingGeneral\<rparr>, added)
            else Inr (v\<lparr>vo_IntSet := Some s'\<rparr>, added))
   | Inr (Inr s) \<Rightarrow>
       (case mustAddSetMembers s members 0 of (s', added) \<Rightarrow> Inr (v\<lparr>vo_Set := Some s'\<rparr>, added)))"

definition setContains :: "ValueObject \<Rightarrow> bytes \<Rightarrow> store_error + bool" where
  "setContains v member = (case setPayload v of
     Inl e \<Rightarrow> Inl e
   | Inr (Inl s) \<Rightarrow> Inr (is_contains s member)
   | Inr (Inr s) \<Rightarrow> Inr (member \<in> set s))"

definition gs_remove :: "bytes goset \<Rightarrow> bytes \<Rightarrow> bytes goset \<times> bool" where
  "gs_remove s m = (if m \<notin> set s then (s, False) else (gs_delete m s, True))"

definition setRemove :: "ValueObject \<Rightarrow> bytes list \<Rightarrow> store_error + (ValueObject \<times> nat)" where
  "setRemove v members = (case setPayload v of
     Inl e \<Rightarrow> Inl e
   | Inr (Inl s) \<Rightarrow> (case remove_loop is_remove s members 0 of (s', removed) \<Rightarrow> Inr (v\<lparr>vo_IntSet := Some s'\<rparr>, removed))
   | Inr (Inr s) \<Rightarrow> (case remove_loop gs_remove s members 0 of (s', removed) \<Rightarrow> Inr (v\<lparr>vo_Set := Some s'\<rparr>, removed)))"

definition setMembers :: "ValueObject \<Rightarrow> store_error + bytes list" where
  "setMembers v = (case setPayload v of
     Inl e \<Rightarrow> Inl e
   | Inr (Inl s) \<Rightarrow> Inr (is_members s)
   | Inr (Inr s) \<Rightarrow> Inr s)"

definition SetValue :: "ValueObject \<Rightarrow> store_error + bytes goset" where
  "SetValue v = (case setPayload v of
     Inl e \<Rightarrow> Inl e
   | Inr (Inl s) \<Rightarrow> Inr (is_generalSet s)
   | Inr (Inr s) \<Rightarrow> Inr s)"

definition cloneSetValue :: "ValueObject \<Rightarrow> int \<Rightarrow> int \<Rightarrow> store_error + ValueObject" where
  "cloneSetValue v expiresAt now = (case setPayload v of
     Inl e \<Rightarrow> Inl e
   | Inr (Inl s) \<Rightarrow> Inr (newIntSetValue (cloneIntSet s) expiresAt now)
   | Inr (Inr s) \<Rightarrow> Inr (newSetValue (foldl (\<lambda>ms m. gs_insert m ms) [] s) expiresAt now))"

definition newSetValueForMembers :: "bytes list \<Rightarrow> int \<Rightarrow> int \<Rightarrow> ValueObject" where
  "newSetValueForMembers members expiresAt now =
     (case newIntSet members of
        Some s \<Rightarrow>
          if is_len s \<le> intSetMaxEntries then newIntSetValue s expiresAt now
          else newSetValue (fst (mustAddSetMembers [] members 0)) expiresAt now
      | None \<Rightarrow> newSetValue (fst (mustAddSetMembers [] members 0)) expiresAt now)"

section \<open>The abstract value\<close>

datatype contents =
    CString bytes
  | CList "bytes list"
  | CZSet "bytes \<rightharpoonup> float64"
  | CStream StreamValue
  | CHash "bytes \<rightharpoonup> bytes"
  | CSet "bytes set"

fun hash_ok :: "CompactHash + (bytes, bytes) gomap \<Rightarrow> bool" where
  "hash_ok (Inl h) \<longleftrightarrow> ch_inv h \<and> ch_len h \<le> compactHashMaxEntries \<and>
     (\<forall>f x. ch_get h f = Some x \<longrightarrow> length f \<le> compactHashMaxStringSize \<and> length x \<le> compactHashMaxStringSize)"
| "hash_ok (Inr m) \<longleftrightarrow> gm_wf m"

fun hash_abs :: "CompactHash + (bytes, bytes) gomap \<Rightarrow> bytes \<rightharpoonup> bytes" where
  "hash_abs (Inl h) = ch_get h"
| "hash_abs (Inr m) = map_of m"

fun zset_ok :: "CompactZSet + SortedSet \<Rightarrow> bool" where
  "zset_ok (Inl s) \<longleftrightarrow> cz_inv s \<and> cz_len s \<le> compactZSetMaxEntries \<and>
     (\<forall>m \<in> dom (cz_score s). length m \<le> compactZSetMaxMemberLen)"
| "zset_ok (Inr s) \<longleftrightarrow> ss_inv s"

fun zset_abs :: "CompactZSet + SortedSet \<Rightarrow> bytes \<rightharpoonup> float64" where
  "zset_abs (Inl s) = cz_score s"
| "zset_abs (Inr s) = ss_score s"

fun set_ok :: "IntSet + bytes goset \<Rightarrow> bool" where
  "set_ok (Inl s) \<longleftrightarrow> is_inv s \<and> is_len s \<le> intSetMaxEntries"
| "set_ok (Inr s) \<longleftrightarrow> distinct s"

fun set_abs :: "IntSet + bytes goset \<Rightarrow> bytes set" where
  "set_abs (Inl s) = is_elems s"
| "set_abs (Inr s) = set s"

text \<open>\<open>vo_rep v c\<close>: the value object is well formed and its contents are \<open>c\<close>.\<close>

fun vo_rep :: "ValueObject \<Rightarrow> contents \<Rightarrow> bool" where
  "vo_rep v (CString s) \<longleftrightarrow> StringValue v = Inr s"
| "vo_rep v (CList xs) \<longleftrightarrow> ListValue v = Inr xs"
| "vo_rep v (CZSet m) \<longleftrightarrow> (\<exists>p. zsetPayload v = Inr p \<and> zset_ok p \<and> m = zset_abs p)"
| "vo_rep v (CStream s) \<longleftrightarrow> StreamValueOf v = Inr s \<and> st_hasEntries s = (st_entries s \<noteq> [])"
| "vo_rep v (CHash m) \<longleftrightarrow> (\<exists>p. hashPayload v = Inr p \<and> hash_ok p \<and> m = hash_abs p)"
| "vo_rep v (CSet S) \<longleftrightarrow> (\<exists>p. setPayload v = Inr p \<and> set_ok p \<and> S = set_abs p)"

fun kind_of :: "contents \<Rightarrow> ValueKind" where
  "kind_of (CString _) = ValueKindString"
| "kind_of (CList _) = ValueKindList"
| "kind_of (CZSet _) = ValueKindZSet"
| "kind_of (CStream _) = ValueKindStream"
| "kind_of (CHash _) = ValueKindHash"
| "kind_of (CSet _) = ValueKindSet"

lemmas payload_defs = StringValue_def ListValue_def StreamValueOf_def hashPayload_def zsetPayload_def setPayload_def
lemmas value_defs = newStringValue_def newOwnedStringValue_def newListValue_def newZSetValue_def newCompactZSetValue_def
  newStreamValue_def newHashValue_def newCompactHashValue_def newSetValue_def newIntSetValue_def zeroValue_def

lemma vo_rep_kind: "vo_rep v c \<Longrightarrow> vo_Kind v = kind_of c"
  by (cases c) (auto simp: payload_defs split: if_splits)

lemma vo_rep_unique: "vo_rep v c \<Longrightarrow> vo_rep v c' \<Longrightarrow> c = c'"
  using vo_rep_kind [of v c] vo_rep_kind [of v c'] by (cases c; cases c') auto

lemma vo_rep_frame:
  "vo_rep (v\<lparr>vo_LastAccessedAt := now\<rparr>) c = vo_rep v c" "vo_rep (v\<lparr>vo_ExpiresAt := t\<rparr>) c = vo_rep v c"
  by (cases c; simp add: payload_defs)+

lemma vo_rep_touch [simp]: "vo_rep (touch v now) c = vo_rep v c"
  by (simp add: touch_def vo_rep_frame)

section \<open>The general encodings meet the same contracts\<close>

interpretation ghash: field_map gm_wf map_of gm_put gm_remove "\<lambda>m. m"
proof (unfold_locales, goal_cases)
  case (2 s v k)
  then show ?case by (simp add: gm_put_def update_conv')
next
  case (6 s k)
  then show ?case by (auto simp: gm_remove_def gm_get_del fun_eq_iff)
qed (auto simp: gm_put_def gm_remove_def finite_dom_map_of gm_wf_def distinct_update distinct_delete domIff
    intro: rev_image_eqI)

interpretation gset: byte_set distinct set "\<lambda>s m. m \<in> set s" gs_remove "\<lambda>s. s"
  by unfold_locales (auto simp: gs_remove_def)

lemma mustAdd_spec:
  "distinct s \<Longrightarrow> mustAddSetMembers s ms n = (s', k) \<Longrightarrow>
   distinct s' \<and> set s' = set s \<union> set ms \<and> k = n + card (set ms - set s)"
proof (induction s ms n rule: mustAddSetMembers.induct)
  case (2 s m ms n)
  show ?case
  proof (cases "m \<in> set s")
    case True
    moreover have "set (m # ms) - set s = set ms - set s" using True by auto
    ultimately show ?thesis using 2 by auto
  next
    case False
    then have "set (m # ms) - set s = insert m (set ms - set (gs_insert m s))" by auto
    then have "card (set (m # ms) - set s) = Suc (card (set ms - set (gs_insert m s)))" by simp
    moreover have "distinct s' \<and> set s' = set (gs_insert m s) \<union> set ms \<and> k = n + 1 + card (set ms - set (gs_insert m s))"
      using 2 False by simp
    ultimately show ?thesis by auto
  qed
qed simp

section \<open>Growing a compact collection\<close>

text \<open>The admission loops of \<^verbatim>\<open>compactHashCanSet\<close> and \<^verbatim>\<open>compactZSetCanAdd\<close> are instances of one scheme.\<close>

fun can_grow :: "('k \<Rightarrow> 'v \<Rightarrow> bool) \<Rightarrow> ('k \<Rightarrow> bool) \<Rightarrow> nat \<Rightarrow> ('k \<times> 'v) list \<Rightarrow> nat \<Rightarrow> 'k list \<Rightarrow> bool" where
  "can_grow fits has cap [] n new = True"
| "can_grow fits has cap ((k, v) # xs) n new =
     (if \<not> fits k v then False
      else if has k then can_grow fits has cap xs n new
      else if k \<in> set new then can_grow fits has cap xs n new
      else if n + 1 > cap then False
      else can_grow fits has cap xs (n + 1) (gs_insert k new))"

lemma can_grow_spec:
  assumes "can_grow fits has cap xs n new" "finite {k. has k}" "n = card ({k. has k} \<union> set new)" "n \<le> cap"
  shows "(\<forall>(k, v) \<in> set xs. fits k v) \<and> card ({k. has k} \<union> set new \<union> fst ` set xs) \<le> cap"
  using assms
proof (induction fits has cap xs n new rule: can_grow.induct)
  case (2 fits has cap k v xs n new)
  have fit: "fits k v" using "2.prems"(1) by (auto split: if_splits)
  show ?case
  proof (cases "has k \<or> k \<in> set new")
    case True
    then have "{k. has k} \<union> set new \<union> fst ` set ((k, v) # xs) = {k. has k} \<union> set new \<union> fst ` set xs" by auto
    moreover have "(\<forall>(k, v) \<in> set xs. fits k v) \<and> card ({k. has k} \<union> set new \<union> fst ` set xs) \<le> cap"
      using 2 True fit by (auto split: if_splits)
    ultimately show ?thesis using fit by simp
  next
    case False
    have c: "card ({k. has k} \<union> set (gs_insert k new)) = n + 1" using False "2.prems"(2,3) by simp
    have "(\<forall>(k, v) \<in> set xs. fits k v) \<and> card ({k. has k} \<union> set (gs_insert k new) \<union> fst ` set xs) \<le> cap"
      using 2 False fit c by (auto split: if_splits)
    moreover have "{k. has k} \<union> set new \<union> fst ` set ((k, v) # xs) = {k. has k} \<union> set (gs_insert k new) \<union> fst ` set xs" by auto
    ultimately show ?thesis using fit by simp
  qed
qed simp

lemma compactHashCanSet_loop_grow:
  "compactHashCanSet_loop h pairs n new =
   can_grow (\<lambda>f x. length f \<le> compactHashMaxStringSize \<and> length x \<le> compactHashMaxStringSize) (\<lambda>f. ch_get h f \<noteq> None)
     compactHashMaxEntries pairs n new"
  by (induction h pairs n new rule: compactHashCanSet_loop.induct) auto

lemma compactZSetCanAdd_loop_grow:
  "compactZSetCanAdd_loop s es n new =
   can_grow (\<lambda>m sc. length m \<le> compactZSetMaxMemberLen) (compactZSetContains s) compactZSetMaxEntries es n new"
  by (induction s es n new rule: compactZSetCanAdd_loop.induct) auto

lemma dom_assigns: "dom (assigns m ps) = dom m \<union> fst ` set ps"
  by (auto simp: assigns_def dom_map_of_conv_image_fst)

lemma assigns_cases: "assigns m ps k = Some v \<Longrightarrow> m k = Some v \<or> (k, v) \<in> set ps"
  by (auto simp: assigns_def dest!: map_of_SomeD)

lemma ch_len_card: "ch_inv h \<Longrightarrow> ch_len h = card (dom (ch_get h))"
  using chash.length_entries [of h] by (simp add: ch_len_def ch_all_def)

lemma cz_len_card: "cz_inv s \<Longrightarrow> cz_len s = card (dom (cz_score s))"
  using czset.length_ordered [of s] by (simp add: cz_len_def cz_ordered_def)

lemma compactZSetContains_dom: "compactZSetContains s m \<longleftrightarrow> m \<in> dom (cz_score s)"
  by (auto simp: compactZSetContains_def cz_score_def domIff find_None_iff)

lemma canSet_ok:
  assumes "hash_ok (Inl h)" "compactHashCanSet h pairs" "assign_loop ch_set h pairs 0 = (h', added)"
  shows "hash_ok (Inl h') \<and> ch_get h' = assigns (ch_get h) pairs \<and> added = card (fst ` set pairs - dom (ch_get h))"
proof -
  have inv: "ch_inv h" using assms(1) by simp
  have D: "{f. ch_get h f \<noteq> None} = dom (ch_get h)" by auto
  have g: "(\<forall>(f, x) \<in> set pairs. length f \<le> compactHashMaxStringSize \<and> length x \<le> compactHashMaxStringSize) \<and>
      card (dom (ch_get h) \<union> fst ` set pairs) \<le> compactHashMaxEntries"
    using can_grow_spec [OF assms(2) [unfolded compactHashCanSet_def compactHashCanSet_loop_grow]]
      chash.finite_dom [OF inv] ch_len_card [OF inv] assms(1) D by simp
  have r: "ch_inv h'" "ch_get h' = assigns (ch_get h) pairs" "added = card (fst ` set pairs - dom (ch_get h))"
    using chash.assign_loop_spec [OF inv _ assms(3)] by auto
  have "ch_len h' \<le> compactHashMaxEntries" using ch_len_card [OF r(1)] g by (simp add: r(2) dom_assigns)
  moreover have "length f \<le> compactHashMaxStringSize \<and> length x \<le> compactHashMaxStringSize" if "ch_get h' f = Some x" for f x
    using assigns_cases [OF that [unfolded r(2)]] assms(1) g by auto
  ultimately show ?thesis using r by simp
qed

lemma canAdd_ok:
  assumes "zset_ok (Inl s)" "compactZSetCanAdd s es" "assign_loop cz_add s es 0 = (s', added)" "\<forall>sc \<in> snd ` set es. sc \<noteq> NaN"
  shows "zset_ok (Inl s') \<and> cz_score s' = assigns (cz_score s) es \<and> added = card (fst ` set es - dom (cz_score s))"
proof -
  have inv: "cz_inv s" using assms(1) by simp
  have D: "{m. compactZSetContains s m} = dom (cz_score s)" by (auto simp: compactZSetContains_dom)
  have g: "(\<forall>(m, sc) \<in> set es. length m \<le> compactZSetMaxMemberLen) \<and>
      card (dom (cz_score s) \<union> fst ` set es) \<le> compactZSetMaxEntries"
    using can_grow_spec [OF assms(2) [unfolded compactZSetCanAdd_def compactZSetCanAdd_loop_grow]]
      czset.finite_dom [OF inv] cz_len_card [OF inv] assms(1) D by simp
  have r: "cz_inv s'" "cz_score s' = assigns (cz_score s) es" "added = card (fst ` set es - dom (cz_score s))"
    using czset.assign_loop_spec [OF inv assms(4,3)] by auto
  have "cz_len s' \<le> compactZSetMaxEntries" using cz_len_card [OF r(1)] g by (simp add: r(2) dom_assigns)
  moreover have "\<forall>m \<in> dom (cz_score s'). length m \<le> compactZSetMaxMemberLen"
    unfolding r(2) dom_assigns using assms(1) g by auto
  ultimately show ?thesis using r by simp
qed

section \<open>Hash operations\<close>

lemma fold_gm_set: "map_of (foldl (\<lambda>fs (f, x). gm_set fs f x) m ps) = assigns (map_of m) ps"
  "gm_wf m \<Longrightarrow> gm_wf (foldl (\<lambda>fs (f, x). gm_set fs f x) m ps)"
proof -
  show "map_of (foldl (\<lambda>fs (f, x). gm_set fs f x) m ps) = assigns (map_of m) ps"
  proof (induction ps arbitrary: m)
    case (Cons p ps)
    then show ?case by (cases p) (auto simp: assigns_def update_conv' map_add_def fun_eq_iff split: option.splits)
  qed (simp add: assigns_def)
  show "gm_wf m \<Longrightarrow> gm_wf (foldl (\<lambda>fs (f, x). gm_set fs f x) m ps)"
    by (induction ps arbitrary: m) (auto split: prod.splits)
qed

lemma assigns_self: "distinct (map fst ps) \<Longrightarrow> assigns Map.empty ps = map_of ps"
  by (simp add: assigns_def map_of_rev_distinct)

lemma generalMap_spec: "ch_inv h \<Longrightarrow> gm_wf (compactHashGeneralMap h) \<and> map_of (compactHashGeneralMap h) = ch_get h"
proof -
  assume inv: "ch_inv h"
  have "compactHashGeneralMap h = foldl (\<lambda>fs (f, x). gm_set fs f x) [] (ch_all h)"
    by (simp add: compactHashGeneralMap_def ch_all_def foldl_map)
  moreover have "assigns Map.empty (ch_all h) = ch_get h"
    using assigns_self [OF chash.entries_distinct [OF inv]] chash.entries_lookup [OF inv] by simp
  ultimately show ?thesis using fold_gm_set(1) [of "[]" "ch_all h"] fold_gm_set(2) [of "[]" "ch_all h"] by simp
qed

lemma hashSetGeneral_spec:
  assumes "gm_wf m" "hashSetGeneral m pairs = (m', added)"
  shows "gm_wf m' \<and> map_of m' = assigns (map_of m) pairs \<and> added = card (fst ` set pairs - dom (map_of m))"
  using ghash.assign_loop_spec [OF assms(1) _ assms(2) [unfolded hashSetGeneral_def]] by simp

lemma hash_repI: "hashPayload v = Inr p \<Longrightarrow> hash_ok p \<Longrightarrow> vo_rep v (CHash (hash_abs p))"
  by auto

lemma hashSet_rep:
  assumes "vo_rep v (CHash m)"
  shows "\<exists>v'. hashSet v pairs = Inr (v', card (fst ` set pairs - dom m)) \<and> vo_rep v' (CHash (assigns m pairs)) \<and>
              vo_ExpiresAt v' = vo_ExpiresAt v"
proof -
  obtain p where p: "hashPayload v = Inr p" "hash_ok p" "m = hash_abs p" using assms by auto
  have kind: "vo_Kind v = ValueKindHash" using p(1) by (simp add: hashPayload_def split: if_splits)
  show ?thesis
  proof (cases p)
    case (Inl h)
    have enc: "vo_HashEncoding v = ValueEncodingCompact"
      using p(1) kind by (auto simp: hashPayload_def Inl split: if_splits option.splits)
    show ?thesis
    proof (cases "compactHashCanSet h pairs")
      case True
      obtain h' n where l: "assign_loop ch_set h pairs 0 = (h', n)" by fastforce
      have c: "hash_ok (Inl h')" "hash_abs (Inl h') = assigns m pairs" "n = card (fst ` set pairs - dom m)"
        using canSet_ok [OF p(2) [unfolded Inl] True l] unfolding p(3) Inl hash_abs.simps by blast+
      have "hashSet v pairs = Inr (v\<lparr>vo_CompactHash := Some h'\<rparr>, n)" using True l p(1) by (simp add: hashSet_def Inl)
      moreover have "hashPayload (v\<lparr>vo_CompactHash := Some h'\<rparr>) = Inr (Inl h')" using kind enc by (simp add: hashPayload_def)
      from hash_repI [OF this c(1)] have "vo_rep (v\<lparr>vo_CompactHash := Some h'\<rparr>) (CHash (assigns m pairs))" unfolding c(2) .
      ultimately show ?thesis unfolding c(3) by (intro exI [of _ "v\<lparr>vo_CompactHash := Some h'\<rparr>"]) simp
    next
      case False
      obtain m' n where l: "hashSetGeneral (compactHashGeneralMap h) pairs = (m', n)" by fastforce
      let ?v = "(upgradeCompactHash v h)\<lparr>vo_Hash := Some m'\<rparr>"
      have "hashSet v pairs = Inr (?v, n)" using False l p(1) by (simp add: hashSet_def Inl)
      moreover have "hashPayload ?v = Inr (Inr m')" using kind by (simp add: hashPayload_def upgradeCompactHash_def)
      moreover have "vo_ExpiresAt ?v = vo_ExpiresAt v" by (simp add: upgradeCompactHash_def)
      moreover have g: "gm_wf (compactHashGeneralMap h)" "map_of (compactHashGeneralMap h) = m"
        using generalMap_spec [of h] p(2,3) Inl by simp_all
      have "gm_wf m'" "map_of m' = assigns m pairs" "n = card (fst ` set pairs - dom m)"
        using hashSetGeneral_spec [OF g(1) l] unfolding g(2) by blast+
      ultimately show ?thesis by (intro exI [of _ ?v]) simp
    qed
  next
    case (Inr g)
    have enc: "vo_HashEncoding v \<noteq> ValueEncodingCompact"
      using p(1) kind by (auto simp: hashPayload_def Inr split: if_splits option.splits)
    obtain m' n where l: "hashSetGeneral g pairs = (m', n)" by fastforce
    have "hashSet v pairs = Inr (v\<lparr>vo_Hash := Some m'\<rparr>, n)" using l p(1) by (simp add: hashSet_def Inr)
    moreover have "hashPayload (v\<lparr>vo_Hash := Some m'\<rparr>) = Inr (Inr m')" using kind enc by (simp add: hashPayload_def)
    moreover have "gm_wf m'" "map_of m' = assigns m pairs" "n = card (fst ` set pairs - dom m)"
      using hashSetGeneral_spec [OF _ l] p(2,3) Inr by simp_all
    ultimately show ?thesis by simp
  qed
qed

lemma hashDel_rep:
  assumes "vo_rep v (CHash m)"
  shows "\<exists>v'. hashDel v ks = Inr (v', card (dom m \<inter> set ks)) \<and> vo_rep v' (CHash (m |` (- set ks))) \<and>
              vo_ExpiresAt v' = vo_ExpiresAt v"
proof -
  obtain p where p: "hashPayload v = Inr p" "hash_ok p" "m = hash_abs p" using assms by auto
  have kind: "vo_Kind v = ValueKindHash" using p(1) by (simp add: hashPayload_def split: if_splits)
  show ?thesis
  proof (cases p)
    case (Inl h)
    have enc: "vo_HashEncoding v = ValueEncodingCompact"
      using p(1) kind by (auto simp: hashPayload_def Inl split: if_splits option.splits)
    obtain h' n where l: "remove_loop ch_del h ks 0 = (h', n)" by fastforce
    have inv: "ch_inv h" using p(2) Inl by simp
    have r: "ch_inv h'" "n = card (dom (ch_get h) \<inter> set ks)" "ch_get h' = ch_get h |` (- set ks)"
      using chash.keys.remove_loop_spec [OF inv l] chash.del_loop_lookup [OF inv l] by auto
    have "dom (ch_get h') \<subseteq> dom (ch_get h)" by (auto simp: r(3))
    then have "ch_len h' \<le> compactHashMaxEntries"
      using ch_len_card [OF r(1)] ch_len_card [OF inv] card_mono [OF chash.finite_dom [OF inv]] p(2) Inl
      by (metis hash_ok.simps(1) order_trans)
    then have "hash_ok (Inl h')" using r p(2) Inl by (auto simp: restrict_map_def split: if_splits)
    moreover have "hashDel v ks = Inr (v\<lparr>vo_CompactHash := Some h'\<rparr>, n)" using l p(1) by (simp add: hashDel_def Inl)
    moreover have "hashPayload (v\<lparr>vo_CompactHash := Some h'\<rparr>) = Inr (Inl h')" using kind enc by (simp add: hashPayload_def)
    ultimately show ?thesis using r p(3) Inl by auto
  next
    case (Inr g)
    have enc: "vo_HashEncoding v \<noteq> ValueEncodingCompact"
      using p(1) kind by (auto simp: hashPayload_def Inr split: if_splits option.splits)
    obtain m' n where l: "remove_loop gm_remove g ks 0 = (m', n)" by fastforce
    have inv: "gm_wf g" using p(2) Inr by simp
    have "gm_wf m'" "n = card (dom (map_of g) \<inter> set ks)" "map_of m' = map_of g |` (- set ks)"
      using ghash.keys.remove_loop_spec [OF inv l] ghash.del_loop_lookup [OF inv l] by auto
    moreover have "hashDel v ks = Inr (v\<lparr>vo_Hash := Some m'\<rparr>, n)" using l p(1) by (simp add: hashDel_def Inr)
    moreover have "hashPayload (v\<lparr>vo_Hash := Some m'\<rparr>) = Inr (Inr m')" using kind enc by (simp add: hashPayload_def)
    ultimately show ?thesis using p(3) Inr by auto
  qed
qed

lemma hash_reads:
  assumes "vo_rep v (CHash m)"
  shows "hashLen v = Inr (card (dom m))" "hashGet v f = Inr (m f)" "finite (dom m)"
    "\<exists>es. hashEntries v = Inr es \<and> distinct (map fst es) \<and> map_of es = m"
proof -
  obtain p where p: "hashPayload v = Inr p" "hash_ok p" "m = hash_abs p" using assms by auto
  show "hashLen v = Inr (card (dom m))"
    using p ch_len_card ghash.length_entries by (cases p) (auto simp: hashLen_def)
  show "hashGet v f = Inr (m f)" using p by (cases p) (auto simp: hashGet_def)
  show "finite (dom m)" using p chash.finite_dom ghash.finite_dom by (cases p) auto
  show "\<exists>es. hashEntries v = Inr es \<and> distinct (map fst es) \<and> map_of es = m"
    using p chash.entries_distinct chash.entries_lookup by (cases p) (auto simp: hashEntries_def gm_wf_def)
qed

lemma cloneHash_rep:
  assumes "vo_rep v (CHash m)"
  shows "\<exists>v'. cloneHashValue v t now = Inr v' \<and> vo_rep v' (CHash m) \<and> vo_ExpiresAt v' = t"
proof -
  obtain p where p: "hashPayload v = Inr p" "hash_ok p" "m = hash_abs p" using assms by auto
  show ?thesis
  proof (cases p)
    case (Inl h)
    have "cloneCompactHash h = h" by (simp add: cloneCompactHash_def)
    then show ?thesis using p Inl by (auto simp: cloneHashValue_def value_defs hashPayload_def)
  next
    case (Inr g)
    have "gm_wf (foldl (\<lambda>fs (f, x). gm_set fs f x) [] g)" "map_of (foldl (\<lambda>fs (f, x). gm_set fs f x) [] g) = map_of g"
      using fold_gm_set(1) [of "[]" g] fold_gm_set(2) [of "[]" g] assigns_self [of g] p(2) Inr by (simp_all add: gm_wf_def)
    then show ?thesis using p Inr by (auto simp: cloneHashValue_def value_defs hashPayload_def)
  qed
qed

lemma hashMapForPairs_loop_spec:
  "hashMapForPairs_loop ps m b = (m', b') \<Longrightarrow> gm_wf m \<Longrightarrow>
   gm_wf m' \<and> map_of m' = assigns (map_of m) ps \<and>
   (b' \<longleftrightarrow> b \<and> (\<forall>(f, x) \<in> set ps. length f \<le> compactHashMaxStringSize \<and> length x \<le> compactHashMaxStringSize))"
proof (induction ps m b rule: hashMapForPairs_loop.induct)
  case (2 f v ps m b)
  have "assigns (map_of (gm_set m f v)) ps = assigns (map_of m) ((f, v) # ps)"
    by (auto simp: assigns_def update_conv' map_add_def fun_eq_iff split: option.splits)
  then show ?case using 2 by (auto simp: not_le)
qed (auto simp: assigns_def)

lemma newHash_rep:
  "vo_rep (newHashValueForPairs ps t now) (CHash (assigns Map.empty ps))"
  "vo_ExpiresAt (newHashValueForPairs ps t now) = t"
proof -
  obtain m b where mb: "hashMapForPairs ps = (m, b)" by fastforce
  have m: "gm_wf m" "map_of m = assigns Map.empty ps"
    "b \<longleftrightarrow> (\<forall>(f, x) \<in> set ps. length f \<le> compactHashMaxStringSize \<and> length x \<le> compactHashMaxStringSize)"
    using hashMapForPairs_loop_spec [of ps "[]" True m b] mb by (simp_all add: hashMapForPairs_def)
  let ?h = "newCompactHashFromMap m"
  have h: "ch_inv ?h" "ch_all ?h = m"
    using newCompactHash_distinct [of "\<lparr>ch_entries = [], ch_arena = []\<rparr>" m] ch_empty m(1)
    by (simp_all add: newCompactHashFromMap_def gm_wf_def)
  have get: "ch_get ?h = assigns Map.empty ps" using chash.entries_lookup [OF h(1)] h(2) m(2) by simp
  have "hash_ok (Inl ?h)" if "b" "length m \<le> compactHashMaxEntries"
  proof -
    have "ch_len ?h = length m" using h(2) by (metis ch_all_def ch_len_def length_map)
    moreover have "length f \<le> compactHashMaxStringSize \<and> length x \<le> compactHashMaxStringSize" if "ch_get ?h f = Some x" for f x
      using assigns_cases [OF that [unfolded get]] m(3) \<open>b\<close> by auto
    ultimately show ?thesis using h(1) that(2) by simp
  qed
  then have "vo_rep (newCompactHashValue ?h t now) (CHash (assigns Map.empty ps))"
    if "b" "length m \<le> compactHashMaxEntries"
    using that hash_repI [of "newCompactHashValue ?h t now" "Inl ?h"] get by (simp add: value_defs hashPayload_def)
  moreover have "vo_rep (newHashValue m t now) (CHash (assigns Map.empty ps))"
    using hash_repI [of "newHashValue m t now" "Inr m"] m by (simp add: value_defs hashPayload_def)
  ultimately show "vo_rep (newHashValueForPairs ps t now) (CHash (assigns Map.empty ps))"
    using mb unfolding newHashValueForPairs_def by (simp del: vo_rep.simps)
  show "vo_ExpiresAt (newHashValueForPairs ps t now) = t"
    using mb by (simp add: newHashValueForPairs_def value_defs)
qed

section \<open>Sorted-set operations\<close>

lemma zset_repI: "zsetPayload v = Inr p \<Longrightarrow> zset_ok p \<Longrightarrow> vo_rep v (CZSet (zset_abs p))"
  by auto

lemma generalSet_spec:
  assumes "cz_inv s"
  shows "ss_inv (compactZSetGeneralSet coin s)" "ss_score (compactZSetGeneralSet coin s) = cz_score s"
proof -
  have eq: "compactZSetGeneralSet coin s = foldl (\<lambda>c (m, sc). fst (ss_add coin c m sc)) newSortedSet (cz_ordered s)"
    by (simp add: compactZSetGeneralSet_def cz_ordered_def cz_item_def foldl_map)
  have "\<forall>e \<in> set (cz_ordered s). snd e \<noteq> NaN" using assms by (auto simp: cz_inv_def cz_ordered_def cz_item_def)
  from ss_adds [OF newSortedSet_inv this, of coin] show "ss_inv (compactZSetGeneralSet coin s)" by (simp add: eq)
  have "ss_score newSortedSet = Map.empty" by (simp add: ss_score_def [abs_def] newSortedSet_def)
  then show "ss_score (compactZSetGeneralSet coin s) = cz_score s"
    using ss_adds [OF newSortedSet_inv \<open>\<forall>e \<in> set (cz_ordered s). snd e \<noteq> NaN\<close>, of coin]
      assigns_self [OF czset.ordered_distinct [OF assms]] czset.ordered_lookup [OF assms] by (simp add: eq)
qed

lemma zsetAddGeneral_spec:
  assumes "ss_inv s" "\<forall>sc \<in> snd ` set es. sc \<noteq> NaN" "zsetAddGeneral coin s es = (s', added)"
  shows "ss_inv s' \<and> ss_score s' = assigns (ss_score s) es \<and> added = card (fst ` set es - dom (ss_score s))"
  using zset.assign_loop_spec [OF assms(1,2) assms(3) [unfolded zsetAddGeneral_def]] by simp

lemma zsetAdd_rep:
  assumes "vo_rep v (CZSet m)" and sc: "\<forall>sc \<in> snd ` set es. sc \<noteq> NaN"
  shows "\<exists>v'. zsetAdd coin v es = Inr (v', card (fst ` set es - dom m)) \<and> vo_rep v' (CZSet (assigns m es)) \<and>
              vo_ExpiresAt v' = vo_ExpiresAt v"
proof -
  obtain p where p: "zsetPayload v = Inr p" "zset_ok p" "m = zset_abs p" using assms by auto
  have kind: "vo_Kind v = ValueKindZSet" using p(1) by (simp add: zsetPayload_def split: if_splits)
  show ?thesis
  proof (cases p)
    case (Inl s)
    have enc: "vo_ZSetEncoding v = ValueEncodingCompact"
      using p(1) kind by (auto simp: zsetPayload_def Inl split: if_splits option.splits)
    show ?thesis
    proof (cases "compactZSetCanAdd s es")
      case True
      obtain s' n where l: "assign_loop cz_add s es 0 = (s', n)" by fastforce
      let ?v = "v\<lparr>vo_CompactZSet := Some s'\<rparr>"
      have c: "zset_ok (Inl s')" "zset_abs (Inl s') = assigns m es" "n = card (fst ` set es - dom m)"
        using canAdd_ok [OF p(2) [unfolded Inl] True l sc] unfolding p(3) Inl zset_abs.simps by blast+
      have "zsetAdd coin v es = Inr (?v, n)" using True l p(1) by (simp add: zsetAdd_def Inl)
      moreover have "zsetPayload ?v = Inr (Inl s')" using kind enc by (simp add: zsetPayload_def)
      from zset_repI [OF this c(1)] have "vo_rep ?v (CZSet (assigns m es))" unfolding c(2) .
      ultimately show ?thesis unfolding c(3) by (intro exI [of _ ?v]) simp
    next
      case False
      obtain g n where l: "zsetAddGeneral coin (compactZSetGeneralSet coin s) es = (g, n)" by fastforce
      let ?v = "(upgradeCompactZSet coin v s)\<lparr>vo_ZSet := Some g\<rparr>"
      have "cz_inv s" using p(2) Inl by simp
      then have c: "ss_inv g" "ss_score g = assigns m es" "n = card (fst ` set es - dom m)"
        using zsetAddGeneral_spec [OF _ sc l] generalSet_spec [of s coin] p(3) Inl by simp_all
      have "zsetAdd coin v es = Inr (?v, n)" using False l p(1) by (simp add: zsetAdd_def Inl)
      moreover have "zsetPayload ?v = Inr (Inr g)" using kind by (simp add: zsetPayload_def upgradeCompactZSet_def)
      moreover have "vo_ExpiresAt ?v = vo_ExpiresAt v" by (simp add: upgradeCompactZSet_def)
      ultimately show ?thesis using c by (intro exI [of _ ?v]) simp
    qed
  next
    case (Inr s)
    have enc: "vo_ZSetEncoding v \<noteq> ValueEncodingCompact"
      using p(1) kind by (auto simp: zsetPayload_def Inr split: if_splits option.splits)
    obtain s' n where l: "zsetAddGeneral coin s es = (s', n)" by fastforce
    have c: "ss_inv s'" "ss_score s' = assigns m es" "n = card (fst ` set es - dom m)"
      using zsetAddGeneral_spec [OF _ sc l] p(2,3) Inr by simp_all
    have "zsetAdd coin v es = Inr (v\<lparr>vo_ZSet := Some s'\<rparr>, n)" using l p(1) by (simp add: zsetAdd_def Inr)
    moreover have "zsetPayload (v\<lparr>vo_ZSet := Some s'\<rparr>) = Inr (Inr s')" using kind enc by (simp add: zsetPayload_def)
    ultimately show ?thesis using c by simp
  qed
qed

lemma zset_reads:
  assumes "vo_rep v (CZSet m)"
  shows "zsetLen v = Inr (card (dom m))" "zsetScore v k = Inr (m k)" "finite (dom m)"
    "zsetRangeByRank v a b = Inr (rank_range (zlisting m) a b)"
    "zsetRangeByScore v r = Inr (score_range r (zlisting m))" "length (zlisting m) = card (dom m)"
proof -
  obtain p where p: "zsetPayload v = Inr p" "zset_ok p" "m = zset_abs p" using assms by auto
  show "zsetLen v = Inr (card (dom m))"
    using p cz_len_card ss_len_card by (cases p) (auto simp: zsetLen_def)
  show "zsetScore v k = Inr (m k)" using p by (cases p) (auto simp: zsetScore_def)
  show "finite (dom m)" using p czset.finite_dom zset.finite_dom by (cases p) auto
  show "zsetRangeByRank v a b = Inr (rank_range (zlisting m) a b)"
    using p czset.byRank_eq zset.byRank_eq czset.ordered_listing zset.ordered_listing by (cases p) (auto simp: zsetRangeByRank_def)
  show "zsetRangeByScore v r = Inr (score_range r (zlisting m))"
    using p czset.byScore_eq zset.byScore_eq czset.ordered_listing zset.ordered_listing by (cases p) (auto simp: zsetRangeByScore_def)
  show "length (zlisting m) = card (dom m)"
    using p czset.length_ordered zset.length_ordered czset.ordered_listing zset.ordered_listing by (cases p) auto
qed

lemma cloneZSet_rep:
  assumes "vo_rep v (CZSet m)"
  shows "\<exists>v'. cloneZSetValue coin v t now = Inr v' \<and> vo_rep v' (CZSet m) \<and> vo_ExpiresAt v' = t"
proof -
  obtain p where p: "zsetPayload v = Inr p" "zset_ok p" "m = zset_abs p" using assms by auto
  show ?thesis
  proof (cases p)
    case (Inl s)
    have "cloneCompactZSet s = s" by (simp add: cloneCompactZSet_def)
    then show ?thesis
      using p Inl zset_repI [of "newCompactZSetValue s t now" "Inl s"] by (simp add: cloneZSetValue_def value_defs zsetPayload_def)
  next
    case (Inr s)
    then show ?thesis
      using p cloneSortedSet_spec [of s coin] by (auto simp: cloneZSetValue_def value_defs zsetPayload_def)
  qed
qed

lemma zsetMapForEntries_loop_spec:
  "zsetMapForEntries_loop es m b = (m', b') \<Longrightarrow> gm_wf m \<Longrightarrow>
   gm_wf m' \<and> map_of m' = assigns (map_of m) es \<and> (b' \<longleftrightarrow> b \<and> (\<forall>(k, sc) \<in> set es. length k \<le> compactZSetMaxMemberLen))"
proof (induction es m b rule: zsetMapForEntries_loop.induct)
  case (2 k sc es m b)
  have "assigns (map_of (gm_set m k sc)) es = assigns (map_of m) ((k, sc) # es)"
    by (auto simp: assigns_def update_conv' map_add_def fun_eq_iff split: option.splits)
  then show ?case using 2 by (auto simp: not_le)
qed (auto simp: assigns_def)

lemma cz_adds:
  assumes "cz_inv s" "\<forall>e \<in> set es. snd e \<noteq> NaN"
  shows "cz_inv (foldl (\<lambda>c (m, sc). fst (cz_add c m sc)) s es) \<and>
         cz_score (foldl (\<lambda>c (m, sc). fst (cz_add c m sc)) s es) = assigns (cz_score s) es"
  using assms
proof (induction es arbitrary: s)
  case (Cons e es)
  obtain m sc where e: "e = (m, sc)" by (cases e)
  have "sc \<noteq> NaN" using Cons.prems e by simp
  from czset.put_inv [OF Cons.prems(1) this, of m] czset.put_lookup [OF Cons.prems(1) this, of m]
    Cons.IH [of "fst (cz_add s m sc)"] Cons.prems(2)
  show ?case by (simp add: e assigns_def map_add_def fun_eq_iff split: option.splits)
qed (simp add: assigns_def)

lemma newZSet_rep:
  assumes sc: "\<forall>sc \<in> snd ` set es. sc \<noteq> NaN"
  shows "vo_rep (newZSetValueForEntries coin es t now) (CZSet (assigns Map.empty es))"
    "vo_ExpiresAt (newZSetValueForEntries coin es t now) = t"
proof -
  obtain m b where mb: "zsetMapForEntries es = (m, b)" by fastforce
  have m: "gm_wf m" "map_of m = assigns Map.empty es"
    "b \<longleftrightarrow> (\<forall>(k, sc) \<in> set es. length k \<le> compactZSetMaxMemberLen)"
    using zsetMapForEntries_loop_spec [of es "[]" True m b] mb by (simp_all add: zsetMapForEntries_def)
  have nan: "\<forall>e \<in> set m. snd e \<noteq> NaN"
  proof
    fix e assume "e \<in> set m"
    then have "map_of m (fst e) = Some (snd e)" using m(1) by (simp add: gm_wf_def)
    then show "snd e \<noteq> NaN" using assigns_cases [of Map.empty es "fst e" "snd e"] m(2) sc by force
  qed
  have self: "assigns Map.empty m = map_of m" using m(1) by (intro assigns_self) (simp add: gm_wf_def)
  let ?c = "newCompactZSetFromMap m" and ?g = "newSortedSetFromMap coin m"
  have emp: "cz_inv \<lparr>cz_entries = [], cz_arena = []\<rparr>" "cz_score \<lparr>cz_entries = [], cz_arena = []\<rparr> = Map.empty"
    "ss_score newSortedSet = Map.empty"
    by (simp_all add: cz_inv_def cz_ordered_def zsorted_def cz_score_def [abs_def] ss_score_def [abs_def] newSortedSet_def)
  have c: "cz_inv ?c" "cz_score ?c = assigns Map.empty es"
    using cz_adds [OF emp(1) nan] emp(2) self m(2) by (simp_all add: newCompactZSetFromMap_def)
  have g: "ss_inv ?g" "ss_score ?g = assigns Map.empty es"
    using ss_adds [OF newSortedSet_inv nan, of coin] emp(3) self m(2) by (simp_all add: newSortedSetFromMap_def)
  have "vo_rep (newZSetValue ?g t now) (CZSet (assigns Map.empty es))"
    using zset_repI [of "newZSetValue ?g t now" "Inr ?g"] g by (simp add: value_defs zsetPayload_def)
  moreover have "vo_rep (newCompactZSetValue ?c t now) (CZSet (assigns Map.empty es))"
    if "b" "length m \<le> compactZSetMaxEntries"
  proof -
    have "cz_len ?c = length m"
      using cz_len_card [OF c(1)] m(1) distinct_card [of "map fst m"] unfolding c(2) m(2) [symmetric]
      by (simp add: gm_wf_def dom_map_of_conv_image_fst)
    moreover have "\<forall>k \<in> dom (cz_score ?c). length k \<le> compactZSetMaxMemberLen"
      unfolding c(2) dom_assigns using m(3) that(1) by auto
    ultimately have "zset_ok (Inl ?c)" using c(1) that(2) by simp
    then show ?thesis using zset_repI [of "newCompactZSetValue ?c t now" "Inl ?c"] c(2) by (simp add: value_defs zsetPayload_def)
  qed
  ultimately show "vo_rep (newZSetValueForEntries coin es t now) (CZSet (assigns Map.empty es))"
    using mb unfolding newZSetValueForEntries_def by (simp del: vo_rep.simps)
  show "vo_ExpiresAt (newZSetValueForEntries coin es t now) = t"
    using mb by (simp add: newZSetValueForEntries_def value_defs)
qed

section \<open>Set operations\<close>

lemma set_repI: "setPayload v = Inr p \<Longrightarrow> set_ok p \<Longrightarrow> vo_rep v (CSet (set_abs p))"
  by auto

lemma setAdd_rep:
  assumes "vo_rep v (CSet S)"
  shows "\<exists>v'. setAdd v ms = Inr (v', card (set ms - S)) \<and> vo_rep v' (CSet (S \<union> set ms)) \<and>
              vo_ExpiresAt v' = vo_ExpiresAt v"
proof -
  obtain p where p: "setPayload v = Inr p" "set_ok p" "S = set_abs p" using assms by auto
  have kind: "vo_Kind v = ValueKindSet" using p(1) by (simp add: setPayload_def split: if_splits)
  show ?thesis
  proof (cases p)
    case (Inl s)
    have enc: "vo_SetEncoding v = ValueEncodingCompact"
      using p(1) kind by (auto simp: setPayload_def Inl split: if_splits option.splits)
    obtain s' n ok where a: "is_addMany s ms = (s', n, ok)" using prod_cases3 by blast
    have inv: "is_inv s" and S: "S = is_elems s" using p(2,3) Inl by simp_all
    show ?thesis
    proof (cases ok)
      case True
      have r: "is_inv s'" "is_elems s' = S \<union> set ms" "n = card (set ms - S)"
        using is_addMany_spec [OF inv, of ms s' n] a True S by auto
      define v' where "v' = (if is_len s' > intSetMaxEntries
        then v\<lparr>vo_Set := Some (is_generalSet s'), vo_IntSet := None, vo_SetEncoding := ValueEncodingGeneral\<rparr>
        else v\<lparr>vo_IntSet := Some s'\<rparr>)"
      have "setAdd v ms = Inr (v', n)" using a True p(1) by (simp add: setAdd_def Inl v'_def)
      moreover have "setPayload v' = Inr (if is_len s' > intSetMaxEntries then Inr (is_generalSet s') else Inl s')"
        using kind enc by (simp add: setPayload_def v'_def)
      with r is_generalSet_spec [OF r(1)] have "vo_rep v' (CSet (S \<union> set ms))" by (cases "is_len s' > intSetMaxEntries") auto
      moreover have "vo_ExpiresAt v' = vo_ExpiresAt v" by (simp add: v'_def)
      ultimately show ?thesis using r(3) by blast
    next
      case False
      have s': "s' = s" using is_addMany_refused [of s ms s' n] a False by simp
      obtain g k where g: "mustAddSetMembers (is_generalSet s) ms 0 = (g, k)" by fastforce
      let ?v = "v\<lparr>vo_IntSet := None, vo_Set := Some g, vo_SetEncoding := ValueEncodingGeneral\<rparr>"
      have r: "distinct g" "set g = S \<union> set ms" "k = card (set ms - S)"
        using mustAdd_spec [OF _ g] is_generalSet_spec [OF inv] S by simp_all
      have "setAdd v ms = Inr (?v, k)" using a False g s' p(1) by (simp add: setAdd_def Inl)
      moreover have "setPayload ?v = Inr (Inr g)" using kind by (simp add: setPayload_def)
      with r have "vo_rep ?v (CSet (S \<union> set ms))" by simp
      moreover have "vo_ExpiresAt ?v = vo_ExpiresAt v" by simp
      ultimately show ?thesis using r(3) by blast
    qed
  next
    case (Inr s)
    have enc: "vo_SetEncoding v \<noteq> ValueEncodingCompact"
      using p(1) kind by (auto simp: setPayload_def Inr split: if_splits option.splits)
    obtain g k where g: "mustAddSetMembers s ms 0 = (g, k)" by fastforce
    have r: "distinct g" "set g = S \<union> set ms" "k = card (set ms - S)"
      using mustAdd_spec [OF _ g] p(2,3) Inr by simp_all
    have "setAdd v ms = Inr (v\<lparr>vo_Set := Some g\<rparr>, k)" using g p(1) by (simp add: setAdd_def Inr)
    moreover have "setPayload (v\<lparr>vo_Set := Some g\<rparr>) = Inr (Inr g)" using kind enc by (simp add: setPayload_def)
    with r have "vo_rep (v\<lparr>vo_Set := Some g\<rparr>) (CSet (S \<union> set ms))" by simp
    ultimately show ?thesis using r(3) by (intro exI [of _ "v\<lparr>vo_Set := Some g\<rparr>"]) simp
  qed
qed

lemma setRemove_rep:
  assumes "vo_rep v (CSet S)"
  shows "\<exists>v'. setRemove v ms = Inr (v', card (S \<inter> set ms)) \<and> vo_rep v' (CSet (S - set ms)) \<and>
              vo_ExpiresAt v' = vo_ExpiresAt v"
proof -
  obtain p where p: "setPayload v = Inr p" "set_ok p" "S = set_abs p" using assms by auto
  have kind: "vo_Kind v = ValueKindSet" using p(1) by (simp add: setPayload_def split: if_splits)
  show ?thesis
  proof (cases p)
    case (Inl s)
    have enc: "vo_SetEncoding v = ValueEncodingCompact"
      using p(1) kind by (auto simp: setPayload_def Inl split: if_splits option.splits)
    obtain s' k where l: "remove_loop is_remove s ms 0 = (s', k)" by fastforce
    have inv: "is_inv s" and S: "S = is_elems s" using p(2,3) Inl by simp_all
    have r: "is_inv s'" "is_elems s' = S - set ms" "k = card (S \<inter> set ms)"
      using intset.remove_loop_spec [OF inv l] S by simp_all
    have "is_len s' \<le> is_len s" using r inv S intset.finite_elems [OF inv] by (simp add: is_len_card card_mono)
    then have ok: "set_ok (Inl s')" using p(2) Inl r by simp
    let ?v = "v\<lparr>vo_IntSet := Some s'\<rparr>"
    have "setRemove v ms = Inr (?v, k)" using l p(1) by (simp add: setRemove_def Inl)
    moreover have "setPayload ?v = Inr (Inl s')" using kind enc by (simp add: setPayload_def)
    from set_repI [OF this ok] have "vo_rep ?v (CSet (S - set ms))" using r(2) by simp
    ultimately show ?thesis using r(3) by (intro exI [of _ ?v]) simp
  next
    case (Inr s)
    have enc: "vo_SetEncoding v \<noteq> ValueEncodingCompact"
      using p(1) kind by (auto simp: setPayload_def Inr split: if_splits option.splits)
    obtain g k where g: "remove_loop gs_remove s ms 0 = (g, k)" by fastforce
    have "distinct s" and S: "S = set s" using p(2,3) Inr by simp_all
    then have r: "distinct g" "set g = S - set ms" "k = card (S \<inter> set ms)"
      using gset.remove_loop_spec [OF _ g] by simp_all
    let ?v = "v\<lparr>vo_Set := Some g\<rparr>"
    have "setRemove v ms = Inr (?v, k)" using g p(1) by (simp add: setRemove_def Inr)
    moreover have "setPayload ?v = Inr (Inr g)" using kind enc by (simp add: setPayload_def)
    with r have "vo_rep ?v (CSet (S - set ms))" by simp
    ultimately show ?thesis using r(3) by (intro exI [of _ ?v]) simp
  qed
qed

lemma set_reads:
  assumes "vo_rep v (CSet S)"
  shows "setLen v = Inr (card S)" "setContains v m = Inr (m \<in> S)" "finite S"
    "\<exists>xs. setMembers v = Inr xs \<and> distinct xs \<and> set xs = S"
proof -
  obtain p where p: "setPayload v = Inr p" "set_ok p" "S = set_abs p" using assms by auto
  show "setLen v = Inr (card S)" using p is_len_card by (cases p) (auto simp: setLen_def distinct_card)
  show "setContains v m = Inr (m \<in> S)" using p is_contains_iff by (cases p) (auto simp: setContains_def)
  show "finite S" using p intset.finite_elems by (cases p) auto
  show "\<exists>xs. setMembers v = Inr xs \<and> distinct xs \<and> set xs = S"
    using p is_members_spec by (cases p) (auto simp: setMembers_def)
qed

lemma fold_gs_insert: "distinct acc \<Longrightarrow> distinct (foldl (\<lambda>ms m. gs_insert m ms) acc s) \<and>
    set (foldl (\<lambda>ms m. gs_insert m ms) acc s) = set acc \<union> set s"
  by (induction s arbitrary: acc) auto

lemma cloneSet_rep:
  assumes "vo_rep v (CSet S)"
  shows "\<exists>v'. cloneSetValue v t now = Inr v' \<and> vo_rep v' (CSet S) \<and> vo_ExpiresAt v' = t"
proof -
  obtain p where p: "setPayload v = Inr p" "set_ok p" "S = set_abs p" using assms by auto
  show ?thesis
  proof (cases p)
    case (Inl s)
    have "cloneIntSet s = s" by (simp add: cloneIntSet_def)
    then show ?thesis using Inl p set_repI [of "newIntSetValue s t now" "Inl s"]
      by (simp add: cloneSetValue_def value_defs setPayload_def)
  next
    case (Inr s)
    then show ?thesis using p fold_gs_insert [of "[]" s] by (simp add: cloneSetValue_def value_defs setPayload_def)
  qed
qed

lemma newSet_rep:
  "vo_rep (newSetValueForMembers ms t now) (CSet (set ms))" "vo_ExpiresAt (newSetValueForMembers ms t now) = t"
proof -
  obtain g k where g: "mustAddSetMembers [] ms 0 = (g, k)" by fastforce
  have "vo_rep (newSetValue g t now) (CSet (set ms))"
    using mustAdd_spec [OF _ g] by (simp add: value_defs setPayload_def)
  moreover have "vo_rep (newIntSetValue s t now) (CSet (set ms))" if "newIntSet ms = Some s" "is_len s \<le> intSetMaxEntries" for s
    using newIntSet_spec [OF that(1)] that(2) set_repI [of "newIntSetValue s t now" "Inl s"]
    by (simp add: value_defs setPayload_def)
  ultimately show "vo_rep (newSetValueForMembers ms t now) (CSet (set ms))"
    using g by (simp add: newSetValueForMembers_def del: vo_rep.simps split: option.split)
  show "vo_ExpiresAt (newSetValueForMembers ms t now) = t"
    by (simp add: newSetValueForMembers_def value_defs split: option.split)
qed

section \<open>Properties\<close>

text \<open>C38. Setting fields of a hash does not depend on the encoding of the value: from any well-formed hash value
  with contents m, compact or general, hashSet succeeds, reports the number of new fields, and the value it
  leaves answers every hashGet and hashLen as the assigned map does, whether or not the write upgraded it; the
  expiry stays, and a value that is still compact respects the limits of the compact encoding.\<close>

theorem hash_write_encoding_free:
  assumes "vo_rep v (CHash m)"
  shows "\<exists>v'. hashSet v pairs = Inr (v', card (fst ` set pairs - dom m)) \<and>
     (\<forall>f. hashGet v' f = Inr (assigns m pairs f)) \<and> hashLen v' = Inr (card (dom m \<union> fst ` set pairs)) \<and>
     vo_ExpiresAt v' = vo_ExpiresAt v \<and>
     (vo_HashEncoding v' = ValueEncodingCompact \<longrightarrow>
        card (dom m \<union> fst ` set pairs) \<le> compactHashMaxEntries \<and>
        (\<forall>(f, x) \<in> Map.graph (assigns m pairs).
           length f \<le> compactHashMaxStringSize \<and> length x \<le> compactHashMaxStringSize))"
proof -
  obtain v' where v': "hashSet v pairs = Inr (v', card (fst ` set pairs - dom m))"
    "vo_rep v' (CHash (assigns m pairs))" "vo_ExpiresAt v' = vo_ExpiresAt v" using hashSet_rep [OF assms] by blast
  obtain p where p: "hashPayload v' = Inr p" "hash_ok p" "assigns m pairs = hash_abs p" using v'(2) by auto
  have "card (dom m \<union> fst ` set pairs) \<le> compactHashMaxEntries \<and>
        (\<forall>(f, x) \<in> Map.graph (assigns m pairs). length f \<le> compactHashMaxStringSize \<and> length x \<le> compactHashMaxStringSize)"
    if enc: "vo_HashEncoding v' = ValueEncodingCompact"
  proof -
    obtain h where h: "p = Inl h" using p(1) enc by (auto simp: hashPayload_def split: if_splits option.splits)
    have "ch_len h = card (dom m \<union> fst ` set pairs)"
      using ch_len_card [of h] p(2,3) dom_assigns [of m pairs] unfolding h by simp
    then show ?thesis using p(2,3) unfolding h by (auto simp: in_graphD dest!: in_graphD)
  qed
  then show ?thesis using v'(1,3) hash_reads(1,2) [OF v'(2)] dom_assigns [of m pairs] by auto
qed

text \<open>Sorted sets answer every query from their contents alone: two values with the same members and scores,
  one compact and one built by skip-list insertions with arbitrary level draws, report the same length, the same
  score of every member, and the same rank and score ranges; after the same batch of additions they still do.\<close>

theorem zset_encoding_free:
  assumes "vo_rep v (CZSet m)" "vo_rep w (CZSet m)" "\<forall>sc \<in> snd ` set es. sc \<noteq> NaN"
  shows "\<exists>v' w' n. zsetAdd coin v es = Inr (v', n) \<and> zsetAdd coin' w es = Inr (w', n) \<and>
     zsetLen v' = zsetLen w' \<and> (\<forall>k. zsetScore v' k = zsetScore w' k) \<and>
     (\<forall>a b. zsetRangeByRank v' a b = zsetRangeByRank w' a b) \<and>
     (\<forall>r. zsetRangeByScore v' r = zsetRangeByScore w' r)"
proof -
  obtain v' where v': "zsetAdd coin v es = Inr (v', card (fst ` set es - dom m))" "vo_rep v' (CZSet (assigns m es))"
    using zsetAdd_rep [OF assms(1,3)] by blast
  obtain w' where w': "zsetAdd coin' w es = Inr (w', card (fst ` set es - dom m))" "vo_rep w' (CZSet (assigns m es))"
    using zsetAdd_rep [OF assms(2,3)] by blast
  show ?thesis using v'(1) w'(1) zset_reads [OF v'(2)] zset_reads [OF w'(2)] by auto
qed

text \<open>Adding members to a set and then removing some: whatever the encoding, SADD reports the members that
  were new, SREM those that were present, and the set that is left is the difference of the union.\<close>

theorem set_write_encoding_free:
  assumes "vo_rep v (CSet S)"
  shows "\<exists>v1 v2 xs. setAdd v ms = Inr (v1, card (set ms - S)) \<and>
     setRemove v1 ks = Inr (v2, card ((S \<union> set ms) \<inter> set ks)) \<and>
     (\<forall>m. setContains v2 m = Inr (m \<in> S \<union> set ms - set ks)) \<and>
     setMembers v2 = Inr xs \<and> distinct xs \<and> set xs = S \<union> set ms - set ks"
proof -
  obtain v1 where v1: "setAdd v ms = Inr (v1, card (set ms - S))" "vo_rep v1 (CSet (S \<union> set ms))"
    using setAdd_rep [OF assms] by blast
  obtain v2 where v2: "setRemove v1 ks = Inr (v2, card ((S \<union> set ms) \<inter> set ks))" "vo_rep v2 (CSet (S \<union> set ms - set ks))"
    using setRemove_rep [OF v1(2)] by blast
  show ?thesis using v1(1) v2(1) set_reads [OF v2(2)] by blast
qed

theorem hash_write_encoding_free_witness:
  "vo_rep (newHashValueForPairs [(str ''a'', str ''1'')] 0 0) (CHash [str ''a'' \<mapsto> str ''1'']) \<and>
   (\<exists>v'. hashSet (newHashValueForPairs [(str ''a'', str ''1'')] 0 0) [(str ''b'', str ''2''), (str ''a'', str ''3'')] = Inr (v', 1) \<and>
      hashGet v' (str ''a'') = Inr (Some (str ''3'')))"
proof -
  have r: "vo_rep (newHashValueForPairs [(str ''a'', str ''1'')] 0 0) (CHash [str ''a'' \<mapsto> str ''1''])"
    using newHash_rep(1) [of "[(str ''a'', str ''1'')]" 0 0] by (simp add: assigns_def del: vo_rep.simps)
  have ne: "str ''b'' \<noteq> str ''a''" by (simp add: str_def)
  have "card (fst ` set [(str ''b'', str ''2''), (str ''a'', str ''3'')] - dom [str ''a'' \<mapsto> str ''1'']) = 1"
    using ne by (simp add: insert_Diff_if)
  moreover have "assigns [str ''a'' \<mapsto> str ''1''] [(str ''b'', str ''2''), (str ''a'', str ''3'')] (str ''a'') = Some (str ''3'')"
    by (simp add: assigns_def)
  ultimately show ?thesis
    using r hash_write_encoding_free [OF r, of "[(str ''b'', str ''2''), (str ''a'', str ''3'')]"] by metis
qed

theorem zset_encoding_free_witness:
  "\<exists>v' w' n. zsetAdd (\<lambda>_ _. False) (newZSetValueForEntries (\<lambda>_ _. False) [] 0 0) [(str ''a'', PInf)] = Inr (v', n) \<and>
     zsetAdd (\<lambda>_ _. True) (newZSetValue newSortedSet 0 0) [(str ''a'', PInf)] = Inr (w', n) \<and> zsetLen v' = zsetLen w'"
proof -
  have v: "vo_rep (newZSetValueForEntries (\<lambda>_ _. False) [] 0 0) (CZSet Map.empty)"
    using newZSet_rep(1) [of "[]" "\<lambda>_ _. False" 0 0] by (simp add: assigns_def del: vo_rep.simps)
  have "ss_score newSortedSet = Map.empty" by (simp add: ss_score_def [abs_def] newSortedSet_def)
  then have w: "vo_rep (newZSetValue newSortedSet 0 0) (CZSet Map.empty)"
    using zset_repI [of "newZSetValue newSortedSet 0 0" "Inr newSortedSet"] newSortedSet_inv by (simp add: value_defs zsetPayload_def)
  have "\<forall>sc \<in> snd ` set [(str ''a'', PInf)]. sc \<noteq> NaN" by simp
  from zset_encoding_free [OF v w this, of "\<lambda>_ _. False" "\<lambda>_ _. True"] show ?thesis by metis
qed

theorem set_write_encoding_free_witness:
  "\<exists>v1 v2. setAdd (newSetValueForMembers [str ''7''] 0 0) [str ''7'', str ''x''] = Inr (v1, 1) \<and>
     setRemove v1 [str ''7''] = Inr (v2, 1) \<and> setContains v2 (str ''x'') = Inr True"
proof -
  have r: "vo_rep (newSetValueForMembers [str ''7''] 0 0) (CSet {str ''7''})"
    using newSet_rep(1) [of "[str ''7'']" 0 0] by simp
  have ne: "str ''x'' \<noteq> str ''7''" by (simp add: str_def)
  have "set [str ''7'', str ''x''] - {str ''7''} = {str ''x''}"
    "({str ''7''} \<union> set [str ''7'', str ''x'']) \<inter> set [str ''7''] = {str ''7''}" using ne by auto
  then show ?thesis using set_write_encoding_free [OF r, of "[str ''7'', str ''x'']" "[str ''7'']"] ne by fastforce
qed

end
