(* ===== verification/List_Waiters.thy ===== *)
theory List_Waiters
  imports Prelude
begin

text \<open>
  The waiters of blocking list commands, \<^verbatim>\<open>src/internal/storage/list_waiters.go\<close>: per key a queue of
  channels in arrival order with an index of its members.  A channel is a number, fresh at each
  subscription; it has room for one token, and \<open>lw_tokens\<close> holds the channels that have one.  The doubly
  linked list and the element pointers of the index are a list of channels and the set of its members.

  Shown: the queue and its index stay consistent, a push wakes the oldest waiter only, and a waiter that
  stays subscribed is woken after as many pushes as its position in the queue says, whatever other
  clients do meanwhile.
\<close>

section \<open>Model\<close>

record waiterQueue =
  wq_order :: "nat list"
  wq_index :: "nat goset"

record listWaiters =
  lw_waiters :: "(bytes, waiterQueue) gomap"
  lw_next :: nat
  lw_tokens :: "nat goset"

definition newListWaiters :: listWaiters where
  "newListWaiters = \<lparr>lw_waiters = [], lw_next = 0, lw_tokens = []\<rparr>"

definition emptyQueue :: waiterQueue where
  "emptyQueue = \<lparr>wq_order = [], wq_index = []\<rparr>"

definition subscribe :: "listWaiters \<Rightarrow> bytes \<Rightarrow> listWaiters \<times> nat" where
  "subscribe w key =
     (let queue = (case gm_get (lw_waiters w) key of None \<Rightarrow> emptyQueue | Some q \<Rightarrow> q);
          ch = lw_next w;
          queue = \<lparr>wq_order = wq_order queue @ [ch], wq_index = gs_insert ch (wq_index queue)\<rparr>
      in (w\<lparr>lw_waiters := gm_set (lw_waiters w) key queue, lw_next := Suc ch\<rparr>, ch))"

definition unsubscribe :: "listWaiters \<Rightarrow> bytes \<Rightarrow> nat \<Rightarrow> listWaiters" where
  "unsubscribe w key ch =
     (case gm_get (lw_waiters w) key of
        None \<Rightarrow> w
      | Some queue \<Rightarrow>
          if ch \<notin> set (wq_index queue) then w
          else
            let queue = \<lparr>wq_order = remove1 ch (wq_order queue), wq_index = gs_delete ch (wq_index queue)\<rparr>
            in w\<lparr>lw_waiters := (if wq_order queue = [] then gm_del (lw_waiters w) key
                                else gm_set (lw_waiters w) key queue)\<rparr>)"

definition notifyOne :: "listWaiters \<Rightarrow> bytes \<Rightarrow> listWaiters" where
  "notifyOne w key =
     (case gm_get (lw_waiters w) key of
        None \<Rightarrow> w
      | Some queue \<Rightarrow>
          (case wq_order queue of
             [] \<Rightarrow> w
           | ch # order \<Rightarrow>
               let queue = \<lparr>wq_order = order, wq_index = gs_delete ch (wq_index queue)\<rparr>
               in w\<lparr>lw_waiters := (if order = [] then gm_del (lw_waiters w) key
                                   else gm_set (lw_waiters w) key queue),
                    lw_tokens := gs_insert ch (lw_tokens w)\<rparr>))"

section \<open>Invariant\<close>

definition queue_of :: "listWaiters \<Rightarrow> bytes \<Rightarrow> nat list" where
  "queue_of w key = (case gm_get (lw_waiters w) key of None \<Rightarrow> [] | Some q \<Rightarrow> wq_order q)"

definition queue_ok :: "waiterQueue \<Rightarrow> bool" where
  "queue_ok q \<longleftrightarrow> wq_order q \<noteq> [] \<and> distinct (wq_order q) \<and> distinct (wq_index q) \<and> set (wq_index q) = set (wq_order q)"

definition lw_inv :: "listWaiters \<Rightarrow> bool" where
  "lw_inv w \<longleftrightarrow> gm_wf (lw_waiters w) \<and>
     (\<forall>k q. gm_get (lw_waiters w) k = Some q \<longrightarrow> queue_ok q \<and> (\<forall>ch \<in> set (wq_order q). ch < lw_next w))"

lemma new_inv: "lw_inv newListWaiters" "queue_of newListWaiters k = []"
  by (simp_all add: lw_inv_def newListWaiters_def queue_of_def)

lemma subscribe_spec:
  assumes "lw_inv w" "subscribe w key = (w', ch)"
  shows "lw_inv w' \<and> ch = lw_next w \<and> lw_tokens w' = lw_tokens w \<and>
         queue_of w' k = (if k = key then queue_of w key @ [ch] else queue_of w k)"
proof -
  let ?q = "case gm_get (lw_waiters w) key of None \<Rightarrow> emptyQueue | Some q \<Rightarrow> q"
  have q: "distinct (wq_order ?q)" "distinct (wq_index ?q)" "set (wq_index ?q) = set (wq_order ?q)"
    "\<forall>ch \<in> set (wq_order ?q). ch < lw_next w"
    using assms(1) by (auto simp: lw_inv_def queue_ok_def emptyQueue_def split: option.splits)
  have w': "w' = w\<lparr>lw_waiters := gm_set (lw_waiters w) key \<lparr>wq_order = wq_order ?q @ [ch], wq_index = gs_insert ch (wq_index ?q)\<rparr>,
                   lw_next := Suc ch\<rparr>" "ch = lw_next w"
    using assms(2) by (auto simp: subscribe_def Let_def)
  have ord: "wq_order ?q = queue_of w key" by (simp add: queue_of_def emptyQueue_def split: option.splits)
  have "lw_inv w'"
    using assms(1) q unfolding lw_inv_def w'
    by (auto simp: gm_get_set queue_ok_def less_Suc_eq)
  then show ?thesis using ord by (simp add: w' queue_of_def gm_get_set)
qed

lemma unsubscribe_spec:
  assumes "lw_inv w"
  shows "lw_inv (unsubscribe w key ch) \<and> lw_tokens (unsubscribe w key ch) = lw_tokens w \<and>
         queue_of (unsubscribe w key ch) k = (if k = key then remove1 ch (queue_of w key) else queue_of w k)"
proof (cases "gm_get (lw_waiters w) key")
  case None
  then show ?thesis using assms by (simp add: unsubscribe_def queue_of_def)
next
  case (Some q)
  have q: "queue_ok q" "\<forall>ch \<in> set (wq_order q). ch < lw_next w" and wf: "gm_wf (lw_waiters w)"
    using assms Some by (auto simp: lw_inv_def)
  show ?thesis
  proof (cases "ch \<in> set (wq_index q)")
    case False
    then show ?thesis using assms q Some by (simp add: unsubscribe_def queue_of_def queue_ok_def remove1_idem)
  next
    case True
    let ?q = "\<lparr>wq_order = remove1 ch (wq_order q), wq_index = gs_delete ch (wq_index q)\<rparr>"
    have u: "unsubscribe w key ch = w\<lparr>lw_waiters := (if wq_order ?q = [] then gm_del (lw_waiters w) key
                                        else gm_set (lw_waiters w) key ?q)\<rparr>"
      using True Some by (simp add: unsubscribe_def Let_def)
    have "queue_ok ?q" if "wq_order ?q \<noteq> []" using q that by (auto simp: queue_ok_def)
    moreover have "\<forall>c \<in> set (wq_order ?q). c < lw_next w" using q(2) notin_set_remove1 by fastforce
    ultimately have "lw_inv (unsubscribe w key ch)"
      using assms wf unfolding u lw_inv_def by (auto simp: gm_get_set gm_get_del simp del: waiterQueue.simps)
    then show ?thesis using Some wf by (simp add: u queue_of_def gm_get_set gm_get_del)
  qed
qed

lemma notifyOne_spec:
  assumes "lw_inv w"
  shows "lw_inv (notifyOne w key) \<and>
         set (lw_tokens (notifyOne w key)) = set (lw_tokens w) \<union> set (take 1 (queue_of w key)) \<and>
         queue_of (notifyOne w key) k = (if k = key then tl (queue_of w key) else queue_of w k)"
proof (cases "gm_get (lw_waiters w) key")
  case None
  then show ?thesis using assms by (simp add: notifyOne_def queue_of_def)
next
  case (Some q)
  have q: "queue_ok q" "\<forall>ch \<in> set (wq_order q). ch < lw_next w" and wf: "gm_wf (lw_waiters w)"
    using assms Some by (auto simp: lw_inv_def)
  then obtain ch order where o: "wq_order q = ch # order" by (auto simp: queue_ok_def neq_Nil_conv)
  let ?q = "\<lparr>wq_order = order, wq_index = gs_delete ch (wq_index q)\<rparr>"
  have u: "notifyOne w key = w\<lparr>lw_waiters := (if order = [] then gm_del (lw_waiters w) key
             else gm_set (lw_waiters w) key ?q), lw_tokens := gs_insert ch (lw_tokens w)\<rparr>"
    using o Some by (simp add: notifyOne_def Let_def)
  have "queue_ok ?q" if "order \<noteq> []" using q o that by (auto simp: queue_ok_def)
  moreover have "\<forall>c \<in> set (wq_order ?q). c < lw_next w" using q(2) o by simp
  ultimately have "lw_inv (notifyOne w key)"
    using assms wf unfolding u lw_inv_def by (auto simp: gm_get_set gm_get_del simp del: waiterQueue.simps)
  then show ?thesis using Some wf o by (simp add: u queue_of_def gm_get_set gm_get_del)
qed

section \<open>Interleavings\<close>

text \<open>What clients and writers do to the waiters, in any order.\<close>

datatype waiter_event = Subscribed bytes | Unsubscribed bytes nat | Pushed bytes

fun lw_step :: "listWaiters \<Rightarrow> waiter_event \<Rightarrow> listWaiters" where
  "lw_step w (Subscribed k) = fst (subscribe w k)"
| "lw_step w (Unsubscribed k ch) = unsubscribe w k ch"
| "lw_step w (Pushed k) = notifyOne w k"

abbreviation lw_run :: "listWaiters \<Rightarrow> waiter_event list \<Rightarrow> listWaiters" where
  "lw_run \<equiv> foldl lw_step"

lemma lw_step_spec:
  assumes "lw_inv w"
  shows "lw_inv (lw_step w e) \<and> set (lw_tokens w) \<subseteq> set (lw_tokens (lw_step w e))"
proof (cases e)
  case (Subscribed k)
  then show ?thesis using subscribe_spec [OF assms, of k "fst (subscribe w k)" "snd (subscribe w k)" k] by simp
next
  case (Unsubscribed k ch)
  then show ?thesis using unsubscribe_spec [OF assms, of k ch k] by simp
next
  case (Pushed k)
  then show ?thesis using notifyOne_spec [OF assms, of k k] by auto
qed

lemmas lw_step_inv = lw_step_spec [THEN conjunct1]
  and lw_step_tokens = lw_step_spec [THEN conjunct2]

lemma lw_run_inv: "lw_inv w \<Longrightarrow> lw_inv (lw_run w es)"
  by (induction es arbitrary: w) (simp_all add: lw_step_inv)

lemma lw_run_tokens: "lw_inv w \<Longrightarrow> set (lw_tokens w) \<subseteq> set (lw_tokens (lw_run w es))"
proof (induction es arbitrary: w)
  case (Cons e es)
  then show ?case using Cons.IH [OF lw_step_inv [OF Cons.prems]] lw_step_tokens [OF Cons.prems, of e] by simp blast
qed simp

text \<open>One step keeps a waiter at its place behind \<open>before\<close>, moves it forward, or wakes it.\<close>

lemma lw_step_progress:
  assumes "lw_inv w" "queue_of w key = before @ ch # behind" "e \<noteq> Unsubscribed key ch"
  shows "(\<exists>before' behind'. queue_of (lw_step w e) key = before' @ ch # behind' \<and>
            length before' \<le> length before - (if e = Pushed key then 1 else 0) \<and>
            (e = Pushed key \<longrightarrow> before \<noteq> [])) \<or>
         e = Pushed key \<and> before = [] \<and> ch \<in> set (lw_tokens (lw_step w e))"
proof (cases e)
  case (Subscribed k)
  have "queue_of (lw_step w e) key = before @ ch # (if k = key then behind @ [lw_next w] else behind)"
    using subscribe_spec [OF assms(1), of k "fst (subscribe w k)" "snd (subscribe w k)" key] assms(2) Subscribed by auto
  then show ?thesis using Subscribed by fastforce
next
  case (Unsubscribed k c)
  have dist: "distinct (queue_of w key)"
    using assms(1) by (auto simp: lw_inv_def queue_of_def queue_ok_def split: option.splits)
  have "queue_of (lw_step w e) key = (if k = key then remove1 c (before @ ch # behind) else before @ ch # behind)"
    using unsubscribe_spec [OF assms(1), of k c key] assms(2) Unsubscribed by simp
  then show ?thesis
    using assms(3) Unsubscribed by (cases "k = key \<and> c \<in> set before")
      (fastforce simp: remove1_append length_remove1 split: if_splits)+
next
  case (Pushed k)
  have n: "queue_of (lw_step w e) key = (if k = key then tl (before @ ch # behind) else before @ ch # behind)"
    "set (lw_tokens (lw_step w e)) = set (lw_tokens w) \<union> set (take 1 (queue_of w k))"
    using notifyOne_spec [OF assms(1), of k key] assms(2) Pushed by auto
  show ?thesis
  proof (cases "k = key")
    case True
    then show ?thesis using n assms(2) Pushed by (cases before) auto
  next
    case False
    then show ?thesis using n Pushed by fastforce
  qed
qed

lemma waiter_progress:
  assumes "lw_inv w" "queue_of w key = before @ ch # behind" "Unsubscribed key ch \<notin> set es"
    "length before < length (filter (\<lambda>e. e = Pushed key) es)"
  shows "ch \<in> set (lw_tokens (lw_run w es))"
  using assms
proof (induction es arbitrary: w before behind)
  case (Cons e es)
  have e: "e \<noteq> Unsubscribed key ch" using Cons.prems(3) by auto
  consider before' behind' where "queue_of (lw_step w e) key = before' @ ch # behind'"
      "length before' \<le> length before - (if e = Pushed key then 1 else 0)" "e = Pushed key \<longrightarrow> before \<noteq> []"
    | "ch \<in> set (lw_tokens (lw_step w e))"
    using lw_step_progress [OF Cons.prems(1,2) e] by blast
  then show ?case
  proof cases
    case 1
    have "length before' < length (filter (\<lambda>e. e = Pushed key) es)"
    proof (cases "e = Pushed key")
      case True
      then have "0 < length before" "length before' \<le> length before - 1" using 1(2,3) by simp_all
      moreover have "length before < Suc (length (filter (\<lambda>e. e = Pushed key) es))" using True Cons.prems(4) by simp
      ultimately show ?thesis by linarith
    qed (use 1(2) Cons.prems(4) in simp)
    then show ?thesis using Cons.IH [OF lw_step_inv [OF Cons.prems(1)] 1(1)] Cons.prems(3) by simp
  next
    case 2
    then show ?thesis using lw_run_tokens [OF lw_step_inv [OF Cons.prems(1)]] by auto
  qed
qed simp

section \<open>Properties\<close>

text \<open>C31. A blocked client is not starved: whatever clients have subscribed, left and been woken before, and
  whatever they do later, a client that subscribes to a key and does not give up is signalled as soon as
  there were more pushes to the key than waiters ahead of it, and the first of these pushes wakes the
  client that has waited longest.\<close>

theorem waiter_not_starved:
  assumes "w = lw_run newListWaiters history" "subscribe w key = (w', ch)" "Unsubscribed key ch \<notin> set es"
    "length (queue_of w key) < length (filter (\<lambda>e. e = Pushed key) es)"
  shows "ch \<in> set (lw_tokens (lw_run w' es)) \<and>
         (queue_of w key \<noteq> [] \<longrightarrow> hd (queue_of w key) \<in> set (lw_tokens (notifyOne w' key)))"
proof -
  have inv: "lw_inv w" using assms(1) lw_run_inv [OF new_inv(1)] by simp
  note sub = subscribe_spec [OF inv assms(2), of key]
  have "hd (queue_of w key) \<in> set (lw_tokens (notifyOne w' key))" if "queue_of w key \<noteq> []"
  proof -
    have "set (lw_tokens (notifyOne w' key)) = set (lw_tokens w') \<union> set (take 1 (queue_of w' key))"
      using notifyOne_spec sub by blast
    then show ?thesis using sub that by (cases "queue_of w key") auto
  qed
  then show ?thesis using waiter_progress [of w' key "queue_of w key" ch "[]" es] sub assms(3,4) by simp
qed

theorem waiter_not_starved_witness:
  "subscribe (lw_run newListWaiters [Subscribed (str ''q'')]) (str ''q'') =
     (lw_run newListWaiters [Subscribed (str ''q''), Subscribed (str ''q'')], 1) \<and>
   1 \<in> set (lw_tokens (lw_run (lw_run newListWaiters [Subscribed (str ''q''), Subscribed (str ''q'')])
                [Pushed (str ''q''), Pushed (str ''q'')]))"
proof -
  let ?w = "lw_run newListWaiters [Subscribed (str ''q'')]"
  have s: "subscribe ?w (str ''q'') = (lw_run newListWaiters [Subscribed (str ''q''), Subscribed (str ''q'')], 1)"
    by (simp add: subscribe_def newListWaiters_def Let_def)
  have "length (queue_of ?w (str ''q'')) < length (filter (\<lambda>e. e = Pushed (str ''q'')) [Pushed (str ''q''), Pushed (str ''q'')])"
    by (simp add: subscribe_def newListWaiters_def Let_def queue_of_def emptyQueue_def)
  from waiter_not_starved [OF refl s _ this] s show ?thesis by simp
qed

end
