(* ===== verification/Keyspace.thy ===== *)
theory Keyspace
  imports Value_Object List_Waiters
begin

text \<open>
  The sharded keyspace of \<^verbatim>\<open>src/internal/storage\<close>: the store record (\<^verbatim>\<open>store.go\<close>), the paths every
  read and write of one key takes (\<^verbatim>\<open>shard.go\<close>), key counts by kind (\<^verbatim>\<open>stats.go\<close>), and the memory
  accounting with its eviction (\<^verbatim>\<open>memory.go\<close>).

  A shard is a Go map, an association list whose order is the order in which the map is iterated;
  theorems range over every store and so over every order.  The shard hash (\<^verbatim>\<open>maphash.String\<close> under the
  store's seed) is the function \<open>sr_seed\<close>.  What a call reads from its surroundings is the record
  \<open>Env\<close>: \<open>env_clock i\<close> is the i-th reading of the wall clock a call takes (in no particular order, since the
  wall clock may step back), \<open>env_nano i\<close> the nanosecond reading of the i-th sampling round, and
  \<open>env_coin\<close> the level draws of skip lists.  An operation runs under the locks of the shards it touches,
  so its steps are one transition of the store.  The expiration listener is the list of batches it was
  handed.  Sizes are unbounded integers: they count bytes the process holds.

  Shown, for the paths all commands share: the shards stay maps that hold each key where the hash puts
  it; the key counts are the number of resident keys of each kind; the memory counter is the sum of the
  sizes of the resident values; a write that is refused leaves the value under its key alone, and one
  that is accepted evicts no protected key and ends at or below the limit.
\<close>

section \<open>The store\<close>

record Env =
  env_clock :: "nat \<Rightarrow> int"
  env_nano :: "nat \<Rightarrow> nat"
  env_coin :: "nat \<Rightarrow> nat \<Rightarrow> bool"

type_synonym shard = "(bytes, ValueObject) gomap"

record Store =
  sr_shards :: "shard list"
  sr_seed :: "bytes \<Rightarrow> nat"
  sr_waiters :: listWaiters
  sr_listener :: bool
  sr_published :: "bytes list list"
  sr_pendingExpired :: "bytes list"
  sr_usedMemory :: int
  sr_keyKindCounts :: "int list"
  sr_maxMemory :: int
  sr_sampleSize :: int

abbreviation defaultShardCount :: nat where "defaultShardCount \<equiv> 256"
abbreviation defaultSampleSize :: int where "defaultSampleSize \<equiv> 20"

definition newShards :: "int \<Rightarrow> shard list" where
  "newShards n = replicate (if n \<le> 0 then defaultShardCount else nat n) []"

definition NewStore :: "(bytes \<Rightarrow> nat) \<Rightarrow> Store" where
  "NewStore seed =
     \<lparr>sr_shards = newShards (int defaultShardCount), sr_seed = seed, sr_waiters = newListWaiters,
      sr_listener = False, sr_published = [], sr_pendingExpired = [], sr_usedMemory = 0,
      sr_keyKindCounts = replicate 6 0, sr_maxMemory = 0, sr_sampleSize = 0\<rparr>"

definition SetExpirationListener :: "Store \<Rightarrow> bool \<Rightarrow> Store" where
  "SetExpirationListener s listener = s\<lparr>sr_listener := listener\<rparr>"

definition noteExpiredKeysLocked :: "Store \<Rightarrow> bytes list \<Rightarrow> Store" where
  "noteExpiredKeysLocked s keys =
     (if keys = [] then s else s\<lparr>sr_pendingExpired := sr_pendingExpired s @ keys\<rparr>)"

definition publishExpiredKeys :: "Store \<Rightarrow> Store" where
  "publishExpiredKeys s =
     (let pending = sr_pendingExpired s; s = s\<lparr>sr_pendingExpired := []\<rparr>
      in if pending = [] \<or> \<not> sr_listener s then s
         else s\<lparr>sr_published := sr_published s @ [pending]\<rparr>)"

definition shardIndex :: "Store \<Rightarrow> bytes \<Rightarrow> nat" where
  "shardIndex s key = sr_seed s key mod length (sr_shards s)"

text \<open>\<open>data_at s i\<close> is \<^verbatim>\<open>s.shards[i].data\<close>, \<open>data_get s i key\<close> the lookup \<^verbatim>\<open>s.shards[i].data[key]\<close>.\<close>

abbreviation data_at :: "Store \<Rightarrow> nat \<Rightarrow> shard" where
  "data_at s i \<equiv> sr_shards s ! i"

abbreviation data_get :: "Store \<Rightarrow> nat \<Rightarrow> bytes \<Rightarrow> ValueObject option" where
  "data_get s i key \<equiv> gm_get (data_at s i) key"

definition with_data :: "Store \<Rightarrow> nat \<Rightarrow> shard \<Rightarrow> Store" where
  "with_data s i d = s\<lparr>sr_shards := (sr_shards s)[i := d]\<rparr>"

definition lookup :: "Store \<Rightarrow> bytes \<Rightarrow> ValueObject option" where
  "lookup s key = data_get s (shardIndex s key) key"

definition isExpired :: "ValueObject \<Rightarrow> int \<Rightarrow> bool" where
  "isExpired v now \<longleftrightarrow> vo_ExpiresAt v > 0 \<and> now > vo_ExpiresAt v"

section \<open>Key counts\<close>

definition keyStatsKinds :: "ValueKind list" where
  "keyStatsKinds = [ValueKindString, ValueKindList, ValueKindHash, ValueKindSet, ValueKindZSet, ValueKindStream]"

definition keyStatsKindIndex :: "ValueKind \<Rightarrow> nat option" where
  "keyStatsKindIndex kind = find_index (\<lambda>candidate. kind = candidate) keyStatsKinds"

definition adjustKeyKindCount :: "Store \<Rightarrow> ValueObject option \<Rightarrow> int \<Rightarrow> Store" where
  "adjustKeyKindCount s v delta =
     (case v of
        None \<Rightarrow> s
      | Some v \<Rightarrow>
          (case keyStatsKindIndex (vo_Kind v) of
             None \<Rightarrow> s
           | Some i \<Rightarrow> s\<lparr>sr_keyKindCounts := (sr_keyKindCounts s)[i := sr_keyKindCounts s ! i + delta]\<rparr>))"

definition setKeyLocked :: "Store \<Rightarrow> nat \<Rightarrow> bytes \<Rightarrow> ValueObject \<Rightarrow> Store" where
  "setKeyLocked s i key v =
     (let previous = data_get s i key;
          s = (if previous = None \<or> vo_Kind (the previous) \<noteq> vo_Kind v
               then adjustKeyKindCount (adjustKeyKindCount s previous (- 1)) (Some v) 1 else s)
      in with_data s i (gm_set (data_at s i) key v))"

definition removeKeyLocked :: "Store \<Rightarrow> nat \<Rightarrow> bytes \<Rightarrow> Store" where
  "removeKeyLocked s i key =
     (let s = adjustKeyKindCount s (data_get s i key) (- 1)
      in with_data s i (gm_del (data_at s i) key))"

definition recalculateKeyStatsLocked :: "Store \<Rightarrow> Store" where
  "recalculateKeyStatsLocked s =
     s\<lparr>sr_keyKindCounts :=
         foldl (\<lambda>counts v. case keyStatsKindIndex (vo_Kind v) of
                             None \<Rightarrow> counts
                           | Some i \<Rightarrow> counts[i := counts ! i + 1])
           (replicate 6 0) (map snd (concat (sr_shards s)))\<rparr>"

definition KeyStats :: "Store \<Rightarrow> int \<times> (ValueKind \<times> int) list" where
  "KeyStats s =
     (sum_list (map (\<lambda>i. sr_keyKindCounts s ! i) [0..<length keyStatsKinds]),
      map (\<lambda>i. (keyStatsKinds ! i, sr_keyKindCounts s ! i)) [0..<length keyStatsKinds])"

text \<open>A value object changed where it lies: the pointer in the shard stays, its target changes.\<close>

definition mutate :: "Store \<Rightarrow> nat \<Rightarrow> bytes \<Rightarrow> ValueObject \<Rightarrow> Store" where
  "mutate s i key v = with_data s i (gm_set (data_at s i) key v)"

section \<open>Approximate sizes\<close>

definition approximateBaseValueObjectSize :: "bytes \<Rightarrow> int \<Rightarrow> int" where
  "approximateBaseValueObjectSize key expiresAt =
     (let sz = 48 + int (length key) in if expiresAt > 0 then sz + 8 else sz)"

definition approximateStringValueObjectSize :: "bytes \<Rightarrow> nat \<Rightarrow> int \<Rightarrow> int" where
  "approximateStringValueObjectSize key len expiresAt = approximateBaseValueObjectSize key expiresAt + int len"

definition approximateValueObjectSize :: "bytes \<Rightarrow> ValueObject option \<Rightarrow> int" where
  "approximateValueObjectSize key value =
     (case value of
        None \<Rightarrow> 0
      | Some v \<Rightarrow>
          let base = approximateBaseValueObjectSize key (vo_ExpiresAt v) in
          case vo_Kind v of
            ValueKindString \<Rightarrow> approximateStringValueObjectSize key (length (vo_String v)) (vo_ExpiresAt v)
          | ValueKindList \<Rightarrow>
              foldl (\<lambda>sz item. sz + int (length item)) (base + (32 + int (length (vo_List v)) * 16)) (vo_List v)
          | ValueKindHash \<Rightarrow>
              if vo_HashEncoding v = ValueEncodingCompact then
                (case vo_CompactHash v of
                   None \<Rightarrow> base + 32
                 | Some h \<Rightarrow> base + 32 + (int (length (ch_entries h)) * 24 + int (length (ch_arena h))))
              else
                (case vo_Hash v of
                   None \<Rightarrow> base + 32
                 | Some m \<Rightarrow> foldl (\<lambda>sz (f, raw). sz + int (length f + length raw)) (base + 32 + int (length m) * 24) m)
          | ValueKindSet \<Rightarrow>
              if vo_SetEncoding v = ValueEncodingCompact then
                (case vo_IntSet v of None \<Rightarrow> base + 32 | Some ms \<Rightarrow> base + 32 + int (is_len ms) * 8)
              else
                (case vo_Set v of
                   None \<Rightarrow> base + 32
                 | Some ms \<Rightarrow> foldl (\<lambda>sz m. sz + int (length m)) (base + 32 + int (length ms) * 16) ms)
          | ValueKindZSet \<Rightarrow>
              if vo_ZSetEncoding v = ValueEncodingCompact then
                (case vo_CompactZSet v of
                   None \<Rightarrow> base + 32
                 | Some z \<Rightarrow> base + 32 + (int (length (cz_entries z)) * 24 + int (length (cz_arena z))))
              else
                (case vo_ZSet v of
                   None \<Rightarrow> base + 32
                 | Some z \<Rightarrow>
                     foldl (\<lambda>sz (m, _). sz + int (length m)) (base + 32 + int (length (ss_index z)) * 24) (ss_index z))
          | ValueKindStream \<Rightarrow>
              (case vo_Stream v of
                 None \<Rightarrow> base + 32
               | Some st \<Rightarrow>
                   foldl (\<lambda>sz r. foldl (\<lambda>sz item. sz + int (length item)) (sz + int (length (rec_idText r))) (rec_values r))
                     (base + 32 + int (length (st_entries st)) * 32) (st_entries st)))"

section \<open>Accounting and eviction\<close>

definition maxMemoryEnabled :: "Store \<Rightarrow> bool" where
  "maxMemoryEnabled s \<longleftrightarrow> sr_maxMemory s > 0"

definition deleteKeyWithSizeLocked :: "Store \<Rightarrow> nat \<Rightarrow> bytes \<Rightarrow> int \<Rightarrow> Store \<times> bool" where
  "deleteKeyWithSizeLocked s i key sz =
     (case data_get s i key of
        None \<Rightarrow> (s, False)
      | Some _ \<Rightarrow>
          let s = (if maxMemoryEnabled s then s\<lparr>sr_usedMemory := sr_usedMemory s - sz\<rparr> else s)
          in (removeKeyLocked s i key, True))"

definition deleteKeyLocked :: "Store \<Rightarrow> nat \<Rightarrow> bytes \<Rightarrow> Store \<times> bool" where
  "deleteKeyLocked s i key =
     (case data_get s i key of
        None \<Rightarrow> (s, False)
      | Some v \<Rightarrow>
          deleteKeyWithSizeLocked s i key
            (if maxMemoryEnabled s then approximateValueObjectSize key (Some v) else 0))"

definition dropIfStillExpired :: "Store \<Rightarrow> bytes \<Rightarrow> int \<Rightarrow> Store" where
  "dropIfStillExpired s key now =
     (let i = shardIndex s key in
      case data_get s i key of
        None \<Rightarrow> s
      | Some v \<Rightarrow> if isExpired v now then fst (deleteKeyLocked s i key) else s)"

definition prepareExistingValueLocked :: "Store \<Rightarrow> bytes \<Rightarrow> int \<Rightarrow> Store \<times> ValueObject option" where
  "prepareExistingValueLocked s key now =
     (let i = shardIndex s key in
      case data_get s i key of
        None \<Rightarrow> (s, None)
      | Some v \<Rightarrow> if isExpired v now then (fst (deleteKeyLocked s i key), None) else (s, Some v))"

fun recalculate_shard :: "Store \<Rightarrow> nat \<Rightarrow> int \<Rightarrow> shard \<Rightarrow> int \<Rightarrow> bytes list \<Rightarrow> Store \<times> int \<times> bytes list" where
  "recalculate_shard s i now [] used expired = (s, used, expired)"
| "recalculate_shard s i now ((key, v) # rest) used expired =
     (if isExpired v now then recalculate_shard (removeKeyLocked s i key) i now rest used (expired @ [key])
      else recalculate_shard s i now rest (used + approximateValueObjectSize key (Some v)) expired)"

fun recalculate_shards :: "Store \<Rightarrow> nat list \<Rightarrow> int \<Rightarrow> int \<Rightarrow> bytes list \<Rightarrow> Store \<times> int \<times> bytes list" where
  "recalculate_shards s [] now used expired = (s, used, expired)"
| "recalculate_shards s (i # rest) now used expired =
     (case recalculate_shard s i now (data_at s i) used expired of
        (s, used, expired) \<Rightarrow> recalculate_shards s rest now used expired)"

definition recalculateUsedMemoryLocked :: "Store \<Rightarrow> int \<Rightarrow> Store \<times> int" where
  "recalculateUsedMemoryLocked s now =
     (case recalculate_shards s [0..<length (sr_shards s)] now 0 [] of
        (s, used, expired) \<Rightarrow> (noteExpiredKeysLocked (s\<lparr>sr_usedMemory := used\<rparr>) expired, used))"

fun totalEvictable_loop :: "bytes goset \<Rightarrow> shard \<Rightarrow> int \<Rightarrow> int" where
  "totalEvictable_loop protected [] acc = acc"
| "totalEvictable_loop protected ((key, v) # rest) acc =
     (if key \<in> set protected then totalEvictable_loop protected rest acc
      else totalEvictable_loop protected rest (acc + approximateValueObjectSize key (Some v)))"

definition totalEvictableMemoryLocked :: "Store \<Rightarrow> bytes goset \<Rightarrow> int" where
  "totalEvictableMemoryLocked s protected = foldl (\<lambda>t d. totalEvictable_loop protected d t) 0 (sr_shards s)"

text \<open>The keys of the shards from \<open>start\<close> on, wrapping round, until \<open>cap\<close> keys are collected.\<close>

fun sampleKeys_loop :: "Store \<Rightarrow> nat \<Rightarrow> nat \<Rightarrow> nat list \<Rightarrow> bytes list \<Rightarrow> bytes list" where
  "sampleKeys_loop s cap start [] keys = keys"
| "sampleKeys_loop s cap start (offset # offsets) keys =
     (if length keys < cap then
        sampleKeys_loop s cap start offsets
          (keys @ take (cap - length keys) (gm_keys (data_at s ((start + offset) mod length (sr_shards s)))))
      else keys)"

definition sampleKeysLocked :: "Store \<Rightarrow> int \<Rightarrow> nat \<Rightarrow> bytes list" where
  "sampleKeysLocked s cap nano =
     (if cap \<le> 0 then []
      else sampleKeys_loop s (nat cap) (nano mod length (sr_shards s)) [0..<length (sr_shards s)] [])"

text \<open>The two loops of \<^verbatim>\<open>findStalestCandidateLocked\<close>, over the sampled keys and over everything.\<close>

fun stalest_sampled :: "Store \<Rightarrow> bytes goset \<Rightarrow> bytes list \<Rightarrow> bytes \<times> int \<Rightarrow> bytes \<times> int" where
  "stalest_sampled s protected [] best = best"
| "stalest_sampled s protected (key # keys) best =
     (if key \<in> set protected then stalest_sampled s protected keys best
      else case lookup s key of
        None \<Rightarrow> stalest_sampled s protected keys best
      | Some v \<Rightarrow>
          stalest_sampled s protected keys (if vo_LastAccessedAt v < snd best then (key, vo_LastAccessedAt v) else best))"

fun stalest_scan :: "bytes goset \<Rightarrow> shard \<Rightarrow> bytes \<times> int \<Rightarrow> bytes \<times> int" where
  "stalest_scan protected [] best = best"
| "stalest_scan protected ((key, v) # rest) best =
     (if key \<in> set protected then stalest_scan protected rest best
      else stalest_scan protected rest (if vo_LastAccessedAt v < snd best then (key, vo_LastAccessedAt v) else best))"

definition findStalestCandidateLocked :: "Store \<Rightarrow> bytes goset \<Rightarrow> nat \<Rightarrow> bytes" where
  "findStalestCandidateLocked s protected nano =
     (let best = stalest_sampled s protected (sampleKeysLocked s (sr_sampleSize s) nano) ([], 2 ^ 63 - 1) in
      if fst best \<noteq> [] then fst best
      else fst (foldl (\<lambda>best d. stalest_scan protected d best) best (sr_shards s)))"

text \<open>The eviction loop.  Every round deletes a resident key, so the number of resident keys bounds the
  rounds; the fuel is one more than that.\<close>

fun evict_loop :: "nat \<Rightarrow> Env \<Rightarrow> nat \<Rightarrow> Store \<Rightarrow> int \<Rightarrow> bytes goset \<Rightarrow> bytes list \<Rightarrow> Store \<times> bytes list" where
  "evict_loop 0 env n s targetUsed protected evicted = (s, evicted)"
| "evict_loop (Suc fuel) env n s targetUsed protected evicted =
     (if sr_usedMemory s > targetUsed then
        let candidate = findStalestCandidateLocked s protected (env_nano env n) in
        if candidate = [] then (s, evicted)
        else
          case deleteKeyLocked s (shardIndex s candidate) candidate of
            (s, deleted) \<Rightarrow>
              evict_loop fuel env (Suc n) s targetUsed protected (if deleted then evicted @ [candidate] else evicted)
      else (s, evicted))"

definition totalKeyCountLocked :: "Store \<Rightarrow> nat" where
  "totalKeyCountLocked s = foldl (\<lambda>t d. t + length d) 0 (sr_shards s)"

definition evictUntilMemoryAtOrBelowLocked ::
    "Env \<Rightarrow> Store \<Rightarrow> int \<Rightarrow> bytes goset \<Rightarrow> Store \<times> (store_error + bytes list)" where
  "evictUntilMemoryAtOrBelowLocked env s targetUsed protected =
     (case evict_loop (Suc (totalKeyCountLocked s)) env 0 s targetUsed protected [] of
        (s, evicted) \<Rightarrow> if sr_usedMemory s > targetUsed then (s, Inl ErrMemoryLimitExceeded) else (s, Inr evicted))"

definition ensureMemoryAvailableLocked ::
    "Env \<Rightarrow> Store \<Rightarrow> int \<Rightarrow> bytes goset \<Rightarrow> Store \<times> (store_error + bytes list)" where
  "ensureMemoryAvailableLocked env s delta protected =
     (if \<not> maxMemoryEnabled s \<or> delta \<le> 0 then (s, Inr [])
      else
        case recalculateUsedMemoryLocked s (env_clock env 1) of
          (s, current) \<Rightarrow>
            let targetUsed = sr_maxMemory s - delta in
            if targetUsed < 0 then (s, Inl ErrMemoryLimitExceeded)
            else if current \<le> targetUsed then (s, Inr [])
            else if current - totalEvictableMemoryLocked s protected > targetUsed then (s, Inl ErrMemoryLimitExceeded)
            else evictUntilMemoryAtOrBelowLocked env s targetUsed protected)"

definition commitValueWithEvictionLocked ::
    "Env \<Rightarrow> Store \<Rightarrow> nat \<Rightarrow> bytes \<Rightarrow> ValueObject option \<Rightarrow> ValueObject \<Rightarrow> Store \<times> (store_error + bytes list)" where
  "commitValueWithEvictionLocked env s i key oldValue newValue =
     (let oldSize = approximateValueObjectSize key oldValue; newSize = approximateValueObjectSize key (Some newValue) in
      case ensureMemoryAvailableLocked env s (newSize - oldSize) [key] of
        (s, Inl e) \<Rightarrow> (s, Inl e)
      | (s, Inr evicted) \<Rightarrow>
          let s = setKeyLocked s i key newValue
          in (s\<lparr>sr_usedMemory := sr_usedMemory s + (newSize - oldSize)\<rparr>, Inr evicted))"

definition commitStringWithEvictionLocked ::
    "Env \<Rightarrow> Store \<Rightarrow> nat \<Rightarrow> bytes \<Rightarrow> ValueObject option \<Rightarrow> nat \<Rightarrow> int \<Rightarrow> int \<Rightarrow> (bytes \<Rightarrow> bytes) \<Rightarrow>
     Store \<times> (store_error + bytes list)" where
  "commitStringWithEvictionLocked env s i key oldValue len expiresAt now fill =
     (let oldSize = approximateValueObjectSize key oldValue; newSize = approximateStringValueObjectSize key len expiresAt in
      case ensureMemoryAvailableLocked env s (newSize - oldSize) [key] of
        (s, Inl e) \<Rightarrow> (s, Inl e)
      | (s, Inr evicted) \<Rightarrow>
          let newValue = touch (newOwnedStringValue (fill (replicate len 0)) expiresAt (env_clock env 2)) now;
              s = setKeyLocked s i key newValue
          in (s\<lparr>sr_usedMemory := sr_usedMemory s + (newSize - oldSize)\<rparr>, Inr evicted))"

definition ConfigureMaxMemory :: "Env \<Rightarrow> Store \<Rightarrow> int \<Rightarrow> int \<Rightarrow> Store" where
  "ConfigureMaxMemory env s cap sampleSize =
     (let cap = (if cap < 0 then 0 else cap);
          sampleSize = (if sampleSize \<le> 0 then defaultSampleSize else sampleSize);
          s = s\<lparr>sr_maxMemory := cap, sr_sampleSize := sampleSize\<rparr>;
          s = (if cap > 0 then fst (recalculateUsedMemoryLocked s (env_clock env 0)) else s\<lparr>sr_usedMemory := 0\<rparr>)
      in publishExpiredKeys s)"

definition EnforceMaxMemory :: "Env \<Rightarrow> Store \<Rightarrow> Store \<times> (store_error + bytes list)" where
  "EnforceMaxMemory env s =
     (if \<not> maxMemoryEnabled s then (s, Inr [])
      else
        let cap = sr_maxMemory s; s = fst (recalculateUsedMemoryLocked s (env_clock env 0)) in
        if sr_usedMemory s \<le> cap then (publishExpiredKeys s, Inr [])
        else case evictUntilMemoryAtOrBelowLocked env s cap [] of (s, r) \<Rightarrow> (publishExpiredKeys s, r))"

section \<open>Reading and writing one key\<close>

text \<open>\<open>readKey\<close> answers None for a key that is missing or expired.\<close>

definition readKey :: "Env \<Rightarrow> Store \<Rightarrow> bytes \<Rightarrow> (ValueObject \<Rightarrow> store_error + 'a) \<Rightarrow> Store \<times> (store_error + 'a option)" where
  "readKey env s key fn =
     (let now = env_clock env 0; i = shardIndex s key in
      case data_get s i key of
        None \<Rightarrow> (s, Inr None)
      | Some v \<Rightarrow>
          if isExpired v now then (dropIfStillExpired s key (env_clock env 1), Inr None)
          else case fn v of
            Inl e \<Rightarrow> (s, Inl e)
          | Inr result \<Rightarrow> (mutate s i key (touch v now), Inr (Some result)))"

record keyWrite =
  kw_key :: bytes
  kw_current :: "ValueObject option"
  kw_now :: int
  kw_accounting :: bool

definition commit :: "Env \<Rightarrow> keyWrite \<Rightarrow> ValueObject \<Rightarrow> Store \<Rightarrow> Store \<times> (store_error + bytes list)" where
  "commit env w newValue s =
     (if kw_accounting w
      then commitValueWithEvictionLocked env s (shardIndex s (kw_key w)) (kw_key w) (kw_current w) newValue
      else (setKeyLocked s (shardIndex s (kw_key w)) (kw_key w) newValue, Inr []))"

definition commitString ::
    "Env \<Rightarrow> keyWrite \<Rightarrow> nat \<Rightarrow> int \<Rightarrow> (bytes \<Rightarrow> bytes) \<Rightarrow> Store \<Rightarrow> Store \<times> (store_error + bytes list)" where
  "commitString env w len expiresAt fill s =
     (if kw_accounting w
      then commitStringWithEvictionLocked env s (shardIndex s (kw_key w)) (kw_key w) (kw_current w) len expiresAt (kw_now w) fill
      else commit env w (touch (newOwnedStringValue (fill (replicate len 0)) expiresAt (env_clock env 2)) (kw_now w)) s)"

definition writeKey ::
    "Env \<Rightarrow> Store \<Rightarrow> bytes \<Rightarrow> (keyWrite \<Rightarrow> Store \<Rightarrow> Store \<times> (store_error + 'a \<times> bytes list)) \<Rightarrow>
     Store \<times> (store_error + 'a \<times> bytes list)" where
  "writeKey env s key fn =
     (let now = env_clock env 0; accounting = maxMemoryEnabled s in
      case prepareExistingValueLocked s key now of
        (s, current) \<Rightarrow>
          (case fn \<lparr>kw_key = key, kw_current = current, kw_now = now, kw_accounting = accounting\<rparr> s of
             (s, r) \<Rightarrow> (if accounting then publishExpiredKeys s else s, r)))"

section \<open>Invariants\<close>

text \<open>Sums over the resident keys.\<close>

definition total_of :: "('k \<Rightarrow> 'v \<Rightarrow> int) \<Rightarrow> ('k \<rightharpoonup> 'v) \<Rightarrow> int" where
  "total_of f m = (\<Sum>k \<in> dom m. f k (the (m k)))"

lemma total_of_empty [simp]: "total_of f Map.empty = 0"
  by (simp add: total_of_def)

lemma total_of_del:
  assumes "finite (dom m)"
  shows "total_of f (m(k := None)) = total_of f m - (case m k of None \<Rightarrow> 0 | Some v \<Rightarrow> f k v)"
proof (cases "m k")
  case None
  then have "m(k := None) = m" by auto
  then show ?thesis using None by simp
next
  case (Some v)
  then have "k \<in> dom m" by auto
  have "(\<Sum>x \<in> dom m - {k}. f x (the ((m(k := None)) x))) = (\<Sum>x \<in> dom m - {k}. f x (the (m x)))"
    by (rule sum.cong) auto
  then show ?thesis using Some sum.remove [OF assms \<open>k \<in> dom m\<close>, of "\<lambda>x. f x (the (m x))"]
    by (simp add: total_of_def)
qed

lemma total_of_upd:
  assumes "finite (dom m)"
  shows "total_of f (m(k \<mapsto> v)) = total_of f m - (case m k of None \<Rightarrow> 0 | Some u \<Rightarrow> f k u) + f k v"
proof -
  let ?m = "m(k := None)"
  have fin: "finite (dom ?m)" using assms by simp
  have "(\<Sum>x \<in> dom ?m. f x (the ((m(k \<mapsto> v)) x))) = (\<Sum>x \<in> dom ?m. f x (the (?m x)))"
    by (rule sum.cong) (auto split: if_splits)
  moreover have "dom (m(k \<mapsto> v)) = insert k (dom ?m)" "k \<notin> dom ?m" by auto
  ultimately have "total_of f (m(k \<mapsto> v)) = f k v + total_of f ?m"
    using sum.insert [OF fin, of k "\<lambda>x. f x (the ((m(k \<mapsto> v)) x))"] unfolding total_of_def by simp
  then show ?thesis using total_of_del [OF assms, of f k] by simp
qed

lemma total_of_list:
  "distinct (map fst xs) \<Longrightarrow> (\<Sum>(k, v)\<leftarrow>xs. f k v) = total_of f (map_of xs)"
proof (induction xs)
  case (Cons x xs)
  obtain k v where x: "x = (k, v)" by (cases x)
  have none: "map_of xs k = None" using Cons.prems x by (simp add: map_of_eq_None_iff)
  have m: "map_of (x # xs) = (map_of xs)(k \<mapsto> v)" by (auto simp: x fun_eq_iff)
  have "(\<Sum>(k, v)\<leftarrow>x # xs. f k v) = f k v + total_of f (map_of xs)" using Cons by (simp add: x)
  also have "\<dots> = total_of f ((map_of xs)(k \<mapsto> v))"
    using total_of_upd [OF finite_dom_map_of, of f xs k v] none by simp
  also have "\<dots> = total_of f (map_of (x # xs))" by (simp only: m)
  finally show ?case .
qed simp

lemma distinct_concat_nth:
  assumes "\<And>i. i < length xss \<Longrightarrow> distinct (xss ! i)"
    "\<And>i j x. i < length xss \<Longrightarrow> j < length xss \<Longrightarrow> x \<in> set (xss ! i) \<Longrightarrow> x \<in> set (xss ! j) \<Longrightarrow> i = j"
  shows "distinct (concat xss)"
  using assms
proof (induction xss)
  case (Cons xs xss)
  have "distinct xs" using Cons.prems(1) [of 0] by simp
  moreover have "distinct (concat xss)"
  proof (rule Cons.IH)
    show "distinct (xss ! i)" if "i < length xss" for i using Cons.prems(1) [of "Suc i"] that by simp
    show "i = j" if "i < length xss" "j < length xss" "x \<in> set (xss ! i)" "x \<in> set (xss ! j)" for i j x
      using Cons.prems(2) [of "Suc i" "Suc j" x] that by simp
  qed
  moreover have "set xs \<inter> set (concat xss) = {}"
  proof -
    have False if "x \<in> set xs" "ys \<in> set xss" "x \<in> set ys" for x ys
    proof -
      obtain j where "j < length xss" "ys = xss ! j" using \<open>ys \<in> set xss\<close> by (auto simp: in_set_conv_nth)
      then show False using Cons.prems(2) [of 0 "Suc j" x] that by simp
    qed
    then show ?thesis by auto
  qed
  ultimately show ?case by simp
qed simp
definition resident_size :: "bytes \<Rightarrow> ValueObject \<Rightarrow> int" where
  "resident_size k v = approximateValueObjectSize k (Some v)"

definition kind_is :: "nat \<Rightarrow> bytes \<Rightarrow> ValueObject \<Rightarrow> int" where
  "kind_is j k v = (if keyStatsKindIndex (vo_Kind v) = Some j then 1 else 0)"

text \<open>Each shard is a map and holds only keys the hash sends there.\<close>

definition store_wf :: "Store \<Rightarrow> bool" where
  "store_wf s \<longleftrightarrow> sr_shards s \<noteq> [] \<and>
     (\<forall>i < length (sr_shards s). gm_wf (data_at s i) \<and> (\<forall>k \<in> fst ` set (data_at s i). shardIndex s k = i))"

definition counts_ok :: "Store \<Rightarrow> bool" where
  "counts_ok s \<longleftrightarrow> length (sr_keyKindCounts s) = 6 \<and>
     (\<forall>j < 6. sr_keyKindCounts s ! j = total_of (kind_is j) (lookup s))"

definition mem_ok :: "Store \<Rightarrow> bool" where
  "mem_ok s \<longleftrightarrow> (maxMemoryEnabled s \<longrightarrow> sr_usedMemory s = total_of resident_size (lookup s))"

text \<open>Everything an operation leaves alone when it only removes keys.\<close>

definition same_setup :: "Store \<Rightarrow> Store \<Rightarrow> bool" where
  "same_setup s s' \<longleftrightarrow> sr_seed s' = sr_seed s \<and> length (sr_shards s') = length (sr_shards s) \<and>
     sr_waiters s' = sr_waiters s \<and> sr_listener s' = sr_listener s \<and> sr_maxMemory s' = sr_maxMemory s \<and>
     sr_sampleSize s' = sr_sampleSize s"

lemma same_setup_refl [simp]: "same_setup s s"
  by (simp add: same_setup_def)

lemma same_setup_trans: "same_setup s t \<Longrightarrow> same_setup t u \<Longrightarrow> same_setup s u"
  by (simp add: same_setup_def)

lemma same_setup_index: "same_setup s s' \<Longrightarrow> shardIndex s' k = shardIndex s k"
  by (simp add: same_setup_def shardIndex_def)

lemma same_setup_max: "same_setup s s' \<Longrightarrow> maxMemoryEnabled s' = maxMemoryEnabled s"
  by (simp add: same_setup_def maxMemoryEnabled_def)

lemma shardIndex_less: "store_wf s \<Longrightarrow> shardIndex s k < length (sr_shards s)"
  by (simp add: store_wf_def shardIndex_def)

lemma lookup_shard:
  assumes "store_wf s" "i < length (sr_shards s)" "data_get s i k = Some v"
  shows "shardIndex s k = i" "lookup s k = Some v"
proof -
  have "k \<in> fst ` set (data_at s i)" using map_of_SomeD [OF assms(3)] by force
  then show "shardIndex s k = i" using assms(1,2) unfolding store_wf_def by blast
  then show "lookup s k = Some v" using assms(3) by (simp add: lookup_def)
qed

lemma wf_entries:
  assumes "store_wf s"
  shows "distinct (map fst (concat (sr_shards s)))" "map_of (concat (sr_shards s)) = lookup s" "finite (dom (lookup s))"
proof -
  have keys: "distinct (map fst (data_at s i))" "\<forall>k \<in> fst ` set (data_at s i). shardIndex s k = i"
    if "i < length (sr_shards s)" for i
    using assms that by (auto simp: store_wf_def gm_wf_def)
  show d: "distinct (map fst (concat (sr_shards s)))"
    unfolding map_concat
  proof (rule distinct_concat_nth)
    show "distinct (map (map fst) (sr_shards s) ! i)" if "i < length (map (map fst) (sr_shards s))" for i
      using keys(1) that by simp
    show "i = j" if "i < length (map (map fst) (sr_shards s))" "j < length (map (map fst) (sr_shards s))"
        "x \<in> set (map (map fst) (sr_shards s) ! i)" "x \<in> set (map (map fst) (sr_shards s) ! j)" for i j x
      using keys(2) [of i] keys(2) [of j] that by (metis length_map nth_map set_map)
  qed
  show m: "map_of (concat (sr_shards s)) = lookup s"
  proof
    fix k
    let ?i = "shardIndex s k"
    have i: "?i < length (sr_shards s)" by (rule shardIndex_less [OF assms])
    show "map_of (concat (sr_shards s)) k = lookup s k"
    proof (cases "lookup s k")
      case None
      have "k \<notin> fst ` set (data_at s j)" if "j < length (sr_shards s)" for j
      proof (cases "j = ?i")
        case True
        then show ?thesis using None by (simp add: lookup_def map_of_eq_None_iff)
      next
        case False
        then show ?thesis using keys(2) [OF that] by metis
      qed
      then have "k \<notin> fst ` set d" if "d \<in> set (sr_shards s)" for d using that by (metis in_set_conv_nth)
      then have "k \<notin> fst ` set (concat (sr_shards s))" by auto
      then show ?thesis using None by (simp add: map_of_eq_None_iff)
    next
      case (Some v)
      then have "(k, v) \<in> set (concat (sr_shards s))"
        using map_of_SomeD [of "data_at s ?i" k v] nth_mem [OF i] unfolding set_concat lookup_def by blast
      then show ?thesis using Some map_of_eq_Some_iff [OF d] by simp
    qed
  qed
  show "finite (dom (lookup s))" unfolding m [symmetric] by (rule finite_dom_map_of)
qed

section \<open>Changing one key\<close>

text \<open>The fields outside the shards do not matter to the keyspace.\<close>

lemma frame_index [simp]:
  "shardIndex (s\<lparr>sr_usedMemory := u\<rparr>) = shardIndex s" "shardIndex (s\<lparr>sr_keyKindCounts := c\<rparr>) = shardIndex s"
  "shardIndex (s\<lparr>sr_pendingExpired := p\<rparr>) = shardIndex s" "shardIndex (s\<lparr>sr_published := b\<rparr>) = shardIndex s"
  "shardIndex (s\<lparr>sr_waiters := w\<rparr>) = shardIndex s" "shardIndex (s\<lparr>sr_maxMemory := x\<rparr>) = shardIndex s"
  "shardIndex (s\<lparr>sr_sampleSize := z\<rparr>) = shardIndex s"
  by (simp_all add: shardIndex_def fun_eq_iff)

lemma frame_lookup [simp]:
  "lookup (s\<lparr>sr_usedMemory := u\<rparr>) = lookup s" "lookup (s\<lparr>sr_keyKindCounts := c\<rparr>) = lookup s"
  "lookup (s\<lparr>sr_pendingExpired := p\<rparr>) = lookup s" "lookup (s\<lparr>sr_published := b\<rparr>) = lookup s"
  "lookup (s\<lparr>sr_waiters := w\<rparr>) = lookup s" "lookup (s\<lparr>sr_maxMemory := x\<rparr>) = lookup s"
  "lookup (s\<lparr>sr_sampleSize := z\<rparr>) = lookup s"
  by (simp_all add: lookup_def fun_eq_iff)

lemma frame_wf [simp]:
  "store_wf (s\<lparr>sr_usedMemory := u\<rparr>) = store_wf s" "store_wf (s\<lparr>sr_keyKindCounts := c\<rparr>) = store_wf s"
  "store_wf (s\<lparr>sr_pendingExpired := p\<rparr>) = store_wf s" "store_wf (s\<lparr>sr_published := b\<rparr>) = store_wf s"
  "store_wf (s\<lparr>sr_waiters := w\<rparr>) = store_wf s" "store_wf (s\<lparr>sr_maxMemory := x\<rparr>) = store_wf s"
  "store_wf (s\<lparr>sr_sampleSize := z\<rparr>) = store_wf s"
  by (simp_all add: store_wf_def)

lemma frame_counts [simp]:
  "counts_ok (s\<lparr>sr_usedMemory := u\<rparr>) = counts_ok s" "counts_ok (s\<lparr>sr_pendingExpired := p\<rparr>) = counts_ok s"
  "counts_ok (s\<lparr>sr_published := b\<rparr>) = counts_ok s" "counts_ok (s\<lparr>sr_waiters := w\<rparr>) = counts_ok s"
  "counts_ok (s\<lparr>sr_maxMemory := x\<rparr>) = counts_ok s" "counts_ok (s\<lparr>sr_sampleSize := z\<rparr>) = counts_ok s"
  by (simp_all add: counts_ok_def)

lemma frame_mem [simp]:
  "mem_ok (s\<lparr>sr_keyKindCounts := c\<rparr>) = mem_ok s" "mem_ok (s\<lparr>sr_pendingExpired := p\<rparr>) = mem_ok s"
  "mem_ok (s\<lparr>sr_published := b\<rparr>) = mem_ok s" "mem_ok (s\<lparr>sr_waiters := w\<rparr>) = mem_ok s"
  by (simp_all add: mem_ok_def maxMemoryEnabled_def)

lemma frame_setup [simp]:
  "same_setup s (s\<lparr>sr_usedMemory := u\<rparr>)" "same_setup s (s\<lparr>sr_keyKindCounts := c\<rparr>)"
  "same_setup s (s\<lparr>sr_pendingExpired := p\<rparr>)" "same_setup s (s\<lparr>sr_published := b\<rparr>)" "same_setup s (with_data s i d)"
  by (simp_all add: same_setup_def with_data_def)

lemma with_data_fields [simp]:
  "sr_usedMemory (with_data s i d) = sr_usedMemory s" "sr_keyKindCounts (with_data s i d) = sr_keyKindCounts s"
  "sr_pendingExpired (with_data s i d) = sr_pendingExpired s" "sr_published (with_data s i d) = sr_published s"
  "sr_maxMemory (with_data s i d) = sr_maxMemory s" "shardIndex (with_data s i d) = shardIndex s"
  by (simp_all add: with_data_def shardIndex_def fun_eq_iff)

lemma with_data_lookup:
  assumes "store_wf s" "gm_wf d" "\<forall>k \<in> fst ` set d. shardIndex s k = i" "i < length (sr_shards s)"
  shows "store_wf (with_data s i d)"
    "lookup (with_data s i d) k = (if shardIndex s k = i then gm_get d k else lookup s k)"
proof -
  have i: "shardIndex (with_data s i d) = shardIndex s" by simp
  have n: "data_at (with_data s i d) j = (if j = i then d else data_at s j)" if "j < length (sr_shards s)" for j
    using that by (simp add: with_data_def)
  have len: "length (sr_shards (with_data s i d)) = length (sr_shards s)" by (simp add: with_data_def)
  show "store_wf (with_data s i d)"
    unfolding store_wf_def len i
  proof (intro conjI allI impI)
    show "sr_shards (with_data s i d) \<noteq> []" using assms(4) len by auto
    show "gm_wf (data_at (with_data s i d) j)" if "j < length (sr_shards s)" for j
      using n [OF that] assms(1,2) that by (simp add: store_wf_def)
    show "\<forall>k \<in> fst ` set (data_at (with_data s i d) j). shardIndex s k = j" if "j < length (sr_shards s)" for j
      using n [OF that] assms(1,3) that unfolding store_wf_def by simp
  qed
  show "lookup (with_data s i d) k = (if shardIndex s k = i then gm_get d k else lookup s k)"
    using n [OF shardIndex_less [OF assms(1)]] by (simp add: lookup_def i)
qed

lemma put_spec:
  assumes "store_wf s"
  shows "store_wf (mutate s (shardIndex s key) key v)"
    "lookup (mutate s (shardIndex s key) key v) = (lookup s)(key \<mapsto> v)"
proof -
  let ?i = "shardIndex s key"
  have i: "?i < length (sr_shards s)" by (rule shardIndex_less [OF assms])
  have d: "gm_wf (gm_set (data_at s ?i) key v)" "\<forall>k \<in> fst ` set (gm_set (data_at s ?i) key v). shardIndex s k = ?i"
    using assms i unfolding dom_update by (auto simp: store_wf_def)
  show "store_wf (mutate s ?i key v)" unfolding mutate_def by (rule with_data_lookup(1) [OF assms d i])
  show "lookup (mutate s ?i key v) = (lookup s)(key \<mapsto> v)"
    unfolding mutate_def fun_eq_iff with_data_lookup(2) [OF assms d i] by (auto simp: gm_get_set lookup_def)
qed

lemma del_spec:
  assumes "store_wf s"
  shows "store_wf (with_data s (shardIndex s key) (gm_del (data_at s (shardIndex s key)) key))"
    "lookup (with_data s (shardIndex s key) (gm_del (data_at s (shardIndex s key)) key)) = (lookup s)(key := None)"
proof -
  let ?i = "shardIndex s key"
  have i: "?i < length (sr_shards s)" by (rule shardIndex_less [OF assms])
  have wf: "gm_wf (data_at s ?i)" using assms i by (simp add: store_wf_def)
  have d: "gm_wf (gm_del (data_at s ?i) key)" "\<forall>k \<in> fst ` set (gm_del (data_at s ?i) key). shardIndex s k = ?i"
    using assms i AList.dom_delete_subset [of key "data_at s ?i"] unfolding store_wf_def by (simp, blast)
  show "store_wf (with_data s ?i (gm_del (data_at s ?i) key))" by (rule with_data_lookup(1) [OF assms d i])
  show "lookup (with_data s ?i (gm_del (data_at s ?i) key)) = (lookup s)(key := None)"
    unfolding fun_eq_iff with_data_lookup(2) [OF assms d i] by (auto simp: gm_get_del [OF wf] lookup_def)
qed

lemma kind_index: "\<exists>j < 6. keyStatsKindIndex k = Some j"
  by (cases k) (simp_all add: keyStatsKindIndex_def keyStatsKinds_def)

lemma kind_index_inj: "keyStatsKindIndex k = keyStatsKindIndex k' \<longleftrightarrow> k = k'"
  by (cases k; cases k') (simp_all add: keyStatsKindIndex_def keyStatsKinds_def)

lemma adjust_fields [simp]:
  "sr_shards (adjustKeyKindCount s v d) = sr_shards s" "sr_usedMemory (adjustKeyKindCount s v d) = sr_usedMemory s"
  "sr_pendingExpired (adjustKeyKindCount s v d) = sr_pendingExpired s"
  "sr_published (adjustKeyKindCount s v d) = sr_published s" "sr_maxMemory (adjustKeyKindCount s v d) = sr_maxMemory s"
  "same_setup s (adjustKeyKindCount s v d)" "shardIndex (adjustKeyKindCount s v d) = shardIndex s"
  "lookup (adjustKeyKindCount s v d) = lookup s" "store_wf (adjustKeyKindCount s v d) = store_wf s"
  "length (sr_keyKindCounts (adjustKeyKindCount s v d)) = length (sr_keyKindCounts s)"
  by (auto simp: adjustKeyKindCount_def split: option.split)

lemma adjust_nth:
  "length (sr_keyKindCounts s) = 6 \<Longrightarrow> j < 6 \<Longrightarrow>
   sr_keyKindCounts (adjustKeyKindCount s v d) ! j =
     sr_keyKindCounts s ! j + d * (case v of None \<Rightarrow> 0 | Some v \<Rightarrow> kind_is j k v)"
  by (auto simp: adjustKeyKindCount_def kind_is_def nth_list_update split: option.splits)

lemma foldl_ge: "(\<And>acc x. acc \<le> f acc x) \<Longrightarrow> (a :: int) \<le> b \<Longrightarrow> a \<le> foldl f b xs"
  by (induction xs arbitrary: b) (simp, metis foldl_Cons order_trans)

lemma resident_size_nonneg: "0 \<le> resident_size k v"
proof -
  have base: "0 \<le> approximateBaseValueObjectSize k t" for t by (simp add: approximateBaseValueObjectSize_def Let_def)
  show ?thesis
    using base by (cases "vo_Kind v") (auto simp: resident_size_def approximateValueObjectSize_def Let_def
      approximateStringValueObjectSize_def intro!: foldl_ge split: option.split)
qed

text \<open>Storing a value under a key, as \<open>setKeyLocked\<close> does.\<close>

lemma setKey_spec:
  assumes wf: "store_wf s" and c: "counts_ok s" and s'_def: "s' = setKeyLocked s (shardIndex s key) key v"
  shows "store_wf s'" "lookup s' = (lookup s)(key \<mapsto> v)" "counts_ok s'" "same_setup s s'"
    "sr_usedMemory s' = sr_usedMemory s" "sr_pendingExpired s' = sr_pendingExpired s" "sr_published s' = sr_published s"
proof -
  let ?i = "shardIndex s key"
  define p where "p = data_get s ?i key"
  define t where "t = (if p = None \<or> vo_Kind (the p) \<noteq> vo_Kind v
    then adjustKeyKindCount (adjustKeyKindCount s p (- 1)) (Some v) 1 else s)"
  have t: "sr_shards t = sr_shards s" "shardIndex t = shardIndex s" "lookup t = lookup s" "store_wf t" "same_setup s t"
    "sr_usedMemory t = sr_usedMemory s" "sr_pendingExpired t = sr_pendingExpired s" "sr_published t = sr_published s"
    "length (sr_keyKindCounts t) = 6"
    using wf c same_setup_trans [of s "adjustKeyKindCount s p (- 1)"] by (simp_all add: t_def counts_ok_def)
  have s': "s' = mutate t (shardIndex t key) key v"
    by (simp add: s'_def setKeyLocked_def Let_def mutate_def t_def p_def)
  show "store_wf s'" unfolding s' by (rule put_spec(1) [OF t(4)])
  show l: "lookup s' = (lookup s)(key \<mapsto> v)" unfolding s' put_spec(2) [OF t(4)] t(3) ..
  show "same_setup s s'" using same_setup_trans [OF t(5)] by (simp add: s' mutate_def)
  show "sr_usedMemory s' = sr_usedMemory s" "sr_pendingExpired s' = sr_pendingExpired s" "sr_published s' = sr_published s"
    using t by (simp_all add: s' mutate_def)
  have p: "lookup s key = p" by (simp add: p_def lookup_def)
  have "sr_keyKindCounts t ! j = total_of (kind_is j) ((lookup s)(key \<mapsto> v))" if j: "j < 6" for j
  proof -
    have len: "length (sr_keyKindCounts s) = 6" and cj: "sr_keyKindCounts s ! j = total_of (kind_is j) (lookup s)"
      using c j by (simp_all add: counts_ok_def)
    have up: "total_of (kind_is j) ((lookup s)(key \<mapsto> v)) =
        sr_keyKindCounts s ! j - (case p of None \<Rightarrow> 0 | Some u \<Rightarrow> kind_is j key u) + kind_is j key v"
      using total_of_upd [OF wf_entries(3) [OF wf], of "kind_is j" key v] cj p by simp
    show ?thesis
    proof (cases "p = None \<or> vo_Kind (the p) \<noteq> vo_Kind v")
      case True
      then show ?thesis using len j adjust_nth [of s j p "- 1" key] up
        adjust_nth [of "adjustKeyKindCount s p (- 1)" j "Some v" 1 key] by (simp add: t_def)
    next
      case False
      then have "(case p of None \<Rightarrow> 0 | Some u \<Rightarrow> kind_is j key u) = kind_is j key v"
        by (auto simp: kind_is_def)
      moreover have "t = s" using False unfolding t_def by (rule if_not_P)
      ultimately show ?thesis using up by simp
    qed
  qed
  then show "counts_ok s'" using t(9) unfolding counts_ok_def l by (simp add: s' mutate_def)
qed

lemma removeKey_spec:
  assumes wf: "store_wf s" and c: "counts_ok s" and s'_def: "s' = removeKeyLocked s (shardIndex s key) key"
  shows "store_wf s'" "lookup s' = (lookup s)(key := None)" "counts_ok s'" "same_setup s s'"
    "sr_usedMemory s' = sr_usedMemory s" "sr_pendingExpired s' = sr_pendingExpired s" "sr_published s' = sr_published s"
proof -
  define t where "t = adjustKeyKindCount s (lookup s key) (- 1)"
  have wft: "store_wf t" using wf by (simp add: t_def)
  have s': "s' = with_data t (shardIndex t key) (gm_del (data_at t (shardIndex t key)) key)"
    by (simp add: s'_def removeKeyLocked_def Let_def t_def lookup_def)
  show "store_wf s'" unfolding s' by (rule del_spec(1) [OF wft])
  show l: "lookup s' = (lookup s)(key := None)" unfolding s' del_spec(2) [OF wft] by (simp add: t_def)
  show "same_setup s s'" using same_setup_trans [of s t s'] by (simp add: s') (simp add: t_def)
  show "sr_usedMemory s' = sr_usedMemory s" "sr_pendingExpired s' = sr_pendingExpired s" "sr_published s' = sr_published s"
    by (simp_all add: s') (simp_all add: t_def)
  have "sr_keyKindCounts t ! j = total_of (kind_is j) ((lookup s)(key := None))" if j: "j < 6" for j
    using total_of_del [OF wf_entries(3) [OF wf], of "kind_is j" key] c j adjust_nth [of s j "lookup s key" "- 1" key]
    by (simp add: counts_ok_def t_def)
  moreover have "length (sr_keyKindCounts t) = 6" using c by (simp add: t_def counts_ok_def)
  ultimately show "counts_ok s'" unfolding counts_ok_def l by (simp add: s')
qed

text \<open>What it is to remove a set of keys and nothing else.\<close>

definition drops :: "Store \<Rightarrow> Store \<Rightarrow> bytes set \<Rightarrow> bool" where
  "drops s s' D \<longleftrightarrow> store_wf s' \<and> counts_ok s' \<and> same_setup s s' \<and> lookup s' = lookup s |` (- D)"

lemma drops_refl: "store_wf s \<Longrightarrow> counts_ok s \<Longrightarrow> drops s s {}"
  by (simp add: drops_def restrict_map_def)

lemma drops_trans: "drops s t D \<Longrightarrow> drops t u E \<Longrightarrow> drops s u (D \<union> E)"
  using same_setup_trans by (fastforce simp: drops_def restrict_map_def)

lemma restrict_single: "m(k := None) = m |` (- {k})"
  by (auto simp: restrict_map_def)

lemma removeKey_drops:
  "store_wf s \<Longrightarrow> counts_ok s \<Longrightarrow> drops s (removeKeyLocked s (shardIndex s key) key) {key}"
  using removeKey_spec [OF _ _ refl] by (simp add: drops_def restrict_single)

lemma deleteKey_spec:
  assumes wf: "store_wf s" and c: "counts_ok s" and d: "deleteKeyLocked s (shardIndex s key) key = (s', deleted)"
  shows "drops s s' {key}" "deleted \<longleftrightarrow> lookup s key \<noteq> None" "mem_ok s \<Longrightarrow> mem_ok s'"
    "sr_pendingExpired s' = sr_pendingExpired s" "sr_published s' = sr_published s" "sr_usedMemory s' \<le> sr_usedMemory s"
proof -
  have "drops s s' {key} \<and> (deleted \<longleftrightarrow> lookup s key \<noteq> None) \<and> (mem_ok s \<longrightarrow> mem_ok s') \<and>
    sr_pendingExpired s' = sr_pendingExpired s \<and> sr_published s' = sr_published s \<and> sr_usedMemory s' \<le> sr_usedMemory s"
  proof (cases "lookup s key")
    case None
    then have "s' = s" "\<not> deleted" using d by (simp_all add: deleteKeyLocked_def lookup_def)
    moreover have "lookup s = lookup s |` (- {key})" using None by (auto simp: restrict_map_def)
    ultimately show ?thesis using None wf c by (simp add: drops_def)
  next
    case (Some v)
    define t where "t = (if maxMemoryEnabled s then s\<lparr>sr_usedMemory := sr_usedMemory s - resident_size key v\<rparr> else s)"
    have t: "store_wf t" "counts_ok t" "lookup t = lookup s" "shardIndex t = shardIndex s" "same_setup s t"
      "sr_pendingExpired t = sr_pendingExpired s" "sr_published t = sr_published s"
      using wf c by (simp_all add: t_def)
    have s': "s' = removeKeyLocked t (shardIndex t key) key" "deleted"
      using d Some by (auto simp: deleteKeyLocked_def deleteKeyWithSizeLocked_def lookup_def t_def resident_size_def Let_def
        maxMemoryEnabled_def split: if_splits)
    note r = removeKey_spec [OF t(1,2) s'(1)]
    have "mem_ok s'" if "mem_ok s"
    proof -
      have "total_of resident_size (lookup s') = total_of resident_size (lookup s) - resident_size key v"
        using total_of_del [OF wf_entries(3) [OF wf], of resident_size key] r(2) t(3) Some by simp
      then show ?thesis using that r(4,5) t(5) by (simp add: mem_ok_def same_setup_max t_def)
    qed
    moreover have "drops s s' {key}"
      using r t same_setup_trans [OF t(5) r(4)] by (simp add: drops_def restrict_single)
    moreover have "sr_usedMemory s' \<le> sr_usedMemory s" using r(5) resident_size_nonneg [of key v] by (simp add: t_def)
    ultimately show ?thesis using Some s'(2) r(6,7) t(6,7) by simp
  qed
  then show "drops s s' {key}" "deleted \<longleftrightarrow> lookup s key \<noteq> None" "mem_ok s \<Longrightarrow> mem_ok s'"
    "sr_pendingExpired s' = sr_pendingExpired s" "sr_published s' = sr_published s" "sr_usedMemory s' \<le> sr_usedMemory s"
    by blast+
qed

section \<open>Accounting and eviction\<close>

lemma removeMany:
  assumes "store_wf s" "counts_ok s" "s' = foldl (\<lambda>s k. removeKeyLocked s (shardIndex s k) k) s ks"
  shows "drops s s' (set ks) \<and> sr_usedMemory s' = sr_usedMemory s \<and> sr_pendingExpired s' = sr_pendingExpired s \<and>
         sr_published s' = sr_published s"
  using assms
proof (induction ks arbitrary: s)
  case Nil
  then show ?case using drops_refl by simp
next
  case (Cons k ks)
  let ?t = "removeKeyLocked s (shardIndex s k) k"
  note r = removeKey_spec [OF Cons.prems(1,2) refl, of k]
  have IH: "drops ?t s' (set ks) \<and> sr_usedMemory s' = sr_usedMemory ?t \<and>
      sr_pendingExpired s' = sr_pendingExpired ?t \<and> sr_published s' = sr_published ?t"
    using Cons.IH [OF r(1,3)] Cons.prems(3) by simp
  then have "drops s s' ({k} \<union> set ks)" using drops_trans [OF removeKey_drops [OF Cons.prems(1,2)]] by blast
  then show ?case using IH r(5-7) by simp
qed

abbreviation expired_keys :: "int \<Rightarrow> shard \<Rightarrow> bytes list" where
  "expired_keys now d \<equiv> map fst (filter (\<lambda>(k, v). isExpired v now) d)"

abbreviation live_entries :: "int \<Rightarrow> shard \<Rightarrow> shard" where
  "live_entries now d \<equiv> filter (\<lambda>(k, v). \<not> isExpired v now) d"

lemma removeKey_index [simp]: "shardIndex (removeKeyLocked s i k) = shardIndex s"
  "length (sr_shards (removeKeyLocked s i k)) = length (sr_shards s)"
  by (simp_all add: removeKeyLocked_def Let_def) (simp_all add: with_data_def)

lemma removeKey_other: "i \<noteq> j \<Longrightarrow> data_at (removeKeyLocked s i k) j = data_at s j"
  by (simp add: removeKeyLocked_def Let_def with_data_def)

lemma recalculate_shard_eq:
  "(\<forall>k \<in> fst ` set d. shardIndex s k = i) \<Longrightarrow>
   recalculate_shard s i now d used expired =
     (foldl (\<lambda>s k. removeKeyLocked s (shardIndex s k) k) s (expired_keys now d),
      used + (\<Sum>(k, v)\<leftarrow>live_entries now d. resident_size k v), expired @ expired_keys now d)"
  by (induction s i now d used expired rule: recalculate_shard.induct) (auto simp: resident_size_def)

lemma removeMany_other:
  "\<forall>k \<in> set ks. shardIndex s k \<noteq> j \<Longrightarrow> data_at (foldl (\<lambda>s k. removeKeyLocked s (shardIndex s k) k) s ks) j = data_at s j"
  by (induction ks arbitrary: s) (auto simp: removeKey_other)

lemma removeMany_index [simp]:
  "shardIndex (foldl (\<lambda>s k. removeKeyLocked s (shardIndex s k) k) s ks) = shardIndex s"
  by (induction ks arbitrary: s) auto

lemma recalculate_shards_eq:
  assumes "\<forall>i \<in> set js. \<forall>k \<in> fst ` set (data_at s i). shardIndex s k = i" "distinct js"
  shows "recalculate_shards s js now used expired =
    (foldl (\<lambda>s k. removeKeyLocked s (shardIndex s k) k) s (concat (map (\<lambda>i. expired_keys now (data_at s i)) js)),
     used + (\<Sum>(k, v)\<leftarrow>concat (map (\<lambda>i. live_entries now (data_at s i)) js). resident_size k v),
     expired @ concat (map (\<lambda>i. expired_keys now (data_at s i)) js))"
  using assms
proof (induction js arbitrary: s used expired)
  case (Cons j js)
  let ?t = "foldl (\<lambda>s k. removeKeyLocked s (shardIndex s k) k) s (expired_keys now (data_at s j))"
  have same: "data_at ?t i = data_at s i" if "i \<in> set js" for i
  proof (rule removeMany_other, rule ballI)
    fix k assume "k \<in> set (expired_keys now (data_at s j))"
    then have "k \<in> fst ` set (data_at s j)" by auto
    then have "shardIndex s k = j" using Cons.prems(1) by (metis list.set_intros(1))
    then show "shardIndex s k \<noteq> i" using that Cons.prems(2) by auto
  qed
  then have maps: "map (\<lambda>i. expired_keys now (data_at ?t i)) js = map (\<lambda>i. expired_keys now (data_at s i)) js"
    "map (\<lambda>i. live_entries now (data_at ?t i)) js = map (\<lambda>i. live_entries now (data_at s i)) js" by auto
  have "\<forall>i \<in> set js. \<forall>k \<in> fst ` set (data_at ?t i). shardIndex ?t k = i"
    using Cons.prems(1) same unfolding removeMany_index by auto
  note IH = Cons.IH [OF this]
  have "\<forall>k \<in> fst ` set (data_at s j). shardIndex s k = j" using Cons.prems(1) by (metis list.set_intros(1))
  note r = recalculate_shard_eq [OF this]
  show ?case unfolding recalculate_shards.simps r prod.case using IH Cons.prems(2) unfolding maps by simp
qed simp

definition expired_at :: "Store \<Rightarrow> int \<Rightarrow> bytes set" where
  "expired_at s now = {k. \<exists>v. lookup s k = Some v \<and> isExpired v now}"

lemma noteExpired_fields [simp]:
  "lookup (noteExpiredKeysLocked s ks) = lookup s" "store_wf (noteExpiredKeysLocked s ks) = store_wf s"
  "counts_ok (noteExpiredKeysLocked s ks) = counts_ok s" "same_setup s (noteExpiredKeysLocked s ks)"
  "sr_usedMemory (noteExpiredKeysLocked s ks) = sr_usedMemory s" "sr_maxMemory (noteExpiredKeysLocked s ks) = sr_maxMemory s"
  "sr_published (noteExpiredKeysLocked s ks) = sr_published s" "mem_ok (noteExpiredKeysLocked s ks) = mem_ok s"
  "sr_pendingExpired (noteExpiredKeysLocked s ks) = sr_pendingExpired s @ ks"
  by (simp_all add: noteExpiredKeysLocked_def)

lemma set_expired_keys: "set (expired_keys now es) = {k. \<exists>v. (k, v) \<in> set es \<and> isExpired v now}"
  by force

lemma concat_nth: "concat (map (\<lambda>i. f (xs ! i)) [0..<length xs]) = concat (map f xs)"
  by (rule arg_cong [of _ _ concat]) (rule nth_equalityI, simp_all)

lemma recalculate_spec:
  assumes wf: "store_wf s" and c: "counts_ok s" and r: "recalculateUsedMemoryLocked s now = (s', used)"
  shows "drops s s' (expired_at s now)" "used = total_of resident_size (lookup s')" "sr_usedMemory s' = used"
    "sr_published s' = sr_published s"
    "\<exists>ks. sr_pendingExpired s' = sr_pendingExpired s @ ks \<and> distinct ks \<and> set ks = expired_at s now"
proof -
  let ?es = "concat (sr_shards s)"
  let ?ks = "expired_keys now ?es"
  define t where "t = foldl (\<lambda>s k. removeKeyLocked s (shardIndex s k) k) s ?ks"
  have cat: "concat (map (\<lambda>i. expired_keys now (data_at s i)) [0..<length (sr_shards s)]) = ?ks"
    "concat (map (\<lambda>i. live_entries now (data_at s i)) [0..<length (sr_shards s)]) = live_entries now ?es"
    using concat_nth [of "\<lambda>d. expired_keys now d" "sr_shards s"] concat_nth [of "\<lambda>d. live_entries now d" "sr_shards s"]
    by (simp_all add: map_concat filter_concat comp_def)
  have idx: "\<forall>i \<in> set [0..<length (sr_shards s)]. \<forall>k \<in> fst ` set (data_at s i). shardIndex s k = i"
    using wf unfolding store_wf_def by (simp del: Ball_image_comp ball_simps)
  have eq: "s' = noteExpiredKeysLocked (t\<lparr>sr_usedMemory := used\<rparr>) ?ks"
    "used = (\<Sum>(k, v)\<leftarrow>live_entries now ?es. resident_size k v)"
    using r unfolding recalculateUsedMemoryLocked_def recalculate_shards_eq [OF idx distinct_upt] cat
    by (auto simp: t_def)
  have ks: "distinct ?ks" "set ?ks = expired_at s now"
  proof -
    show "distinct ?ks" using distinct_map_filter [OF wf_entries(1) [OF wf]] .
    have "set ?ks = {k. \<exists>v. (k, v) \<in> set ?es \<and> isExpired v now}" by (rule set_expired_keys)
    then show "set ?ks = expired_at s now"
      unfolding expired_at_def wf_entries(2) [OF wf, symmetric] by (simp only: map_of_eq_Some_iff [OF wf_entries(1) [OF wf]])
  qed
  have t: "drops s t (expired_at s now)" "sr_pendingExpired t = sr_pendingExpired s" "sr_published t = sr_published s"
    using removeMany [OF wf c t_def] ks(2) by auto
  show "drops s s' (expired_at s now)" "sr_usedMemory s' = used" "sr_published s' = sr_published s"
    using t same_setup_trans [of s t "t\<lparr>sr_usedMemory := used\<rparr>"]
      same_setup_trans [of s "t\<lparr>sr_usedMemory := used\<rparr>" s'] by (simp_all add: drops_def eq(1))
  show "\<exists>ks. sr_pendingExpired s' = sr_pendingExpired s @ ks \<and> distinct ks \<and> set ks = expired_at s now"
    using t(2) ks by (intro exI [of _ ?ks]) (simp add: eq(1))
  have live: "distinct (map fst (live_entries now ?es))" by (rule distinct_map_filter [OF wf_entries(1) [OF wf]])
  have "map_of (live_entries now ?es) = lookup s'"
  proof
    fix k
    have "lookup s' k = Some v \<longleftrightarrow> lookup s k = Some v \<and> \<not> isExpired v now" for v
      using t(1) by (auto simp: drops_def eq(1) restrict_map_def expired_at_def)
    moreover have "lookup s k = Some v \<longleftrightarrow> (k, v) \<in> set ?es" for v
      unfolding wf_entries(2) [OF wf, symmetric] by (rule map_of_eq_Some_iff [OF wf_entries(1) [OF wf]])
    ultimately have "map_of (live_entries now ?es) k = Some v \<longleftrightarrow> lookup s' k = Some v" for v
      unfolding map_of_eq_Some_iff [OF live] by auto
    then show "map_of (live_entries now ?es) k = lookup s' k" by (metis not_None_eq)
  qed
  then show "used = total_of resident_size (lookup s')" using total_of_list [OF live, of resident_size] eq(2) by simp
qed

lemma sampled_resident:
  "stalest_sampled s protected keys best = (c, a) \<Longrightarrow> (c, a) = best \<or> c \<notin> set protected \<and> lookup s c \<noteq> None"
  by (induction s protected keys best rule: stalest_sampled.induct) (auto split: if_splits option.splits)

lemma scanned_resident:
  "stalest_scan protected d best = (c, a) \<Longrightarrow> (c, a) = best \<or> c \<notin> set protected \<and> c \<in> fst ` set d"
  by (induction protected d best rule: stalest_scan.induct) (auto split: if_splits)

lemma scan_shards_resident:
  "foldl (\<lambda>best d. stalest_scan protected d best) best ds = (c, a) \<Longrightarrow>
   (c, a) = best \<or> c \<notin> set protected \<and> c \<in> fst ` set (concat ds)"
proof (induction ds arbitrary: best)
  case (Cons d ds)
  obtain c1 a1 where 1: "stalest_scan protected d best = (c1, a1)" by fastforce
  then show ?case using Cons.IH [of "(c1, a1)"] Cons.prems scanned_resident [OF 1] by auto
qed simp

text \<open>A candidate for eviction is resident and not protected.\<close>

lemma candidate_resident:
  assumes "store_wf s" "findStalestCandidateLocked s protected nano = c" "c \<noteq> []"
  shows "c \<notin> set protected \<and> lookup s c \<noteq> None"
proof -
  obtain b a where b: "stalest_sampled s protected (sampleKeysLocked s (sr_sampleSize s) nano) ([], 2 ^ 63 - 1) = (b, a)" by fastforce
  show ?thesis
  proof (cases "b = []")
    case False
    then show ?thesis using sampled_resident [OF b] b assms(2) by (simp add: findStalestCandidateLocked_def)
  next
    case True
    obtain c' a' where f: "foldl (\<lambda>best d. stalest_scan protected d best) (b, a) (sr_shards s) = (c', a')" by fastforce
    then have "c' = c" using assms(2) b True by (simp add: findStalestCandidateLocked_def)
    then have "c \<notin> set protected" "c \<in> fst ` set (concat (sr_shards s))"
      using scan_shards_resident [OF f] True assms(3) by auto
    then show ?thesis
      using wf_entries(2) [OF assms(1)] map_of_eq_None_iff [of "concat (sr_shards s)" c] by simp
  qed
qed

lemma evict_loop_spec:
  assumes "store_wf s" "counts_ok s" "mem_ok s" "evict_loop fuel env n s targetUsed protected evicted = (s', evicted')"
  shows "\<exists>ks. evicted' = evicted @ ks \<and> distinct ks \<and> set ks \<subseteq> dom (lookup s) - set protected \<and> drops s s' (set ks)"
    "mem_ok s'" "sr_pendingExpired s' = sr_pendingExpired s" "sr_published s' = sr_published s"
proof -
  have "(\<exists>ks. evicted' = evicted @ ks \<and> distinct ks \<and> set ks \<subseteq> dom (lookup s) - set protected \<and> drops s s' (set ks)) \<and>
    mem_ok s' \<and> sr_pendingExpired s' = sr_pendingExpired s \<and> sr_published s' = sr_published s"
    using assms
  proof (induction fuel arbitrary: n s evicted)
    case 0
    then show ?case using drops_refl by simp
  next
    case (Suc fuel)
    let ?c = "findStalestCandidateLocked s protected (env_nano env n)"
    show ?case
    proof (cases "sr_usedMemory s > targetUsed \<and> ?c \<noteq> []")
      case False
      then have "s' = s" "evicted' = evicted" using Suc.prems(4) by (auto simp: Let_def split: if_splits)
      then show ?thesis using Suc.prems(1-3) drops_refl by simp
    next
      case True
      have c: "?c \<notin> set protected" "lookup s ?c \<noteq> None" using candidate_resident [OF Suc.prems(1) refl] True by blast+
      obtain t b where d: "deleteKeyLocked s (shardIndex s ?c) ?c = (t, b)" by fastforce
      note del = deleteKey_spec [OF Suc.prems(1,2) d]
      have b: "b" using del(2) c by blast
      have e: "evict_loop fuel env (Suc n) t targetUsed protected (evicted @ [?c]) = (s', evicted')"
        using Suc.prems(4) True d b by (simp add: Let_def)
      have "store_wf t" "counts_ok t" and lt: "lookup t = lookup s |` (- {?c})" using del(1) by (auto simp: drops_def)
      then obtain ks where ks: "evicted' = (evicted @ [?c]) @ ks" "distinct ks" "set ks \<subseteq> dom (lookup t) - set protected"
          "drops t s' (set ks)" and rest: "mem_ok s'" "sr_pendingExpired s' = sr_pendingExpired t" "sr_published s' = sr_published t"
        using Suc.IH [OF _ _ del(3) [OF Suc.prems(3)] e] by blast
      have "distinct (?c # ks)" "set (?c # ks) \<subseteq> dom (lookup s) - set protected" using ks(2,3) c lt by auto
      moreover have "drops s s' (set (?c # ks))" using drops_trans [OF del(1) ks(4)] by simp
      ultimately show ?thesis using ks(1) rest del(4,5) by (intro conjI exI [of _ "?c # ks"]) simp_all
    qed
  qed
  then show "\<exists>ks. evicted' = evicted @ ks \<and> distinct ks \<and> set ks \<subseteq> dom (lookup s) - set protected \<and> drops s s' (set ks)"
    "mem_ok s'" "sr_pendingExpired s' = sr_pendingExpired s" "sr_published s' = sr_published s" by blast+
qed

text \<open>The fuel is enough: with one more round than there are keys, the loop ends by its own condition.\<close>

lemma evict_loop_enough:
  assumes "store_wf s" "counts_ok s" "card (dom (lookup s)) < fuel"
    "evict_loop fuel env n s targetUsed protected evicted = (s', evicted')"
  shows "sr_usedMemory s' \<le> targetUsed \<or> (\<exists>m. findStalestCandidateLocked s' protected (env_nano env m) = [])"
  using assms
proof (induction fuel arbitrary: n s evicted)
  case (Suc fuel)
  let ?c = "findStalestCandidateLocked s protected (env_nano env n)"
  show ?case
  proof (cases "sr_usedMemory s > targetUsed \<and> ?c \<noteq> []")
    case False
    then show ?thesis using Suc.prems(4) by (auto simp: Let_def split: if_splits)
  next
    case True
    have c: "lookup s ?c \<noteq> None" using candidate_resident [OF Suc.prems(1) refl] True by blast
    obtain t b where d: "deleteKeyLocked s (shardIndex s ?c) ?c = (t, b)" by fastforce
    have t: "store_wf t" "counts_ok t" "lookup t = lookup s |` (- {?c})"
      using deleteKey_spec(1) [OF Suc.prems(1,2) d] by (auto simp: drops_def)
    have "dom (lookup t) = dom (lookup s) - {?c}" using t(3) by auto
    then have "card (dom (lookup t)) < card (dom (lookup s))"
      using card_Diff1_less [OF wf_entries(3) [OF Suc.prems(1)], of ?c] c by (metis domIff)
    then show ?thesis using Suc.IH [OF t(1,2)] Suc.prems(3,4) True d by (simp add: Let_def)
  qed
qed simp

lemma drops_wf: "drops s s' D \<Longrightarrow> store_wf s' \<and> counts_ok s' \<and> same_setup s s'"
  by (simp add: drops_def)

lemma total_keys: "store_wf s \<Longrightarrow> totalKeyCountLocked s = card (dom (lookup s))"
proof -
  assume wf: "store_wf s"
  have fold: "foldl (\<lambda>t d. t + length d) n ds = n + length (concat ds)" for n and ds :: "shard list"
    by (induction ds arbitrary: n) auto
  have "card (dom (lookup s)) = card (set (map fst (concat (sr_shards s))))"
    unfolding wf_entries(2) [OF wf, symmetric] by simp
  also have "\<dots> = length (concat (sr_shards s))" using distinct_card [OF wf_entries(1) [OF wf]] by simp
  finally show ?thesis using fold [of 0] by (simp add: totalKeyCountLocked_def)
qed

lemma evictUntil_spec:
  assumes "store_wf s" "counts_ok s" "mem_ok s" "evictUntilMemoryAtOrBelowLocked env s targetUsed protected = (s', r)"
  shows "\<exists>ks. distinct ks \<and> set ks \<subseteq> dom (lookup s) - set protected \<and> drops s s' (set ks) \<and>
           (r = Inr ks \<and> sr_usedMemory s' \<le> targetUsed \<or>
            r = Inl ErrMemoryLimitExceeded \<and> targetUsed < sr_usedMemory s' \<and>
            (\<exists>m. findStalestCandidateLocked s' protected (env_nano env m) = []))"
    "mem_ok s'" "sr_pendingExpired s' = sr_pendingExpired s" "sr_published s' = sr_published s"
proof -
  obtain t ev where l: "evict_loop (Suc (totalKeyCountLocked s)) env 0 s targetUsed protected [] = (t, ev)" by fastforce
  have s': "s' = t" "r = (if sr_usedMemory t > targetUsed then Inl ErrMemoryLimitExceeded else Inr ev)"
    using assms(4) l by (auto simp: evictUntilMemoryAtOrBelowLocked_def split: if_splits)
  note e = evict_loop_spec [OF assms(1-3) l]
  have "sr_usedMemory t \<le> targetUsed \<or> (\<exists>m. findStalestCandidateLocked t protected (env_nano env m) = [])"
    using evict_loop_enough [OF assms(1,2) _ l] total_keys [OF assms(1)] by simp
  then show "\<exists>ks. distinct ks \<and> set ks \<subseteq> dom (lookup s) - set protected \<and> drops s s' (set ks) \<and>
           (r = Inr ks \<and> sr_usedMemory s' \<le> targetUsed \<or>
            r = Inl ErrMemoryLimitExceeded \<and> targetUsed < sr_usedMemory s' \<and>
            (\<exists>m. findStalestCandidateLocked s' protected (env_nano env m) = []))"
    using e(1) unfolding s' by (auto simp: not_less)
  show "mem_ok s'" "sr_pendingExpired s' = sr_pendingExpired s" "sr_published s' = sr_published s"
    using e unfolding s' by simp_all
qed

text \<open>Making room: \<open>swept\<close> are the expired keys the recount drops, \<open>V\<close> the keys evicted after it.\<close>

lemma ensure_spec:
  assumes wf: "store_wf s" and c: "counts_ok s" and en: "maxMemoryEnabled s" "0 < delta"
    and e: "ensureMemoryAvailableLocked env s delta protected = (s', r)"
  shows "\<exists>V. drops s s' (expired_at s (env_clock env 1) \<union> V) \<and> V \<inter> set protected = {} \<and>
           V \<subseteq> dom (lookup s) - expired_at s (env_clock env 1) \<and>
           (\<forall>ev. r = Inr ev \<longrightarrow> distinct ev \<and> set ev = V \<and> sr_usedMemory s' \<le> sr_maxMemory s - delta) \<and>
           (\<forall>x. r = Inl x \<longrightarrow> x = ErrMemoryLimitExceeded)"
    "mem_ok s'" "sr_published s' = sr_published s"
    "\<exists>ks. sr_pendingExpired s' = sr_pendingExpired s @ ks \<and> distinct ks \<and> set ks = expired_at s (env_clock env 1)"
proof -
  let ?E = "expired_at s (env_clock env 1)"
  obtain t used where rc: "recalculateUsedMemoryLocked s (env_clock env 1) = (t, used)" by fastforce
  note t = recalculate_spec [OF wf c rc]
  have wft: "store_wf t" "counts_ok t" "same_setup s t" using drops_wf [OF t(1)] by auto
  have mt: "mem_ok t" using t(2,3) by (simp add: mem_ok_def)
  have max: "sr_maxMemory t = sr_maxMemory s" using wft(3) by (simp add: same_setup_def)
  have goal: "(\<exists>V. drops s s' (?E \<union> V) \<and> V \<inter> set protected = {} \<and> V \<subseteq> dom (lookup s) - ?E \<and>
           (\<forall>ev. r = Inr ev \<longrightarrow> distinct ev \<and> set ev = V \<and> sr_usedMemory s' \<le> sr_maxMemory s - delta) \<and>
           (\<forall>x. r = Inl x \<longrightarrow> x = ErrMemoryLimitExceeded)) \<and> mem_ok s' \<and> sr_published s' = sr_published t \<and>
           sr_pendingExpired s' = sr_pendingExpired t"
  proof (cases "s' = t \<and> (r = Inl ErrMemoryLimitExceeded \<or> r = Inr [] \<and> used \<le> sr_maxMemory s - delta)")
    case True
    then show ?thesis using t(1,3) mt by (intro conjI exI [of _ "{}"]) auto
  next
    case False
    then have ev: "evictUntilMemoryAtOrBelowLocked env t (sr_maxMemory s - delta) protected = (s', r)"
      using e en rc max unfolding ensureMemoryAvailableLocked_def by (simp add: Let_def split: if_splits)
    note u = evictUntil_spec [OF wft(1,2) mt ev]
    obtain ks where ks: "distinct ks" "set ks \<subseteq> dom (lookup t) - set protected" "drops t s' (set ks)"
        "r = Inr ks \<and> sr_usedMemory s' \<le> sr_maxMemory s - delta \<or> r = Inl ErrMemoryLimitExceeded"
      using u(1) by blast
    have "dom (lookup t) \<subseteq> dom (lookup s) - ?E" using t(1) by (auto simp: drops_def restrict_map_def split: if_splits)
    then have "set ks \<subseteq> dom (lookup s) - ?E" "set ks \<inter> set protected = {}" using ks(2) by blast+
    moreover have "drops s s' (?E \<union> set ks)" using drops_trans [OF t(1) ks(3)] .
    ultimately show ?thesis using ks(1,4) u(2-4) by (intro conjI exI [of _ "set ks"]) auto
  qed
  then show "\<exists>V. drops s s' (?E \<union> V) \<and> V \<inter> set protected = {} \<and> V \<subseteq> dom (lookup s) - ?E \<and>
           (\<forall>ev. r = Inr ev \<longrightarrow> distinct ev \<and> set ev = V \<and> sr_usedMemory s' \<le> sr_maxMemory s - delta) \<and>
           (\<forall>x. r = Inl x \<longrightarrow> x = ErrMemoryLimitExceeded)" "mem_ok s'" "sr_published s' = sr_published s"
    using t(4) by simp_all
  show "\<exists>ks. sr_pendingExpired s' = sr_pendingExpired s @ ks \<and> distinct ks \<and> set ks = ?E"
    using goal t(5) by simp
qed

lemma ensure_idle: "\<not> maxMemoryEnabled s \<or> delta \<le> 0 \<Longrightarrow> ensureMemoryAvailableLocked env s delta protected = (s, Inr [])"
  by (simp add: ensureMemoryAvailableLocked_def)

text \<open>A write under a key that was accepted: the value is stored, and the other keys that went are the
  ones reported as evicted and some of the expired ones (\<open>E\<close>).  A write that was refused: the key keeps its
  value, unless that was expired.\<close>

definition accepted :: "bytes set \<Rightarrow> Store \<Rightarrow> bytes \<Rightarrow> ValueObject \<Rightarrow> Store \<Rightarrow> bytes list \<Rightarrow> bool" where
  "accepted E s key v s' ev \<longleftrightarrow> distinct ev \<and> key \<notin> set ev \<and>
     (\<exists>D. lookup s' = (lookup s |` (- D))(key \<mapsto> v) \<and> set ev \<subseteq> D \<and> D \<subseteq> set ev \<union> E)"

definition refused :: "bytes set \<Rightarrow> Store \<Rightarrow> bytes \<Rightarrow> Store \<Rightarrow> bool" where
  "refused E s key s' \<longleftrightarrow> (\<exists>D. lookup s' = lookup s |` (- D) \<and> (key \<in> D \<longrightarrow> key \<in> E))"

lemma ensure_any:
  assumes wf: "store_wf s" and c: "counts_ok s" and en: "maxMemoryEnabled s"
    and e: "ensureMemoryAvailableLocked env s delta [key] = (t, q)"
  obtains D where "drops s t D" "key \<in> D \<longrightarrow> key \<in> expired_at s (env_clock env 1)"
    "\<And>x. q = Inl x \<Longrightarrow> x = ErrMemoryLimitExceeded"
    "\<And>ev. q = Inr ev \<Longrightarrow> distinct ev \<and> key \<notin> set ev \<and> set ev \<subseteq> D \<and> D \<subseteq> set ev \<union> expired_at s (env_clock env 1)"
    "sr_published t = sr_published s" "mem_ok s \<longrightarrow> mem_ok t"
    "q \<in> range Inr \<longrightarrow> sr_usedMemory t + delta \<le> sr_maxMemory s \<or> sr_usedMemory t + delta \<le> sr_usedMemory s"
proof (cases "0 < delta")
  case True
  note en = ensure_spec [OF wf c en True e]
  obtain V where V: "drops s t (expired_at s (env_clock env 1) \<union> V)" "V \<inter> set [key] = {}"
      "\<forall>ev. q = Inr ev \<longrightarrow> distinct ev \<and> set ev = V \<and> sr_usedMemory t \<le> sr_maxMemory s - delta"
      "\<forall>x. q = Inl x \<longrightarrow> x = ErrMemoryLimitExceeded"
    using en(1) by blast
  show thesis
  proof (rule that [OF V(1)])
    show "q \<in> range Inr \<longrightarrow> sr_usedMemory t + delta \<le> sr_maxMemory s \<or> sr_usedMemory t + delta \<le> sr_usedMemory s"
      using V(3) by force
  qed (use V(2-4) en(2,3) in auto)
next
  case False
  then have "t = s" "q = Inr []" using e ensure_idle [of s delta env "[key]"] by simp_all
  then show thesis using that [of "{}"] drops_refl [OF wf c] False by simp
qed

lemma commit_off:
  assumes wf: "store_wf s" and c: "counts_ok s" and w: "kw_key w = key" "\<not> kw_accounting w" and off: "\<not> maxMemoryEnabled s"
    and r: "commit env w v s = (s', r)"
  shows "store_wf s' \<and> counts_ok s' \<and> same_setup s s' \<and> sr_published s' = sr_published s \<and>
         sr_pendingExpired s' = sr_pendingExpired s"
    "r = Inr [] \<and> lookup s' = (lookup s)(key \<mapsto> v) \<and> mem_ok s'"
proof -
  have s': "s' = setKeyLocked s (shardIndex s key) key v" "r = Inr []" using r w by (simp_all add: commit_def)
  note k = setKey_spec [OF wf c s'(1)]
  show "store_wf s' \<and> counts_ok s' \<and> same_setup s s' \<and> sr_published s' = sr_published s \<and>
         sr_pendingExpired s' = sr_pendingExpired s" using k by simp
  show "r = Inr [] \<and> lookup s' = (lookup s)(key \<mapsto> v) \<and> mem_ok s'"
    using k off s'(2) by (simp add: mem_ok_def same_setup_max)
qed

lemma commit_on:
  assumes wf: "store_wf s" and c: "counts_ok s" and on: "maxMemoryEnabled s"
    and w: "kw_current w = lookup s key" "kw_key w = key" "kw_accounting w"
    and r: "commit env w v s = (s', r)" and E: "E = expired_at s (env_clock env 1)"
  shows "store_wf s' \<and> counts_ok s' \<and> same_setup s s' \<and> sr_published s' = sr_published s"
    "case r of Inr ev \<Rightarrow> accepted E s key v s' ev | Inl e \<Rightarrow> e = ErrMemoryLimitExceeded \<and> refused E s key s'"
    "mem_ok s \<Longrightarrow> key \<notin> E \<Longrightarrow> mem_ok s'"
    "r \<in> range Inr \<Longrightarrow> sr_usedMemory s' \<le> sr_maxMemory s' \<or> sr_usedMemory s' \<le> sr_usedMemory s"
proof -
  let ?i = "shardIndex s key"
  define old where "old = (case lookup s key of None \<Rightarrow> 0 | Some u \<Rightarrow> resident_size key u)"
  have old: "approximateValueObjectSize key (lookup s key) = old"
    by (simp add: old_def resident_size_def approximateValueObjectSize_def split: option.split)
  let ?delta = "resident_size key v - old"
  obtain t q where e: "ensureMemoryAvailableLocked env s ?delta [key] = (t, q)" by fastforce
  obtain D where D: "drops s t D" "key \<in> D \<longrightarrow> key \<in> E" "\<And>x. q = Inl x \<Longrightarrow> x = ErrMemoryLimitExceeded"
    "\<And>ev. q = Inr ev \<Longrightarrow> distinct ev \<and> key \<notin> set ev \<and> set ev \<subseteq> D \<and> D \<subseteq> set ev \<union> E"
    "sr_published t = sr_published s" "mem_ok s \<longrightarrow> mem_ok t"
    "q \<in> range Inr \<longrightarrow> sr_usedMemory t + ?delta \<le> sr_maxMemory s \<or> sr_usedMemory t + ?delta \<le> sr_usedMemory s"
    using ensure_any [OF wf c on e] unfolding E by metis
  have wft: "store_wf t" "counts_ok t" "same_setup s t" "lookup t = lookup s |` (- D)" using D(1) by (simp_all add: drops_def)
  have cm: "commit env w v s = (case q of Inl x \<Rightarrow> (t, Inl x)
      | Inr ev \<Rightarrow> ((setKeyLocked t ?i key v)\<lparr>sr_usedMemory := sr_usedMemory (setKeyLocked t ?i key v) + ?delta\<rparr>, Inr ev))"
    using w e by (cases q) (simp_all add: commit_def commitValueWithEvictionLocked_def old Let_def resident_size_def)
  have "(store_wf s' \<and> counts_ok s' \<and> same_setup s s' \<and> sr_published s' = sr_published s) \<and>
    (case r of Inr ev \<Rightarrow> accepted E s key v s' ev | Inl e \<Rightarrow> e = ErrMemoryLimitExceeded \<and> refused E s key s') \<and>
    (mem_ok s \<longrightarrow> key \<notin> E \<longrightarrow> mem_ok s') \<and>
    (r \<in> range Inr \<longrightarrow> sr_usedMemory s' \<le> sr_maxMemory s' \<or> sr_usedMemory s' \<le> sr_usedMemory s)"
  proof (cases q)
    case (Inl x)
    then have "s' = t" "r = Inl x" using r cm by auto
    then show ?thesis using wft D Inl by (auto simp: refused_def)
  next
    case (Inr ev)
    let ?u = "setKeyLocked t ?i key v"
    have s': "s' = ?u\<lparr>sr_usedMemory := sr_usedMemory ?u + ?delta\<rparr>" "r = Inr ev" using r cm Inr by auto
    have i: "?u = setKeyLocked t (shardIndex t key) key v" using same_setup_index [OF wft(3)] by simp
    note k = setKey_spec [OF wft(1,2) i]
    have su: "same_setup s s'" using same_setup_trans [OF same_setup_trans [OF wft(3) k(4)], of s'] s'(1) by simp
    have mem: "mem_ok s'" if "mem_ok s" "key \<notin> E"
    proof -
      have "lookup t key = lookup s key" using that(2) D(2) wft(4) by (auto simp: restrict_map_def)
      then have "total_of resident_size (lookup s') = total_of resident_size (lookup t) + ?delta"
        using total_of_upd [OF wf_entries(3) [OF wft(1)], of resident_size key v] k(2) by (simp add: s'(1) old_def)
      moreover have "sr_usedMemory t = total_of resident_size (lookup t)"
        using D(6) that(1) on same_setup_max [OF wft(3)] by (simp add: mem_ok_def)
      ultimately show ?thesis using k(5) by (simp add: mem_ok_def s'(1))
    qed
    have "accepted E s key v s' ev" using D(4) [OF Inr] k(2) wft(4) unfolding accepted_def s'(1) frame_lookup by metis
    moreover have "sr_usedMemory s' \<le> sr_maxMemory s' \<or> sr_usedMemory s' \<le> sr_usedMemory s"
      using D(7) Inr k(5) su by (auto simp: s'(1) same_setup_def)
    ultimately show ?thesis using k(1,3,7) D(5) su mem s'(2) by (simp add: s'(1))
  qed
  then show "store_wf s' \<and> counts_ok s' \<and> same_setup s s' \<and> sr_published s' = sr_published s"
    "case r of Inr ev \<Rightarrow> accepted E s key v s' ev | Inl e \<Rightarrow> e = ErrMemoryLimitExceeded \<and> refused E s key s'"
    "mem_ok s \<Longrightarrow> key \<notin> E \<Longrightarrow> mem_ok s'"
    "r \<in> range Inr \<Longrightarrow> sr_usedMemory s' \<le> sr_maxMemory s' \<or> sr_usedMemory s' \<le> sr_usedMemory s" by blast+
qed

end
