(* ===== verification/Key_Paths.thy ===== *)
theory Key_Paths
  imports Keyspace
begin

text \<open>
  The contract of the read and write paths of \<^verbatim>\<open>src/internal/storage/shard.go\<close>.  \<open>view s\<close> is what a
  store holds, key by key: abstract contents and expiry.  The locale \<open>key_reader\<close> takes a function the
  code passes to \<^verbatim>\<open>readKey\<close> and what it answers about abstract contents, the locale \<open>key_writer\<close> a
  function the code passes to \<^verbatim>\<open>writeKey\<close> and the update of abstract contents it performs; in them the
  behaviour of a whole read or write is proved once: expiry, key counts, memory accounting, eviction,
  refusal.  The operations of the store instantiate them.
\<close>

section \<open>Abstract contents\<close>

definition contents_of :: "ValueObject \<Rightarrow> contents" where
  "contents_of v =
     (case vo_Kind v of
        ValueKindString \<Rightarrow> CString (vo_String v)
      | ValueKindList \<Rightarrow> CList (vo_List v)
      | ValueKindZSet \<Rightarrow> CZSet (case zsetPayload v of Inl _ \<Rightarrow> Map.empty | Inr p \<Rightarrow> zset_abs p)
      | ValueKindStream \<Rightarrow> CStream (case StreamValueOf v of Inl _ \<Rightarrow> newStream | Inr st \<Rightarrow> st)
      | ValueKindHash \<Rightarrow> CHash (case hashPayload v of Inl _ \<Rightarrow> Map.empty | Inr p \<Rightarrow> hash_abs p)
      | ValueKindSet \<Rightarrow> CSet (case setPayload v of Inl _ \<Rightarrow> {} | Inr p \<Rightarrow> set_abs p))"

definition vo_ok :: "ValueObject \<Rightarrow> bool" where
  "vo_ok v \<longleftrightarrow> vo_rep v (contents_of v)"

lemma vo_rep_contents: "vo_rep v c \<Longrightarrow> contents_of v = c"
proof -
  assume r: "vo_rep v c"
  then have "vo_Kind v = kind_of c" by (rule vo_rep_kind)
  then show ?thesis using r by (cases c) (auto simp: contents_of_def StringValue_def ListValue_def)
qed

lemma vo_rep_iff: "vo_rep v c \<longleftrightarrow> vo_ok v \<and> contents_of v = c"
  using vo_rep_contents unfolding vo_ok_def by blast

lemma vo_ok_touch [simp]: "vo_ok (touch v now) = vo_ok v" "vo_ok v \<Longrightarrow> contents_of (touch v now) = contents_of v"
proof -
  have "contents_of (touch v now) = contents_of v"
    by (simp add: contents_of_def touch_def payload_defs split: ValueKind.split)
  then show "vo_ok (touch v now) = vo_ok v" "vo_ok v \<Longrightarrow> contents_of (touch v now) = contents_of v" by (simp_all add: vo_ok_def)
qed

lemma touch_fields [simp]: "vo_ExpiresAt (touch v now) = vo_ExpiresAt v" "vo_Kind (touch v now) = vo_Kind v"
  by (simp_all add: touch_def)

lemma size_touch [simp]: "resident_size k (touch v now) = resident_size k v"
  by (simp add: resident_size_def approximateValueObjectSize_def touch_def Let_def split: ValueKind.split)

definition view :: "Store \<Rightarrow> bytes \<rightharpoonup> contents \<times> int" where
  "view s k = map_option (\<lambda>v. (contents_of v, vo_ExpiresAt v)) (lookup s k)"

definition is_past :: "int \<Rightarrow> int \<Rightarrow> bool" where
  "is_past t now \<longleftrightarrow> 0 < t \<and> t < now"

text \<open>What a command that reads the clock as \<open>now\<close> finds under a key.\<close>

definition live :: "Store \<Rightarrow> int \<Rightarrow> bytes \<rightharpoonup> contents \<times> int" where
  "live s now k = (case view s k of None \<Rightarrow> None | Some (c, t) \<Rightarrow> if is_past t now then None else Some (c, t))"

definition store_inv :: "Store \<Rightarrow> bool" where
  "store_inv s \<longleftrightarrow> store_wf s \<and> counts_ok s \<and> (\<forall>k v. lookup s k = Some v \<longrightarrow> vo_ok v)"

lemma store_invI: "store_wf s \<Longrightarrow> counts_ok s \<Longrightarrow> (\<And>k v. lookup s k = Some v \<Longrightarrow> vo_ok v) \<Longrightarrow> store_inv s"
  by (simp add: store_inv_def)

lemma store_invD: "store_inv s \<Longrightarrow> store_wf s" "store_inv s \<Longrightarrow> counts_ok s" "store_inv s \<Longrightarrow> lookup s k = Some v \<Longrightarrow> vo_ok v"
  by (auto simp: store_inv_def)

lemma isExpired_iff: "isExpired v now \<longleftrightarrow> is_past (vo_ExpiresAt v) now"
  by (simp add: isExpired_def is_past_def)

lemma expired_at_view: "expired_at s now = {k. \<exists>c t. view s k = Some (c, t) \<and> is_past t now}"
  by (auto simp: expired_at_def view_def isExpired_iff)

lemma live_lookup:
  "live s now k = (case lookup s k of None \<Rightarrow> None
                   | Some v \<Rightarrow> if isExpired v now then None else Some (contents_of v, vo_ExpiresAt v))"
  by (simp add: live_def view_def isExpired_iff split: option.split)

lemma live_Some: "live s now k = Some e \<Longrightarrow> view s k = Some e"
  by (auto simp: live_def split: option.splits if_splits)

lemma view_lookup_cong: "lookup s = lookup s' \<Longrightarrow> view s = view s'"
  by (simp add: view_def fun_eq_iff)

lemma view_upd: "lookup s' = m(k \<mapsto> v) \<Longrightarrow> view s' = (\<lambda>j. map_option (\<lambda>v. (contents_of v, vo_ExpiresAt v)) (m j))(k \<mapsto> (contents_of v, vo_ExpiresAt v))"
  by (auto simp: view_def fun_eq_iff)

lemma view_restrict: "lookup s' = lookup s |` D \<Longrightarrow> view s' = view s |` D"
  by (auto simp: view_def fun_eq_iff restrict_map_def)

lemma view_restrict_upd:
  "lookup s' = (lookup s |` D)(k \<mapsto> v) \<Longrightarrow> view s' = (view s |` D)(k \<mapsto> (contents_of v, vo_ExpiresAt v))"
  by (auto simp: view_def fun_eq_iff restrict_map_def)

lemma drops_inv: "store_inv s \<Longrightarrow> drops s s' D \<Longrightarrow> store_inv s' \<and> view s' = view s |` (- D)"
  using view_restrict [of s' s "- D"] by (auto simp: store_inv_def drops_def restrict_map_def split: if_splits)

lemma publish_fields [simp]:
  "lookup (publishExpiredKeys s) = lookup s" "store_wf (publishExpiredKeys s) = store_wf s"
  "counts_ok (publishExpiredKeys s) = counts_ok s" "same_setup s (publishExpiredKeys s)"
  "sr_usedMemory (publishExpiredKeys s) = sr_usedMemory s" "sr_maxMemory (publishExpiredKeys s) = sr_maxMemory s"
  "mem_ok (publishExpiredKeys s) = mem_ok s" "view (publishExpiredKeys s) = view s"
  "store_inv (publishExpiredKeys s) = store_inv s" "sr_pendingExpired (publishExpiredKeys s) = []"
  by (simp_all add: publishExpiredKeys_def Let_def view_def [abs_def] store_inv_def same_setup_def)

text \<open>Dropping a key that is expired, as every write and every removal does first.\<close>

lemma prepare_spec:
  assumes inv: "store_inv s" and p: "prepareExistingValueLocked s key now = (t, cur)"
  shows "store_inv t" "same_setup s t" "mem_ok s \<Longrightarrow> mem_ok t" "cur = lookup t key"
    "map_option (\<lambda>v. (contents_of v, vo_ExpiresAt v)) cur = live s now key" "view t = (view s)(key := live s now key)"
    "sr_pendingExpired t = sr_pendingExpired s" "sr_published t = sr_published s" "sr_usedMemory t \<le> sr_usedMemory s"
proof -
  have "store_inv t \<and> same_setup s t \<and> (mem_ok s \<longrightarrow> mem_ok t) \<and> cur = lookup t key \<and>
    map_option (\<lambda>v. (contents_of v, vo_ExpiresAt v)) cur = live s now key \<and> view t = (view s)(key := live s now key) \<and>
    sr_pendingExpired t = sr_pendingExpired s \<and> sr_published t = sr_published s \<and> sr_usedMemory t \<le> sr_usedMemory s"
  proof (cases "\<exists>v. lookup s key = Some v \<and> isExpired v now")
    case False
    then have eq: "t = s" "cur = lookup s key"
      using p by (auto simp: prepareExistingValueLocked_def lookup_def Let_def split: option.splits if_splits)
    have l: "live s now key = view s key" using False by (auto simp: live_lookup view_def split: option.split)
    then have "view s = (view s)(key := live s now key)" by simp
    then show ?thesis using eq inv l by (simp add: view_def)
  next
    case True
    then obtain v where v: "lookup s key = Some v" "isExpired v now" by blast
    obtain d b where d: "deleteKeyLocked s (shardIndex s key) key = (d, b)" by fastforce
    have eq: "t = d" "cur = None"
      using p v d by (auto simp: prepareExistingValueLocked_def lookup_def Let_def)
    note del = deleteKey_spec [OF store_invD(1,2) [OF inv] d]
    have l: "live s now key = None" using v by (simp add: live_lookup)
    have "view s |` (- {key}) = (view s)(key := None)" by (auto simp: restrict_map_def)
    moreover have "lookup d key = None" using del(1) by (simp add: drops_def)
    ultimately show ?thesis using drops_inv [OF inv del(1)] del l eq drops_wf [OF del(1)] by simp
  qed
  then show "store_inv t" "same_setup s t" "mem_ok s \<Longrightarrow> mem_ok t" "cur = lookup t key"
    "map_option (\<lambda>v. (contents_of v, vo_ExpiresAt v)) cur = live s now key" "view t = (view s)(key := live s now key)"
    "sr_pendingExpired t = sr_pendingExpired s" "sr_published t = sr_published s" "sr_usedMemory t \<le> sr_usedMemory s"
    by blast+
qed

text \<open>Changing a value where it lies.\<close>

lemma mutate_spec:
  assumes inv: "store_inv s" and l: "lookup s key = Some v" and k: "vo_Kind v' = vo_Kind v"
    and s': "s' = mutate s (shardIndex s key) key v'"
  shows "store_wf s'" "lookup s' = (lookup s)(key \<mapsto> v')" "counts_ok s'" "same_setup s s'"
    "sr_usedMemory s' = sr_usedMemory s" "sr_pendingExpired s' = sr_pendingExpired s" "sr_published s' = sr_published s"
    "s' = setKeyLocked s (shardIndex s key) key v'"
proof -
  show eq: "s' = setKeyLocked s (shardIndex s key) key v'"
    using l k by (simp add: s' setKeyLocked_def mutate_def lookup_def Let_def)
  show "store_wf s'" "lookup s' = (lookup s)(key \<mapsto> v')" "counts_ok s'" "same_setup s s'"
    "sr_usedMemory s' = sr_usedMemory s" "sr_pendingExpired s' = sr_pendingExpired s" "sr_published s' = sr_published s"
    using setKey_spec [OF store_invD(1,2) [OF inv] eq] by blast+
qed

section \<open>Reads\<close>

locale key_reader =
  fixes fn :: "ValueObject \<Rightarrow> store_error + 'a" and answers :: "contents \<Rightarrow> store_error + 'a \<Rightarrow> bool"
  assumes law: "vo_ok v \<Longrightarrow> answers (contents_of v) (fn v)"
begin

lemma read_spec:
  assumes inv: "store_inv s" and r: "readKey env s key fn = (s', r)"
  shows "case live s (env_clock env 0) key of
           None \<Rightarrow> r = Inr None
         | Some (c, t) \<Rightarrow> \<exists>q. answers c q \<and> r = map_sum id Some q"
    "store_inv s'" "mem_ok s \<Longrightarrow> mem_ok s'" "same_setup s s'"
    "view s' = (if key \<in> expired_at s (env_clock env 0) \<and> key \<in> expired_at s (env_clock env 1)
                then (view s)(key := None) else view s)"
    "sr_pendingExpired s' = sr_pendingExpired s" "sr_published s' = sr_published s"
proof -
  let ?i = "shardIndex s key" and ?now = "env_clock env 0"
  have "(case live s ?now key of None \<Rightarrow> r = Inr None | Some (c, t) \<Rightarrow> \<exists>q. answers c q \<and> r = map_sum id Some q) \<and>
    store_inv s' \<and> (mem_ok s \<longrightarrow> mem_ok s') \<and> same_setup s s' \<and>
    view s' = (if key \<in> expired_at s ?now \<and> key \<in> expired_at s (env_clock env 1) then (view s)(key := None) else view s) \<and>
    sr_pendingExpired s' = sr_pendingExpired s \<and> sr_published s' = sr_published s"
  proof (cases "lookup s key")
    case None
    then have "s' = s" "r = Inr None" using r by (simp_all add: readKey_def lookup_def Let_def)
    then show ?thesis using None inv by (simp add: live_lookup expired_at_def)
  next
    case (Some v)
    have l: "data_get s ?i key = Some v" using Some by (simp add: lookup_def)
    show ?thesis
    proof (cases "isExpired v ?now")
      case True
      then have rs: "r = Inr None" "s' = dropIfStillExpired s key (env_clock env 1)"
        using r l by (simp_all add: readKey_def Let_def)
      have "s' = fst (prepareExistingValueLocked s key (env_clock env 1))"
        using l rs(2) by (simp add: dropIfStillExpired_def prepareExistingValueLocked_def Let_def)
      then obtain cur where "prepareExistingValueLocked s key (env_clock env 1) = (s', cur)"
        by (metis prod.collapse)
      note p = prepare_spec [OF inv this]
      have "view s' = (if isExpired v (env_clock env 1) then (view s)(key := None) else view s)"
        using p(6) Some by (auto simp: live_lookup view_def fun_eq_iff)
      then show ?thesis using p True rs(1) Some by (simp add: live_lookup expired_at_def)
    next
      case False
      note nf = False
      have a: "answers (contents_of v) (fn v)" using law store_invD(3) [OF inv Some] by blast
      show ?thesis
      proof (cases "fn v")
        case (Inl e)
        then have "s' = s" "r = Inl e" using r l nf by (simp_all add: readKey_def Let_def)
        moreover have "\<exists>q. answers (contents_of v) q \<and> Inl e = map_sum id Some q" using a Inl by (intro exI [of _ "Inl e"]) simp
        ultimately show ?thesis using nf Some inv by (simp add: live_lookup expired_at_def)
      next
        case (Inr x)
        then have rs: "s' = mutate s ?i key (touch v ?now)" "r = Inr (Some x)" using r l nf by (simp_all add: readKey_def Let_def)
        note m = mutate_spec [OF inv Some _ rs(1)]
        have k: "vo_Kind (touch v ?now) = vo_Kind v" by simp
        have vok: "vo_ok v" by (rule store_invD(3) [OF inv Some])
        have view: "view s' = view s" using m(2) [OF k] Some vok by (auto simp: view_def fun_eq_iff)
        have "store_inv s'" using m(1-3) [OF k] inv vok by (auto simp: store_inv_def split: if_splits)
        moreover have "mem_ok s'" if "mem_ok s"
          using that m(2,4,5) [OF k] Some total_of_upd [OF wf_entries(3) [OF store_invD(1) [OF inv]], of resident_size key "touch v ?now"]
          by (simp add: mem_ok_def same_setup_max)
        moreover have "\<exists>q. answers (contents_of v) q \<and> r = map_sum id Some q" using a Inr rs(2) by (intro exI [of _ "Inr x"]) simp
        ultimately show ?thesis using m [OF k] view nf Some by (simp add: live_lookup expired_at_def)
      qed
    qed
  qed
  then show "case live s ?now key of None \<Rightarrow> r = Inr None | Some (c, t) \<Rightarrow> \<exists>q. answers c q \<and> r = map_sum id Some q"
    "store_inv s'" "mem_ok s \<Longrightarrow> mem_ok s'" "same_setup s s'"
    "view s' = (if key \<in> expired_at s ?now \<and> key \<in> expired_at s (env_clock env 1) then (view s)(key := None) else view s)"
    "sr_pendingExpired s' = sr_pendingExpired s" "sr_published s' = sr_published s" by blast+
qed

end

section \<open>Writes\<close>

text \<open>The tail of every write: commit, and answer \<open>x\<close> with the evicted keys unless that failed.\<close>

definition commit_then :: "'a \<Rightarrow> Store \<times> (store_error + bytes list) \<Rightarrow> Store \<times> (store_error + 'a \<times> bytes list)" where
  "commit_then x r = (case r of (s, Inl e) \<Rightarrow> (s, Inl e) | (s, Inr evicted) \<Rightarrow> (s, Inr (x, evicted)))"

abbreviation ttl_of :: "ValueObject option \<Rightarrow> int" where
  "ttl_of cur \<equiv> (case cur of None \<Rightarrow> 0 | Some v \<Rightarrow> vo_ExpiresAt v)"

text \<open>The result of a write, in terms of the view before and after: \<open>now\<close> and \<open>now'\<close> are the readings of the
  clock on entry and at the recount, \<open>out\<close> the outcome of the abstract update, \<open>new\<close> the new expiry.\<close>

fun write_result :: "bytes set \<Rightarrow> Store \<Rightarrow> (contents \<times> int) option \<Rightarrow> bytes \<Rightarrow> store_error + 'a \<times> contents \<Rightarrow> int \<Rightarrow> Store \<Rightarrow>
    store_error + 'a \<times> bytes list \<Rightarrow> bool" where
  "write_result E s cur key (Inl e) t s' r \<longleftrightarrow> r = Inl e \<and> view s' = (view s)(key := cur)"
| "write_result E s cur key (Inr (x, c)) t s' (Inl e) \<longleftrightarrow>
     e = ErrMemoryLimitExceeded \<and> maxMemoryEnabled s \<and>
     (\<exists>D. view s' = ((view s)(key := cur)) |` (- D) \<and> (key \<in> D \<longrightarrow> key \<in> E))"
| "write_result E s cur key (Inr (x, c)) t s' (Inr (y, ev)) \<longleftrightarrow>
     y = x \<and> distinct ev \<and> key \<notin> set ev \<and>
     (\<exists>D. view s' = (view s |` (- D))(key \<mapsto> (c, t)) \<and> set ev \<subseteq> D \<and> D \<subseteq> set ev \<union> E)"

lemma expired_at_mono: "view t = (view s)(key := live s now key) \<Longrightarrow> expired_at t now' \<subseteq> expired_at s now'"
  by (auto simp: expired_at_view dest: live_Some split: if_splits)

lemma commit_view_on:
  assumes inv: "store_inv s" and on: "maxMemoryEnabled s" and w: "kw_current w = lookup s key" "kw_key w = key" "kw_accounting w"
    and v: "vo_rep v c" and r: "commit env w v s = (s', r)"
  shows "store_inv s' \<and> same_setup s s'"
    "case r of
       Inl e \<Rightarrow> e = ErrMemoryLimitExceeded \<and>
         (\<exists>D. view s' = view s |` (- D) \<and> (key \<in> D \<longrightarrow> key \<in> expired_at s (env_clock env 1)))
     | Inr ev \<Rightarrow> distinct ev \<and> key \<notin> set ev \<and>
         (\<exists>D. view s' = (view s |` (- D))(key \<mapsto> (c, vo_ExpiresAt v)) \<and> set ev \<subseteq> D \<and>
              D \<subseteq> set ev \<union> expired_at s (env_clock env 1))"
proof -
  note cm = commit_on [OF store_invD(1,2) [OF inv] on w r refl]
  have vok: "vo_ok v" "contents_of v = c" using v by (simp_all add: vo_rep_iff)
  have "store_inv s' \<and> (case r of
       Inl e \<Rightarrow> e = ErrMemoryLimitExceeded \<and>
         (\<exists>D. view s' = view s |` (- D) \<and> (key \<in> D \<longrightarrow> key \<in> expired_at s (env_clock env 1)))
     | Inr ev \<Rightarrow> distinct ev \<and> key \<notin> set ev \<and>
         (\<exists>D. view s' = (view s |` (- D))(key \<mapsto> (c, vo_ExpiresAt v)) \<and> set ev \<subseteq> D \<and>
              D \<subseteq> set ev \<union> expired_at s (env_clock env 1)))"
  proof (cases r)
    case (Inl e)
    then obtain D where D: "lookup s' = lookup s |` (- D)" "key \<in> D \<longrightarrow> key \<in> expired_at s (env_clock env 1)"
        "e = ErrMemoryLimitExceeded"
      using cm(2) by (auto simp: refused_def)
    then have "store_inv s'" using cm(1) inv by (auto simp: store_inv_def restrict_map_def split: if_splits)
    then show ?thesis using D view_restrict [OF D(1)] Inl by auto
  next
    case (Inr ev)
    then obtain D where D: "lookup s' = (lookup s |` (- D))(key \<mapsto> v)" "distinct ev" "key \<notin> set ev" "set ev \<subseteq> D"
        "D \<subseteq> set ev \<union> expired_at s (env_clock env 1)"
      using cm(2) by (auto simp: accepted_def)
    then have "store_inv s'" using cm(1) inv vok by (auto simp: store_inv_def restrict_map_def split: if_splits)
    then show ?thesis using D view_restrict_upd [OF D(1)] Inr vok by auto
  qed
  then show "store_inv s' \<and> same_setup s s'"
    "case r of
       Inl e \<Rightarrow> e = ErrMemoryLimitExceeded \<and>
         (\<exists>D. view s' = view s |` (- D) \<and> (key \<in> D \<longrightarrow> key \<in> expired_at s (env_clock env 1)))
     | Inr ev \<Rightarrow> distinct ev \<and> key \<notin> set ev \<and>
         (\<exists>D. view s' = (view s |` (- D))(key \<mapsto> (c, vo_ExpiresAt v)) \<and> set ev \<subseteq> D \<and>
              D \<subseteq> set ev \<union> expired_at s (env_clock env 1))" using cm(1) by auto
qed

locale key_writer =
  fixes env :: Env and fn :: "keyWrite \<Rightarrow> Store \<Rightarrow> Store \<times> (store_error + 'a \<times> bytes list)"
    and upd :: "int \<Rightarrow> contents option \<Rightarrow> store_error + 'a \<times> contents" and ttl :: "int \<Rightarrow> int" and pre :: bool
  assumes law: "pre \<Longrightarrow> store_inv s \<Longrightarrow> kw_current w = lookup s (kw_key w) \<Longrightarrow> kw_accounting w = maxMemoryEnabled s \<Longrightarrow>
     case upd (kw_now w) (map_option contents_of (kw_current w)) of
       Inl e \<Rightarrow> fn w s = (s, Inl e)
     | Inr (x, c) \<Rightarrow> \<exists>v. vo_rep v c \<and> vo_ExpiresAt v = ttl (ttl_of (kw_current w)) \<and> fn w s = commit_then x (commit env w v s)"
begin

lemma write_steps:
  assumes p: pre and inv: "store_inv s" and w: "writeKey env s key fn = (s', r)"
    and cur: "cur = live s (env_clock env 0) key"
  obtains u u' where "store_inv u" "same_setup s u" "mem_ok s \<Longrightarrow> mem_ok u" "view u = (view s)(key := cur)"
    "sr_usedMemory u \<le> sr_usedMemory s" "s' = (if maxMemoryEnabled s then publishExpiredKeys u' else u')"
    "\<And>e. upd (env_clock env 0) (map_option fst cur) = Inl e \<Longrightarrow> u' = u \<and> r = Inl e"
    "\<And>x c. upd (env_clock env 0) (map_option fst cur) = Inr (x, c) \<Longrightarrow>
       \<exists>v kw. vo_rep v c \<and> vo_ExpiresAt v = ttl (case cur of None \<Rightarrow> 0 | Some (c, t) \<Rightarrow> t) \<and>
         kw_current kw = lookup u key \<and> kw_key kw = key \<and> kw_accounting kw = maxMemoryEnabled s \<and>
         (u', r) = commit_then x (commit env kw v u)"
proof -
  let ?now = "env_clock env 0"
  obtain u c0 where pr: "prepareExistingValueLocked s key ?now = (u, c0)" by fastforce
  note u = prepare_spec [OF inv pr]
  define kw where "kw = \<lparr>kw_key = key, kw_current = c0, kw_now = ?now, kw_accounting = maxMemoryEnabled s\<rparr>"
  obtain u' where f: "fn kw u = (u', r)" and s': "s' = (if maxMemoryEnabled s then publishExpiredKeys u' else u')"
    using w pr by (auto simp: writeKey_def Let_def kw_def split: prod.splits)
  have acc: "maxMemoryEnabled s = maxMemoryEnabled u" using same_setup_max [OF u(2)] by simp
  have c0: "map_option contents_of c0 = map_option fst cur" "ttl_of c0 = (case cur of None \<Rightarrow> 0 | Some (c, t) \<Rightarrow> t)"
    using u(5) unfolding cur [symmetric] by (auto simp: option.map_comp comp_def split: option.splits)
  have kwl: "kw_current kw = lookup u (kw_key kw)" "kw_accounting kw = maxMemoryEnabled u" using u(4) acc by (simp_all add: kw_def)
  have kws: "kw_now kw = ?now" "kw_current kw = c0" by (simp_all add: kw_def)
  note law' = law [OF p u(1) kwl, unfolded kws c0(1)]
  show thesis
  proof (rule that [OF u(1-3) u(6) [folded cur] u(9) s'])
    show "u' = u \<and> r = Inl e" if "upd ?now (map_option fst cur) = Inl e" for e
      using law' that f by simp
    show "\<exists>v kw. vo_rep v c \<and> vo_ExpiresAt v = ttl (case cur of None \<Rightarrow> 0 | Some (c, t) \<Rightarrow> t) \<and>
         kw_current kw = lookup u key \<and> kw_key kw = key \<and> kw_accounting kw = maxMemoryEnabled s \<and>
         (u', r) = commit_then x (commit env kw v u)" if up: "upd ?now (map_option fst cur) = Inr (x, c)" for x c
    proof -
      obtain v where "vo_rep v c" "vo_ExpiresAt v = ttl (ttl_of c0)" "fn kw u = commit_then x (commit env kw v u)"
        using law' up by auto
      then show ?thesis using f kwl c0(2) acc by (intro exI [of _ v] exI [of _ kw]) (simp add: kw_def)
    qed
  qed
qed

lemma write_spec:
  assumes p: pre and inv: "store_inv s" and w: "writeKey env s key fn = (s', r)"
    and cur: "cur = live s (env_clock env 0) key"
    and new: "t = ttl (case cur of None \<Rightarrow> 0 | Some (c, t) \<Rightarrow> t)"
  shows "write_result (expired_at s (env_clock env 1)) s cur key (upd (env_clock env 0) (map_option fst cur)) t s' r \<and>
    store_inv s' \<and> same_setup s s' \<and>
    (mem_ok s \<longrightarrow> cur = None \<or> key \<notin> expired_at s (env_clock env 1) \<longrightarrow> mem_ok s') \<and>
    (maxMemoryEnabled s \<longrightarrow> r \<in> range Inr \<longrightarrow> sr_usedMemory s' \<le> sr_maxMemory s' \<or> sr_usedMemory s' \<le> sr_usedMemory s) \<and>
    (\<not> maxMemoryEnabled s \<longrightarrow> (\<forall>x c. upd (env_clock env 0) (map_option fst cur) = Inr (x, c) \<longrightarrow>
       r = Inr (x, []) \<and> view s' = (view s)(key \<mapsto> (c, t))))"
proof -
  let ?E = "expired_at s (env_clock env 1)" and ?u = "upd (env_clock env 0) (map_option fst cur)"
  obtain u u' where u: "store_inv u" "same_setup s u" "mem_ok s \<Longrightarrow> mem_ok u" "view u = (view s)(key := cur)"
    "sr_usedMemory u \<le> sr_usedMemory s" "s' = (if maxMemoryEnabled s then publishExpiredKeys u' else u')"
    and err: "\<And>e. ?u = Inl e \<Longrightarrow> u' = u \<and> r = Inl e"
    and ok: "\<And>x c. ?u = Inr (x, c) \<Longrightarrow>
       \<exists>v kw. vo_rep v c \<and> vo_ExpiresAt v = t \<and> kw_current kw = lookup u key \<and> kw_key kw = key \<and>
         kw_accounting kw = maxMemoryEnabled s \<and> (u', r) = commit_then x (commit env kw v u)"
    by (rule write_steps [OF p inv w cur, folded new]) (rule that)
  have acc: "maxMemoryEnabled u = maxMemoryEnabled s" by (rule same_setup_max [OF u(2)])
  have E: "expired_at u (env_clock env 1) \<subseteq> ?E" using expired_at_mono u(4) cur by metis
  have pub: "view s' = view u'" "store_inv s' = store_inv u'" "mem_ok s' = mem_ok u'" "sr_usedMemory s' = sr_usedMemory u'"
    "sr_maxMemory s' = sr_maxMemory u'" "same_setup u' s'" using u(6) by simp_all
  show ?thesis
  proof (cases ?u)
    case (Inl e)
    then show ?thesis using err [OF Inl] u pub acc same_setup_trans [OF u(2)] by auto
  next
    case (Inr xc)
    obtain x c where xc: "xc = (x, c)" by (cases xc)
    obtain v kw where v: "vo_rep v c" "vo_ExpiresAt v = t" and kw: "kw_current kw = lookup u key" "kw_key kw = key"
        "kw_accounting kw = maxMemoryEnabled s" and cm: "(u', r) = commit_then x (commit env kw v u)"
      using ok Inr xc by blast
    obtain q where q: "commit env kw v u = (u', q)" "r = map_sum id (\<lambda>ev. (x, ev)) q"
      using cm by (cases "commit env kw v u"; cases "snd (commit env kw v u)") (auto simp: commit_then_def)
    show ?thesis
    proof (cases "maxMemoryEnabled s")
      case False
      then have "\<not> maxMemoryEnabled u" "\<not> kw_accounting kw" using acc kw(3) by simp_all
      note off = commit_off [OF store_invD(1,2) [OF u(1)] kw(2) this(2,1) q(1)]
      have "store_inv u'" using off u(1) v by (auto simp: store_inv_def vo_rep_iff split: if_splits)
      moreover have "view u' = (view s)(key \<mapsto> (c, t))"
        using off u(4) v by (auto simp: view_def fun_eq_iff vo_rep_iff)
      moreover have "same_setup s s'" using same_setup_trans [OF same_setup_trans [OF u(2)] pub(6)] off by blast
      ultimately show ?thesis
        using False Inr xc off q(2) pub by (auto intro!: exI [of _ "{}"] simp: restrict_map_def)
    next
      case True
      then have on: "maxMemoryEnabled u" "kw_accounting kw" using acc kw(3) by simp_all
      note co = commit_on [OF store_invD(1,2) [OF u(1)] on(1) kw(1,2) on(2) q(1) refl]
      note cv = commit_view_on [OF u(1) on(1) kw(1,2) on(2) v(1) q(1)]
      have stp: "same_setup s s'" using same_setup_trans [OF same_setup_trans [OF u(2)] pub(6)] co(1) by blast
      have mem: "mem_ok s'" if "mem_ok s" "cur = None \<or> key \<notin> ?E"
      proof -
        have "key \<notin> expired_at u (env_clock env 1)" using that(2) E u(4) by (auto simp: expired_at_view)
        then show ?thesis using co(3) u(3) that(1) pub(3) by blast
      qed
      have res: "write_result ?E s cur key ?u t s' r"
      proof (cases q)
        case (Inl e)
        then obtain D where D: "view u' = view u |` (- D)" "key \<in> D \<longrightarrow> key \<in> ?E" "e = ErrMemoryLimitExceeded"
          using cv(2) E by auto
        then show ?thesis using Inr xc q(2) Inl pub(1) u(4) True by auto
      next
        case (Inr ev)
        then obtain D where D: "view u' = (view u |` (- D))(key \<mapsto> (c, t))" "set ev \<subseteq> D" "D \<subseteq> set ev \<union> ?E"
          "distinct ev" "key \<notin> set ev"
          using cv(2) E v(2) by auto
        have "(view u |` (- D))(key \<mapsto> (c, t)) = (view s |` (- D))(key \<mapsto> (c, t))"
          unfolding u(4) by (auto simp: restrict_map_def fun_eq_iff)
        then have "view s' = (view s |` (- D))(key \<mapsto> (c, t))" using D(1) pub(1) by simp
        then show ?thesis using \<open>?u = Inr xc\<close> xc q(2) Inr D by auto
      qed
      have "sr_usedMemory s' \<le> sr_maxMemory s' \<or> sr_usedMemory s' \<le> sr_usedMemory s" if "r \<in> range Inr"
        using co(4) that q(2) u(5) pub(4,5) by (cases q) auto
      then show ?thesis using res stp mem cv(1) pub(2) True by blast
    qed
  qed
qed

end

end
