(* ===== verification/Bitmap.thy ===== *)
theory Bitmap
  imports Storage_Base
begin

text \<open>
  The bit operations on string payloads of \<^verbatim>\<open>src/internal/storage/bitmap.go\<close>: reading, writing and
  counting bits.  Offset 0 is the most significant bit of the first byte.  Shown: writing a bit changes
  that bit only, reading beyond the payload yields 0, and counting agrees with reading bit by bit.
\<close>

section \<open>Definitions\<close>

unbundle bit_operations_syntax

abbreviation MaxBitmapOffset :: int where "MaxBitmapOffset \<equiv> 4294967295"

definition validateBitmapOffset :: "int \<Rightarrow> store_error option" where
  "validateBitmapOffset offset =
     (if offset < 0 \<or> offset > MaxBitmapOffset then Some ErrValueNotInteger else None)"

definition validateBitmapArguments :: "int \<Rightarrow> int \<Rightarrow> store_error option" where
  "validateBitmapArguments offset b =
     (case validateBitmapOffset offset of
        Some e \<Rightarrow> Some e
      | None \<Rightarrow> if b \<noteq> 0 \<and> b \<noteq> 1 then Some ErrValueNotInteger else None)"

text \<open>The expressions \<^verbatim>\<open>int(offset / 8)\<close> and \<^verbatim>\<open>byte(1 << uint(7-(offset%8)))\<close>.\<close>

definition byteIndex :: "int \<Rightarrow> nat" where
  "byteIndex offset = nat (offset div 8)"

definition bitMask :: "int \<Rightarrow> byte" where
  "bitMask offset = push_bit (nat (7 - offset mod 8)) 1"

definition setBitInByte :: "byte \<Rightarrow> byte \<Rightarrow> int \<Rightarrow> byte" where
  "setBitInByte dst msk b = (if b = 1 then dst OR msk else dst AND NOT msk)"

definition bitAt :: "bytes \<Rightarrow> int \<Rightarrow> int" where
  "bitAt data offset =
     (if byteIndex offset \<ge> length data then 0
      else if (data ! byteIndex offset) AND bitMask offset = 0 then 0
      else 1)"

text \<open>The payload \<^verbatim>\<open>SetBit\<close> leaves behind: the old bytes, padded with zeros up to the addressed byte, with
  the bit set or cleared there.\<close>

definition setBitPayload :: "bytes \<Rightarrow> int \<Rightarrow> int \<Rightarrow> bytes" where
  "setBitPayload data offset b =
     (let payload = data @ replicate (max (byteIndex offset + 1) (length data) - length data) 0
      in payload[byteIndex offset := setBitInByte (payload ! byteIndex offset) (bitMask offset) b])"

text \<open>\<^verbatim>\<open>bits.OnesCount8\<close>.\<close>

definition OnesCount8 :: "byte \<Rightarrow> int" where
  "OnesCount8 b = int (length (filter (bit b) [0..<8]))"

definition normalizeBitmapRange :: "nat \<Rightarrow> int option \<Rightarrow> int option \<Rightarrow> (int \<times> int) option" where
  "normalizeBitmapRange len start stop =
     (case (start, stop) of
        (Some from, Some to) \<Rightarrow>
          let from = (if from < 0 then int len + from else from);
              to = (if to < 0 then int len + to else to);
              from = (if from < 0 then 0 else from)
          in if to < 0 \<or> from \<ge> int len \<or> from > to then None
             else Some (from, if to \<ge> int len then int len - 1 else to)
      | _ \<Rightarrow> Some (0, int len - 1))"

definition countBits :: "bytes \<Rightarrow> int option \<Rightarrow> int option \<Rightarrow> int" where
  "countBits data start stop =
     (if data = [] then 0
      else case normalizeBitmapRange (length data) start stop of
             None \<Rightarrow> 0
           | Some (from, to) \<Rightarrow>
               foldl (\<lambda>count b. count + OnesCount8 b) 0 (slice data (nat from) (nat (to + 1) - nat from)))"

section \<open>Lemmas\<close>

lemma bit_mask: "0 \<le> offset \<Longrightarrow> bit (bitMask offset) n \<longleftrightarrow> n = nat (7 - offset mod 8)"
proof -
  have "0 \<le> offset mod 8" "offset mod 8 < 8" by simp_all
  then have "nat (7 - offset mod 8) < 8" by linarith
  then show ?thesis by (auto simp: bitMask_def bit_exp_iff)
qed

lemma bitAt_bit:
  "0 \<le> offset \<Longrightarrow> byteIndex offset < length data \<Longrightarrow>
   bitAt data offset = (if bit (data ! byteIndex offset) (nat (7 - offset mod 8)) then 1 else 0)"
proof -
  assume *: "0 \<le> offset" "byteIndex offset < length data"
  have "(w AND bitMask offset = 0) \<longleftrightarrow> \<not> bit w (nat (7 - offset mod 8))" for w :: byte
  proof -
    have "nat (7 - offset mod 8) < 8" using pos_mod_bound [of 8 offset] by linarith
    then show ?thesis by (auto intro!: bit_word_eqI simp: bit_and_iff bit_mask [OF *(1)] dest!: arg_cong [where f = "\<lambda>v. bit v (nat (7 - offset mod 8))"])
  qed
  then show ?thesis using *(2) by (simp add: bitAt_def)
qed

lemma bit_setBitInByte:
  "0 \<le> offset \<Longrightarrow> b = 0 \<or> b = 1 \<Longrightarrow> n < 8 \<Longrightarrow>
   bit (setBitInByte w (bitMask offset) b) n \<longleftrightarrow> (if n = nat (7 - offset mod 8) then b = 1 else bit w n)"
  using bit_mask [of offset n] by (auto simp: setBitInByte_def bit_or_iff bit_and_iff bit_not_iff)

lemma same_bit:
  assumes "0 \<le> o1" "0 \<le> o2" "byteIndex o1 = byteIndex o2" "nat (7 - o1 mod 8) = nat (7 - o2 mod 8)"
  shows "o1 = o2"
proof -
  have "o1 div 8 = o2 div 8" using assms(1-3) by (simp add: byteIndex_def)
  moreover have "o1 mod 8 < 8" "o2 mod 8 < 8" by simp_all
  then have "o1 mod 8 = o2 mod 8" using assms(4) by linarith
  ultimately show ?thesis by (metis div_mult_mod_eq)
qed

lemma length_setBitPayload: "length (setBitPayload data offset b) = max (byteIndex offset + 1) (length data)"
  by (simp add: setBitPayload_def Let_def)

lemma foldl_count: "foldl (\<lambda>count b. count + f b) (c :: int) xs = c + sum_list (map f xs)"
  by (induction xs arbitrary: c) auto

lemma count_byte:
  assumes "i < length data"
  shows "{j. 8 * i \<le> j \<and> j < 8 * i + 8 \<and> bitAt data (int j) = 1} = (\<lambda>n. 8 * i + (7 - n)) ` {n. n < 8 \<and> bit (data ! i) n}"
proof -
  have at: "bitAt data (int (8 * i + k)) = (if bit (data ! i) (7 - k) then 1 else 0)" if "k < 8" for k
  proof -
    have "byteIndex (int (8 * i + k)) = i" "nat (7 - int (8 * i + k) mod 8) = 7 - k"
      using that by (auto simp: byteIndex_def nat_diff_distrib)
    then show ?thesis using bitAt_bit [of "int (8 * i + k)" data] assms by simp
  qed
  show ?thesis
  proof (intro set_eqI iffI)
    fix j assume "j \<in> {j. 8 * i \<le> j \<and> j < 8 * i + 8 \<and> bitAt data (int j) = 1}"
    then obtain k where k: "j = 8 * i + k" "k < 8" "bitAt data (int (8 * i + k)) = 1" by (auto simp: le_iff_add)
    then show "j \<in> (\<lambda>n. 8 * i + (7 - n)) ` {n. n < 8 \<and> bit (data ! i) n}"
      using at [OF k(2)] by (intro image_eqI [of _ _ "7 - k"]) (auto split: if_splits)
  next
    fix j assume "j \<in> (\<lambda>n. 8 * i + (7 - n)) ` {n. n < 8 \<and> bit (data ! i) n}"
    then obtain n where n: "j = 8 * i + (7 - n)" "n < 8" "bit (data ! i) n" by auto
    then show "j \<in> {j. 8 * i \<le> j \<and> j < 8 * i + 8 \<and> bitAt data (int j) = 1}"
      using at [of "7 - n"] by (auto simp: Suc_diff_le)
  qed
qed

lemma OnesCount8_card:
  assumes "i < length data"
  shows "OnesCount8 (data ! i) = int (card {j. 8 * i \<le> j \<and> j < 8 * i + 8 \<and> bitAt data (int j) = 1})"
proof -
  have "inj_on (\<lambda>n. 8 * i + (7 - n)) {n. n < 8 \<and> bit (data ! i) n}" by (auto simp: inj_on_def)
  moreover have "length (filter (bit (data ! i)) [0..<8]) = card {n. n < 8 \<and> bit (data ! i) n}"
    using distinct_card [of "filter (bit (data ! i)) [0..<8]"] by (simp add: conj_commute)
  ultimately show ?thesis by (simp only: OnesCount8_def count_byte [OF assms] card_image)
qed

lemma count_bytes:
  assumes "a \<le> b" "b \<le> length data"
  shows "(\<Sum>x \<leftarrow> slice data a (b - a). OnesCount8 x) = int (card {j. 8 * a \<le> j \<and> j < 8 * b \<and> bitAt data (int j) = 1})"
  using assms
proof (induction b rule: dec_induct)
  case base
  then show ?case by (simp add: slice_def)
next
  case (step b)
  have "slice data a (Suc b - a) = slice data a (b - a) @ [data ! b]"
    using step by (simp add: slice_def Suc_diff_le take_Suc_conv_app_nth)
  moreover have "{j. 8 * a \<le> j \<and> j < 8 * Suc b \<and> bitAt data (int j) = 1} =
      {j. 8 * a \<le> j \<and> j < 8 * b \<and> bitAt data (int j) = 1} \<union> {j. 8 * b \<le> j \<and> j < 8 * b + 8 \<and> bitAt data (int j) = 1}"
    using step by auto
  moreover have "card \<dots> = card {j. 8 * a \<le> j \<and> j < 8 * b \<and> bitAt data (int j) = 1} +
      card {j. 8 * b \<le> j \<and> j < 8 * b + 8 \<and> bitAt data (int j) = 1}"
    by (rule card_Un_disjoint) auto
  ultimately show ?case using step OnesCount8_card [of b data] by simp
qed

section \<open>Properties\<close>

text \<open>C36. Writing a bit sets that bit and no other: afterwards the addressed offset reads back the written
  bit and every other offset reads as before, including the offsets of the zero padding when the payload
  grows, and the payload is just long enough.\<close>

theorem setbit_getbit:
  assumes "validateBitmapArguments offset b = None" "0 \<le> offset'"
  shows "bitAt (setBitPayload data offset b) offset' = (if offset' = offset then b else bitAt data offset') \<and>
         length (setBitPayload data offset b) = max (nat (offset div 8) + 1) (length data)"
proof -
  have off: "0 \<le> offset" "b = 0 \<or> b = 1"
    using assms(1) by (auto simp: validateBitmapArguments_def validateBitmapOffset_def split: if_splits)
  let ?p = "data @ replicate (max (byteIndex offset + 1) (length data) - length data) 0"
  have len: "length (setBitPayload data offset b) = length ?p" "byteIndex offset < length ?p"
    by (simp_all add: setBitPayload_def Let_def)
  have pad: "bitAt ?p o' = bitAt data o'" if "0 \<le> o'" for o'
    using bitAt_bit [OF that, of ?p] bitAt_bit [OF that, of data]
    by (cases "byteIndex o' < length data"; cases "byteIndex o' < length ?p") (auto simp: nth_append bitAt_def)
  have "bitAt (setBitPayload data offset b) offset' = (if offset' = offset then b else bitAt ?p offset')"
  proof (cases "byteIndex offset' < length ?p")
    case True
    let ?n = "nat (7 - offset' mod 8)"
    have n: "?n < 8" using pos_mod_bound [of 8 offset'] by linarith
    have at: "bitAt (setBitPayload data offset b) offset' =
        (if bit (setBitPayload data offset b ! byteIndex offset') ?n then 1 else 0)"
      by (rule bitAt_bit [OF assms(2)]) (use True len(1) in simp)
    have at': "bitAt ?p offset' = (if bit (?p ! byteIndex offset') ?n then 1 else 0)"
      by (rule bitAt_bit [OF assms(2) True])
    show ?thesis
    proof (cases "byteIndex offset' = byteIndex offset")
      case same: True
      then have "setBitPayload data offset b ! byteIndex offset' = setBitInByte (?p ! byteIndex offset') (bitMask offset) b"
        using len(2) unfolding setBitPayload_def Let_def by (simp only: nth_list_update_eq)
      then show ?thesis
        unfolding at at' using bit_setBitInByte [OF off n] same_bit [OF off(1) assms(2) same [symmetric]] off(2) by auto
    next
      case False
      then have "setBitPayload data offset b ! byteIndex offset' = ?p ! byteIndex offset'"
        unfolding setBitPayload_def Let_def by (simp only: nth_list_update_neq not_sym)
      then show ?thesis unfolding at at' using False by auto
    qed
  next
    case False
    with len(2) have "offset' \<noteq> offset" by blast
    moreover have "bitAt (setBitPayload data offset b) offset' = 0" "bitAt ?p offset' = 0"
      using False len(1) unfolding bitAt_def by (simp_all only: not_less if_True)
    ultimately show ?thesis by simp
  qed
  then show ?thesis using pad [OF assms(2)] by (simp add: length_setBitPayload byteIndex_def)
qed

theorem setbit_getbit_witness:
  "bitAt (setBitPayload (str ''a'') 13 1) 13 = 1 \<and> bitAt (setBitPayload (str ''a'') 13 1) 1 = 1"
proof -
  have "validateBitmapArguments 13 1 = None" "bitAt (str ''a'') 1 = 1"
    by (simp_all add: validateBitmapArguments_def validateBitmapOffset_def bitAt_def byteIndex_def bitMask_def str_def)
  then show ?thesis using setbit_getbit [of 13 1 13 "str ''a''"] setbit_getbit [of 13 1 1 "str ''a''"] by simp
qed

text \<open>Counting bits agrees with reading them one at a time: over the whole payload, or over an inclusive
  byte range whose bounds may count from the end, \<^verbatim>\<open>BITCOUNT\<close> is the number of offsets in the selected bytes at
  which \<^verbatim>\<open>GETBIT\<close> reads 1.\<close>

theorem bitcount_exact:
  "countBits data start stop =
     int (card {j. bitAt data (int j) = 1 \<and> j div 8 < length data \<and>
       (case (start, stop) of
          (Some s, Some e) \<Rightarrow> position (length data) s \<le> int (j div 8) \<and> int (j div 8) \<le> position (length data) e
        | _ \<Rightarrow> True)})"
proof -
  let ?sel = "\<lambda>j. (case (start, stop) of
          (Some s, Some e) \<Rightarrow> position (length data) s \<le> int (j div 8) \<and> int (j div 8) \<le> position (length data) e
        | _ \<Rightarrow> True)"
  show ?thesis
  proof (cases "data = [] \<or> normalizeBitmapRange (length data) start stop = None")
    case True
    then have "{j. bitAt data (int j) = 1 \<and> j div 8 < length data \<and> ?sel j} = {}"
      by (auto simp: normalizeBitmapRange_def position_def Let_def split: option.splits if_splits)
    moreover have "countBits data start stop = 0" using True by (auto simp: countBits_def)
    ultimately show ?thesis by (simp only: card.empty of_nat_0)
  next
    case False
    then obtain a b where ab: "normalizeBitmapRange (length data) start stop = Some (a, b)" by auto
    have r: "0 \<le> a" "a \<le> b" "b < int (length data)"
      "\<And>i. i < length data \<Longrightarrow> ?sel (8 * i) \<longleftrightarrow> a \<le> int i \<and> int i \<le> b"
      using ab False by (auto simp: normalizeBitmapRange_def position_def Let_def split: option.splits if_splits)
    have sel: "?sel j \<longleftrightarrow> a \<le> int (j div 8) \<and> int (j div 8) \<le> b" if "j div 8 < length data" for j
      using r(4) [OF that] by (simp split: option.splits)
    have eq: "{j. bitAt data (int j) = 1 \<and> j div 8 < length data \<and> ?sel j} =
        {j. 8 * nat a \<le> j \<and> j < 8 * nat (b + 1) \<and> bitAt data (int j) = 1}"
    proof (intro set_eqI iffI)
      fix j assume j: "j \<in> {j. bitAt data (int j) = 1 \<and> j div 8 < length data \<and> ?sel j}"
      then have "nat a \<le> j div 8" "j div 8 < nat (b + 1)" using sel r by auto
      then have "8 * nat a \<le> j" "j < 8 * nat (b + 1)" by linarith+
      then show "j \<in> {j. 8 * nat a \<le> j \<and> j < 8 * nat (b + 1) \<and> bitAt data (int j) = 1}" using j by simp
    next
      fix j assume j: "j \<in> {j. 8 * nat a \<le> j \<and> j < 8 * nat (b + 1) \<and> bitAt data (int j) = 1}"
      then have "nat a \<le> j div 8" "j div 8 < nat (b + 1)" 
        by (simp_all add: less_eq_div_iff_mult_less_eq div_less_iff_less_mult mult.commute)
      then show "j \<in> {j. bitAt data (int j) = 1 \<and> j div 8 < length data \<and> ?sel j}"
        using j r sel [of j] by auto
    qed
    have "nat a \<le> nat (b + 1)" "nat (b + 1) \<le> length data" using r by linarith+
    from count_bytes [OF this] show ?thesis
      unfolding eq using False ab by (simp add: countBits_def foldl_count)
  qed
qed

end
