(* ===== verification/Hyperloglog.thy ===== *)
theory Hyperloglog
  imports Storage_Base
begin

text \<open>
  The register arithmetic of \<^verbatim>\<open>src/internal/storage/hyperloglog.go\<close>: hashing an element to a register
  and a rank, raising registers, validating a payload and merging registers.  Words are kept at their
  width.  Shown: every update keeps a payload valid, the reply says whether a register changed,
  updates commute and are idempotent, and merging the registers of two collections gives the
  registers of their union.  The floating-point estimator is not modelled.
\<close>

section \<open>Definitions\<close>

unbundle bit_operations_syntax

abbreviation hllIndexBits :: nat where "hllIndexBits \<equiv> 14"
abbreviation hllRegisterCount :: nat where "hllRegisterCount \<equiv> 16384"
abbreviation hllHeaderSize :: nat where "hllHeaderSize \<equiv> 16"
abbreviation hllValueSize :: nat where "hllValueSize \<equiv> 16400"
abbreviation hllDenseEncoding :: byte where "hllDenseEncoding \<equiv> 1"
abbreviation hllMaxRank :: nat where "hllMaxRank \<equiv> 51"

definition hllMagic :: bytes where
  "hllMagic = str ''RHLL''"

text \<open>\<^verbatim>\<open>fnv.New64a\<close>: the 64-bit FNV-1a hash of the standard library.\<close>

definition fnv64a :: "bytes \<Rightarrow> 64 word" where
  "fnv64a bs = foldl (\<lambda>h b. (h XOR ucast b) * 1099511628211) 14695981039346656037 bs"

definition mix64 :: "64 word \<Rightarrow> 64 word" where
  "mix64 s =
     (let s = s XOR drop_bit 33 s;
          s = s * 0xff51afd7ed558ccd;
          s = s XOR drop_bit 33 s;
          s = s * 0xc4ceb9fe1a85ec53
      in s XOR drop_bit 33 s)"

text \<open>\<^verbatim>\<open>bits.LeadingZeros64\<close>.\<close>

definition LeadingZeros64 :: "64 word \<Rightarrow> nat" where
  "LeadingZeros64 w = length (takeWhile (\<lambda>i. \<not> bit w i) (rev [0..<64]))"

definition hyperLogLogPosition :: "bytes \<Rightarrow> nat \<times> byte" where
  "hyperLogLogPosition element =
     (let s = mix64 (fnv64a element);
          index = unat (drop_bit (64 - hllIndexBits) s);
          rank = LeadingZeros64 (push_bit hllIndexBits s) + 1;
          rank = (if rank > hllMaxRank then hllMaxRank else rank)
      in (index, of_nat rank))"

fun updateHyperLogLogRegisters :: "bytes \<Rightarrow> bytes list \<Rightarrow> int \<Rightarrow> bytes \<times> int" where
  "updateHyperLogLogRegisters registers [] changed = (registers, changed)"
| "updateHyperLogLogRegisters registers (element # elements) changed =
     (case hyperLogLogPosition element of
        (index, rank) \<Rightarrow>
          if registers ! index < rank
          then updateHyperLogLogRegisters (registers[index := rank]) elements 1
          else updateHyperLogLogRegisters registers elements changed)"

definition newHyperLogLogPayload :: bytes where
  "newHyperLogLogPayload =
     (overwrite (replicate hllValueSize 0) 0 hllMagic)[length hllMagic := hllDenseEncoding]"

definition hyperLogLogRegisters :: "bytes \<Rightarrow> store_error + bytes" where
  "hyperLogLogRegisters data =
     (if length data \<noteq> hllValueSize \<or> take (length hllMagic) data \<noteq> hllMagic \<or>
         data ! length hllMagic \<noteq> hllDenseEncoding
      then Inl ErrNotHyperLogLog
      else
        let registers = drop hllHeaderSize data
        in if \<exists>rank \<in> set registers. rank > of_nat hllMaxRank then Inl ErrNotHyperLogLog
           else Inr registers)"

text \<open>The payload with its register part replaced: the registers alias the stored bytes.\<close>

definition withRegisters :: "bytes \<Rightarrow> bytes \<Rightarrow> bytes" where
  "withRegisters data registers = overwrite data hllHeaderSize registers"

text \<open>The loop of \<^verbatim>\<open>mergeHyperLogLogRegisters\<close>.\<close>

definition mergeRegisters :: "bytes \<Rightarrow> bytes \<Rightarrow> bytes" where
  "mergeRegisters merged registers =
     foldl (\<lambda>m i. if m ! i < registers ! i then m[i := registers ! i] else m) merged [0..<length registers]"

section \<open>Lemmas\<close>

lemma position_index: "fst (hyperLogLogPosition element) < hllRegisterCount"
proof -
  have "unat (drop_bit 50 (w :: 64 word)) < 16384" for w
  proof -
    have "unat (drop_bit 50 w) = unat w div 2 ^ 50" unfolding unat_drop_bit_eq by (rule drop_bit_eq_div)
    moreover have "unat w < 2 ^ 14 * 2 ^ 50" by (rule order_less_le_trans [OF unsigned_less]) simp
    ultimately show ?thesis by (simp add: div_less_iff_less_mult)
  qed
  then show ?thesis by (simp add: hyperLogLogPosition_def Let_def)
qed

lemma position_rank:
  "1 \<le> unat (snd (hyperLogLogPosition element)) \<and> unat (snd (hyperLogLogPosition element)) \<le> hllMaxRank"
  by (simp add: hyperLogLogPosition_def Let_def unat_of_nat)

text \<open>The rank the elements ask for at a register.\<close>

definition rank_at :: "bytes list \<Rightarrow> nat \<Rightarrow> byte" where
  "rank_at es i = foldr max (map snd (filter (\<lambda>p. fst p = i) (map hyperLogLogPosition es))) 0"

lemma rank_at_Nil [simp]: "rank_at [] i = 0"
  by (simp add: rank_at_def)

lemma rank_at_Cons:
  "rank_at (e # es) i = (if fst (hyperLogLogPosition e) = i then max (snd (hyperLogLogPosition e)) (rank_at es i) else rank_at es i)"
  by (simp add: rank_at_def)

lemma rank_at_append: "rank_at (xs @ ys) i = max (rank_at xs i) (rank_at ys i)"
  by (induction xs) (auto simp: rank_at_Cons max.assoc)

lemma rank_at_mem: "e \<in> set es \<Longrightarrow> snd (hyperLogLogPosition e) \<le> rank_at es (fst (hyperLogLogPosition e))"
  by (induction es) (auto simp: rank_at_Cons le_max_iff_disj)

lemma rank_at_bound: "rank_at es i \<le> of_nat hllMaxRank"
proof (induction es)
  case (Cons e es)
  have "snd (hyperLogLogPosition e) \<le> of_nat hllMaxRank"
    using position_rank [of e] by (simp add: word_le_nat_alt)
  then show ?case using Cons by (simp add: rank_at_Cons)
qed simp

lemma update_length: "length (fst (updateHyperLogLogRegisters regs es c)) = length regs"
  by (induction regs es c rule: updateHyperLogLogRegisters.induct) (simp_all split: prod.splits)

lemma update_nth:
  "length regs = hllRegisterCount \<Longrightarrow> i < hllRegisterCount \<Longrightarrow>
   fst (updateHyperLogLogRegisters regs es c) ! i = max (regs ! i) (rank_at es i)"
proof (induction es arbitrary: regs c)
  case (Cons e es)
  obtain j r where p: "hyperLogLogPosition e = (j, r)" by (cases "hyperLogLogPosition e")
  have j: "j < hllRegisterCount" using position_index [of e] p by simp
  show ?case
  proof (cases "regs ! j < r")
    case True
    then show ?thesis using Cons j p by (auto simp: rank_at_Cons nth_list_update max_def)
  next
    case False
    then show ?thesis using Cons p by (auto simp: rank_at_Cons max_def)
  qed
qed simp

lemma update_changed:
  "length regs = hllRegisterCount \<Longrightarrow>
   snd (updateHyperLogLogRegisters regs es c) = (if \<exists>e \<in> set es. regs ! fst (hyperLogLogPosition e) < snd (hyperLogLogPosition e) then 1 else c)"
proof (induction es arbitrary: regs c)
  case (Cons e es)
  obtain j r where p: "hyperLogLogPosition e = (j, r)" by (cases "hyperLogLogPosition e")
  show ?case
    using Cons.IH [of "regs[j := r]" 1] Cons.IH [of regs c] Cons.prems p by auto
qed simp

lemma update_fixed:
  assumes "length regs = hllRegisterCount"
  shows "fst (updateHyperLogLogRegisters regs es c) = regs \<longleftrightarrow>
         \<not> (\<exists>e \<in> set es. regs ! fst (hyperLogLogPosition e) < snd (hyperLogLogPosition e))"
proof
  assume eq: "fst (updateHyperLogLogRegisters regs es c) = regs"
  show "\<not> (\<exists>e \<in> set es. regs ! fst (hyperLogLogPosition e) < snd (hyperLogLogPosition e))"
  proof
    assume "\<exists>e \<in> set es. regs ! fst (hyperLogLogPosition e) < snd (hyperLogLogPosition e)"
    then obtain e where e: "e \<in> set es" "regs ! fst (hyperLogLogPosition e) < snd (hyperLogLogPosition e)" by blast
    have "regs ! fst (hyperLogLogPosition e) = max (regs ! fst (hyperLogLogPosition e)) (rank_at es (fst (hyperLogLogPosition e)))"
      using update_nth [OF assms position_index, of es c e] eq by simp
    then have "rank_at es (fst (hyperLogLogPosition e)) \<le> regs ! fst (hyperLogLogPosition e)" by (metis max.cobounded2)
    then show False using rank_at_mem [OF e(1)] e(2) by simp
  qed
next
  assume "\<not> (\<exists>e \<in> set es. regs ! fst (hyperLogLogPosition e) < snd (hyperLogLogPosition e))"
  then show "fst (updateHyperLogLogRegisters regs es c) = regs"
    by (induction regs es c rule: updateHyperLogLogRegisters.induct) (auto split: prod.splits)
qed

lemma merge_gen:
  fixes m rs :: bytes
  shows "length m = length rs \<Longrightarrow> k \<le> length rs \<Longrightarrow>
   length (foldl (\<lambda>m i. if m ! i < rs ! i then m[i := rs ! i] else m) m [0..<k]) = length rs \<and>
   (\<forall>i < length rs. foldl (\<lambda>m i. if m ! i < rs ! i then m[i := rs ! i] else m) m [0..<k] ! i =
      (if i < k then max (m ! i) (rs ! i) else m ! i))"
proof (induction k)
  case (Suc k)
  then show ?case by (auto simp: nth_list_update less_Suc_eq max.absorb1 max.absorb2 not_less)
qed simp

lemma merge_nth:
  "length m = length rs \<Longrightarrow> length (mergeRegisters m rs) = length rs"
  "length m = length rs \<Longrightarrow> i < length rs \<Longrightarrow> mergeRegisters m rs ! i = max (m ! i) (rs ! i)"
  using merge_gen [of m rs "length rs"] by (simp_all add: mergeRegisters_def)

lemma withRegisters_ok:
  assumes "hyperLogLogRegisters data = Inr regs" "length regs' = hllRegisterCount"
    "\<forall>r \<in> set regs'. r \<le> of_nat hllMaxRank"
  shows "hyperLogLogRegisters (withRegisters data regs') = Inr regs'"
    "length regs = hllRegisterCount" "\<forall>r \<in> set regs. r \<le> of_nat hllMaxRank"
proof -
  have magic: "length hllMagic = 4" by (simp add: hllMagic_def str_def)
  have d: "length data = hllValueSize" "take 4 data = hllMagic" "data ! 4 = hllDenseEncoding" "regs = drop hllHeaderSize data"
    "\<forall>r \<in> set regs. \<not> r > of_nat hllMaxRank"
    using assms(1) by (auto simp: hyperLogLogRegisters_def magic Let_def split: if_splits)
  show "length regs = hllRegisterCount" "\<forall>r \<in> set regs. r \<le> of_nat hllMaxRank" using d by (auto simp: not_less)
  have "withRegisters data regs' = take 16 data @ regs'" using d(1) assms(2) by (simp add: withRegisters_def overwrite_def)
  then show "hyperLogLogRegisters (withRegisters data regs') = Inr regs'"
    using d assms(2,3) by (auto simp: hyperLogLogRegisters_def magic nth_append Let_def not_less min_def)
qed

lemma new_payload: "hyperLogLogRegisters newHyperLogLogPayload = Inr (replicate hllRegisterCount 0)"
proof -
  have z: "replicate 16396 0 = (0 :: byte) # replicate 11 0 @ replicate 16384 0"
    by (simp flip: replicate_add replicate_Suc)
  have eq: "newHyperLogLogPayload = [82, 72, 76, 76, 1] @ replicate 11 0 @ replicate 16384 0"
    by (simp add: newHyperLogLogPayload_def overwrite_def hllMagic_def str_def z del: replicate.simps)
  show ?thesis unfolding eq by (simp add: hyperLogLogRegisters_def hllMagic_def str_def Let_def)
qed

section \<open>Properties\<close>

text \<open>Adding elements to a valid HyperLogLog value keeps it valid, raises every register to at least the
  rank of each element that falls on it and no further, and replies 1 exactly when some register changed;
  adding the same elements again changes nothing.\<close>

theorem pfadd_registers:
  assumes "hyperLogLogRegisters data = Inr regs" "updateHyperLogLogRegisters regs elements 0 = (regs', changed)"
  shows "hyperLogLogRegisters (withRegisters data regs') = Inr regs' \<and>
         (\<forall>i < hllRegisterCount. regs' ! i = max (regs ! i) (rank_at elements i)) \<and>
         changed = (if regs' = regs then 0 else 1) \<and>
         updateHyperLogLogRegisters regs' elements 0 = (regs', 0)"
proof -
  have regs: "length regs = hllRegisterCount" "\<forall>r \<in> set regs. r \<le> of_nat hllMaxRank"
    using withRegisters_ok(2,3) [OF assms(1), of "replicate hllRegisterCount 0"] by auto
  have len: "length regs' = hllRegisterCount" using update_length [of regs elements 0] regs assms(2) by simp
  have nth: "\<forall>i < hllRegisterCount. regs' ! i = max (regs ! i) (rank_at elements i)"
    using update_nth [OF regs(1), of _ elements 0] assms(2) by simp
  have "\<forall>r \<in> set regs'. r \<le> of_nat hllMaxRank"
    using nth regs len rank_at_bound [of elements] by (auto simp: in_set_conv_nth) (metis max_def nth_mem)
  then have ok: "hyperLogLogRegisters (withRegisters data regs') = Inr regs'"
    using withRegisters_ok(1) [OF assms(1) len] by blast
  have ch: "changed = (if regs' = regs then 0 else 1)"
    using update_changed [OF regs(1), of elements 0] update_fixed [OF regs(1), of elements 0] assms(2) by auto
  have "\<not> (\<exists>e \<in> set elements. regs' ! fst (hyperLogLogPosition e) < snd (hyperLogLogPosition e))"
  proof
    assume "\<exists>e \<in> set elements. regs' ! fst (hyperLogLogPosition e) < snd (hyperLogLogPosition e)"
    then obtain e where e: "e \<in> set elements" "regs' ! fst (hyperLogLogPosition e) < snd (hyperLogLogPosition e)" by blast
    then have "rank_at elements (fst (hyperLogLogPosition e)) < snd (hyperLogLogPosition e)"
      using nth position_index [of e] by simp
    then show False using rank_at_mem [OF e(1)] by (simp add: not_le [symmetric])
  qed
  then have "updateHyperLogLogRegisters regs' elements 0 = (regs', 0)"
    using update_fixed [OF len, of elements 0] update_changed [OF len, of elements 0] by (metis prod.collapse)
  then show ?thesis using ok nth ch by blast
qed

theorem pfadd_registers_witness:
  "\<exists>regs' changed. updateHyperLogLogRegisters (replicate hllRegisterCount 0) [str ''a''] 0 = (regs', changed) \<and>
     hyperLogLogRegisters (withRegisters newHyperLogLogPayload regs') = Inr regs'"
proof -
  obtain regs' changed where u: "updateHyperLogLogRegisters (replicate hllRegisterCount 0) [str ''a''] 0 = (regs', changed)"
    by fastforce
  then show ?thesis using pfadd_registers [OF new_payload u] by blast
qed

text \<open>Merging registers is union: the registers of two collections of elements, merged as \<^verbatim>\<open>PFCOUNT\<close> does
  over several keys, are the registers of the collections taken together, in whatever order and however
  often the elements were added.\<close>

theorem pfcount_merge_is_union:
  "mergeRegisters (fst (updateHyperLogLogRegisters (replicate hllRegisterCount 0) xs 0))
                  (fst (updateHyperLogLogRegisters (replicate hllRegisterCount 0) ys 0)) =
   fst (updateHyperLogLogRegisters (replicate hllRegisterCount 0) (xs @ ys) 0)"
proof -
  let ?r = "\<lambda>es. fst (updateHyperLogLogRegisters (replicate hllRegisterCount 0) es 0)"
  have len: "length (?r es) = hllRegisterCount" for es by (simp add: update_length)
  have nth: "?r es ! i = rank_at es i" if "i < hllRegisterCount" for es i
    using update_nth [of "replicate hllRegisterCount 0" i es 0] that by simp
  show ?thesis
  proof (rule nth_equalityI)
    fix i assume "i < length (mergeRegisters (?r xs) (?r ys))"
    then have "i < hllRegisterCount" using merge_nth(1) [of "?r xs" "?r ys"] len by simp
    then show "mergeRegisters (?r xs) (?r ys) ! i = ?r (xs @ ys) ! i"
      using merge_nth(2) [of "?r xs" "?r ys" i] len nth by (simp add: rank_at_append)
  qed (simp add: merge_nth(1) len)
qed

end
