(* ===== verification/Store_Ops.thy ===== *)
theory Store_Ops
  imports Key_Paths Bitmap Hyperloglog
begin

text \<open>
  The operations of the store: \<^verbatim>\<open>src/internal/storage/store.go\<close>, \<^verbatim>\<open>hash.go\<close>, \<^verbatim>\<open>set.go\<close>, and the store side of
  \<^verbatim>\<open>bitmap.go\<close> and \<^verbatim>\<open>hyperloglog.go\<close>.  A function literal the code passes to \<^verbatim>\<open>readKey\<close> or \<^verbatim>\<open>writeKey\<close>
  is a definition of its own (suffix \<open>_fn\<close>), which instantiates the locale of its path.  A copy of bytes is the
  same value.  Clock readings of a call: 0 on entry, 1 the second reading under the lock, 2 the one a value
  constructor takes.
\<close>

section \<open>Strings\<close>

definition Set_fn :: "Env \<Rightarrow> bytes \<Rightarrow> int \<Rightarrow> keyWrite \<Rightarrow> Store \<Rightarrow> Store \<times> (store_error + unit \<times> bytes list)" where
  "Set_fn env data expiresAt w s = commit_then () (commit env w (newStringValue data expiresAt (env_clock env 2)) s)"

definition Set :: "Env \<Rightarrow> Store \<Rightarrow> bytes \<Rightarrow> bytes \<Rightarrow> int \<Rightarrow> Store \<times> (store_error + unit \<times> bytes list)" where
  "Set env s key data expiresAt = writeKey env s key (Set_fn env data expiresAt)"

definition withStringValue :: "Env \<Rightarrow> Store \<Rightarrow> bytes \<Rightarrow> (bytes \<Rightarrow> store_error + 'a) \<Rightarrow> Store \<times> (store_error + 'a option)" where
  "withStringValue env s key fn =
     readKey env s key (\<lambda>v. case StringValue v of Inl e \<Rightarrow> Inl e | Inr data \<Rightarrow> fn data)"

definition Get :: "Env \<Rightarrow> Store \<Rightarrow> bytes \<Rightarrow> Store \<times> (store_error + bytes option)" where
  "Get env s key = withStringValue env s key (\<lambda>data. Inr data)"

definition Delete :: "Env \<Rightarrow> Store \<Rightarrow> bytes \<Rightarrow> Store \<times> bool" where
  "Delete env s key =
     (let i = shardIndex s key in
      case data_get s i key of
        Some v \<Rightarrow>
          if isExpired v (env_clock env 0) then (fst (deleteKeyLocked s i key), False)
          else (fst (deleteKeyLocked s i key), True)
      | None \<Rightarrow> (fst (deleteKeyLocked s i key), False))"

text \<open>Keys grouped by shard, by counting.\<close>

record shardKeyGroups =
  g_counts :: "nat list"
  g_offsets :: "nat list"
  g_keys :: "bytes list"

fun group_offsets :: "nat list \<Rightarrow> nat \<Rightarrow> nat list" where
  "group_offsets [] acc = []"
| "group_offsets (c # cs) acc = acc # group_offsets cs (acc + c)"

fun group_place :: "(bytes \<Rightarrow> nat) \<Rightarrow> bytes list \<Rightarrow> nat list \<Rightarrow> bytes list \<Rightarrow> bytes list" where
  "group_place idx [] nexts grouped = grouped"
| "group_place idx (key # keys) nexts grouped =
     group_place idx keys (nexts[idx key := nexts ! idx key + 1]) (grouped[nexts ! idx key := key])"

definition groupKeysByShard :: "Store \<Rightarrow> bytes list \<Rightarrow> shardKeyGroups" where
  "groupKeysByShard s keys =
     (let counts = foldl (\<lambda>c key. c[shardIndex s key := c ! shardIndex s key + 1]) (replicate (length (sr_shards s)) 0) keys;
          offsets = group_offsets counts 0
      in \<lparr>g_counts = counts, g_offsets = offsets,
          g_keys = group_place (shardIndex s) keys offsets (replicate (length keys) [])\<rparr>)"

definition keysForShard :: "shardKeyGroups \<Rightarrow> nat \<Rightarrow> bytes list" where
  "keysForShard g i = slice (g_keys g) (g_offsets g ! i) (g_counts g ! i)"

fun deleteMany_shard :: "Store \<Rightarrow> nat \<Rightarrow> int \<Rightarrow> bytes list \<Rightarrow> bytes list \<Rightarrow> Store \<times> bytes list" where
  "deleteMany_shard s i now [] removed = (s, removed)"
| "deleteMany_shard s i now (key # keys) removed =
     (case data_get s i key of
        None \<Rightarrow> deleteMany_shard s i now keys removed
      | Some v \<Rightarrow>
          if isExpired v now then deleteMany_shard (fst (deleteKeyLocked s i key)) i now keys removed
          else deleteMany_shard (fst (deleteKeyLocked s i key)) i now keys (removed @ [key]))"

fun deleteMany_shards :: "Store \<Rightarrow> shardKeyGroups \<Rightarrow> int \<Rightarrow> nat list \<Rightarrow> bytes list \<Rightarrow> Store \<times> bytes list" where
  "deleteMany_shards s g now [] removed = (s, removed)"
| "deleteMany_shards s g now (i # rest) removed =
     (if g_counts g ! i = 0 then deleteMany_shards s g now rest removed
      else case deleteMany_shard s i now (keysForShard g i) removed of
        (s, removed) \<Rightarrow> deleteMany_shards s g now rest removed)"

definition DeleteMany :: "Env \<Rightarrow> Store \<Rightarrow> bytes list \<Rightarrow> Store \<times> bytes list" where
  "DeleteMany env s keys =
     (case keys of
        [] \<Rightarrow> (s, [])
      | [key] \<Rightarrow> (case Delete env s key of (s, ok) \<Rightarrow> (s, if ok then [key] else []))
      | _ \<Rightarrow> deleteMany_shards s (groupKeysByShard s keys) (env_clock env 0) [0..<length (sr_shards s)] [])"

definition Increment_fn :: "Env \<Rightarrow> keyWrite \<Rightarrow> Store \<Rightarrow> Store \<times> (store_error + int \<times> bytes list)" where
  "Increment_fn env w s =
     (case kw_current w of
        None \<Rightarrow> commit_then 1 (commit env w (newOwnedStringValue (str ''1'') 0 (env_clock env 2)) s)
      | Some current \<Rightarrow>
          (case StringValue current of
             Inl e \<Rightarrow> (s, Inl e)
           | Inr currentValue \<Rightarrow>
               (case ParseInt currentValue of
                  None \<Rightarrow> (s, Inl ErrValueNotInteger)
                | Some parsed \<Rightarrow>
                    if parsed = 2 ^ 63 - 1 then (s, Inl ErrValueNotInteger)
                    else
                      let nexts = formatInt (parsed + 1) in
                      if \<not> kw_accounting w then
                        (mutate s (shardIndex s (kw_key w)) (kw_key w) (touch (current\<lparr>vo_String := nexts\<rparr>) (kw_now w)),
                         Inr (parsed + 1, []))
                      else
                        commit_then (parsed + 1)
                          (commit env w (touch (newOwnedStringValue nexts (vo_ExpiresAt current) (env_clock env 2)) (kw_now w)) s))))"

definition Increment :: "Env \<Rightarrow> Store \<Rightarrow> bytes \<Rightarrow> Store \<times> (store_error + int \<times> bytes list)" where
  "Increment env s key = writeKey env s key (Increment_fn env)"

section \<open>Bitmaps and HyperLogLogs\<close>

definition GetBit :: "Env \<Rightarrow> Store \<Rightarrow> bytes \<Rightarrow> int \<Rightarrow> Store \<times> (store_error + int option)" where
  "GetBit env s key offset =
     (case validateBitmapOffset offset of
        Some e \<Rightarrow> (s, Inl e)
      | None \<Rightarrow> readKey env s key (\<lambda>v. case StringValue v of Inl e \<Rightarrow> Inl e | Inr data \<Rightarrow> Inr (bitAt data offset)))"

definition SetBit_fn :: "Env \<Rightarrow> int \<Rightarrow> int \<Rightarrow> keyWrite \<Rightarrow> Store \<Rightarrow> Store \<times> (store_error + int \<times> bytes list)" where
  "SetBit_fn env offset b w s =
     (case (case kw_current w of
              None \<Rightarrow> Inr ([], 0)
            | Some current \<Rightarrow> (case StringValue current of Inl e \<Rightarrow> Inl e | Inr data \<Rightarrow> Inr (data, vo_ExpiresAt current))) of
        Inl e \<Rightarrow> (s, Inl e)
      | Inr (data, expiresAt) \<Rightarrow>
          let previous = bitAt data offset; i = byteIndex offset; msk = bitMask offset in
          if i < length data \<and> \<not> kw_accounting w then
            (mutate s (shardIndex s (kw_key w)) (kw_key w)
               (touch ((the (kw_current w))\<lparr>vo_String := data[i := setBitInByte (data ! i) msk b]\<rparr>) (kw_now w)),
             Inr (previous, []))
          else
            commit_then previous
              (commitString env w (max (i + 1) (length data)) expiresAt
                 (\<lambda>payload. let payload = overwrite payload 0 data in payload[i := setBitInByte (payload ! i) msk b]) s))"

definition SetBit :: "Env \<Rightarrow> Store \<Rightarrow> bytes \<Rightarrow> int \<Rightarrow> int \<Rightarrow> Store \<times> (store_error + int \<times> bytes list)" where
  "SetBit env s key offset b =
     (case validateBitmapArguments offset b of
        Some e \<Rightarrow> (s, Inl e)
      | None \<Rightarrow> writeKey env s key (SetBit_fn env offset b))"

definition BitCount :: "Env \<Rightarrow> Store \<Rightarrow> bytes \<Rightarrow> int option \<Rightarrow> int option \<Rightarrow> Store \<times> (store_error + int option)" where
  "BitCount env s key start stop =
     readKey env s key (\<lambda>v. case StringValue v of Inl e \<Rightarrow> Inl e | Inr data \<Rightarrow> Inr (countBits data start stop))"

definition PFAdd_fn :: "Env \<Rightarrow> bytes list \<Rightarrow> keyWrite \<Rightarrow> Store \<Rightarrow> Store \<times> (store_error + int \<times> bytes list)" where
  "PFAdd_fn env elements w s =
     (case kw_current w of
        None \<Rightarrow>
          let payload = newHyperLogLogPayload;
              payload = withRegisters payload (fst (updateHyperLogLogRegisters (drop hllHeaderSize payload) elements 0))
          in commit_then 1 (commit env w (touch (newOwnedStringValue payload 0 (env_clock env 2)) (kw_now w)) s)
      | Some current \<Rightarrow>
          (case StringValue current of
             Inl e \<Rightarrow> (s, Inl e)
           | Inr data \<Rightarrow>
               (case hyperLogLogRegisters data of
                  Inl e \<Rightarrow> (s, Inl e)
                | Inr registers \<Rightarrow>
                    (case updateHyperLogLogRegisters registers elements 0 of
                       (registers, changed) \<Rightarrow>
                         (mutate s (shardIndex s (kw_key w)) (kw_key w)
                            (touch (current\<lparr>vo_String := withRegisters data registers\<rparr>) (kw_now w)),
                          Inr (changed, []))))))"

definition PFAdd :: "Env \<Rightarrow> Store \<Rightarrow> bytes \<Rightarrow> bytes list \<Rightarrow> Store \<times> (store_error + int \<times> bytes list)" where
  "PFAdd env s key elements = writeKey env s key (PFAdd_fn env elements)"

definition mergeHyperLogLogRegisters :: "Env \<Rightarrow> Store \<Rightarrow> bytes \<Rightarrow> bytes \<Rightarrow> Store \<times> (store_error + bytes)" where
  "mergeHyperLogLogRegisters env s key merged =
     (case withStringValue env s key
             (\<lambda>data. case hyperLogLogRegisters data of Inl e \<Rightarrow> Inl e | Inr registers \<Rightarrow> Inr (mergeRegisters merged registers)) of
        (s, Inl e) \<Rightarrow> (s, Inl e)
      | (s, Inr None) \<Rightarrow> (s, Inr merged)
      | (s, Inr (Some merged)) \<Rightarrow> (s, Inr merged))"

text \<open>The loop of \<^verbatim>\<open>PFCount\<close>: the registers of the union, from which the estimate is computed.  Each key
  is read by a call of its own.\<close>

fun PFCount_registers :: "Env list \<Rightarrow> Store \<Rightarrow> bytes list \<Rightarrow> bytes \<Rightarrow> Store \<times> (store_error + bytes)" where
  "PFCount_registers (env # envs) s (key # keys) merged =
     (case mergeHyperLogLogRegisters env s key merged of
        (s, Inl e) \<Rightarrow> (s, Inl e)
      | (s, Inr merged) \<Rightarrow> PFCount_registers envs s keys merged)"
| "PFCount_registers envs s keys merged = (s, Inr merged)"

section \<open>Lists\<close>

definition pushList_fn :: "Env \<Rightarrow> bytes list \<Rightarrow> bool \<Rightarrow> keyWrite \<Rightarrow> Store \<Rightarrow> Store \<times> (store_error + int \<times> bytes list)" where
  "pushList_fn env values left w s =
     (case (case kw_current w of
              None \<Rightarrow> Inr ([], 0)
            | Some current \<Rightarrow> (case ListValue current of Inl e \<Rightarrow> Inl e | Inr l \<Rightarrow> Inr (l, vo_ExpiresAt current))) of
        Inl e \<Rightarrow> (s, Inl e)
      | Inr (l, expiresAt) \<Rightarrow>
          let l = (if left then rev values @ l else l @ values)
          in commit_then (int (length l)) (commit env w (newListValue l expiresAt (env_clock env 2)) s))"

definition pushList :: "Env \<Rightarrow> Store \<Rightarrow> bytes \<Rightarrow> bytes list \<Rightarrow> bool \<Rightarrow> Store \<times> (store_error + int \<times> bytes list)" where
  "pushList env s key values left =
     (if values = [] then (s, Inl ErrSyntax)
      else
        case writeKey env s key (pushList_fn env values left) of
          (s, Inl e) \<Rightarrow> (s, Inl e)
        | (s, Inr r) \<Rightarrow> (s\<lparr>sr_waiters := notifyOne (sr_waiters s) key\<rparr>, Inr r))"

definition LeftPush :: "Env \<Rightarrow> Store \<Rightarrow> bytes \<Rightarrow> bytes list \<Rightarrow> Store \<times> (store_error + int \<times> bytes list)" where
  "LeftPush env s key values = pushList env s key values True"

definition RightPush :: "Env \<Rightarrow> Store \<Rightarrow> bytes \<Rightarrow> bytes list \<Rightarrow> Store \<times> (store_error + int \<times> bytes list)" where
  "RightPush env s key values = pushList env s key values False"

text \<open>The tail of an operation that takes elements out of a collection: the value was changed from \<open>v\<close> to
  \<open>v'\<close> where it lies, and its key goes when nothing is left.\<close>

definition finishRemoval :: "Store \<Rightarrow> bytes \<Rightarrow> ValueObject \<Rightarrow> ValueObject \<Rightarrow> bool \<Rightarrow> Store" where
  "finishRemoval s key v v' none_left =
     (let i = shardIndex s key;
          accounting = maxMemoryEnabled s;
          oldSize = (if accounting then approximateValueObjectSize key (Some v) else 0);
          s = mutate s i key v'
      in if none_left then fst (deleteKeyWithSizeLocked s i key oldSize)
         else if accounting then s\<lparr>sr_usedMemory := sr_usedMemory s + (approximateValueObjectSize key (Some v') - oldSize)\<rparr>
         else s)"

text \<open>The pops share their shape; \<open>split\<close> takes the popped items off a list that is not empty.\<close>

definition popWith :: "Env \<Rightarrow> Store \<Rightarrow> bytes \<Rightarrow> (bytes list \<Rightarrow> 'a \<times> bytes list) \<Rightarrow> Store \<times> (store_error + 'a option)" where
  "popWith env s key split =
     (case prepareExistingValueLocked s key (env_clock env 0) of
        (s, None) \<Rightarrow> (s, Inr None)
      | (s, Some v) \<Rightarrow>
          (case ListValue v of
             Inl e \<Rightarrow> (s, Inl e)
           | Inr l \<Rightarrow>
               if l = [] then (fst (deleteKeyLocked s (shardIndex s key) key), Inr None)
               else
                 case split l of
                   (popped, l) \<Rightarrow>
                     (finishRemoval s key v (touch (v\<lparr>vo_List := l\<rparr>) (env_clock env 1)) (l = []), Inr (Some popped))))"

definition LeftPop :: "Env \<Rightarrow> Store \<Rightarrow> bytes \<Rightarrow> Store \<times> (store_error + bytes option)" where
  "LeftPop env s key = popWith env s key (\<lambda>l. (l ! 0, drop 1 l))"

definition RightPop :: "Env \<Rightarrow> Store \<Rightarrow> bytes \<Rightarrow> Store \<times> (store_error + bytes option)" where
  "RightPop env s key = popWith env s key (\<lambda>l. (l ! (length l - 1), take (length l - 1) l))"

definition popN :: "Env \<Rightarrow> Store \<Rightarrow> bytes \<Rightarrow> int \<Rightarrow> bool \<Rightarrow> Store \<times> (store_error + bytes list option)" where
  "popN env s key cnt left =
     (if cnt < 0 then (s, Inl ErrSyntax)
      else
        popWith env s key
          (\<lambda>l. let n = nat (if cnt < int (length l) then cnt else int (length l)) in
               if left then (map (\<lambda>i. l ! i) [0..<n], drop n l)
               else (map (\<lambda>i. l ! (length l - 1 - i)) [0..<n], take (length l - n) l)))"

definition ListRange :: "Env \<Rightarrow> Store \<Rightarrow> bytes \<Rightarrow> int \<Rightarrow> int \<Rightarrow> Store \<times> (store_error + bytes list)" where
  "ListRange env s key start stop =
     (case readKey env s key (\<lambda>v. case ListValue v of Inl e \<Rightarrow> Inl e | Inr l \<Rightarrow> Inr (select_range l start stop)) of
        (s, Inl e) \<Rightarrow> (s, Inl e)
      | (s, Inr None) \<Rightarrow> (s, Inr [])
      | (s, Inr (Some values)) \<Rightarrow> (s, Inr values))"

section \<open>Sorted sets\<close>

definition ZAdd_fn :: "Env \<Rightarrow> zentry list \<Rightarrow> keyWrite \<Rightarrow> Store \<Rightarrow> Store \<times> (store_error + nat \<times> bytes list)" where
  "ZAdd_fn env es w s =
     (case (case kw_current w of
              Some current \<Rightarrow>
                (case (if kw_accounting w then cloneZSetValue (env_coin env) current (vo_ExpiresAt current) (env_clock env 2)
                       else Inr current) of
                   Inl e \<Rightarrow> Inl e
                 | Inr newValue \<Rightarrow> zsetAdd (env_coin env) newValue es)
            | None \<Rightarrow>
                let newValue = newZSetValueForEntries (env_coin env) es 0 (env_clock env 2)
                in (case zsetLen newValue of Inl e \<Rightarrow> Inl e | Inr newLen \<Rightarrow> Inr (newValue, newLen))) of
        Inl e \<Rightarrow> (s, Inl e)
      | Inr (newValue, added) \<Rightarrow> commit_then added (commit env w (touch newValue (kw_now w)) s))"

definition ZAdd :: "Env \<Rightarrow> Store \<Rightarrow> bytes \<Rightarrow> zentry list \<Rightarrow> Store \<times> (store_error + nat \<times> bytes list)" where
  "ZAdd env s key es = (if es = [] then (s, Inl ErrSyntax) else writeKey env s key (ZAdd_fn env es))"

fun zscores_loop :: "ValueObject \<Rightarrow> bytes list \<Rightarrow> store_error + float64 option list" where
  "zscores_loop v [] = Inr []"
| "zscores_loop v (m # ms) =
     (case zsetScore v m of
        Inl e \<Rightarrow> Inl e
      | Inr score \<Rightarrow> (case zscores_loop v ms of Inl e \<Rightarrow> Inl e | Inr scores \<Rightarrow> Inr (score # scores)))"

definition ZScores :: "Env \<Rightarrow> Store \<Rightarrow> bytes \<Rightarrow> bytes list \<Rightarrow> Store \<times> (store_error + float64 option list)" where
  "ZScores env s key ms =
     (case readKey env s key (\<lambda>v. zscores_loop v ms) of
        (s, Inl e) \<Rightarrow> (s, Inl e)
      | (s, Inr None) \<Rightarrow> (s, Inr (replicate (length ms) None))
      | (s, Inr (Some scores)) \<Rightarrow> (s, Inr scores))"

definition ZRange_fn :: "int \<Rightarrow> int \<Rightarrow> ValueObject \<Rightarrow> store_error + zentry list" where
  "ZRange_fn start stop v =
     (case zsetLen v of
        Inl e \<Rightarrow> Inl e
      | Inr n \<Rightarrow>
          (case normalizeListRange n start stop of None \<Rightarrow> Inr [] | Some (lo, hi) \<Rightarrow> zsetRangeByRank v lo hi))"

definition ZRange :: "Env \<Rightarrow> Store \<Rightarrow> bytes \<Rightarrow> int \<Rightarrow> int \<Rightarrow> Store \<times> (store_error + zentry list)" where
  "ZRange env s key start stop =
     (case readKey env s key (ZRange_fn start stop) of
        (s, Inl e) \<Rightarrow> (s, Inl e)
      | (s, Inr None) \<Rightarrow> (s, Inr [])
      | (s, Inr (Some es)) \<Rightarrow> (s, Inr es))"

fun zranges_loop :: "ValueObject \<Rightarrow> ScoreRange list \<Rightarrow> store_error + zentry list" where
  "zranges_loop v [] = Inr []"
| "zranges_loop v (r # rs) =
     (case zsetRangeByScore v r of
        Inl e \<Rightarrow> Inl e
      | Inr ranged \<Rightarrow> (case zranges_loop v rs of Inl e \<Rightarrow> Inl e | Inr es \<Rightarrow> Inr (ranged @ es)))"

definition ZRangeByScores :: "Env \<Rightarrow> Store \<Rightarrow> bytes \<Rightarrow> ScoreRange list \<Rightarrow> Store \<times> (store_error + zentry list)" where
  "ZRangeByScores env s key rs =
     (case readKey env s key (\<lambda>v. zranges_loop v rs) of
        (s, Inl e) \<Rightarrow> (s, Inl e)
      | (s, Inr None) \<Rightarrow> (s, Inr [])
      | (s, Inr (Some es)) \<Rightarrow> (s, Inr es))"

section \<open>Streams\<close>

definition XAdd_fn :: "Env \<Rightarrow> bytes \<Rightarrow> bytes list \<Rightarrow> keyWrite \<Rightarrow> Store \<Rightarrow> Store \<times> (store_error + bytes \<times> bytes list)" where
  "XAdd_fn env rawID values w s =
     (case (case kw_current w of
              None \<Rightarrow> Inr (newStream, 0)
            | Some current \<Rightarrow>
                (case StreamValueOf current of
                   Inl e \<Rightarrow> Inl e
                 | Inr existing \<Rightarrow>
                     Inr (if kw_accounting w then cloneStreamValue existing else existing, vo_ExpiresAt current))) of
        Inl e \<Rightarrow> (s, Inl e)
      | Inr (stream, expiresAt) \<Rightarrow>
          (case st_add stream rawID values (kw_now w) of
             Inl e \<Rightarrow> (s, Inl e)
           | Inr (stream, sid) \<Rightarrow>
               commit_then sid (commit env w (touch (newStreamValue stream expiresAt (env_clock env 2)) (kw_now w)) s)))"

definition XAdd :: "Env \<Rightarrow> Store \<Rightarrow> bytes \<Rightarrow> bytes \<Rightarrow> bytes list \<Rightarrow> Store \<times> (store_error + bytes \<times> bytes list)" where
  "XAdd env s key rawID values =
     (if values = [] \<or> length values mod 2 \<noteq> 0 then (s, Inl ErrSyntax)
      else writeKey env s key (XAdd_fn env rawID values))"

definition XRead :: "Env \<Rightarrow> Store \<Rightarrow> bytes \<Rightarrow> bytes \<Rightarrow> Store \<times> (store_error + StreamEntry list)" where
  "XRead env s key rawID =
     (case readKey env s key (\<lambda>v. case StreamValueOf v of Inl e \<Rightarrow> Inl e | Inr stream \<Rightarrow> st_entriesAfter stream rawID) of
        (s, Inl e) \<Rightarrow> (s, Inl e)
      | (s, Inr None) \<Rightarrow> (s, Inr [])
      | (s, Inr (Some es)) \<Rightarrow> (s, Inr es))"

section \<open>Hashes and sets\<close>

definition HSet_fn :: "Env \<Rightarrow> (bytes \<times> bytes) list \<Rightarrow> keyWrite \<Rightarrow> Store \<Rightarrow> Store \<times> (store_error + nat \<times> bytes list)" where
  "HSet_fn env pairs w s =
     (case (case kw_current w of
              Some current \<Rightarrow>
                (case (if kw_accounting w then cloneHashValue current (vo_ExpiresAt current) (env_clock env 2) else Inr current) of
                   Inl e \<Rightarrow> Inl e
                 | Inr newValue \<Rightarrow> hashSet newValue pairs)
            | None \<Rightarrow>
                let newValue = newHashValueForPairs pairs 0 (env_clock env 2)
                in (case hashLen newValue of Inl e \<Rightarrow> Inl e | Inr newLen \<Rightarrow> Inr (newValue, newLen))) of
        Inl e \<Rightarrow> (s, Inl e)
      | Inr (newValue, added) \<Rightarrow> commit_then added (commit env w (touch newValue (kw_now w)) s))"

definition HSet :: "Env \<Rightarrow> Store \<Rightarrow> bytes \<Rightarrow> (bytes \<times> bytes) list \<Rightarrow> Store \<times> (store_error + nat \<times> bytes list)" where
  "HSet env s key pairs = (if pairs = [] then (s, Inl ErrSyntax) else writeKey env s key (HSet_fn env pairs))"

definition HGet :: "Env \<Rightarrow> Store \<Rightarrow> bytes \<Rightarrow> bytes \<Rightarrow> Store \<times> (store_error + bytes option)" where
  "HGet env s key f =
     (case readKey env s key (\<lambda>v. hashGet v f) of
        (s, Inl e) \<Rightarrow> (s, Inl e)
      | (s, Inr None) \<Rightarrow> (s, Inr None)
      | (s, Inr (Some result)) \<Rightarrow> (s, Inr result))"

definition HDel :: "Env \<Rightarrow> Store \<Rightarrow> bytes \<Rightarrow> bytes list \<Rightarrow> Store \<times> (store_error + nat)" where
  "HDel env s key fs =
     (if fs = [] then (s, Inl ErrSyntax)
      else
        case prepareExistingValueLocked s key (env_clock env 0) of
          (s, None) \<Rightarrow> (s, Inr 0)
        | (s, Some v) \<Rightarrow>
            (case hashDel v fs of
               Inl e \<Rightarrow> (s, Inl e)
             | Inr (v', removed) \<Rightarrow>
                 let v' = touch v' (env_clock env 1) in
                 case hashLen v' of
                   Inl e \<Rightarrow> (mutate s (shardIndex s key) key v', Inl e)
                 | Inr n \<Rightarrow> (finishRemoval s key v v' (n = 0), Inr removed)))"

definition HGetAll :: "Env \<Rightarrow> Store \<Rightarrow> bytes \<Rightarrow> Store \<times> (store_error + (bytes \<times> bytes) list)" where
  "HGetAll env s key =
     (case readKey env s key hashEntries of
        (s, Inl e) \<Rightarrow> (s, Inl e)
      | (s, Inr None) \<Rightarrow> (s, Inr [])
      | (s, Inr (Some es)) \<Rightarrow> (s, Inr es))"

definition SAdd_fn :: "Env \<Rightarrow> bytes list \<Rightarrow> keyWrite \<Rightarrow> Store \<Rightarrow> Store \<times> (store_error + nat \<times> bytes list)" where
  "SAdd_fn env ms w s =
     (case (case kw_current w of
              Some current \<Rightarrow>
                (case (if kw_accounting w then cloneSetValue current (vo_ExpiresAt current) (env_clock env 2) else Inr current) of
                   Inl e \<Rightarrow> Inl e
                 | Inr newValue \<Rightarrow> setAdd newValue ms)
            | None \<Rightarrow>
                let newValue = newSetValueForMembers ms 0 (env_clock env 2)
                in (case setLen newValue of Inl e \<Rightarrow> Inl e | Inr newLen \<Rightarrow> Inr (newValue, newLen))) of
        Inl e \<Rightarrow> (s, Inl e)
      | Inr (newValue, added) \<Rightarrow> commit_then added (commit env w (touch newValue (kw_now w)) s))"

definition SAdd :: "Env \<Rightarrow> Store \<Rightarrow> bytes \<Rightarrow> bytes list \<Rightarrow> Store \<times> (store_error + nat \<times> bytes list)" where
  "SAdd env s key ms = (if ms = [] then (s, Inl ErrSyntax) else writeKey env s key (SAdd_fn env ms))"

definition SIsMember :: "Env \<Rightarrow> Store \<Rightarrow> bytes \<Rightarrow> bytes \<Rightarrow> Store \<times> (store_error + bool)" where
  "SIsMember env s key m =
     (case readKey env s key (\<lambda>v. setContains v m) of
        (s, Inl e) \<Rightarrow> (s, Inl e)
      | (s, Inr None) \<Rightarrow> (s, Inr False)
      | (s, Inr (Some found)) \<Rightarrow> (s, Inr found))"

definition SRem :: "Env \<Rightarrow> Store \<Rightarrow> bytes \<Rightarrow> bytes list \<Rightarrow> Store \<times> (store_error + nat)" where
  "SRem env s key ms =
     (if ms = [] then (s, Inl ErrSyntax)
      else
        case prepareExistingValueLocked s key (env_clock env 0) of
          (s, None) \<Rightarrow> (s, Inr 0)
        | (s, Some v) \<Rightarrow>
            (case setRemove v ms of
               Inl e \<Rightarrow> (s, Inl e)
             | Inr (v', removed) \<Rightarrow>
                 let v' = touch v' (env_clock env 0) in
                 case setLen v' of
                   Inl e \<Rightarrow> (mutate s (shardIndex s key) key v', Inl e)
                 | Inr n \<Rightarrow> (finishRemoval s key v v' (n = 0), Inr removed)))"

definition SMembers :: "Env \<Rightarrow> Store \<Rightarrow> bytes \<Rightarrow> Store \<times> (store_error + bytes list)" where
  "SMembers env s key =
     (case readKey env s key setMembers of
        (s, Inl e) \<Rightarrow> (s, Inl e)
      | (s, Inr None) \<Rightarrow> (s, Inr [])
      | (s, Inr (Some ms)) \<Rightarrow> (s, Inr ms))"

section \<open>The whole keyspace\<close>

definition Len :: "Store \<Rightarrow> nat" where
  "Len s = foldl (\<lambda>t d. t + length d) 0 (sr_shards s)"

record SnapshotEntry =
  sn_Key :: bytes
  sn_Kind :: ValueKind
  sn_ExpiresAt :: int
  sn_String :: bytes
  sn_List :: "bytes list"
  sn_ZSet :: "zentry list"
  sn_Stream :: "StreamEntry list"
  sn_Hash :: "(bytes \<times> bytes) list"
  sn_Set :: "bytes list"

text \<open>The entry of one value, or None where the code skips it.\<close>

definition snapshot_entry :: "bytes \<Rightarrow> ValueObject \<Rightarrow> SnapshotEntry option" where
  "snapshot_entry key v =
     (let entry = \<lparr>sn_Key = key, sn_Kind = vo_Kind v, sn_ExpiresAt = vo_ExpiresAt v, sn_String = [], sn_List = [],
                   sn_ZSet = [], sn_Stream = [], sn_Hash = [], sn_Set = []\<rparr> in
      case vo_Kind v of
        ValueKindString \<Rightarrow> Some (entry\<lparr>sn_String := vo_String v\<rparr>)
      | ValueKindList \<Rightarrow> Some (entry\<lparr>sn_List := vo_List v\<rparr>)
      | ValueKindZSet \<Rightarrow>
          (case zsetLen v of
             Inl _ \<Rightarrow> None
           | Inr n \<Rightarrow>
               if n > 0 then
                 (case zsetRangeByRank v 0 (int n - 1) of Inl _ \<Rightarrow> None | Inr es \<Rightarrow> Some (entry\<lparr>sn_ZSet := es\<rparr>))
               else Some entry)
      | ValueKindStream \<Rightarrow>
          (case vo_Stream v of
             None \<Rightarrow> Some entry
           | Some st \<Rightarrow> Some (entry\<lparr>sn_Stream := map (\<lambda>r. \<lparr>se_ID = rec_idText r, se_Values = rec_values r\<rparr>) (st_entries st)\<rparr>))
      | ValueKindHash \<Rightarrow> (case hashEntries v of Inl _ \<Rightarrow> None | Inr es \<Rightarrow> Some (entry\<lparr>sn_Hash := es\<rparr>))
      | ValueKindSet \<Rightarrow>
          if vo_SetEncoding v = ValueEncodingCompact then
            (case setMembers v of Inl _ \<Rightarrow> None | Inr ms \<Rightarrow> Some (entry\<lparr>sn_Set := ms\<rparr>))
          else (case vo_Set v of None \<Rightarrow> None | Some ms \<Rightarrow> Some (entry\<lparr>sn_Set := ms\<rparr>)))"

record SnapshotStats =
  ss_TotalKeys :: nat
  ss_ExportedKeys :: nat
  ss_SkippedExpiredKeys :: nat

fun snapshot_loop :: "int \<Rightarrow> shard \<Rightarrow> SnapshotEntry list \<Rightarrow> SnapshotStats \<Rightarrow> SnapshotEntry list \<times> SnapshotStats" where
  "snapshot_loop now [] es stats = (es, stats)"
| "snapshot_loop now ((key, v) # rest) es stats =
     (if isExpired v now then snapshot_loop now rest es (stats\<lparr>ss_SkippedExpiredKeys := ss_SkippedExpiredKeys stats + 1\<rparr>)
      else case snapshot_entry key v of
        None \<Rightarrow> snapshot_loop now rest es stats
      | Some e \<Rightarrow> snapshot_loop now rest (es @ [e]) (stats\<lparr>ss_ExportedKeys := ss_ExportedKeys stats + 1\<rparr>))"

definition snapshotAllLocked :: "Store \<Rightarrow> int \<Rightarrow> SnapshotEntry list \<times> SnapshotStats" where
  "snapshotAllLocked s now =
     foldl (\<lambda>(es, stats) d. snapshot_loop now d es (stats\<lparr>ss_TotalKeys := ss_TotalKeys stats + length d\<rparr>))
       ([], \<lparr>ss_TotalKeys = 0, ss_ExportedKeys = 0, ss_SkippedExpiredKeys = 0\<rparr>) (sr_shards s)"

definition SnapshotAll :: "Env \<Rightarrow> Store \<Rightarrow> SnapshotEntry list \<times> SnapshotStats" where
  "SnapshotAll env s = snapshotAllLocked s (env_clock env 0)"

record StringSnapshotEntry =
  sse_Key :: bytes
  sse_Value :: bytes
  sse_ExpiresAt :: int

record StringSnapshotStats =
  sss_TotalKeys :: nat
  sss_ExportedKeys :: nat
  sss_SkippedExpiredKeys :: nat
  sss_SkippedUnsupportedKeys :: nat

fun strings_loop :: "int \<Rightarrow> shard \<Rightarrow> StringSnapshotEntry list \<Rightarrow> StringSnapshotStats \<Rightarrow>
    StringSnapshotEntry list \<times> StringSnapshotStats" where
  "strings_loop now [] es stats = (es, stats)"
| "strings_loop now ((key, v) # rest) es stats =
     (if isExpired v now then strings_loop now rest es (stats\<lparr>sss_SkippedExpiredKeys := sss_SkippedExpiredKeys stats + 1\<rparr>)
      else if vo_Kind v \<noteq> ValueKindString then
        strings_loop now rest es (stats\<lparr>sss_SkippedUnsupportedKeys := sss_SkippedUnsupportedKeys stats + 1\<rparr>)
      else strings_loop now rest (es @ [\<lparr>sse_Key = key, sse_Value = vo_String v, sse_ExpiresAt = vo_ExpiresAt v\<rparr>])
        (stats\<lparr>sss_ExportedKeys := sss_ExportedKeys stats + 1\<rparr>))"

definition SnapshotStrings :: "Env \<Rightarrow> Store \<Rightarrow> StringSnapshotEntry list \<times> StringSnapshotStats" where
  "SnapshotStrings env s =
     foldl (\<lambda>(es, stats) d. strings_loop (env_clock env 0) d es (stats\<lparr>sss_TotalKeys := sss_TotalKeys stats + length d\<rparr>))
       ([], \<lparr>sss_TotalKeys = 0, sss_ExportedKeys = 0, sss_SkippedExpiredKeys = 0, sss_SkippedUnsupportedKeys = 0\<rparr>)
       (sr_shards s)"

definition ReplaceWith :: "Env \<Rightarrow> Store \<Rightarrow> Store \<Rightarrow> Store" where
  "ReplaceWith env s other =
     (let replacement = foldl (\<lambda>sh (key, v). sh[shardIndex s key := gm_set (sh ! shardIndex s key) key v])
            (newShards (int (length (sr_shards s)))) (concat (sr_shards other));
          s = recalculateKeyStatsLocked (s\<lparr>sr_shards := replacement\<rparr>);
          s = (if maxMemoryEnabled s then fst (recalculateUsedMemoryLocked s (env_clock env 0)) else s)
      in publishExpiredKeys s)"

section \<open>Background expiry\<close>

definition snapshotKeys :: "Store \<Rightarrow> int \<Rightarrow> nat \<Rightarrow> bytes list" where
  "snapshotKeys s cap nano = sampleKeysLocked s cap nano"

fun evictExpired_shard :: "Store \<Rightarrow> nat \<Rightarrow> int \<Rightarrow> bytes list \<Rightarrow> bytes list \<Rightarrow> Store \<times> bytes list" where
  "evictExpired_shard s i now [] expired = (s, expired)"
| "evictExpired_shard s i now (key # keys) expired =
     (case data_get s i key of
        None \<Rightarrow> evictExpired_shard s i now keys expired
      | Some v \<Rightarrow>
          if isExpired v now then evictExpired_shard (fst (deleteKeyLocked s i key)) i now keys (expired @ [key])
          else evictExpired_shard s i now keys expired)"

fun evictExpired_shards :: "Store \<Rightarrow> shardKeyGroups \<Rightarrow> int \<Rightarrow> nat list \<Rightarrow> bytes list \<Rightarrow> Store \<times> bytes list" where
  "evictExpired_shards s g now [] expired = (s, expired)"
| "evictExpired_shards s g now (i # rest) expired =
     (if g_counts g ! i = 0 then evictExpired_shards s g now rest expired
      else case evictExpired_shard s i now (keysForShard g i) expired of
        (s, expired) \<Rightarrow> evictExpired_shards s g now rest expired)"

text \<open>The sample is taken under locks that are released before the locks of the sampled keys' shards are taken, so the second half of
  \<^verbatim>\<open>evictExpiredSample\<close> may meet a store that others have changed since: it is an operation of its own.\<close>

definition evictExpiredKeys :: "Store \<Rightarrow> int \<Rightarrow> bytes list \<Rightarrow> Store \<times> bytes list" where
  "evictExpiredKeys s now keys =
     (case keys of
        [] \<Rightarrow> (s, [])
      | [key] \<Rightarrow>
          let i = shardIndex s key in
          (case data_get s i key of
             None \<Rightarrow> (s, [])
           | Some v \<Rightarrow>
               if isExpired v now then (noteExpiredKeysLocked (fst (deleteKeyLocked s i key)) keys, keys) else (s, []))
      | _ \<Rightarrow>
          (case evictExpired_shards s (groupKeysByShard s keys) now [0..<length (sr_shards s)] [] of
             (s, expired) \<Rightarrow> (noteExpiredKeysLocked s expired, expired)))"

text \<open>Both halves with nothing in between.\<close>

definition evictExpiredSample :: "Store \<Rightarrow> int \<Rightarrow> int \<Rightarrow> nat \<Rightarrow> Store \<times> bytes list" where
  "evictExpiredSample s now sampleSize nano = evictExpiredKeys s now (snapshotKeys s sampleSize nano)"

text \<open>One tick of the background loop of \<^verbatim>\<open>StartEviction\<close>.\<close>

definition evictionTick :: "Env \<Rightarrow> Store \<Rightarrow> int \<Rightarrow> Store" where
  "evictionTick env s sampleSize =
     (case evictExpiredSample s (env_clock env 0) (if sampleSize \<le> 0 then defaultSampleSize else sampleSize) (env_nano env 0) of
        (s, expired) \<Rightarrow> if expired = [] then s else publishExpiredKeys s)"

text \<open>The same for a sample of keys taken earlier.\<close>

definition evictionBatch :: "Env \<Rightarrow> Store \<Rightarrow> bytes list \<Rightarrow> Store" where
  "evictionBatch env s keys =
     (case evictExpiredKeys s (env_clock env 0) keys of (s, expired) \<Rightarrow> if expired = [] then s else publishExpiredKeys s)"

section \<open>What the writes do to abstract contents\<close>

definition incr_upd :: "contents option \<Rightarrow> store_error + int \<times> contents" where
  "incr_upd c =
     (case c of
        None \<Rightarrow> Inr (1, CString (str ''1''))
      | Some (CString b) \<Rightarrow>
          (case ParseInt b of
             Some n \<Rightarrow> if n = 2 ^ 63 - 1 then Inl ErrValueNotInteger else Inr (n + 1, CString (formatInt (n + 1)))
           | None \<Rightarrow> Inl ErrValueNotInteger)
      | Some _ \<Rightarrow> Inl ErrWrongType)"

definition setbit_upd :: "int \<Rightarrow> int \<Rightarrow> contents option \<Rightarrow> store_error + int \<times> contents" where
  "setbit_upd offset b c =
     (case c of
        None \<Rightarrow> Inr (0, CString (setBitPayload [] offset b))
      | Some (CString d) \<Rightarrow> Inr (bitAt d offset, CString (setBitPayload d offset b))
      | Some _ \<Rightarrow> Inl ErrWrongType)"

definition pfadd_upd :: "bytes list \<Rightarrow> contents option \<Rightarrow> store_error + int \<times> contents" where
  "pfadd_upd es c =
     (case c of
        None \<Rightarrow> Inr (1, CString (withRegisters newHyperLogLogPayload
                    (fst (updateHyperLogLogRegisters (drop hllHeaderSize newHyperLogLogPayload) es 0))))
      | Some (CString d) \<Rightarrow>
          (case hyperLogLogRegisters d of
             Inl e \<Rightarrow> Inl e
           | Inr regs \<Rightarrow> (case updateHyperLogLogRegisters regs es 0 of
                 (regs', changed) \<Rightarrow> Inr (changed, CString (withRegisters d regs'))))
      | Some _ \<Rightarrow> Inl ErrWrongType)"

definition push_upd :: "bytes list \<Rightarrow> bool \<Rightarrow> contents option \<Rightarrow> store_error + int \<times> contents" where
  "push_upd values left c =
     (case c of
        None \<Rightarrow> Inr (int (length values), CList (if left then rev values else values))
      | Some (CList l) \<Rightarrow> Inr (int (length values + length l), CList (if left then rev values @ l else l @ values))
      | Some _ \<Rightarrow> Inl ErrWrongType)"

definition zadd_upd :: "zentry list \<Rightarrow> contents option \<Rightarrow> store_error + nat \<times> contents" where
  "zadd_upd es c =
     (case c of
        None \<Rightarrow> Inr (card (fst ` set es), CZSet (assigns Map.empty es))
      | Some (CZSet m) \<Rightarrow> Inr (card (fst ` set es - dom m), CZSet (assigns m es))
      | Some _ \<Rightarrow> Inl ErrWrongType)"

definition xadd_upd :: "bytes \<Rightarrow> bytes list \<Rightarrow> int \<Rightarrow> contents option \<Rightarrow> store_error + bytes \<times> contents" where
  "xadd_upd rawID values now c =
     (case (case c of None \<Rightarrow> Inr newStream | Some (CStream st) \<Rightarrow> Inr st | Some _ \<Rightarrow> Inl ErrWrongType) of
        Inl e \<Rightarrow> Inl e
      | Inr st \<Rightarrow> (case st_add st rawID values now of Inl e \<Rightarrow> Inl e | Inr (st', sid) \<Rightarrow> Inr (sid, CStream st')))"

definition hset_upd :: "(bytes \<times> bytes) list \<Rightarrow> contents option \<Rightarrow> store_error + nat \<times> contents" where
  "hset_upd pairs c =
     (case c of
        None \<Rightarrow> Inr (card (fst ` set pairs), CHash (assigns Map.empty pairs))
      | Some (CHash m) \<Rightarrow> Inr (card (fst ` set pairs - dom m), CHash (assigns m pairs))
      | Some _ \<Rightarrow> Inl ErrWrongType)"

definition sadd_upd :: "bytes list \<Rightarrow> contents option \<Rightarrow> store_error + nat \<times> contents" where
  "sadd_upd ms c =
     (case c of
        None \<Rightarrow> Inr (card (set ms), CSet (set ms))
      | Some (CSet S) \<Rightarrow> Inr (card (set ms - S), CSet (S \<union> set ms))
      | Some _ \<Rightarrow> Inl ErrWrongType)"

lemma ok_kind: "vo_ok v \<Longrightarrow> vo_Kind v = kind_of (contents_of v)"
  using vo_rep_kind unfolding vo_ok_def .

lemma current_ok: "store_inv s \<Longrightarrow> kw_current w = lookup s (kw_key w) \<Longrightarrow> kw_current w = Some v \<Longrightarrow> vo_ok v"
  using store_invD(3) by metis

text \<open>A value changed where it lies, with no change of kind and none of size where sizes are kept: that is a commit.\<close>

lemma inplace_commit:
  assumes inv: "store_inv s" and w: "kw_current w = lookup s (kw_key w)" "kw_accounting w = maxMemoryEnabled s" "kw_current w = Some v"
    and k: "vo_Kind v' = vo_Kind v" and sz: "kw_accounting w \<Longrightarrow> resident_size (kw_key w) v' = resident_size (kw_key w) v"
  shows "(mutate s (shardIndex s (kw_key w)) (kw_key w) v', Inr (x, [])) = commit_then x (commit env w v' s)"
proof -
  have m: "mutate s (shardIndex s (kw_key w)) (kw_key w) v' = setKeyLocked s (shardIndex s (kw_key w)) (kw_key w) v'"
    using mutate_spec(8) [OF inv _ k refl] w by simp
  show ?thesis
  proof (cases "kw_accounting w")
    case True
    then have "approximateValueObjectSize (kw_key w) (Some v') - approximateValueObjectSize (kw_key w) (kw_current w) = 0"
      using sz w(3) by (simp add: resident_size_def)
    then show ?thesis
      using True m by (simp add: commit_def commitValueWithEvictionLocked_def Let_def ensure_idle commit_then_def)
  qed (simp add: m commit_def commit_then_def)
qed

lemma commitString_commit:
  assumes "length (fill (replicate n 0)) = n"
  shows "commitString env w n expiresAt fill s =
    commit env w (touch (newOwnedStringValue (fill (replicate n 0)) expiresAt (env_clock env 2)) (kw_now w)) s"
proof -
  have "approximateValueObjectSize k (Some (touch (newOwnedStringValue (fill (replicate n 0)) expiresAt c) now)) =
      approximateStringValueObjectSize k n expiresAt" for k c now
    using assms by (simp add: approximateValueObjectSize_def touch_def value_defs)
  then show ?thesis
    by (simp add: commitString_def commit_def commitStringWithEvictionLocked_def commitValueWithEvictionLocked_def Let_def)
qed

lemma rep_string: "vo_rep (touch (newOwnedStringValue d t c) now) (CString d)" "vo_rep (newOwnedStringValue d t c) (CString d)"
  by (simp_all add: StringValue_def value_defs touch_def)

lemma expires_new [simp]:
  "vo_ExpiresAt (newOwnedStringValue d t c) = t" "vo_ExpiresAt (newStringValue d t c) = t"
  "vo_ExpiresAt (newListValue l t c) = t" "vo_ExpiresAt (newStreamValue st t c) = t"
  by (simp_all add: value_defs)

interpretation set_w: key_writer env "Set_fn env data expiresAt" "\<lambda>_ _. Inr ((), CString data)" "\<lambda>_. expiresAt" True
  for env data expiresAt
proof (unfold_locales, goal_cases)
  case (1 s w)
  then show ?case using rep_string(2) by (auto simp: Set_fn_def newStringValue_def intro!: exI [of _ "newOwnedStringValue data expiresAt (env_clock env 2)"])
qed

interpretation incr_w: key_writer env "Increment_fn env" "\<lambda>_. incr_upd" "\<lambda>t. t" True for env
proof (unfold_locales, goal_cases)
  case (1 s w)
  show ?case
  proof (cases "kw_current w")
    case None
    then show ?thesis using rep_string(2) [of "str ''1''" 0 "env_clock env 2"]
      by (auto simp: Increment_fn_def incr_upd_def simp del: vo_rep.simps)
  next
    case (Some v)
    have ok: "vo_ok v" by (rule current_ok [OF 1(2,3) Some])
    show ?thesis
    proof (cases "contents_of v")
      case (CString b)
      then have v: "StringValue v = Inr b" using ok by (simp add: vo_ok_def)
      then have sv: "vo_Kind v = ValueKindString" "vo_String v = b" by (auto simp: StringValue_def split: if_splits)
      have rep: "vo_rep (touch (v\<lparr>vo_String := d\<rparr>) now) (CString d)" for d now
        using sv(1) by (simp add: StringValue_def touch_def)
      have inpl: "(mutate s (shardIndex s (kw_key w)) (kw_key w) (touch (v\<lparr>vo_String := d\<rparr>) now), Inr (x, [])) =
          commit_then x (commit env w (touch (v\<lparr>vo_String := d\<rparr>) now) s)" if "\<not> kw_accounting w" for d now x
        using inplace_commit [OF 1(2-4) Some, of "touch (v\<lparr>vo_String := d\<rparr>) now"] that by (simp add: touch_def)
      show ?thesis
      proof (cases "\<exists>n. ParseInt b = Some n \<and> n \<noteq> 2 ^ 63 - 1")
        case False
        then show ?thesis using Some v CString by (auto simp: Increment_fn_def incr_upd_def split: option.split)
      next
        case True
        then obtain n where n: "ParseInt b = Some n" "n \<noteq> 2 ^ 63 - 1" by blast
        define v' where "v' = (if kw_accounting w then touch (newOwnedStringValue (formatInt (n + 1)) (vo_ExpiresAt v) (env_clock env 2)) (kw_now w)
          else touch (v\<lparr>vo_String := formatInt (n + 1)\<rparr>) (kw_now w))"
        have "Increment_fn env w s = commit_then (n + 1) (commit env w v' s)"
          using n Some v by (cases "kw_accounting w") (simp_all add: Increment_fn_def v'_def Let_def inpl)
        moreover have "vo_rep v' (CString (formatInt (n + 1)))" "vo_ExpiresAt v' = vo_ExpiresAt v"
          using rep rep_string(1) by (simp_all add: v'_def touch_def del: vo_rep.simps)
        ultimately show ?thesis using n Some CString by (auto simp: incr_upd_def simp del: vo_rep.simps)
      qed
    qed (use Some ok_kind [OF ok] in \<open>simp_all add: Increment_fn_def incr_upd_def StringValue_def\<close>)
  qed
qed

lemma setBit_fill:
  assumes "validateBitmapArguments offset b = None"
  shows "(let payload = overwrite (replicate (max (byteIndex offset + 1) (length d)) 0) 0 d
          in payload[byteIndex offset := setBitInByte (payload ! byteIndex offset) (bitMask offset) b]) = setBitPayload d offset b"
    "length (setBitPayload d offset b) = max (byteIndex offset + 1) (length d)"
    "byteIndex offset < length d \<Longrightarrow> d[byteIndex offset := setBitInByte (d ! byteIndex offset) (bitMask offset) b] = setBitPayload d offset b"
  by (simp_all add: setBitPayload_def overwrite_def Let_def)

interpretation setbit_w: key_writer env "SetBit_fn env offset b" "\<lambda>_. setbit_upd offset b" "\<lambda>t. t"
  "validateBitmapArguments offset b = None" for env offset b
proof (unfold_locales, goal_cases)
  case (1 s w)
  let ?f = "\<lambda>d payload. let payload = overwrite payload 0 d in payload[byteIndex offset := setBitInByte (payload ! byteIndex offset) (bitMask offset) b]"
  have cs: "commitString env w (max (byteIndex offset + 1) (length d)) t (?f d) s =
      commit env w (touch (newOwnedStringValue (setBitPayload d offset b) t (env_clock env 2)) (kw_now w)) s" for d t
    using commitString_commit [of "?f d" "max (byteIndex offset + 1) (length d)" env w t s] setBit_fill(1,2) [OF 1(1), of d] by simp
  have ex: "\<exists>v. vo_rep v (CString (setBitPayload d offset b)) \<and> vo_ExpiresAt v = t \<and>
      commit_then x (commitString env w (max (byteIndex offset + 1) (length d)) t (?f d) s) = commit_then x (commit env w v s)" for d t x
    unfolding cs using rep_string(1) by (intro exI conjI) (simp_all only: touch_fields expires_new)
  show ?case
  proof (cases "kw_current w")
    case None
    have "SetBit_fn env offset b w s = commit_then 0 (commitString env w (max (byteIndex offset + 1) (length [])) 0 (?f []) s)"
      using None by (simp add: SetBit_fn_def bitAt_def Let_def)
    then show ?thesis using None ex [of "[]" 0 0] by (simp add: setbit_upd_def del: vo_rep.simps)
  next
    case (Some v)
    have ok: "vo_ok v" by (rule current_ok [OF 1(2,3) Some])
    show ?thesis
    proof (cases "contents_of v")
      case (CString d)
      then have v: "StringValue v = Inr d" using ok by (simp add: vo_ok_def)
      then have sv: "vo_Kind v = ValueKindString" by (auto simp: StringValue_def split: if_splits)
      show ?thesis
      proof (cases "byteIndex offset < length d \<and> \<not> kw_accounting w")
        case True
        let ?v = "touch (v\<lparr>vo_String := setBitPayload d offset b\<rparr>) (kw_now w)"
        have "SetBit_fn env offset b w s = (mutate s (shardIndex s (kw_key w)) (kw_key w) ?v, Inr (bitAt d offset, []))"
          using True Some v setBit_fill(3) [OF 1(1)] by (simp add: SetBit_fn_def Let_def)
        also have "\<dots> = commit_then (bitAt d offset) (commit env w ?v s)"
          using inplace_commit [OF 1(2-4) Some, of ?v] True by (simp add: touch_def)
        finally show ?thesis using Some CString sv
          by (auto simp: setbit_upd_def StringValue_def touch_def intro!: exI [of _ ?v])
      next
        case False
        then have "SetBit_fn env offset b w s =
            commit_then (bitAt d offset) (commitString env w (max (byteIndex offset + 1) (length d)) (vo_ExpiresAt v) (?f d) s)"
          using Some v by (auto simp: SetBit_fn_def Let_def)
        then show ?thesis using Some CString ex by (simp add: setbit_upd_def del: vo_rep.simps)
      qed
    qed (use Some ok_kind [OF ok] in \<open>simp_all add: SetBit_fn_def setbit_upd_def StringValue_def\<close>)
  qed
qed

interpretation pfadd_w: key_writer env "PFAdd_fn env es" "\<lambda>_. pfadd_upd es" "\<lambda>t. t" True for env es
proof (unfold_locales, goal_cases)
  case (1 s w)
  show ?case
  proof (cases "kw_current w")
    case None
    then show ?thesis using rep_string(1)
      by (auto simp: PFAdd_fn_def pfadd_upd_def Let_def simp del: vo_rep.simps) (metis expires_new(1) rep_string(1) touch_fields(1))
  next
    case (Some v)
    have ok: "vo_ok v" by (rule current_ok [OF 1(2,3) Some])
    show ?thesis
    proof (cases "contents_of v")
      case (CString d)
      then have v: "StringValue v = Inr d" using ok by (simp add: vo_ok_def)
      then have sv: "vo_Kind v = ValueKindString" "vo_String v = d" by (auto simp: StringValue_def split: if_splits)
      show ?thesis
      proof (cases "hyperLogLogRegisters d")
        case (Inl e)
        then show ?thesis using Some v CString by (simp add: PFAdd_fn_def pfadd_upd_def)
      next
        case (Inr regs)
        obtain regs' ch where u: "updateHyperLogLogRegisters regs es 0 = (regs', ch)" by fastforce
        let ?v = "touch (v\<lparr>vo_String := withRegisters d regs'\<rparr>) (kw_now w)"
        have len: "length (withRegisters d regs') = length d"
          using Inr u update_length [of regs es 0] by (auto simp: hyperLogLogRegisters_def withRegisters_def Let_def split: if_splits)
        have "resident_size (kw_key w) ?v = resident_size (kw_key w) v"
          using len sv by (simp add: resident_size_def approximateValueObjectSize_def touch_def)
        then have "PFAdd_fn env es w s = commit_then ch (commit env w ?v s)"
          using inplace_commit [OF 1(2-4) Some, of ?v] Some v Inr u by (simp add: PFAdd_fn_def touch_def)
        then show ?thesis using Some CString Inr u sv
          by (auto simp: pfadd_upd_def StringValue_def touch_def intro!: exI [of _ ?v])
      qed
    qed (use Some ok_kind [OF ok] in \<open>simp_all add: PFAdd_fn_def pfadd_upd_def StringValue_def\<close>)
  qed
qed

interpretation push_w: key_writer env "pushList_fn env vals left" "\<lambda>_. push_upd vals left" "\<lambda>t. t" True
  for env vals left
proof (unfold_locales, goal_cases)
  case (1 s w)
  have ex: "\<exists>v. vo_rep v (CList l) \<and> vo_ExpiresAt v = t \<and>
      commit_then x (commit env w (newListValue l t (env_clock env 2)) s) = commit_then x (commit env w v s)" for l t x
    by (intro exI [of _ "newListValue l t (env_clock env 2)"]) (simp add: ListValue_def value_defs)
  show ?case
  proof (cases "kw_current w")
    case None
    then show ?thesis using ex [of "if left then rev vals else vals" 0 "int (length vals)"]
      by (cases left) (simp_all add: pushList_fn_def push_upd_def Let_def del: vo_rep.simps)
  next
    case (Some v)
    have ok: "vo_ok v" by (rule current_ok [OF 1(2,3) Some])
    show ?thesis
    proof (cases "contents_of v")
      case (CList l)
      then have v: "ListValue v = Inr l" using ok by (simp add: vo_ok_def)
      then show ?thesis
        using Some CList ex [of "if left then rev vals @ l else l @ vals" "vo_ExpiresAt v" "int (length vals + length l)"]
        by (cases left) (simp_all add: pushList_fn_def push_upd_def Let_def add.commute del: vo_rep.simps)
    qed (use Some ok_kind [OF ok] in \<open>simp_all add: pushList_fn_def push_upd_def ListValue_def\<close>)
  qed
qed

interpretation xadd_w: key_writer env "XAdd_fn env rawID vals" "xadd_upd rawID vals" "\<lambda>t. t" True for env rawID vals
proof (unfold_locales, goal_cases)
  case (1 s w)
  have added: "st_hasEntries st' = (st_entries st' \<noteq> [])" if "st_add st rawID vals now = Inr (st', sid)" for st st' sid now
    using that by (auto simp: st_add_def st_append_def Let_def split: if_splits sum.splits)
  have ex: "\<exists>v. vo_rep v (CStream st') \<and> vo_ExpiresAt v = t \<and>
      commit_then x (commit env w (touch (newStreamValue st' t (env_clock env 2)) (kw_now w)) s) = commit_then x (commit env w v s)"
    if "st_add st rawID vals now = Inr (st', sid)" for st st' sid now t x
    using added [OF that] by (intro exI [of _ "touch (newStreamValue st' t (env_clock env 2)) (kw_now w)"])
      (simp add: StreamValueOf_def value_defs touch_def)
  have clone: "cloneStreamValue st = st" for st by (simp add: cloneStreamValue_def)
  show ?case
  proof (cases "kw_current w")
    case None
    show ?thesis
    proof (cases "st_add newStream rawID vals (kw_now w)")
      case (Inr p)
      obtain st' sid where p: "p = (st', sid)" by (cases p)
      show ?thesis using None Inr ex [OF Inr [unfolded p], of 0 sid] p by (simp add: XAdd_fn_def xadd_upd_def del: vo_rep.simps)
    qed (use None in \<open>simp add: XAdd_fn_def xadd_upd_def\<close>)
  next
    case (Some v)
    have ok: "vo_ok v" by (rule current_ok [OF 1(2,3) Some])
    show ?thesis
    proof (cases "contents_of v")
      case (CStream st)
      then have v: "StreamValueOf v = Inr st" using ok by (simp add: vo_ok_def)
      show ?thesis
      proof (cases "st_add st rawID vals (kw_now w)")
        case (Inr p)
        obtain st' sid where p: "p = (st', sid)" by (cases p)
        show ?thesis using Some CStream v Inr ex [OF Inr [unfolded p], of "vo_ExpiresAt v" sid] p
          by (simp add: XAdd_fn_def xadd_upd_def clone del: vo_rep.simps)
      qed (use Some CStream v in \<open>simp add: XAdd_fn_def xadd_upd_def clone\<close>)
    qed (use Some ok_kind [OF ok] in \<open>simp_all add: XAdd_fn_def xadd_upd_def StreamValueOf_def\<close>)
  qed
qed

lemma touch_ex:
  "vo_rep v c \<Longrightarrow> vo_ExpiresAt v = t \<Longrightarrow>
   \<exists>u. vo_rep u c \<and> vo_ExpiresAt u = t \<and> commit_then x (commit env w (touch v now) s) = commit_then x (commit env w u s)"
  using vo_rep_touch touch_fields(1) by blast

interpretation hset_w: key_writer env "HSet_fn env pairs" "\<lambda>_. hset_upd pairs" "\<lambda>t. t" True for env pairs
proof (unfold_locales, goal_cases)
  case (1 s w)
  show ?case
  proof (cases "kw_current w")
    case None
    let ?v = "newHashValueForPairs pairs 0 (env_clock env 2)"
    have v: "vo_rep ?v (CHash (assigns Map.empty pairs))" "vo_ExpiresAt ?v = 0" by (rule newHash_rep)+
    have "hashLen ?v = Inr (card (fst ` set pairs))" using hash_reads(1) [OF v(1)] by (simp add: dom_assigns)
    then show ?thesis using None touch_ex [OF v] by (simp add: HSet_fn_def hset_upd_def Let_def del: vo_rep.simps)
  next
    case (Some v)
    have ok: "vo_ok v" by (rule current_ok [OF 1(2,3) Some])
    show ?thesis
    proof (cases "contents_of v")
      case (CHash m)
      then have v: "vo_rep v (CHash m)" using ok by (simp add: vo_ok_def)
      obtain u where u: "(if kw_accounting w then cloneHashValue v (vo_ExpiresAt v) (env_clock env 2) else Inr v) = Inr u"
          "vo_rep u (CHash m)" "vo_ExpiresAt u = vo_ExpiresAt v"
        using cloneHash_rep [OF v, of "vo_ExpiresAt v" "env_clock env 2"] v by (cases "kw_accounting w") auto
      obtain v' where v': "hashSet u pairs = Inr (v', card (fst ` set pairs - dom m))" "vo_rep v' (CHash (assigns m pairs))"
          "vo_ExpiresAt v' = vo_ExpiresAt v"
        using hashSet_rep [OF u(2), of pairs] u(3) by auto
      have "HSet_fn env pairs w s = commit_then (card (fst ` set pairs - dom m)) (commit env w (touch v' (kw_now w)) s)"
        using Some v'(1) u(1) by (simp add: HSet_fn_def)
      then show ?thesis using Some CHash touch_ex [OF v'(2,3)] by (simp add: hset_upd_def del: vo_rep.simps)
    qed (use Some ok_kind [OF ok] in \<open>simp_all add: HSet_fn_def hset_upd_def hashSet_def cloneHashValue_def hashPayload_def\<close>)
  qed
qed

interpretation sadd_w: key_writer env "SAdd_fn env ms" "\<lambda>_. sadd_upd ms" "\<lambda>t. t" True for env ms
proof (unfold_locales, goal_cases)
  case (1 s w)
  show ?case
  proof (cases "kw_current w")
    case None
    let ?v = "newSetValueForMembers ms 0 (env_clock env 2)"
    have v: "vo_rep ?v (CSet (set ms))" "vo_ExpiresAt ?v = 0" by (rule newSet_rep)+
    then show ?thesis using None touch_ex [OF v] set_reads(1) [OF v(1)] by (simp add: SAdd_fn_def sadd_upd_def Let_def del: vo_rep.simps)
  next
    case (Some v)
    have ok: "vo_ok v" by (rule current_ok [OF 1(2,3) Some])
    show ?thesis
    proof (cases "contents_of v")
      case (CSet S)
      then have v: "vo_rep v (CSet S)" using ok by (simp add: vo_ok_def)
      obtain u where u: "(if kw_accounting w then cloneSetValue v (vo_ExpiresAt v) (env_clock env 2) else Inr v) = Inr u"
          "vo_rep u (CSet S)" "vo_ExpiresAt u = vo_ExpiresAt v"
        using cloneSet_rep [OF v, of "vo_ExpiresAt v" "env_clock env 2"] v by (cases "kw_accounting w") auto
      obtain v' where v': "setAdd u ms = Inr (v', card (set ms - S))" "vo_rep v' (CSet (S \<union> set ms))"
          "vo_ExpiresAt v' = vo_ExpiresAt v"
        using setAdd_rep [OF u(2), of ms] u(3) by auto
      have "SAdd_fn env ms w s = commit_then (card (set ms - S)) (commit env w (touch v' (kw_now w)) s)"
        using Some v'(1) u(1) by (simp add: SAdd_fn_def)
      then show ?thesis using Some CSet touch_ex [OF v'(2,3)] by (simp add: sadd_upd_def del: vo_rep.simps)
    qed (use Some ok_kind [OF ok] in \<open>simp_all add: SAdd_fn_def sadd_upd_def setAdd_def cloneSetValue_def setPayload_def\<close>)
  qed
qed

interpretation zadd_w: key_writer env "ZAdd_fn env es" "\<lambda>_. zadd_upd es" "\<lambda>t. t" "\<forall>sc \<in> snd ` set es. sc \<noteq> NaN" for env es
proof (unfold_locales, goal_cases)
  case (1 s w)
  show ?case
  proof (cases "kw_current w")
    case None
    let ?v = "newZSetValueForEntries (env_coin env) es 0 (env_clock env 2)"
    have v: "vo_rep ?v (CZSet (assigns Map.empty es))" "vo_ExpiresAt ?v = 0" by (rule newZSet_rep [OF 1(1)])+
    have "zsetLen ?v = Inr (card (fst ` set es))" using zset_reads(1) [OF v(1)] by (simp add: dom_assigns)
    then show ?thesis using None touch_ex [OF v] by (simp add: ZAdd_fn_def zadd_upd_def Let_def del: vo_rep.simps)
  next
    case (Some v)
    have ok: "vo_ok v" by (rule current_ok [OF 1(2,3) Some])
    show ?thesis
    proof (cases "contents_of v")
      case (CZSet m)
      then have v: "vo_rep v (CZSet m)" using ok by (simp add: vo_ok_def)
      obtain u where u: "(if kw_accounting w then cloneZSetValue (env_coin env) v (vo_ExpiresAt v) (env_clock env 2) else Inr v) = Inr u"
          "vo_rep u (CZSet m)" "vo_ExpiresAt u = vo_ExpiresAt v"
        using cloneZSet_rep [OF v, of "env_coin env" "vo_ExpiresAt v" "env_clock env 2"] v by (cases "kw_accounting w") auto
      obtain v' where v': "zsetAdd (env_coin env) u es = Inr (v', card (fst ` set es - dom m))" "vo_rep v' (CZSet (assigns m es))"
          "vo_ExpiresAt v' = vo_ExpiresAt v"
        using zsetAdd_rep [OF u(2) 1(1), of "env_coin env"] u(3) by auto
      have "ZAdd_fn env es w s = commit_then (card (fst ` set es - dom m)) (commit env w (touch v' (kw_now w)) s)"
        using Some v'(1) u(1) by (simp add: ZAdd_fn_def)
      then show ?thesis using Some CZSet touch_ex [OF v'(2,3)] by (simp add: zadd_upd_def del: vo_rep.simps)
    qed (use Some ok_kind [OF ok] in \<open>simp_all add: ZAdd_fn_def zadd_upd_def zsetAdd_def cloneZSetValue_def zsetPayload_def\<close>)
  qed
qed

end
