(* ===== verification/Store_Contracts.thy ===== *)
theory Store_Contracts
  imports Store_Ops
begin

text \<open>
  The contracts of the store's operations, derived from the path locales of \<open>Key_Paths\<close> and from lemmas on
  removals and on operations over many keys; and the invariants of every store that operations can reach.
\<close>

section \<open>Reads\<close>

definition string_answer :: "(bytes \<Rightarrow> store_error + 'a) \<Rightarrow> contents \<Rightarrow> store_error + 'a" where
  "string_answer f c = (case c of CString d \<Rightarrow> f d | _ \<Rightarrow> Inl ErrWrongType)"

definition list_answer :: "(bytes list \<Rightarrow> 'a) \<Rightarrow> contents \<Rightarrow> store_error + 'a" where
  "list_answer f c = (case c of CList l \<Rightarrow> Inr (f l) | _ \<Rightarrow> Inl ErrWrongType)"

definition zset_answer :: "((bytes \<rightharpoonup> float64) \<Rightarrow> 'a) \<Rightarrow> contents \<Rightarrow> store_error + 'a" where
  "zset_answer f c = (case c of CZSet m \<Rightarrow> Inr (f m) | _ \<Rightarrow> Inl ErrWrongType)"

definition stream_answer :: "(StreamValue \<Rightarrow> store_error + 'a) \<Rightarrow> contents \<Rightarrow> store_error + 'a" where
  "stream_answer f c = (case c of CStream st \<Rightarrow> f st | _ \<Rightarrow> Inl ErrWrongType)"

definition hash_answer :: "((bytes \<rightharpoonup> bytes) \<Rightarrow> 'a) \<Rightarrow> contents \<Rightarrow> store_error + 'a" where
  "hash_answer f c = (case c of CHash m \<Rightarrow> Inr (f m) | _ \<Rightarrow> Inl ErrWrongType)"

definition set_answer :: "(bytes set \<Rightarrow> 'a) \<Rightarrow> contents \<Rightarrow> store_error + 'a" where
  "set_answer f c = (case c of CSet S \<Rightarrow> Inr (f S) | _ \<Rightarrow> Inl ErrWrongType)"

lemma string_reader: "vo_ok v \<Longrightarrow> (case StringValue v of Inl e \<Rightarrow> Inl e | Inr d \<Rightarrow> f d) = string_answer f (contents_of v)"
proof (cases "contents_of v")
  case (CString d)
  assume "vo_ok v"
  then show ?thesis using CString by (simp add: vo_ok_def string_answer_def)
qed (use ok_kind [of v] in \<open>simp_all add: string_answer_def StringValue_def\<close>)

interpretation string_r: key_reader "\<lambda>v. case StringValue v of Inl e \<Rightarrow> Inl e | Inr d \<Rightarrow> f d" "\<lambda>c q. q = string_answer f c" for f
  by unfold_locales (rule string_reader)

lemma list_reader: "vo_ok v \<Longrightarrow> (case ListValue v of Inl e \<Rightarrow> Inl e | Inr l \<Rightarrow> Inr (f l)) = list_answer f (contents_of v)"
proof (cases "contents_of v")
  case (CList d)
  assume "vo_ok v"
  then show ?thesis using CList by (simp add: vo_ok_def list_answer_def)
qed (use ok_kind [of v] in \<open>simp_all add: list_answer_def ListValue_def\<close>)

interpretation list_r: key_reader "\<lambda>v. case ListValue v of Inl e \<Rightarrow> Inl e | Inr l \<Rightarrow> Inr (f l)" "\<lambda>c q. q = list_answer f c" for f
  by unfold_locales (rule list_reader)

lemma stream_reader: "vo_ok v \<Longrightarrow> (case StreamValueOf v of Inl e \<Rightarrow> Inl e | Inr st \<Rightarrow> f st) = stream_answer f (contents_of v)"
proof (cases "contents_of v")
  case (CStream d)
  assume "vo_ok v"
  then show ?thesis using CStream by (simp add: vo_ok_def stream_answer_def)
qed (use ok_kind [of v] in \<open>simp_all add: stream_answer_def StreamValueOf_def\<close>)

interpretation stream_r: key_reader "\<lambda>v. case StreamValueOf v of Inl e \<Rightarrow> Inl e | Inr st \<Rightarrow> f st" "\<lambda>c q. q = stream_answer f c" for f
  by unfold_locales (rule stream_reader)

lemma not_zset: "vo_Kind v \<noteq> ValueKindZSet \<Longrightarrow> zsetPayload v = Inl ErrWrongType"
  by (simp add: zsetPayload_def)

lemma zscores_loop_eq: "vo_rep v (CZSet m) \<Longrightarrow> zscores_loop v ms = Inr (map m ms)"
proof (induction ms)
  case (Cons k ms)
  then show ?case using zset_reads(2) [OF Cons.prems, of k] by (simp del: vo_rep.simps)
qed simp

lemma zranges_loop_eq: "vo_rep v (CZSet m) \<Longrightarrow> zranges_loop v rs = Inr (concat (map (\<lambda>r. score_range r (zlisting m)) rs))"
proof (induction rs)
  case (Cons r rs)
  then show ?case using zset_reads(5) [OF Cons.prems, of r] by (simp del: vo_rep.simps)
qed simp

lemma zloops_wrong:
  assumes "vo_Kind v \<noteq> ValueKindZSet"
  shows "zscores_loop v (k # ms) = Inl ErrWrongType" "zranges_loop v (r # rs) = Inl ErrWrongType"
    "ZRange_fn start stop v = Inl ErrWrongType"
  using not_zset [OF assms] by (simp_all add: zsetScore_def zsetRangeByScore_def ZRange_fn_def zsetLen_def)

lemma zrange_fn_eq:
  assumes v: "vo_rep v (CZSet m)"
  shows "ZRange_fn start stop v = Inr (select_range (zlisting m) start stop)"
proof (cases "normalizeListRange (card (dom m)) start stop")
  case None
  then show ?thesis using zset_reads(1,6) [OF v] by (simp add: ZRange_fn_def select_range_def)
next
  case (Some p)
  obtain lo hi where p: "p = (lo, hi)" by (cases p)
  have b: "0 \<le> lo" "lo \<le> hi" "hi < int (card (dom m))" using normalizeListRange_Some [OF Some [unfolded p]] by blast+
  have "rank_range (zlisting m) lo hi = slice (zlisting m) (nat lo) (nat (hi + 1) - nat lo)"
  proof -
    have "nat (hi - lo) + 1 = nat (hi + 1) - nat lo" using b by linarith
    moreover have "\<not> (lo < 0 \<or> hi < lo \<or> int (length (zlisting m)) \<le> lo)" using b zset_reads(6) [OF v] by linarith
    ultimately show ?thesis by (simp only: rank_range_def slice_def if_False)
  qed
  then show ?thesis using zset_reads(1) [OF v] zset_reads(4) [OF v, of lo hi] zset_reads(6) [OF v] Some p
    by (simp add: ZRange_fn_def select_range_def)
qed

lemma zset_cases:
  assumes "vo_ok v"
  obtains (zset) m where "contents_of v = CZSet m" "vo_rep v (CZSet m)" | (other) "vo_Kind v \<noteq> ValueKindZSet"
proof (cases "contents_of v")
  case (CZSet m)
  then show thesis using assms zset by (metis vo_ok_def)
qed (use ok_kind [OF assms] other in simp_all)

lemma hash_cases:
  assumes "vo_ok v"
  obtains (hash) m where "contents_of v = CHash m" "vo_rep v (CHash m)" | (other) "vo_Kind v \<noteq> ValueKindHash"
proof (cases "contents_of v")
  case (CHash m)
  then show thesis using assms hash by (metis vo_ok_def)
qed (use ok_kind [OF assms] other in simp_all)

lemma set_cases:
  assumes "vo_ok v"
  obtains (set) S where "contents_of v = CSet S" "vo_rep v (CSet S)" | (other) "vo_Kind v \<noteq> ValueKindSet"
proof (cases "contents_of v")
  case (CSet S)
  then show thesis using assms set by (metis vo_ok_def)
qed (use ok_kind [OF assms] other in simp_all)

lemma answer_wrong:
  "vo_ok v \<Longrightarrow> vo_Kind v \<noteq> ValueKindZSet \<Longrightarrow> zset_answer f (contents_of v) = Inl ErrWrongType"
  "vo_ok v \<Longrightarrow> vo_Kind v \<noteq> ValueKindHash \<Longrightarrow> hash_answer g (contents_of v) = Inl ErrWrongType"
  "vo_ok v \<Longrightarrow> vo_Kind v \<noteq> ValueKindSet \<Longrightarrow> set_answer h (contents_of v) = Inl ErrWrongType"
  using ok_kind [of v] by (auto simp: zset_answer_def hash_answer_def set_answer_def split: contents.split)

interpretation zscores_r: key_reader "\<lambda>v. zscores_loop v ms"
  "\<lambda>c q. q = (if ms = [] then Inr [] else zset_answer (\<lambda>m. map m ms) c)" for ms
proof (unfold_locales, goal_cases)
  case (1 v)
  then show ?case
  proof (cases rule: zset_cases)
    case (zset m)
    then show ?thesis using zscores_loop_eq [OF zset(2), of ms] by (simp add: zset_answer_def)
  next
    case other
    then show ?thesis using zloops_wrong(1) [OF other] by (cases ms) (simp_all add: answer_wrong(1) [OF 1 other] del: zscores_loop.simps(2))
  qed
qed

interpretation zranges_r: key_reader "\<lambda>v. zranges_loop v rs"
  "\<lambda>c q. q = (if rs = [] then Inr [] else zset_answer (\<lambda>m. concat (map (\<lambda>r. score_range r (zlisting m)) rs)) c)" for rs
proof (unfold_locales, goal_cases)
  case (1 v)
  then show ?case
  proof (cases rule: zset_cases)
    case (zset m)
    then show ?thesis using zranges_loop_eq [OF zset(2), of rs] by (simp add: zset_answer_def)
  next
    case other
    then show ?thesis using zloops_wrong(2) [OF other] by (cases rs) (simp_all add: answer_wrong(1) [OF 1 other] del: zranges_loop.simps(2))
  qed
qed

interpretation zrange_r: key_reader "ZRange_fn start stop"
  "\<lambda>c q. q = zset_answer (\<lambda>m. select_range (zlisting m) start stop) c" for start stop
proof (unfold_locales, goal_cases)
  case (1 v)
  then show ?case
  proof (cases rule: zset_cases)
    case (zset m)
    then show ?thesis using zrange_fn_eq [OF zset(2)] by (simp add: zset_answer_def)
  next
    case other
    then show ?thesis using zloops_wrong(3) [OF other] by (simp add: answer_wrong(1) [OF 1 other])
  qed
qed

interpretation hget_r: key_reader "\<lambda>v. hashGet v f" "\<lambda>c q. q = hash_answer (\<lambda>m. m f) c" for f
proof (unfold_locales, goal_cases)
  case (1 v)
  then show ?case
  proof (cases rule: hash_cases)
    case (hash m)
    then show ?thesis using hash_reads(2) [OF hash(2), of f] by (simp add: hash_answer_def)
  next
    case other
    then show ?thesis by (simp add: answer_wrong(2) [OF 1 other] hashGet_def hashPayload_def)
  qed
qed

text \<open>Every pair of a hash, and every member of a set, once, in any order.\<close>

definition lists_hash :: "contents \<Rightarrow> store_error + (bytes \<times> bytes) list \<Rightarrow> bool" where
  "lists_hash c q \<longleftrightarrow>
     (case q of Inl e \<Rightarrow> hash_answer (\<lambda>m. ()) c = Inl e
      | Inr es \<Rightarrow> distinct (map fst es) \<and> hash_answer (\<lambda>m. m) c = Inr (map_of es))"

definition lists_set :: "contents \<Rightarrow> store_error + bytes list \<Rightarrow> bool" where
  "lists_set c q \<longleftrightarrow>
     (case q of Inl e \<Rightarrow> set_answer (\<lambda>S. ()) c = Inl e
      | Inr ms \<Rightarrow> distinct ms \<and> set_answer (\<lambda>S. S) c = Inr (set ms))"

interpretation hgetall_r: key_reader hashEntries lists_hash
proof (unfold_locales, goal_cases)
  case (1 v)
  then show ?case
  proof (cases rule: hash_cases)
    case (hash m)
    then show ?thesis using hash_reads(4) [OF hash(2)] by (auto simp: hash_answer_def lists_hash_def)
  next
    case other
    then show ?thesis by (simp add: answer_wrong(2) [OF 1 other] hashEntries_def hashPayload_def lists_hash_def)
  qed
qed

interpretation sismember_r: key_reader "\<lambda>v. setContains v m" "\<lambda>c q. q = set_answer (\<lambda>S. m \<in> S) c" for m
proof (unfold_locales, goal_cases)
  case (1 v)
  then show ?case
  proof (cases rule: set_cases)
    case (set S)
    then show ?thesis using set_reads(2) [OF set(2), of m] by (simp add: set_answer_def)
  next
    case other
    then show ?thesis by (simp add: answer_wrong(3) [OF 1 other] setContains_def setPayload_def)
  qed
qed

interpretation smembers_r: key_reader setMembers lists_set
proof (unfold_locales, goal_cases)
  case (1 v)
  then show ?case
  proof (cases rule: set_cases)
    case (set S)
    then show ?thesis using set_reads(4) [OF set(2)] by (auto simp: set_answer_def lists_set_def)
  next
    case other
    then show ?thesis by (simp add: answer_wrong(3) [OF 1 other] setMembers_def setPayload_def lists_set_def)
  qed
qed

section \<open>Removals\<close>

text \<open>The result of taking elements out of the value under a key: \<open>takes\<close> is what happens to abstract contents
  (None: nothing is left), \<open>absent\<close> the answer for a key that is not there.\<close>

definition removal_result ::
    "(contents \<Rightarrow> store_error + 'a \<times> contents option) \<Rightarrow> 'a \<Rightarrow> Store \<Rightarrow> bytes \<Rightarrow> (contents \<times> int) option \<Rightarrow> Store \<Rightarrow> store_error + 'a \<Rightarrow> bool" where
  "removal_result takes absent s key cur s' r \<longleftrightarrow>
     r = (case cur of None \<Rightarrow> Inr absent | Some (c, t) \<Rightarrow> map_sum id fst (takes c)) \<and>
     view s' = (view s)(key := case cur of None \<Rightarrow> None
       | Some (c, t) \<Rightarrow> (case takes c of Inl e \<Rightarrow> Some (c, t) | Inr (x, c') \<Rightarrow> map_option (\<lambda>c'. (c', t)) c'))"

lemma finishRemoval_spec:
  assumes inv: "store_inv s" and l: "lookup s key = Some v" and v': "vo_rep v' c'" "vo_Kind v' = vo_Kind v" "vo_ExpiresAt v' = vo_ExpiresAt v"
    and s': "s' = finishRemoval s key v v' none_left"
  shows "store_inv s' \<and> same_setup s s' \<and> (mem_ok s \<longrightarrow> mem_ok s') \<and>
    view s' = (view s)(key := if none_left then None else Some (c', vo_ExpiresAt v))"
proof -
  let ?i = "shardIndex s key"
  define m where "m = mutate s ?i key v'"
  note mu = mutate_spec [OF inv l v'(2) m_def]
  have vok: "vo_ok v'" "contents_of v' = c'" using v'(1) by (simp_all add: vo_rep_iff)
  have i: "shardIndex m key = ?i" by (rule same_setup_index [OF mu(4)])
  have en: "maxMemoryEnabled m = maxMemoryEnabled s" by (rule same_setup_max [OF mu(4)])
  note fin = wf_entries(3) [OF store_invD(1) [OF inv]]
  show ?thesis
  proof (cases none_left)
    case False
    let ?t = "if maxMemoryEnabled s then m\<lparr>sr_usedMemory := sr_usedMemory m + (resident_size key v' - resident_size key v)\<rparr> else m"
    have t: "s' = ?t" using False by (simp add: s' finishRemoval_def Let_def m_def resident_size_def)
    have "store_inv s'" using inv mu(1-3) vok by (auto simp: store_inv_def t split: if_splits)
    moreover have "same_setup s s'" using mu(4) same_setup_trans [OF mu(4)] by (simp add: t)
    moreover have "mem_ok s'" if "mem_ok s"
      using that mu(2,5) total_of_upd [OF fin, of resident_size key v'] l same_setup_max [OF \<open>same_setup s s'\<close>]
      by (simp add: mem_ok_def t)
    moreover have "view s' = (view s)(key \<mapsto> (c', vo_ExpiresAt v))" using mu(2) vok v'(3) by (auto simp: t view_def fun_eq_iff)
    ultimately show ?thesis using False by simp
  next
    case True
    define t where "t = (if maxMemoryEnabled s then m\<lparr>sr_usedMemory := sr_usedMemory m - resident_size key v\<rparr> else m)"
    have t: "store_wf t" "counts_ok t" "lookup t = (lookup s)(key \<mapsto> v')" "shardIndex t = shardIndex m" "same_setup s t"
      using mu same_setup_trans [OF mu(4)] by (simp_all add: t_def)
    have "lookup m key = Some v'" using mu(2) by simp
    then have "s' = removeKeyLocked t (shardIndex t key) key"
      using True i en t(4) by (simp add: s' finishRemoval_def Let_def m_def [symmetric] deleteKeyWithSizeLocked_def lookup_def
        t_def resident_size_def)
    note r = removeKey_spec [OF t(1,2) this]
    have lk: "lookup s' = (lookup s)(key := None)" using r(2) t(3) by simp
    have st: "same_setup s s'" by (rule same_setup_trans [OF t(5) r(4)])
    have "store_inv s'" using inv r(1,3) lk by (auto simp: store_inv_def split: if_splits)
    moreover have "mem_ok s'" if "mem_ok s"
      using that lk r(5) mu(5) total_of_del [OF fin, of resident_size key] l same_setup_max [OF st] by (simp add: mem_ok_def t_def)
    moreover have "view s' = (view s)(key := None)" using lk by (auto simp: view_def fun_eq_iff)
    ultimately show ?thesis using st True by simp
  qed
qed

definition pop_takes :: "(bytes list \<Rightarrow> 'a \<times> bytes list) \<Rightarrow> contents \<Rightarrow> store_error + 'a option \<times> contents option" where
  "pop_takes split c =
     (case c of
        CList l \<Rightarrow>
          if l = [] then Inr (None, None)
          else (case split l of (p, l') \<Rightarrow> Inr (Some p, if l' = [] then None else Some (CList l')))
      | _ \<Rightarrow> Inl ErrWrongType)"

definition hdel_takes :: "bytes list \<Rightarrow> contents \<Rightarrow> store_error + nat \<times> contents option" where
  "hdel_takes fs c =
     (case c of
        CHash m \<Rightarrow> Inr (card (dom m \<inter> set fs), if dom m \<subseteq> set fs then None else Some (CHash (m |` (- set fs))))
      | _ \<Rightarrow> Inl ErrWrongType)"

definition srem_takes :: "bytes list \<Rightarrow> contents \<Rightarrow> store_error + nat \<times> contents option" where
  "srem_takes ms c =
     (case c of
        CSet S \<Rightarrow> Inr (card (S \<inter> set ms), if S \<subseteq> set ms then None else Some (CSet (S - set ms)))
      | _ \<Rightarrow> Inl ErrWrongType)"

text \<open>The three stages every removal goes through.\<close>

lemma removal_stages:
  assumes inv: "store_inv s" and p: "prepareExistingValueLocked s key now = (u, cur0)" and cur: "cur = live s now key"
    and none: "cur0 = None \<Longrightarrow> s' = u \<and> r = Inr absent"
    and some: "\<And>v. cur0 = Some v \<Longrightarrow> vo_ok v \<Longrightarrow> lookup u key = Some v \<Longrightarrow>
      (case takes (contents_of v) of
         Inl e \<Rightarrow> s' = u \<and> r = Inl e
       | Inr (x, c') \<Rightarrow> r = Inr x \<and> store_inv s' \<and> same_setup u s' \<and> (mem_ok u \<longrightarrow> mem_ok s') \<and>
           view s' = (view u)(key := map_option (\<lambda>c'. (c', vo_ExpiresAt v)) c'))"
  shows "removal_result takes absent s key cur s' r \<and> store_inv s' \<and> same_setup s s' \<and> (mem_ok s \<longrightarrow> mem_ok s')"
proof -
  note u = prepare_spec [OF inv p]
  have cur0: "map_option (\<lambda>v. (contents_of v, vo_ExpiresAt v)) cur0 = cur" using u(5) cur by simp
  show ?thesis
  proof (cases cur0)
    case None
    then show ?thesis using none u cur0 cur by (simp add: removal_result_def)
  next
    case (Some v)
    then have v: "lookup u key = Some v" "vo_ok v" using u(4) store_invD(3) [OF u(1)] by auto
    have c: "cur = Some (contents_of v, vo_ExpiresAt v)" using cur0 Some by simp
    show ?thesis
    proof (cases "takes (contents_of v)")
      case (Inl e)
      then show ?thesis using some [OF Some v(2,1)] u c cur by (simp add: removal_result_def)
    next
      case (Inr xc)
      obtain x c' where xc: "xc = (x, c')" by (cases xc)
      have q: "r = Inr x" "store_inv s'" "same_setup u s'" "mem_ok u \<longrightarrow> mem_ok s'"
          "view s' = (view u)(key := map_option (\<lambda>c'. (c', vo_ExpiresAt v)) c')"
        using some [OF Some v(2,1)] Inr xc by simp_all
      then show ?thesis using u(3,6) c Inr xc same_setup_trans [OF u(2) q(3)] by (simp add: removal_result_def)
    qed
  qed
qed

lemma popWith_spec:
  assumes inv: "store_inv s" and r: "popWith env s key split = (s', r)"
  shows "removal_result (pop_takes split) None s key (live s (env_clock env 0) key) s' r \<and>
         store_inv s' \<and> same_setup s s' \<and> (mem_ok s \<longrightarrow> mem_ok s')"
proof -
  obtain u cur0 where p: "prepareExistingValueLocked s key (env_clock env 0) = (u, cur0)" by fastforce
  note u = prepare_spec [OF inv p]
  show ?thesis
  proof (rule removal_stages [OF inv p refl])
    show "s' = u \<and> r = Inr None" if "cur0 = None" using r p that by (simp add: popWith_def)
    fix v assume v: "cur0 = Some v" "vo_ok v" "lookup u key = Some v"
    show "case pop_takes split (contents_of v) of
         Inl e \<Rightarrow> s' = u \<and> r = Inl e
       | Inr (x, c') \<Rightarrow> r = Inr x \<and> store_inv s' \<and> same_setup u s' \<and> (mem_ok u \<longrightarrow> mem_ok s') \<and>
           view s' = (view u)(key := map_option (\<lambda>c'. (c', vo_ExpiresAt v)) c')"
    proof (cases "contents_of v")
      case (CList l)
      then have lv: "ListValue v = Inr l" using v(2) by (simp add: vo_ok_def)
      then have k: "vo_Kind v = ValueKindList" by (auto simp: ListValue_def split: if_splits)
      show ?thesis
      proof (cases "l = []")
        case True
        obtain d b where d: "deleteKeyLocked u (shardIndex u key) key = (d, b)" by fastforce
        have s': "s' = d" "r = Inr None" using r p v lv True d by (simp_all add: popWith_def)
        note del = deleteKey_spec [OF store_invD(1,2) [OF u(1)] d]
        have "view u |` (- {key}) = (view u)(key := None)" by (auto simp: restrict_map_def)
        then show ?thesis using True CList s' drops_inv [OF u(1) del(1)] del(3) drops_wf [OF del(1)] by (simp add: pop_takes_def)
      next
        case False
        obtain q l' where sp: "split l = (q, l')" by fastforce
        let ?v = "touch (v\<lparr>vo_List := l'\<rparr>) (env_clock env 1)"
        have s': "s' = finishRemoval u key v ?v (l' = [])" "r = Inr (Some q)" using r p v lv False sp by (simp_all add: popWith_def)
        have "vo_rep ?v (CList l')" "vo_Kind ?v = vo_Kind v" "vo_ExpiresAt ?v = vo_ExpiresAt v"
          using k by (simp_all add: ListValue_def touch_def)
        from finishRemoval_spec [OF u(1) v(3) this s'(1)] show ?thesis using False CList sp s'(2) by (simp add: pop_takes_def)
      qed
    qed (use r p v ok_kind [OF v(2)] in \<open>simp_all add: popWith_def pop_takes_def ListValue_def\<close>)
  qed
qed

lemma HDel_spec:
  assumes inv: "store_inv s" and fs: "fs \<noteq> []" and r: "HDel env s key fs = (s', r)"
  shows "removal_result (hdel_takes fs) 0 s key (live s (env_clock env 0) key) s' r \<and>
         store_inv s' \<and> same_setup s s' \<and> (mem_ok s \<longrightarrow> mem_ok s')"
proof -
  obtain u cur0 where p: "prepareExistingValueLocked s key (env_clock env 0) = (u, cur0)" by fastforce
  note u = prepare_spec [OF inv p]
  show ?thesis
  proof (rule removal_stages [OF inv p refl])
    show "s' = u \<and> r = Inr 0" if "cur0 = None" using r p that fs by (simp add: HDel_def)
    fix v assume v: "cur0 = Some v" "vo_ok v" "lookup u key = Some v"
    show "case hdel_takes fs (contents_of v) of
         Inl e \<Rightarrow> s' = u \<and> r = Inl e
       | Inr (x, c') \<Rightarrow> r = Inr x \<and> store_inv s' \<and> same_setup u s' \<and> (mem_ok u \<longrightarrow> mem_ok s') \<and>
           view s' = (view u)(key := map_option (\<lambda>c'. (c', vo_ExpiresAt v)) c')"
      using v(2)
    proof (cases rule: hash_cases)
      case (hash m)
      obtain v' where v': "hashDel v fs = Inr (v', card (dom m \<inter> set fs))" "vo_rep v' (CHash (m |` (- set fs)))"
          "vo_ExpiresAt v' = vo_ExpiresAt v" using hashDel_rep [OF hash(2)] by blast
      let ?v = "touch v' (env_clock env 1)"
      have tv: "vo_rep ?v (CHash (m |` (- set fs)))" "vo_ExpiresAt ?v = vo_ExpiresAt v"
        using v'(2,3) by (simp_all del: vo_rep.simps)
      have k: "vo_Kind ?v = vo_Kind v" using vo_rep_kind [OF tv(1)] vo_rep_kind [OF hash(2)] by simp
      have len: "hashLen ?v = Inr (card (dom m \<inter> - set fs))" using hash_reads(1) [OF tv(1)] by (simp add: dom_restrict)
      have fin: "finite (dom m)" using hash_reads(3) [OF hash(2)] .
      have e: "card (dom m \<inter> - set fs) = 0 \<longleftrightarrow> dom m \<subseteq> set fs" using fin by auto
      have s': "s' = finishRemoval u key v ?v (dom m \<subseteq> set fs)" "r = Inr (card (dom m \<inter> set fs))"
        using r p v(1) v'(1) len fs e by (simp_all add: HDel_def Let_def)
      show ?thesis using finishRemoval_spec [OF u(1) v(3) tv(1) k tv(2) s'(1)] s'(2) hash(1) by (simp add: hdel_takes_def)
    next
      case other
      then have "hdel_takes fs (contents_of v) = Inl ErrWrongType"
        using ok_kind [OF v(2)] by (cases "contents_of v") (simp_all add: hdel_takes_def)
      then show ?thesis using r p v(1) fs other by (simp add: HDel_def hashDel_def hashPayload_def)
    qed
  qed
qed

lemma SRem_spec:
  assumes inv: "store_inv s" and ms: "ms \<noteq> []" and r: "SRem env s key ms = (s', r)"
  shows "removal_result (srem_takes ms) 0 s key (live s (env_clock env 0) key) s' r \<and>
         store_inv s' \<and> same_setup s s' \<and> (mem_ok s \<longrightarrow> mem_ok s')"
proof -
  obtain u cur0 where p: "prepareExistingValueLocked s key (env_clock env 0) = (u, cur0)" by fastforce
  note u = prepare_spec [OF inv p]
  show ?thesis
  proof (rule removal_stages [OF inv p refl])
    show "s' = u \<and> r = Inr 0" if "cur0 = None" using r p that ms by (simp add: SRem_def)
    fix v assume v: "cur0 = Some v" "vo_ok v" "lookup u key = Some v"
    show "case srem_takes ms (contents_of v) of
         Inl e \<Rightarrow> s' = u \<and> r = Inl e
       | Inr (x, c') \<Rightarrow> r = Inr x \<and> store_inv s' \<and> same_setup u s' \<and> (mem_ok u \<longrightarrow> mem_ok s') \<and>
           view s' = (view u)(key := map_option (\<lambda>c'. (c', vo_ExpiresAt v)) c')"
      using v(2)
    proof (cases rule: set_cases)
      case (set S)
      obtain v' where v': "setRemove v ms = Inr (v', card (S \<inter> List.set ms))" "vo_rep v' (CSet (S - List.set ms))"
          "vo_ExpiresAt v' = vo_ExpiresAt v" using setRemove_rep [OF set(2)] by blast
      let ?v = "touch v' (env_clock env 0)"
      have tv: "vo_rep ?v (CSet (S - List.set ms))" "vo_ExpiresAt ?v = vo_ExpiresAt v"
        using v'(2,3) by (simp_all del: vo_rep.simps)
      have k: "vo_Kind ?v = vo_Kind v" using vo_rep_kind [OF tv(1)] vo_rep_kind [OF set(2)] by simp
      have len: "setLen ?v = Inr (card (S - List.set ms))" using set_reads(1) [OF tv(1)] .
      have e: "card (S - List.set ms) = 0 \<longleftrightarrow> S \<subseteq> List.set ms" using set_reads(3) [OF set(2)] by auto
      have s': "s' = finishRemoval u key v ?v (S \<subseteq> List.set ms)" "r = Inr (card (S \<inter> List.set ms))"
        using r p v(1) v'(1) len ms e by (simp_all add: SRem_def Let_def)
      show ?thesis using finishRemoval_spec [OF u(1) v(3) tv(1) k tv(2) s'(1)] s'(2) set(1) by (simp add: srem_takes_def)
    next
      case other
      then have "srem_takes ms (contents_of v) = Inl ErrWrongType"
        using ok_kind [OF v(2)] by (cases "contents_of v") (simp_all add: srem_takes_def)
      then show ?thesis using r p v(1) ms other by (simp add: SRem_def setRemove_def setPayload_def)
    qed
  qed
qed

end
