(* ===== verification/Bulk_Ops.thy ===== *)
theory Bulk_Ops
  imports Store_Contracts
begin

text \<open>
  Operations over many keys: the grouping of keys by shard that \<^verbatim>\<open>DeleteMany\<close> and the background expiry use,
  their effect, the changes of the memory limit, and the replacement of the whole keyspace.

  Shown: the counting sort of \<^verbatim>\<open>groupKeysByShard\<close> hands each shard exactly its keys in their order;
  \<^verbatim>\<open>DeleteMany\<close> removes the given keys and reports the live ones once each; the background expiry removes
  expired keys only and reports exactly these.
\<close>

section \<open>Grouping\<close>

definition in_shard :: "('k \<Rightarrow> nat) \<Rightarrow> nat \<Rightarrow> 'k list \<Rightarrow> 'k list" where
  "in_shard idx i keys = filter (\<lambda>k. idx k = i) keys"

lemma in_shard_append [simp]: "in_shard idx i (xs @ ys) = in_shard idx i xs @ in_shard idx i ys"
  by (simp add: in_shard_def)

lemma in_shard_Cons [simp]:
  "in_shard idx i [] = []" "in_shard idx i (k # ks) = (if idx k = i then k # in_shard idx i ks else in_shard idx i ks)"
  by (simp_all add: in_shard_def)

lemma group_counts:
  assumes "\<forall>k \<in> set keys. idx k < length c" "i < length c"
  shows "foldl (\<lambda>c k. c[idx k := c ! idx k + 1]) c keys ! i = c ! i + length (in_shard idx i keys)"
    "length (foldl (\<lambda>c k. c[idx k := c ! idx k + (1 :: nat)]) c keys) = length c"
  using assms by (induction keys arbitrary: c) (auto simp: nth_list_update)

lemma group_offsets_nth: "i < length cs \<Longrightarrow> group_offsets cs acc ! i = acc + (\<Sum>j<i. cs ! j)"
proof (induction cs arbitrary: acc i)
  case (Cons c cs)
  show ?case
  proof (cases i)
    case (Suc j)
    then have "group_offsets (c # cs) acc ! i = acc + c + (\<Sum>j<j. cs ! j)" using Cons by simp
    then show ?thesis using sum.lessThan_Suc_shift [of "(!) (c # cs)" j] by (simp add: Suc)
  qed simp
qed simp

lemma length_group_offsets [simp]: "length (group_offsets cs acc) = length cs"
  by (induction cs arbitrary: acc) auto

lemma blocks_disjoint:
  fixes c :: "nat \<Rightarrow> nat"
  assumes "i < j" shows "(\<Sum>k<i. c k) + c i \<le> (\<Sum>k<j. c k)"
proof -
  have "(\<Sum>k<Suc i. c k) \<le> (\<Sum>k<j. c k)" using assms by (intro sum_mono2) auto
  then show ?thesis by simp
qed

text \<open>The placing loop: each key goes to the next free position of its block, so that block i holds the keys of
  shard i placed so far, in order.\<close>

lemma group_place_spec:
  fixes c :: "nat \<Rightarrow> nat"
  defines "off i \<equiv> (\<Sum>k<i. c k)"
  assumes "\<forall>k \<in> set rest. idx k < n" "\<forall>i < n. c i = length (in_shard idx i (ds @ rest))" "length grouped = off n"
    "length nexts = n" "\<forall>i < n. nexts ! i = off i + length (in_shard idx i ds)"
    "\<forall>i < n. \<forall>m < length (in_shard idx i ds). grouped ! (off i + m) = in_shard idx i ds ! m"
  shows "length (group_place idx rest nexts grouped) = off n \<and>
    (\<forall>i < n. \<forall>m < c i. group_place idx rest nexts grouped ! (off i + m) = in_shard idx i (ds @ rest) ! m)"
  using assms(2-)
proof (induction rest arbitrary: ds nexts grouped)
  case Nil
  then show ?case by simp
next
  case (Cons k rest)
  let ?i = "idx k"
  let ?p = "nexts ! ?i"
  have i: "?i < n" using Cons.prems(1) by simp
  have p: "?p = off ?i + length (in_shard idx ?i ds)" using Cons.prems(5) i by simp
  have room: "length (in_shard idx ?i ds) < c ?i" using Cons.prems(2) i by simp
  have top: "off ?i + c ?i \<le> off n" using blocks_disjoint [OF i, of c] by (simp add: off_def)
  have bound: "?p < length grouped" using p room top Cons.prems(3) by linarith
  have other: "off j + m \<noteq> ?p" if "j < n" "j \<noteq> ?i" "m < length (in_shard idx j ds)" for j m
  proof -
    have m: "m < c j" using that Cons.prems(2) by auto
    show ?thesis
    proof (cases "j < ?i")
      case True
      then have "off j + c j \<le> off ?i" using blocks_disjoint [of j ?i c] by (simp add: off_def)
      then show ?thesis using m p by linarith
    next
      case False
      then have "off ?i + c ?i \<le> off j" using blocks_disjoint [of ?i j c] that(2) by (simp add: off_def)
      then show ?thesis using room p by linarith
    qed
  qed
  have "length (group_place idx rest (nexts[?i := ?p + 1]) (grouped[?p := k])) = off n \<and>
    (\<forall>i < n. \<forall>m < c i. group_place idx rest (nexts[?i := ?p + 1]) (grouped[?p := k]) ! (off i + m) =
       in_shard idx i ((ds @ [k]) @ rest) ! m)"
  proof (rule Cons.IH)
    show "\<forall>k \<in> set rest. idx k < n" using Cons.prems(1) by simp
    show "\<forall>i < n. c i = length (in_shard idx i ((ds @ [k]) @ rest))" using Cons.prems(2) by simp
    show "length (grouped[?p := k]) = off n" using Cons.prems(3) by simp
    show "length (nexts[?i := ?p + 1]) = n" using Cons.prems(4) by simp
    show "\<forall>i < n. nexts[?i := ?p + 1] ! i = off i + length (in_shard idx i (ds @ [k]))"
      using Cons.prems(4,5) p by (auto simp: nth_list_update)
    show "\<forall>i < n. \<forall>m < length (in_shard idx i (ds @ [k])). grouped[?p := k] ! (off i + m) = in_shard idx i (ds @ [k]) ! m"
    proof (intro allI impI)
      fix j m assume j: "j < n" and m: "m < length (in_shard idx j (ds @ [k]))"
      show "grouped[?p := k] ! (off j + m) = in_shard idx j (ds @ [k]) ! m"
      proof (cases "m < length (in_shard idx j ds)")
        case True
        have "off j + m \<noteq> ?p"
        proof (cases "j = ?i")
          case True
          then show ?thesis using p \<open>m < length (in_shard idx j ds)\<close> by simp
        qed (use other [OF j] True in blast)
        then show ?thesis using True Cons.prems(6) j by (simp add: nth_append)
      next
        case False
        then have "idx k = j" "m = length (in_shard idx j ds)" using m by (auto split: if_splits)
        then show ?thesis using p bound by (simp add: nth_append)
      qed
    qed
  qed
  then show ?case by simp
qed

lemma groupKeysByShard_spec:
  assumes "store_wf s" "i < length (sr_shards s)"
  shows "keysForShard (groupKeysByShard s keys) i = in_shard (shardIndex s) i keys"
    "g_counts (groupKeysByShard s keys) ! i = length (in_shard (shardIndex s) i keys)"
proof -
  let ?n = "length (sr_shards s)" and ?idx = "shardIndex s"
  let ?g = "groupKeysByShard s keys"
  define c where "c i = length (in_shard ?idx i keys)" for i
  define off where "off i = (\<Sum>k<i. c k)" for i
  have idx: "\<forall>k \<in> set keys. ?idx k < ?n" using shardIndex_less [OF assms(1)] by simp
  have cnt: "length (g_counts ?g) = ?n" "\<And>i. i < ?n \<Longrightarrow> g_counts ?g ! i = c i"
    using group_counts [of keys ?idx "replicate ?n 0"] idx assms(2) by (simp_all add: groupKeysByShard_def Let_def c_def)
  have o: "g_offsets ?g = group_offsets (g_counts ?g) 0" by (simp add: groupKeysByShard_def Let_def)
  have offs: "length (g_offsets ?g) = ?n" "\<And>i. i < ?n \<Longrightarrow> g_offsets ?g ! i = off i"
    using cnt by (simp_all add: o group_offsets_nth off_def)
  have len: "length keys = off ?n"
    unfolding off_def c_def using idx
  proof (induction keys)
    case (Cons k keys)
    have "(\<Sum>i<?n. length (in_shard ?idx i (k # keys))) = (\<Sum>i<?n. length (in_shard ?idx i keys) + (if ?idx k = i then 1 else 0))"
      by (rule sum.cong) auto
    then show ?case using Cons by (simp add: sum.distrib)
  qed simp
  have keys: "g_keys ?g = group_place ?idx keys (g_offsets ?g) (replicate (length keys) [])"
    by (simp add: groupKeysByShard_def Let_def)
  have placed: "length (g_keys ?g) = off ?n \<and> (\<forall>i < ?n. \<forall>m < c i. g_keys ?g ! (off i + m) = in_shard ?idx i ([] @ keys) ! m)"
    unfolding keys off_def
    by (rule group_place_spec) (use idx offs len in \<open>simp_all add: c_def off_def\<close>)
  show "g_counts ?g ! i = length (in_shard ?idx i keys)" using cnt(2) assms(2) by (simp add: c_def)
  have "off i + c i \<le> off ?n" using blocks_disjoint [OF assms(2), of c] by (simp add: off_def)
  then show "keysForShard ?g i = in_shard ?idx i keys"
    using placed cnt(2) [OF assms(2)] offs(2) [OF assms(2)] assms(2)
    by (intro nth_equalityI) (simp_all add: keysForShard_def slice_def c_def)
qed

section \<open>Sweeping a list of keys\<close>

text \<open>The loops of \<^verbatim>\<open>DeleteMany\<close> and of the background expiry differ in which resident values they delete
  (\<open>d\<close>) and which of the deleted keys they report (\<open>q\<close>).\<close>

fun sweep :: "(ValueObject \<Rightarrow> bool) \<Rightarrow> (ValueObject \<Rightarrow> bool) \<Rightarrow> Store \<Rightarrow> nat \<Rightarrow> bytes list \<Rightarrow> bytes list \<Rightarrow> Store \<times> bytes list" where
  "sweep d q s i [] acc = (s, acc)"
| "sweep d q s i (key # keys) acc =
     (case data_get s i key of
        None \<Rightarrow> sweep d q s i keys acc
      | Some v \<Rightarrow>
          if d v then sweep d q (fst (deleteKeyLocked s i key)) i keys (if q v then acc @ [key] else acc)
          else sweep d q s i keys acc)"

fun sweep_shards :: "(ValueObject \<Rightarrow> bool) \<Rightarrow> (ValueObject \<Rightarrow> bool) \<Rightarrow> Store \<Rightarrow> shardKeyGroups \<Rightarrow> nat list \<Rightarrow> bytes list \<Rightarrow>
    Store \<times> bytes list" where
  "sweep_shards d q s g [] acc = (s, acc)"
| "sweep_shards d q s g (i # is) acc =
     (case sweep d q s i (keysForShard g i) acc of (s, acc) \<Rightarrow> sweep_shards d q s g is acc)"

lemma deleteMany_sweep: "deleteMany_shard s i now keys acc = sweep (\<lambda>_. True) (\<lambda>v. \<not> isExpired v now) s i keys acc"
  by (induction s i now keys acc rule: deleteMany_shard.induct) (auto split: option.split)

lemma evictExpired_sweep: "evictExpired_shard s i now keys acc = sweep (\<lambda>v. isExpired v now) (\<lambda>_. True) s i keys acc"
  by (induction s i now keys acc rule: evictExpired_shard.induct) (auto split: option.split)

lemma no_group: "g_counts g ! i = 0 \<Longrightarrow> keysForShard g i = []"
  by (simp add: keysForShard_def slice_def)

lemma deleteMany_sweeps:
  "deleteMany_shards s g now is acc = sweep_shards (\<lambda>_. True) (\<lambda>v. \<not> isExpired v now) s g is acc"
  by (induction s g now "is" acc rule: deleteMany_shards.induct) (simp_all add: deleteMany_sweep no_group split: prod.split)

lemma evictExpired_sweeps:
  "evictExpired_shards s g now is acc = sweep_shards (\<lambda>v. isExpired v now) (\<lambda>_. True) s g is acc"
  by (induction s g now "is" acc rule: evictExpired_shards.induct) (simp_all add: evictExpired_sweep no_group split: prod.split)

text \<open>What a sweep over \<open>keys\<close> does: \<open>swept\<close> relates the store and list before and after.\<close>

definition hit :: "Store \<Rightarrow> (ValueObject \<Rightarrow> bool) \<Rightarrow> bytes set \<Rightarrow> bytes set" where
  "hit s d K = {k \<in> K. \<exists>v. lookup s k = Some v \<and> d v}"

definition swept :: "(ValueObject \<Rightarrow> bool) \<Rightarrow> (ValueObject \<Rightarrow> bool) \<Rightarrow> bytes set \<Rightarrow> Store \<Rightarrow> Store \<Rightarrow> bytes list \<Rightarrow> bool" where
  "swept d q K s s' rs \<longleftrightarrow> drops s s' (hit s d K) \<and> distinct rs \<and> set rs = hit s (\<lambda>v. d v \<and> q v) K \<and>
     (mem_ok s \<longrightarrow> mem_ok s') \<and> sr_pendingExpired s' = sr_pendingExpired s \<and> sr_published s' = sr_published s"

lemma hit_after: "drops s t (hit s d K) \<Longrightarrow> hit t p L = hit s p L - hit s d K"
  by (auto simp: hit_def drops_def restrict_map_def split: if_splits)

lemma swept_trans:
  assumes "swept d q K s t rs" "swept d q L t u rs'"
  shows "swept d q (K \<union> L) s u (rs @ rs')"
proof -
  have h: "hit t p L = hit s p L - hit s d K" for p using assms(1) by (intro hit_after) (simp add: swept_def)
  have "hit s d K \<union> hit t d L = hit s d (K \<union> L)" unfolding h by (auto simp: hit_def)
  moreover have "hit s (\<lambda>v. d v \<and> q v) K \<union> hit t (\<lambda>v. d v \<and> q v) L = hit s (\<lambda>v. d v \<and> q v) (K \<union> L)"
    "hit s (\<lambda>v. d v \<and> q v) K \<inter> hit t (\<lambda>v. d v \<and> q v) L = {}" unfolding h by (auto simp: hit_def)
  ultimately show ?thesis using assms drops_trans [of s t "hit s d K" u "hit t d L"] by (auto simp: swept_def)
qed

lemma swept_empty: "store_wf s \<Longrightarrow> counts_ok s \<Longrightarrow> swept d q {} s s []"
  by (simp add: swept_def hit_def drops_refl)

lemma sweep_spec:
  assumes "store_wf s" "counts_ok s" "\<forall>k \<in> set keys. shardIndex s k = i" "sweep d q s i keys acc = (s', acc')"
  shows "\<exists>rs. acc' = acc @ rs \<and> swept d q (set keys) s s' rs"
  using assms
proof (induction d q s i keys acc rule: sweep.induct)
  case (1 d q s i acc)
  then show ?case by (simp add: swept_empty)
next
  case (2 d q s i key keys acc)
  have l: "data_get s i key = lookup s key" using "2.prems"(3) by (simp add: lookup_def)
  show ?case
  proof (cases "\<exists>v. lookup s key = Some v \<and> d v")
    case False
    then have "sweep d q s i keys acc = (s', acc')" using "2.prems"(4) l by (auto split: option.splits if_splits)
    moreover have "swept d q {key} s s []"
    proof -
      have "hit s d {key} = {}" "hit s (\<lambda>v. d v \<and> q v) {key} = {}" using False by (auto simp: hit_def)
      then show ?thesis using "2.prems"(1,2) by (simp add: swept_def drops_refl)
    qed
    moreover have "\<exists>rs. acc' = acc @ rs \<and> swept d q (set keys) s s' rs" if "sweep d q s i keys acc = (s', acc')"
      using "2.IH"(1) [OF _ _ _ _ that] "2.IH"(3) [OF _ _ _ _ _ that] "2.prems"(1-3) False l by (cases "lookup s key") auto
    ultimately show ?thesis using swept_trans [of d q "{key}" s s "[]" "set keys" s'] by fastforce
  next
    case True
    then obtain v where v: "lookup s key = Some v" "d v" by blast
    obtain t b where del: "deleteKeyLocked s i key = (t, b)" by fastforce
    let ?r = "if q v then [key] else []"
    have del': "deleteKeyLocked s (shardIndex s key) key = (t, b)" using del "2.prems"(3) by simp
    note ds = deleteKey_spec [OF "2.prems"(1,2) del']
    have "swept d q {key} s t ?r"
    proof -
      have "hit s d {key} = {key}" "hit s (\<lambda>v. d v \<and> q v) {key} = (if q v then {key} else {})" using v by (auto simp: hit_def)
      then show ?thesis using ds by (simp add: swept_def)
    qed
    moreover have "\<exists>rs. acc' = (acc @ ?r) @ rs \<and> swept d q (set keys) t s' rs"
    proof -
      have "shardIndex t k = shardIndex s k" for k using same_setup_index drops_wf [OF ds(1)] by blast
      moreover have "sweep d q t i keys (if q v then acc @ [key] else acc) = (s', acc')"
        using "2.prems"(4) v l del by simp
      ultimately show ?thesis
        using "2.IH"(2) [of v] v l del drops_wf [OF ds(1)] "2.prems"(3) by (cases "q v") simp_all
    qed
    ultimately show ?thesis using swept_trans [of d q "{key}" s t ?r "set keys" s'] by fastforce
  qed
qed

lemma sweep_shards_spec:
  assumes "store_wf s" "counts_ok s" "\<forall>i \<in> set is. \<forall>k \<in> set (keysForShard g i). shardIndex s k = i"
    "sweep_shards d q s g is acc = (s', acc')"
  shows "\<exists>rs. acc' = acc @ rs \<and> swept d q (\<Union>i \<in> set is. set (keysForShard g i)) s s' rs"
  using assms
proof (induction "is" arbitrary: s acc)
  case Nil
  then show ?case by (simp add: swept_empty)
next
  case (Cons i "is")
  obtain t acc1 where t: "sweep d q s i (keysForShard g i) acc = (t, acc1)" by fastforce
  obtain rs where rs: "acc1 = acc @ rs" "swept d q (set (keysForShard g i)) s t rs"
    using sweep_spec [OF Cons.prems(1,2) _ t] Cons.prems(3) by auto
  have wf: "store_wf t \<and> counts_ok t \<and> same_setup s t" using rs(2) drops_wf by (auto simp: swept_def)
  then have "\<exists>rs'. acc' = acc1 @ rs' \<and> swept d q (\<Union>i \<in> set is. set (keysForShard g i)) t s' rs'"
    using Cons.prems(3,4) t by (intro Cons.IH) (simp_all add: same_setup_index [of s t])
  then show ?case using rs swept_trans [OF rs(2)] by fastforce
qed

lemma sweep_grouped:
  assumes wf: "store_wf s" "counts_ok s"
    and r: "sweep_shards d q s (groupKeysByShard s keys) [0..<length (sr_shards s)] [] = (s', rs)"
  shows "swept d q (set keys) s s' rs"
proof -
  have k: "keysForShard (groupKeysByShard s keys) i = in_shard (shardIndex s) i keys" if "i < length (sr_shards s)" for i
    using groupKeysByShard_spec(1) [OF wf(1) that] .
  have "(\<Union>i \<in> set [0..<length (sr_shards s)]. set (keysForShard (groupKeysByShard s keys) i)) = set keys"
    using shardIndex_less [OF wf(1)] by (auto simp: k in_shard_def)
  moreover have "\<forall>i \<in> set [0..<length (sr_shards s)]. \<forall>x \<in> set (keysForShard (groupKeysByShard s keys) i). shardIndex s x = i"
    by (auto simp: k in_shard_def)
  ultimately show ?thesis using sweep_shards_spec [OF wf _ r] by auto
qed

section \<open>Deleting keys\<close>

lemma swept_inv: "store_inv s \<Longrightarrow> swept d q K s s' rs \<Longrightarrow> store_inv s' \<and> same_setup s s' \<and> view s' = view s |` (- hit s d K)"
  using drops_inv drops_wf by (auto simp: swept_def)

lemma hit_all: "view s |` (- hit s (\<lambda>_. True) K) = view s |` (- K)"
  by (auto simp: hit_def view_def restrict_map_def fun_eq_iff)

lemma hit_live: "hit s (\<lambda>v. True \<and> \<not> isExpired v now) K = {k \<in> K. live s now k \<noteq> None}"
  by (auto simp: hit_def live_lookup split: option.splits if_splits)

lemma hit_expired: "hit s (\<lambda>v. isExpired v now) K = K \<inter> expired_at s now"
  by (auto simp: hit_def expired_at_def)

lemma Delete_swept:
  assumes "store_inv s" "Delete env s key = (s', b)"
  shows "swept (\<lambda>_. True) (\<lambda>v. \<not> isExpired v (env_clock env 0)) {key} s s' (if b then [key] else [])"
proof -
  obtain t b' where d: "deleteKeyLocked s (shardIndex s key) key = (t, b')" by fastforce
  note ds = deleteKey_spec [OF store_invD(1,2) [OF assms(1)] d]
  have s': "s' = t" and b: "b \<longleftrightarrow> (\<exists>v. lookup s key = Some v \<and> \<not> isExpired v (env_clock env 0))"
    using assms(2) d by (auto simp: Delete_def lookup_def Let_def split: option.splits if_splits)
  have "lookup s |` (- hit s (\<lambda>_. True) {key}) = lookup s |` (- {key})" by (auto simp: hit_def restrict_map_def fun_eq_iff)
  then have "drops s t (hit s (\<lambda>_. True) {key})" using ds(1) by (simp add: drops_def)
  then show ?thesis using ds b by (auto simp: swept_def s' hit_def)
qed

lemma DeleteMany_swept:
  assumes "store_inv s" "DeleteMany env s keys = (s', rs)"
  shows "swept (\<lambda>_. True) (\<lambda>v. \<not> isExpired v (env_clock env 0)) (set keys) s s' rs"
proof -
  consider "keys = []" | k where "keys = [k]" | k l ks where "keys = k # l # ks" by (metis list.exhaust)
  then show ?thesis
  proof cases
    case 1
    then show ?thesis using assms swept_empty [OF store_invD(1,2) [OF assms(1)]] by (simp add: DeleteMany_def)
  next
    case (2 k)
    then obtain b where "Delete env s k = (s', b)" "rs = (if b then [k] else [])"
      using assms(2) by (auto simp: DeleteMany_def split: prod.splits)
    then show ?thesis using Delete_swept [OF assms(1)] 2 by simp
  next
    case 3
    then have "sweep_shards (\<lambda>_. True) (\<lambda>v. \<not> isExpired v (env_clock env 0)) s (groupKeysByShard s keys)
        [0..<length (sr_shards s)] [] = (s', rs)"
      using assms(2) by (simp add: DeleteMany_def deleteMany_sweeps)
    then show ?thesis by (rule sweep_grouped [OF store_invD(1,2) [OF assms(1)]])
  qed
qed

lemma DeleteMany_spec:
  assumes "store_inv s" "DeleteMany env s keys = (s', rs)"
  shows "store_inv s'" "same_setup s s'" "mem_ok s \<Longrightarrow> mem_ok s'" "view s' = view s |` (- set keys)"
    "distinct rs" "set rs = {k \<in> set keys. live s (env_clock env 0) k \<noteq> None}"
  using DeleteMany_swept [OF assms] swept_inv [OF assms(1) DeleteMany_swept [OF assms]]
  unfolding hit_all by (simp_all add: swept_def hit_live [simplified])

section \<open>Background expiry\<close>

lemma evictExpiredKeys_spec:
  assumes inv: "store_inv s" and r: "evictExpiredKeys s now keys = (s', ex)"
  shows "store_inv s'" "same_setup s s'" "mem_ok s \<Longrightarrow> mem_ok s'" "view s' = view s |` (- set ex)" "distinct ex"
    "set ex = set keys \<inter> expired_at s now" "sr_pendingExpired s' = sr_pendingExpired s @ ex"
    "sr_published s' = sr_published s"
proof -
  let ?keys = keys and ?d = "\<lambda>v. isExpired v now"
  have "\<exists>t. s' = noteExpiredKeysLocked t ex \<and> swept ?d (\<lambda>_. True) (set ?keys) s t ex"
  proof -
    consider "?keys = []" | k where "?keys = [k]" | k l ks where "?keys = k # l # ks" by (metis list.exhaust)
    then show ?thesis
    proof cases
      case 1
      then show ?thesis using r swept_empty [OF store_invD(1,2) [OF inv]]
        by (auto simp: evictExpiredKeys_def noteExpiredKeysLocked_def)
    next
      case (2 k)
      let ?i = "shardIndex s k"
      obtain t where t: "sweep ?d (\<lambda>_. True) s ?i [k] [] = (t, ex)" "s' = noteExpiredKeysLocked t ex"
        using r 2 by (auto simp: evictExpiredKeys_def Let_def noteExpiredKeysLocked_def split: option.splits if_splits)
      then show ?thesis using sweep_spec [OF store_invD(1,2) [OF inv] _ t(1)] 2 by auto
    next
      case 3
      obtain t where t: "sweep_shards ?d (\<lambda>_. True) s (groupKeysByShard s ?keys) [0..<length (sr_shards s)] [] = (t, ex)"
          "s' = noteExpiredKeysLocked t ex"
        using r 3 by (auto simp: evictExpiredKeys_def evictExpired_sweeps split: prod.splits)
      then show ?thesis using sweep_grouped [OF store_invD(1,2) [OF inv] t(1)] by auto
    qed
  qed
  then obtain t where t: "s' = noteExpiredKeysLocked t ex" "swept ?d (\<lambda>_. True) (set ?keys) s t ex" by blast
  have si: "store_inv t \<and> same_setup s t \<and> view t = view s |` (- hit s ?d (set ?keys))" by (rule swept_inv [OF inv t(2)])
  have n: "store_inv s' = store_inv t" "mem_ok s' = mem_ok t" "same_setup s s' = same_setup s t" "view s' = view t"
    by (simp_all add: t(1) store_inv_def view_def [abs_def] same_setup_def noteExpiredKeysLocked_def)
  show "store_inv s'" "same_setup s s'" "mem_ok s \<Longrightarrow> mem_ok s'" "distinct ex"
    "set ex = set ?keys \<inter> expired_at s now" "sr_published s' = sr_published s" "sr_pendingExpired s' = sr_pendingExpired s @ ex"
    "view s' = view s |` (- set ex)"
    using si t(2) unfolding n by (simp_all add: swept_def hit_expired t(1) noteExpiredKeysLocked_def)
qed

lemma live_unexpired: "E \<subseteq> expired_at s now \<Longrightarrow> view s' = view s |` (- E) \<Longrightarrow> live s' now = live s now"
  by (auto simp: live_def expired_at_view restrict_map_def fun_eq_iff split: option.splits)

lemma evictionBatch_spec:
  assumes inv: "store_inv s" and s': "s' = evictionBatch env s keys"
  shows "store_inv s'" "same_setup s s'" "mem_ok s \<Longrightarrow> mem_ok s'" "live s' (env_clock env 0) = live s (env_clock env 0)"
    "\<exists>E. E \<subseteq> expired_at s (env_clock env 0) \<and> view s' = view s |` (- E)"
proof -
  obtain t ex where t: "evictExpiredKeys s (env_clock env 0) keys = (t, ex)" by fastforce
  note e = evictExpiredKeys_spec [OF inv t]
  have s'': "s' = (if ex = [] then t else publishExpiredKeys t)" by (simp add: s' evictionBatch_def t)
  have v: "view s' = view s |` (- set ex)" using e(4) by (simp add: s'')
  show "store_inv s'" "same_setup s s'" "mem_ok s \<Longrightarrow> mem_ok s'"
    using e same_setup_trans [OF e(2)] by (simp_all add: s'')
  show "\<exists>E. E \<subseteq> expired_at s (env_clock env 0) \<and> view s' = view s |` (- E)" using v e(6) by blast
  show "live s' (env_clock env 0) = live s (env_clock env 0)" using live_unexpired [OF _ v] e(6) by blast
qed

lemma evictionTick_batch:
  "evictionTick env s cap =
     evictionBatch env s (snapshotKeys s (if cap \<le> 0 then defaultSampleSize else cap) (env_nano env 0))"
  by (simp add: evictionTick_def evictionBatch_def evictExpiredSample_def)

section \<open>The memory limit\<close>

lemma same_setup_limit: "same_setup s s' \<Longrightarrow> sr_maxMemory s' = sr_maxMemory s"
  by (simp add: same_setup_def)

lemma ConfigureMaxMemory_spec:
  assumes inv: "store_inv s" and s': "s' = ConfigureMaxMemory env s cap sampleSize"
  shows "store_inv s'" "mem_ok s'" "sr_maxMemory s' = max cap 0" "0 < sr_sampleSize s'"
    "view s' = (if cap > 0 then view s |` (- expired_at s (env_clock env 0)) else view s)"
proof -
  let ?n = "if sampleSize \<le> 0 then defaultSampleSize else sampleSize"
  define t where "t = s\<lparr>sr_maxMemory := max cap 0, sr_sampleSize := ?n\<rparr>"
  have t: "store_wf t" "counts_ok t" "lookup t = lookup s" "store_inv t" "view t = view s" "expired_at t = expired_at s"
    using inv by (simp_all add: t_def store_inv_def view_def [abs_def] expired_at_def [abs_def])
  have n: "0 < ?n" by simp
  have "store_inv s' \<and> mem_ok s' \<and> sr_maxMemory s' = max cap 0 \<and> 0 < sr_sampleSize s' \<and>
    view s' = (if cap > 0 then view s |` (- expired_at s (env_clock env 0)) else view s)"
  proof (cases "cap > 0")
    case True
    obtain u used where u: "recalculateUsedMemoryLocked t (env_clock env 0) = (u, used)" by fastforce
    have s'': "s' = publishExpiredKeys u" using True u by (simp add: s' ConfigureMaxMemory_def Let_def t_def max_def)
    note rs = recalculate_spec [OF t(1,2) u]
    have "mem_ok u" using rs(2,3) by (simp add: mem_ok_def)
    moreover have "sr_maxMemory u = max cap 0" "sr_sampleSize u = ?n"
      using drops_wf [OF rs(1)] by (simp_all add: same_setup_def t_def)
    moreover have "sr_sampleSize s' = sr_sampleSize u" by (simp add: s'' publishExpiredKeys_def Let_def)
    ultimately show ?thesis using drops_inv [OF t(4) rs(1)] t n True by (simp add: s'')
  next
    case False
    then have "s' = publishExpiredKeys (t\<lparr>sr_usedMemory := 0\<rparr>)" by (simp add: s' ConfigureMaxMemory_def Let_def t_def max_def)
    then show ?thesis using False t inv n
      by (auto simp: mem_ok_def maxMemoryEnabled_def store_inv_def view_def [abs_def] t_def publishExpiredKeys_def Let_def)
  qed
  then show "store_inv s'" "mem_ok s'" "sr_maxMemory s' = max cap 0" "0 < sr_sampleSize s'"
    "view s' = (if cap > 0 then view s |` (- expired_at s (env_clock env 0)) else view s)" by blast+
qed

lemma EnforceMaxMemory_spec:
  assumes inv: "store_inv s" and on: "maxMemoryEnabled s" and r: "EnforceMaxMemory env s = (s', r)"
  shows "store_inv s'" "same_setup s s'" "mem_ok s'"
    "\<exists>V. view s' = view s |` (- (expired_at s (env_clock env 0) \<union> V)) \<and>
      (case r of Inr ev \<Rightarrow> distinct ev \<and> set ev = V \<and> sr_usedMemory s' \<le> sr_maxMemory s'
               | Inl e \<Rightarrow> e = ErrMemoryLimitExceeded \<and> sr_usedMemory s' > sr_maxMemory s')"
proof -
  obtain u used where u: "recalculateUsedMemoryLocked s (env_clock env 0) = (u, used)" by fastforce
  note rs = recalculate_spec [OF store_invD(1,2) [OF inv] u]
  have ui: "store_inv u" "view u = view s |` (- expired_at s (env_clock env 0))" "same_setup s u"
    using drops_inv [OF inv rs(1)] drops_wf [OF rs(1)] by simp_all
  have mem: "mem_ok u" using rs(2,3) by (simp add: mem_ok_def)
  have "store_inv s' \<and> same_setup s s' \<and> mem_ok s' \<and>
    (\<exists>V. view s' = view s |` (- (expired_at s (env_clock env 0) \<union> V)) \<and>
      (case r of Inr ev \<Rightarrow> distinct ev \<and> set ev = V \<and> sr_usedMemory s' \<le> sr_maxMemory s'
               | Inl e \<Rightarrow> e = ErrMemoryLimitExceeded \<and> sr_usedMemory s' > sr_maxMemory s'))"
  proof (cases "sr_usedMemory u \<le> sr_maxMemory s")
    case True
    then have "s' = publishExpiredKeys u" "r = Inr []"
      using r on u by (simp_all add: EnforceMaxMemory_def Let_def)
    then show ?thesis
      using True ui mem same_setup_trans [OF ui(3)] same_setup_limit [OF ui(3)] by (auto intro!: exI [of _ "{}"])
  next
    case False
    obtain w q where w: "evictUntilMemoryAtOrBelowLocked env u (sr_maxMemory s) [] = (w, q)" by fastforce
    then have s': "s' = publishExpiredKeys w" "r = q"
      using r on u False by (simp_all add: EnforceMaxMemory_def Let_def)
    note ev = evictUntil_spec [OF store_invD(1,2) [OF ui(1)] mem w]
    obtain ks where ks: "distinct ks" "drops u w (set ks)" and
        q: "case q of Inl e \<Rightarrow> e = ErrMemoryLimitExceeded \<and> sr_usedMemory w > sr_maxMemory s
              | Inr ev \<Rightarrow> ev = ks \<and> sr_usedMemory w \<le> sr_maxMemory s"
      using ev(1) by (auto split: sum.splits)
    have wi: "store_inv w" "view w = view u |` (- set ks)" "same_setup u w"
      using drops_inv [OF ui(1) ks(2)] drops_wf [OF ks(2)] by simp_all
    have st: "same_setup s w" using same_setup_trans [OF ui(3) wi(3)] .
    have "view w = view s |` (- (expired_at s (env_clock env 0) \<union> set ks))"
      unfolding wi(2) ui(2) by (simp add: Int_commute)
    then show ?thesis using q ks(1) ev(2) wi(1) st same_setup_trans [OF st] same_setup_limit [OF st]
      by (auto simp: s' split: sum.splits intro!: exI [of _ "set ks"])
  qed
  then show "store_inv s'" "same_setup s s'" "mem_ok s'"
    "\<exists>V. view s' = view s |` (- (expired_at s (env_clock env 0) \<union> V)) \<and>
      (case r of Inr ev \<Rightarrow> distinct ev \<and> set ev = V \<and> sr_usedMemory s' \<le> sr_maxMemory s'
               | Inl e \<Rightarrow> e = ErrMemoryLimitExceeded \<and> sr_usedMemory s' > sr_maxMemory s')" by blast+
qed

section \<open>Replacing the keyspace\<close>

definition put :: "Store \<Rightarrow> bytes \<times> ValueObject \<Rightarrow> Store" where
  "put s kv = mutate s (shardIndex s (fst kv)) (fst kv) (snd kv)"

lemma put_fields [simp]: "shardIndex (put s kv) = shardIndex s" "length (sr_shards (put s kv)) = length (sr_shards s)"
  "s\<lparr>sr_shards := sr_shards (put s kv)\<rparr> = put s kv"
  by (simp_all add: put_def mutate_def with_data_def shardIndex_def fun_eq_iff)

lemma foldl_put:
  "idx = shardIndex s \<Longrightarrow>
   foldl put s es = s\<lparr>sr_shards := foldl (\<lambda>sh (k, v). sh[idx k := gm_set (sh ! idx k) k v]) (sr_shards s) es\<rparr>"
  "length (sr_shards (foldl put s es)) = length (sr_shards s)"
proof (induction es arbitrary: s)
  case (Cons e es)
  obtain k v where e: "e = (k, v)" by (cases e)
  {
    case 1
    have p: "put s e = s\<lparr>sr_shards := (sr_shards s)[idx k := gm_set (sr_shards s ! idx k) k v]\<rparr>" (is "_ = s\<lparr>sr_shards := ?sh\<rparr>")
      using 1 by (simp add: e put_def mutate_def with_data_def)
    have "foldl put (put s e) es =
        (put s e)\<lparr>sr_shards := foldl (\<lambda>sh (k, v). sh[idx k := gm_set (sh ! idx k) k v]) (sr_shards (put s e)) es\<rparr>"
      using 1 by (intro Cons.IH(1)) simp
    also have "\<dots> = s\<lparr>sr_shards := foldl (\<lambda>sh (k, v). sh[idx k := gm_set (sh ! idx k) k v]) ?sh es\<rparr>"
      unfolding p by simp
    finally show ?case by (simp add: e)
  next
    case 2
    then show ?case using Cons.IH(2) by simp
  }
qed simp_all

lemma foldl_put_spec:
  assumes "store_wf s" "distinct (map fst es)"
  shows "store_wf (foldl put s es)" "lookup (foldl put s es) = lookup s ++ map_of es"
proof -
  have "store_wf (foldl put s es) \<and> lookup (foldl put s es) = lookup s ++ map_of es"
    using assms
  proof (induction es arbitrary: s)
    case (Cons e es)
    have p: "store_wf (put s e)" "lookup (put s e) = (lookup s)(fst e \<mapsto> snd e)"
      using put_spec [OF Cons.prems(1)] by (simp_all add: put_def)
    have "(lookup s)(fst e \<mapsto> snd e) ++ map_of es = (lookup s ++ map_of es)(fst e \<mapsto> snd e)"
      using Cons.prems(2) by (intro map_add_upd_left) (auto simp: dom_map_of_conv_image_fst)
    moreover have "map_of (e # es) = (map_of es)(fst e \<mapsto> snd e)" by (cases e) (auto simp: fun_eq_iff)
    ultimately have "(lookup s)(fst e \<mapsto> snd e) ++ map_of es = lookup s ++ map_of (e # es)" by (simp only: map_add_upd)
    moreover have "store_wf (foldl put (put s e) es) \<and> lookup (foldl put (put s e) es) = lookup (put s e) ++ map_of es"
      using Cons.prems(2) by (intro Cons.IH [OF p(1)]) simp
    ultimately show ?case by (simp only: p(2) foldl_Cons)
  qed simp
  then show "store_wf (foldl put s es)" "lookup (foldl put s es) = lookup s ++ map_of es" by blast+
qed

lemma recount_nth:
  assumes "length c = 6" "j < 6"
  shows "foldl (\<lambda>c v. case keyStatsKindIndex (vo_Kind v) of None \<Rightarrow> c | Some i \<Rightarrow> c[i := c ! i + (1 :: int)]) c (map snd es) ! j =
      c ! j + (\<Sum>(k, v)\<leftarrow>es. kind_is j k v)"
    "length (foldl (\<lambda>c v. case keyStatsKindIndex (vo_Kind v) of None \<Rightarrow> c | Some i \<Rightarrow> c[i := c ! i + (1 :: int)]) c (map snd es)) = 6"
  using assms
proof (induction es arbitrary: c)
  case (Cons e es)
  obtain k v where e: "e = (k, v)" by (cases e)
  {
    case 1
    then show ?case using Cons.IH(1) kind_index [of "vo_Kind v"] by (auto simp: e kind_is_def nth_list_update)
  next
    case 2
    then show ?case using Cons.IH(2) kind_index [of "vo_Kind v"] by (auto simp: e)
  }
qed simp_all

lemma recount_spec:
  assumes "store_wf s" shows "counts_ok (recalculateKeyStatsLocked s)"
proof -
  let ?es = "concat (sr_shards s)"
  have "(\<Sum>(k, v)\<leftarrow>?es. kind_is j k v) = total_of (kind_is j) (lookup s)" for j
    using total_of_list [OF wf_entries(1) [OF assms]] wf_entries(2) [OF assms] by simp
  moreover have "lookup (recalculateKeyStatsLocked s) = lookup s"
    by (simp add: recalculateKeyStatsLocked_def lookup_def shardIndex_def fun_eq_iff)
  ultimately show ?thesis
    using recount_nth(1) [of "replicate 6 0" _ ?es] recount_nth(2) [of "replicate 6 0" 0 ?es]
    by (simp add: counts_ok_def recalculateKeyStatsLocked_def)
qed

lemma ReplaceWith_spec:
  assumes inv: "store_inv s" and other: "store_inv other" and s': "s' = ReplaceWith env s other"
  shows "store_inv s'" "same_setup s s'" "mem_ok s'"
    "view s' = (if maxMemoryEnabled s then view other |` (- expired_at other (env_clock env 0)) else view other)"
proof -
  let ?es = "concat (sr_shards other)" and ?n = "length (sr_shards s)"
  note wo = wf_entries [OF store_invD(1) [OF other]]
  define e0 where "e0 = s\<lparr>sr_shards := newShards (int ?n)\<rparr>"
  have n: "0 < ?n" using inv by (auto simp: store_inv_def store_wf_def)
  have e0: "sr_shards e0 = replicate ?n []" "shardIndex e0 = shardIndex s"
    using n by (auto simp: e0_def newShards_def shardIndex_def fun_eq_iff)
  have wf0: "store_wf e0" "lookup e0 = Map.empty"
    using n shardIndex_less [OF store_invD(1) [OF inv]] by (auto simp: store_wf_def e0 lookup_def fun_eq_iff)
  define t where "t = foldl put e0 ?es"
  note t = foldl_put_spec [OF wf0(1) wo(1), folded t_def, unfolded wf0(2) wo(2) empty_map_add]
  define u where "u = recalculateKeyStatsLocked t"
  have u: "store_wf u" "counts_ok u" "lookup u = lookup other"
    using t recount_spec [OF t(1)]
    by (simp_all add: u_def recalculateKeyStatsLocked_def store_wf_def lookup_def shardIndex_def fun_eq_iff)
  have ui: "store_inv u" "view u = view other" "expired_at u = expired_at other"
    using u other view_lookup_cong [OF u(3)] by (auto simp: store_inv_def expired_at_def [abs_def])
  have t': "t = s\<lparr>sr_shards := foldl (\<lambda>sh (k, v). sh[shardIndex s k := gm_set (sh ! shardIndex s k) k v]) (newShards (int ?n)) ?es\<rparr>"
    using foldl_put(1) [OF e0(2) [symmetric], of ?es] by (simp add: t_def e0_def)
  have su: "same_setup s u"
    using foldl_put(2) [of e0 ?es] by (simp add: same_setup_def u_def recalculateKeyStatsLocked_def t' e0) (simp add: t_def [symmetric] t')
  have s'': "s' = publishExpiredKeys (if maxMemoryEnabled s then fst (recalculateUsedMemoryLocked u (env_clock env 0)) else u)"
    using same_setup_max [OF su] by (simp add: s' ReplaceWith_def Let_def t' [symmetric] u_def [symmetric])
  have "store_inv s' \<and> same_setup s s' \<and> mem_ok s' \<and>
    view s' = (if maxMemoryEnabled s then view other |` (- expired_at other (env_clock env 0)) else view other)"
  proof (cases "maxMemoryEnabled s")
    case True
    obtain w used where w: "recalculateUsedMemoryLocked u (env_clock env 0) = (w, used)" by fastforce
    note rs = recalculate_spec [OF u(1,2) w]
    have "mem_ok w" using rs(2,3) by (simp add: mem_ok_def)
    then show ?thesis
      using drops_inv [OF ui(1) rs(1)] drops_wf [OF rs(1)] ui True w same_setup_trans [OF same_setup_trans [OF su, of w], of "publishExpiredKeys w"]
      by (simp add: s'')
  next
    case False
    then have "mem_ok u" using same_setup_max [OF su] by (simp add: mem_ok_def)
    then show ?thesis using ui False same_setup_trans [OF su] by (simp add: s'')
  qed
  then show "store_inv s'" "same_setup s s'" "mem_ok s'"
    "view s' = (if maxMemoryEnabled s then view other |` (- expired_at other (env_clock env 0)) else view other)" by blast+
qed

end
