(* ===== verification/Snapshots.thy ===== *)
theory Snapshots
  imports Bulk_Ops
begin

text \<open>
  What the snapshots of \<^verbatim>\<open>store.go\<close> hold, which the RDB writer and the AOF rewrite read: an entry for every
  live key, with its contents and expiry, and no other.
\<close>

text \<open>An entry and the abstract contents it shows.\<close>

definition entry_shows :: "SnapshotEntry \<Rightarrow> contents \<Rightarrow> bool" where
  "entry_shows e c \<longleftrightarrow> sn_Kind e = kind_of c \<and>
     (case c of
        CString d \<Rightarrow> sn_String e = d
      | CList l \<Rightarrow> sn_List e = l
      | CZSet m \<Rightarrow> sn_ZSet e = zlisting m
      | CStream st \<Rightarrow> sn_Stream e = map (\<lambda>r. \<lparr>se_ID = rec_idText r, se_Values = rec_values r\<rparr>) (st_entries st)
      | CHash m \<Rightarrow> distinct (map fst (sn_Hash e)) \<and> map_of (sn_Hash e) = m
      | CSet S \<Rightarrow> distinct (sn_Set e) \<and> set (sn_Set e) = S)"

lemma snapshot_entry_shows:
  assumes v: "vo_ok v"
  shows "\<exists>e. snapshot_entry key v = Some e \<and> sn_Key e = key \<and> sn_ExpiresAt e = vo_ExpiresAt v \<and> entry_shows e (contents_of v)"
proof (cases "contents_of v")
  case (CString d)
  then show ?thesis using v ok_kind [OF v] by (auto simp: snapshot_entry_def entry_shows_def vo_ok_def StringValue_def Let_def split: if_splits)
next
  case (CList d)
  then show ?thesis using v ok_kind [OF v] by (auto simp: snapshot_entry_def entry_shows_def vo_ok_def ListValue_def Let_def split: if_splits)
next
  case (CZSet m)
  then have r: "vo_rep v (CZSet m)" using v by (metis vo_ok_def)
  have z: "rank_range (zlisting m) 0 (int (card (dom m)) - 1) = zlisting m" if "card (dom m) > 0"
    using that zset_reads(6) [OF r] by (simp add: rank_range_def)
  have "zlisting m = []" if "card (dom m) = 0" using that zset_reads(6) [OF r] by simp
  then show ?thesis
    using CZSet ok_kind [OF v] z zset_reads(1) [OF r] zset_reads(4) [OF r, of 0 "int (card (dom m)) - 1"]
    by (auto simp: snapshot_entry_def entry_shows_def Let_def)
next
  case (CStream st)
  then show ?thesis using v ok_kind [OF v]
    by (auto simp: snapshot_entry_def entry_shows_def vo_ok_def StreamValueOf_def Let_def split: if_splits option.splits)
next
  case (CHash m)
  then have "vo_rep v (CHash m)" using v by (metis vo_ok_def)
  then show ?thesis using CHash ok_kind [OF v] hash_reads(4) by (fastforce simp: snapshot_entry_def entry_shows_def Let_def)
next
  case (CSet S)
  then have r: "vo_rep v (CSet S)" using v by (metis vo_ok_def)
  have k: "vo_Kind v = ValueKindSet" using ok_kind [OF v] CSet by simp
  obtain ms where ms: "setMembers v = Inr ms" "distinct ms" "set ms = S" using set_reads(4) [OF r] by auto
  moreover have "vo_Set v = Some ms" if "vo_SetEncoding v \<noteq> ValueEncodingCompact"
    using ms(1) that k by (auto simp: setMembers_def setPayload_def split: option.splits)
  ultimately show ?thesis using CSet k by (auto simp: snapshot_entry_def entry_shows_def Let_def)
qed

lemma snapshot_loop_eq:
  assumes "\<forall>(k, v) \<in> set d. vo_ok v"
  shows "snapshot_loop now d es stats =
    (es @ map (\<lambda>(k, v). the (snapshot_entry k v)) (filter (\<lambda>(k, v). \<not> isExpired v now) d),
     stats\<lparr>ss_ExportedKeys := ss_ExportedKeys stats + length (filter (\<lambda>(k, v). \<not> isExpired v now) d),
           ss_SkippedExpiredKeys := ss_SkippedExpiredKeys stats + length (filter (\<lambda>(k, v). isExpired v now) d)\<rparr>)"
  using assms
proof (induction now d es stats rule: snapshot_loop.induct)
  case (2 now key v rest es stats)
  then have "vo_ok v" and rest: "\<forall>(k, v) \<in> set rest. vo_ok v" by auto
  then obtain e where e: "snapshot_entry key v = Some e" using snapshot_entry_shows [of v key] by blast
  show ?case
  proof (cases "isExpired v now")
    case True
    show ?thesis using "2.IH"(1) [OF True rest] True by simp
  next
    case False
    show ?thesis using "2.IH"(3) [OF False e rest] False e by simp
  qed
qed simp

lemma snapshot_shards_eq:
  assumes "\<forall>d \<in> set ds. \<forall>(k, v) \<in> set d. vo_ok v"
  shows "foldl (\<lambda>(es, stats) d. snapshot_loop now d es (stats\<lparr>ss_TotalKeys := ss_TotalKeys stats + length d\<rparr>)) (es, stats) ds =
    (es @ map (\<lambda>(k, v). the (snapshot_entry k v)) (filter (\<lambda>(k, v). \<not> isExpired v now) (concat ds)),
     stats\<lparr>ss_TotalKeys := ss_TotalKeys stats + length (concat ds),
           ss_ExportedKeys := ss_ExportedKeys stats + length (filter (\<lambda>(k, v). \<not> isExpired v now) (concat ds)),
           ss_SkippedExpiredKeys := ss_SkippedExpiredKeys stats + length (filter (\<lambda>(k, v). isExpired v now) (concat ds))\<rparr>)"
  using assms
proof (induction ds arbitrary: es stats)
  case (Cons d ds)
  then show ?case using snapshot_loop_eq [of d now es "stats\<lparr>ss_TotalKeys := ss_TotalKeys stats + length d\<rparr>"]
    by (simp add: add.assoc)
qed simp

lemma concat_lookup: "store_wf s \<Longrightarrow> (k, v) \<in> set (concat (sr_shards s)) \<longleftrightarrow> lookup s k = Some v"
  by (metis map_of_eq_Some_iff wf_entries(1,2))

lemma SnapshotAll_spec:
  assumes inv: "store_inv s" and r: "SnapshotAll env s = (es, stats)"
  defines "now \<equiv> env_clock env 0"
  shows "distinct (map sn_Key es)"
    "e \<in> set es \<Longrightarrow> \<exists>c. live s now (sn_Key e) = Some (c, sn_ExpiresAt e) \<and> entry_shows e c"
    "live s now k = Some (c, t) \<Longrightarrow> \<exists>e \<in> set es. sn_Key e = k \<and> sn_ExpiresAt e = t \<and> entry_shows e c"
    "ss_TotalKeys stats = Len s" "ss_ExportedKeys stats = length es" "ss_ExportedKeys stats + ss_SkippedExpiredKeys stats = Len s"
proof -
  let ?es = "concat (sr_shards s)"
  note wf = store_invD(1) [OF inv]
  have ok: "\<forall>d \<in> set (sr_shards s). \<forall>(k, v) \<in> set d. vo_ok v"
  proof clarify
    fix d k v assume "d \<in> set (sr_shards s)" "(k, v) \<in> set d"
    then have "(k, v) \<in> set (concat (sr_shards s))" by auto
    then show "vo_ok v" using concat_lookup [OF wf] store_invD(3) [OF inv] by blast
  qed
  note eq = snapshot_shards_eq [OF ok, of now "[]" "\<lparr>ss_TotalKeys = 0, ss_ExportedKeys = 0, ss_SkippedExpiredKeys = 0\<rparr>"]
  define fs where "fs = filter (\<lambda>(k, v). \<not> isExpired v now) ?es"
  have es: "es = map (\<lambda>(k, v). the (snapshot_entry k v)) fs"
    and st: "stats = \<lparr>ss_TotalKeys = length ?es, ss_ExportedKeys = length fs,
      ss_SkippedExpiredKeys = length (filter (\<lambda>(k, v). isExpired v now) ?es)\<rparr>"
    using r eq by (simp_all add: SnapshotAll_def snapshotAllLocked_def now_def fs_def)
  have fs: "(k, v) \<in> set fs \<longleftrightarrow> lookup s k = Some v \<and> \<not> isExpired v now" for k v
    using concat_lookup [OF wf] by (auto simp: fs_def)
  have sh: "\<exists>e. snapshot_entry k v = Some e \<and> sn_Key e = k \<and> sn_ExpiresAt e = vo_ExpiresAt v \<and> entry_shows e (contents_of v)"
    if "(k, v) \<in> set fs" for k v
    using snapshot_entry_shows store_invD(3) [OF inv] that fs by blast
  have keys: "map sn_Key es = map fst fs" using sh by (fastforce simp: es)
  show "distinct (map sn_Key es)" unfolding keys fs_def
    using wf_entries(1) [OF wf] by (rule distinct_map_filter)
  show "\<exists>c. live s now (sn_Key e) = Some (c, sn_ExpiresAt e) \<and> entry_shows e c" if e: "e \<in> set es"
  proof -
    obtain k v where kv: "(k, v) \<in> set fs" "e = the (snapshot_entry k v)" using e by (auto simp: es)
    then show ?thesis using sh [OF kv(1)] fs by (auto simp: live_lookup)
  qed
  show "\<exists>e \<in> set es. sn_Key e = k \<and> sn_ExpiresAt e = t \<and> entry_shows e c" if l: "live s now k = Some (c, t)"
  proof -
    obtain v where v: "lookup s k = Some v" "\<not> isExpired v now" "c = contents_of v" "t = vo_ExpiresAt v"
      using l by (auto simp: live_lookup split: option.splits if_splits)
    then have m: "(k, v) \<in> set fs" by (simp add: fs)
    then have "the (snapshot_entry k v) \<in> set es" unfolding es by force
    then show ?thesis using sh [OF m] v by auto
  qed
  have "foldl (\<lambda>t d. t + length d) a ds = a + length (concat ds)" for a :: nat and ds :: "shard list"
    by (induction ds arbitrary: a) auto
  then have len: "Len s = length ?es" by (simp add: Len_def)
  show "ss_TotalKeys stats = Len s" "ss_ExportedKeys stats = length es" by (simp_all add: st len es)
  show "ss_ExportedKeys stats + ss_SkippedExpiredKeys stats = Len s"
    using sum_length_filter_compl [of "\<lambda>(k, v). \<not> isExpired v now" ?es] by (simp add: st len fs_def case_prod_unfold)
qed

end
