(* ===== verification/Store_Reach.thy ===== *)
theory Store_Reach
  imports Snapshots
begin

text \<open>
  Every store the operations can reach, as an inductive predicate with one rule per operation, and the invariants
  of such stores.  The predicate takes a condition on the surroundings of the calls; \<open>steady\<close> surroundings are
  those in which the clock does not advance between the two readings a call takes, which the memory accounting
  needs.
\<close>

section \<open>What every operation keeps\<close>

definition steady :: "Env \<Rightarrow> bool" where
  "steady env \<longleftrightarrow> env_clock env 1 \<le> env_clock env 0"

definition keeps :: "Env \<Rightarrow> Store \<Rightarrow> Store \<Rightarrow> bool" where
  "keeps env s s' \<longleftrightarrow> store_inv s' \<and> (steady env \<longrightarrow> mem_ok s \<longrightarrow> mem_ok s')"

named_theorems kept "operations keep the invariants"

lemma keeps_refl [simp]: "store_inv s \<Longrightarrow> keeps env s s"
  by (simp add: keeps_def)

lemma live_not_expired: "steady env \<Longrightarrow> live s (env_clock env 0) k = None \<or> k \<notin> expired_at s (env_clock env 1)"
  by (auto simp: steady_def live_def expired_at_view is_past_def split: option.splits)

context key_writer begin

lemma writer_keeps: "pre \<Longrightarrow> store_inv s \<Longrightarrow> writeKey env s key fn = (s', r) \<Longrightarrow> keeps env s s'"
  using write_spec [OF _ _ _ refl refl] live_not_expired [of env s key] unfolding keeps_def by blast

end

context key_reader begin

lemma reader_keeps: "store_inv s \<Longrightarrow> readKey env s key fn = (s', r) \<Longrightarrow> keeps env s s'"
  using read_spec(2,3) unfolding keeps_def by blast

end

lemma removal_keeps:
  "removal_result t a s key cur s' r \<and> store_inv s' \<and> same_setup s s' \<and> (mem_ok s \<longrightarrow> mem_ok s') \<Longrightarrow> keeps env s s'"
  by (simp add: keeps_def)

lemma keeps_Set [kept]: "store_inv s \<Longrightarrow> Set env s key d t = (s', r) \<Longrightarrow> keeps env s s'"
  unfolding Set_def by (rule set_w.writer_keeps [OF TrueI])

lemma keeps_withStringValue: "store_inv s \<Longrightarrow> withStringValue env s key f = (s', r) \<Longrightarrow> keeps env s s'"
  unfolding withStringValue_def by (rule string_r.reader_keeps)

lemma keeps_Get [kept]: "store_inv s \<Longrightarrow> Get env s key = (s', r) \<Longrightarrow> keeps env s s'"
  unfolding Get_def by (rule keeps_withStringValue)

lemma keeps_Delete [kept]: "store_inv s \<Longrightarrow> Delete env s key = (s', r) \<Longrightarrow> keeps env s s'"
  using swept_inv [OF _ Delete_swept, of s env key s' r] Delete_swept [of s env key s' r] by (simp add: keeps_def swept_def)

lemma keeps_DeleteMany [kept]: "store_inv s \<Longrightarrow> DeleteMany env s keys = (s', r) \<Longrightarrow> keeps env s s'"
  using DeleteMany_spec(1,3) [of s env keys s' r] by (simp add: keeps_def)

lemma keeps_Increment [kept]: "store_inv s \<Longrightarrow> Increment env s key = (s', r) \<Longrightarrow> keeps env s s'"
  unfolding Increment_def by (rule incr_w.writer_keeps [OF TrueI])

lemma keeps_GetBit [kept]: "store_inv s \<Longrightarrow> GetBit env s key offset = (s', r) \<Longrightarrow> keeps env s s'"
  unfolding GetBit_def by (auto split: option.splits elim: string_r.reader_keeps)

lemma keeps_SetBit [kept]: "store_inv s \<Longrightarrow> SetBit env s key offset b = (s', r) \<Longrightarrow> keeps env s s'"
  unfolding SetBit_def by (auto split: option.splits elim: setbit_w.writer_keeps)

lemma keeps_BitCount [kept]: "store_inv s \<Longrightarrow> BitCount env s key start stop = (s', r) \<Longrightarrow> keeps env s s'"
  unfolding BitCount_def by (rule string_r.reader_keeps)

lemma keeps_PFAdd [kept]: "store_inv s \<Longrightarrow> PFAdd env s key es = (s', r) \<Longrightarrow> keeps env s s'"
  unfolding PFAdd_def by (rule pfadd_w.writer_keeps [OF TrueI])

lemma keeps_merge [kept]: "store_inv s \<Longrightarrow> mergeHyperLogLogRegisters env s key m = (s', r) \<Longrightarrow> keeps env s s'"
  unfolding mergeHyperLogLogRegisters_def by (auto split: prod.splits sum.splits option.splits dest: keeps_withStringValue)

lemma waiters_inv [simp]:
  "store_inv (s\<lparr>sr_waiters := w\<rparr>) = store_inv s" "mem_ok (s\<lparr>sr_waiters := w\<rparr>) = mem_ok s"
  "view (s\<lparr>sr_waiters := w\<rparr>) = view s"
  by (simp_all add: store_inv_def store_wf_def counts_ok_def lookup_def shardIndex_def mem_ok_def maxMemoryEnabled_def
    view_def fun_eq_iff)

lemma keeps_pushList [kept]: "store_inv s \<Longrightarrow> pushList env s key vals left = (s', r) \<Longrightarrow> keeps env s s'"
  unfolding pushList_def
  by (auto split: if_splits prod.splits sum.splits dest!: push_w.writer_keeps [OF TrueI] simp: keeps_def)

lemma keeps_LeftPop [kept]: "store_inv s \<Longrightarrow> LeftPop env s key = (s', r) \<Longrightarrow> keeps env s s'"
  unfolding LeftPop_def by (rule removal_keeps [OF popWith_spec])

lemma keeps_RightPop [kept]: "store_inv s \<Longrightarrow> RightPop env s key = (s', r) \<Longrightarrow> keeps env s s'"
  unfolding RightPop_def by (rule removal_keeps [OF popWith_spec])

lemma keeps_popN [kept]: "store_inv s \<Longrightarrow> popN env s key n left = (s', r) \<Longrightarrow> keeps env s s'"
  unfolding popN_def by (auto split: if_splits intro: removal_keeps [OF popWith_spec])

lemma keeps_ListRange [kept]: "store_inv s \<Longrightarrow> ListRange env s key start stop = (s', r) \<Longrightarrow> keeps env s s'"
  unfolding ListRange_def by (auto split: prod.splits sum.splits option.splits dest: list_r.reader_keeps)

lemma keeps_ZAdd [kept]:
  "store_inv s \<Longrightarrow> \<forall>sc \<in> snd ` set es. sc \<noteq> NaN \<Longrightarrow> ZAdd env s key es = (s', r) \<Longrightarrow> keeps env s s'"
  by (cases "es = []") (simp_all add: ZAdd_def zadd_w.writer_keeps)

lemma keeps_ZScores [kept]: "store_inv s \<Longrightarrow> ZScores env s key ms = (s', r) \<Longrightarrow> keeps env s s'"
  unfolding ZScores_def by (auto split: prod.splits sum.splits option.splits dest: zscores_r.reader_keeps)

lemma keeps_ZRange [kept]: "store_inv s \<Longrightarrow> ZRange env s key start stop = (s', r) \<Longrightarrow> keeps env s s'"
  unfolding ZRange_def by (auto split: prod.splits sum.splits option.splits dest: zrange_r.reader_keeps)

lemma keeps_ZRangeByScores [kept]: "store_inv s \<Longrightarrow> ZRangeByScores env s key rs = (s', r) \<Longrightarrow> keeps env s s'"
  unfolding ZRangeByScores_def by (auto split: prod.splits sum.splits option.splits dest: zranges_r.reader_keeps)

lemma keeps_XAdd [kept]: "store_inv s \<Longrightarrow> XAdd env s key rawID vals = (s', r) \<Longrightarrow> keeps env s s'"
  unfolding XAdd_def by (auto split: if_splits elim: xadd_w.writer_keeps [OF TrueI])

lemma keeps_XRead [kept]: "store_inv s \<Longrightarrow> XRead env s key rawID = (s', r) \<Longrightarrow> keeps env s s'"
  unfolding XRead_def by (auto split: prod.splits sum.splits option.splits dest: stream_r.reader_keeps)

lemma keeps_HSet [kept]: "store_inv s \<Longrightarrow> HSet env s key ps = (s', r) \<Longrightarrow> keeps env s s'"
  unfolding HSet_def by (auto split: if_splits elim: hset_w.writer_keeps [OF TrueI])

lemma keeps_HGet [kept]: "store_inv s \<Longrightarrow> HGet env s key f = (s', r) \<Longrightarrow> keeps env s s'"
  unfolding HGet_def by (auto split: prod.splits sum.splits option.splits dest: hget_r.reader_keeps)

lemma keeps_HDel [kept]: "store_inv s \<Longrightarrow> HDel env s key fs = (s', r) \<Longrightarrow> keeps env s s'"
  by (cases "fs = []") (simp add: HDel_def, rule removal_keeps [OF HDel_spec])

lemma keeps_HGetAll [kept]: "store_inv s \<Longrightarrow> HGetAll env s key = (s', r) \<Longrightarrow> keeps env s s'"
  unfolding HGetAll_def by (auto split: prod.splits sum.splits option.splits dest: hgetall_r.reader_keeps)

lemma keeps_SAdd [kept]: "store_inv s \<Longrightarrow> SAdd env s key ms = (s', r) \<Longrightarrow> keeps env s s'"
  unfolding SAdd_def by (auto split: if_splits elim: sadd_w.writer_keeps [OF TrueI])

lemma keeps_SIsMember [kept]: "store_inv s \<Longrightarrow> SIsMember env s key m = (s', r) \<Longrightarrow> keeps env s s'"
  unfolding SIsMember_def by (auto split: prod.splits sum.splits option.splits dest: sismember_r.reader_keeps)

lemma keeps_SRem [kept]: "store_inv s \<Longrightarrow> SRem env s key ms = (s', r) \<Longrightarrow> keeps env s s'"
  by (cases "ms = []") (simp add: SRem_def, rule removal_keeps [OF SRem_spec])

lemma keeps_SMembers [kept]: "store_inv s \<Longrightarrow> SMembers env s key = (s', r) \<Longrightarrow> keeps env s s'"
  unfolding SMembers_def by (auto split: prod.splits sum.splits option.splits dest: smembers_r.reader_keeps)

lemma keeps_Configure [kept]: "store_inv s \<Longrightarrow> keeps env s (ConfigureMaxMemory env s cap n)"
  using ConfigureMaxMemory_spec(1,2) [OF _ refl, of s env cap n] by (simp add: keeps_def)

lemma keeps_Enforce [kept]: "store_inv s \<Longrightarrow> EnforceMaxMemory env s = (s', r) \<Longrightarrow> keeps env s s'"
  using EnforceMaxMemory_spec(1,3) [of s env s' r] by (cases "maxMemoryEnabled s") (auto simp: keeps_def EnforceMaxMemory_def)

lemma keeps_batch [kept]: "store_inv s \<Longrightarrow> keeps env s (evictionBatch env s keys)"
  using evictionBatch_spec(1,3) [OF _ refl, of s env keys] by (simp add: keeps_def)

section \<open>Reachable stores\<close>

text \<open>One rule per operation that the commands, the background expiry and the persistence layer call.  Scores are
  not NaN: the ZADD handler, \<^verbatim>\<open>parseFloatArgument\<close> in \<^verbatim>\<open>command/commands.go\<close>, refuses them.\<close>

inductive store_call :: "Env \<Rightarrow> Store \<Rightarrow> Store \<Rightarrow> bool" where
  call_Set: "Set env s key d t = (s', r) \<Longrightarrow> store_call env s s'"
| call_Get: "Get env s key = (s', r) \<Longrightarrow> store_call env s s'"
| call_Delete: "Delete env s key = (s', r) \<Longrightarrow> store_call env s s'"
| call_DeleteMany: "DeleteMany env s keys = (s', r) \<Longrightarrow> store_call env s s'"
| call_Increment: "Increment env s key = (s', r) \<Longrightarrow> store_call env s s'"
| call_GetBit: "GetBit env s key offset = (s', r) \<Longrightarrow> store_call env s s'"
| call_SetBit: "SetBit env s key offset b = (s', r) \<Longrightarrow> store_call env s s'"
| call_BitCount: "BitCount env s key start stop = (s', r) \<Longrightarrow> store_call env s s'"
| call_PFAdd: "PFAdd env s key es = (s', r) \<Longrightarrow> store_call env s s'"
| call_merge: "mergeHyperLogLogRegisters env s key m = (s', r) \<Longrightarrow> store_call env s s'"
| call_pushList: "pushList env s key vals left = (s', r) \<Longrightarrow> store_call env s s'"
| call_LeftPop: "LeftPop env s key = (s', r) \<Longrightarrow> store_call env s s'"
| call_RightPop: "RightPop env s key = (s', r) \<Longrightarrow> store_call env s s'"
| call_popN: "popN env s key n left = (s', r) \<Longrightarrow> store_call env s s'"
| call_ListRange: "ListRange env s key start stop = (s', r) \<Longrightarrow> store_call env s s'"
| call_ZAdd: "\<forall>sc \<in> snd ` set zs. sc \<noteq> NaN \<Longrightarrow> ZAdd env s key zs = (s', r) \<Longrightarrow> store_call env s s'"
| call_ZScores: "ZScores env s key ms = (s', r) \<Longrightarrow> store_call env s s'"
| call_ZRange: "ZRange env s key start stop = (s', r) \<Longrightarrow> store_call env s s'"
| call_ZRangeByScores: "ZRangeByScores env s key rs = (s', r) \<Longrightarrow> store_call env s s'"
| call_XAdd: "XAdd env s key rawID vals = (s', r) \<Longrightarrow> store_call env s s'"
| call_XRead: "XRead env s key rawID = (s', r) \<Longrightarrow> store_call env s s'"
| call_HSet: "HSet env s key ps = (s', r) \<Longrightarrow> store_call env s s'"
| call_HGet: "HGet env s key f = (s', r) \<Longrightarrow> store_call env s s'"
| call_HDel: "HDel env s key fs = (s', r) \<Longrightarrow> store_call env s s'"
| call_HGetAll: "HGetAll env s key = (s', r) \<Longrightarrow> store_call env s s'"
| call_SAdd: "SAdd env s key ms = (s', r) \<Longrightarrow> store_call env s s'"
| call_SIsMember: "SIsMember env s key m' = (s', r) \<Longrightarrow> store_call env s s'"
| call_SRem: "SRem env s key ms = (s', r) \<Longrightarrow> store_call env s s'"
| call_SMembers: "SMembers env s key = (s', r) \<Longrightarrow> store_call env s s'"
| call_EnforceMaxMemory: "EnforceMaxMemory env s = (s', r) \<Longrightarrow> store_call env s s'"
| call_ConfigureMaxMemory: "store_call env s (ConfigureMaxMemory env s cap sampleSize)"
| call_evictionBatch: "store_call env s (evictionBatch env s keys)"
| call_SetExpirationListener: "store_call env s (SetExpirationListener s listener)"
| call_Subscribe: "store_call env s (s\<lparr>sr_waiters := fst (subscribe (sr_waiters s) key)\<rparr>)"
| call_Unsubscribe: "store_call env s (s\<lparr>sr_waiters := unsubscribe (sr_waiters s) key ch\<rparr>)"

inductive reachable :: "(Env \<Rightarrow> bool) \<Rightarrow> Store \<Rightarrow> bool" for P where
  reachable_new: "reachable P (NewStore seed)"
| reachable_call: "reachable P s \<Longrightarrow> P env \<Longrightarrow> store_call env s s' \<Longrightarrow> reachable P s'"
| reachable_replace: "reachable P s \<Longrightarrow> reachable P other \<Longrightarrow> P env \<Longrightarrow> reachable P (ReplaceWith env s other)"

lemma listener_inv [simp]:
  "store_inv (SetExpirationListener s l) = store_inv s" "mem_ok (SetExpirationListener s l) = mem_ok s"
proof -
  have "lookup (s\<lparr>sr_listener := l\<rparr>) = lookup s" by (simp add: lookup_def shardIndex_def fun_eq_iff)
  then show "store_inv (SetExpirationListener s l) = store_inv s" "mem_ok (SetExpirationListener s l) = mem_ok s"
    by (simp_all add: SetExpirationListener_def store_inv_def store_wf_def counts_ok_def mem_ok_def maxMemoryEnabled_def shardIndex_def)
qed

lemma call_keeps: "store_call env s s' \<Longrightarrow> store_inv s \<Longrightarrow> keeps env s s'"
  by (induction rule: store_call.induct) ((rule kept; assumption) | simp add: keeps_def; fail)+

lemma NewStore_inv: "store_inv (NewStore seed)" "mem_ok (NewStore seed)"
proof -
  have l: "lookup (NewStore seed) = Map.empty" 
    by (simp add: lookup_def fun_eq_iff NewStore_def newShards_def shardIndex_def)
  moreover have "store_wf (NewStore seed)"
    by (auto simp: store_wf_def NewStore_def newShards_def)
  ultimately show "store_inv (NewStore seed)" by (auto simp: store_inv_def counts_ok_def NewStore_def total_of_def)
  show "mem_ok (NewStore seed)" by (simp add: mem_ok_def maxMemoryEnabled_def NewStore_def)
qed

lemma NewStore_empty: "view (NewStore seed) = Map.empty" "\<not> maxMemoryEnabled (NewStore seed)"
  by (simp_all add: view_def fun_eq_iff lookup_def shardIndex_def NewStore_def newShards_def maxMemoryEnabled_def)

lemma reachable_store_inv: "reachable P s \<Longrightarrow> store_inv s"
proof (induction rule: reachable.induct)
  case (reachable_call s env s')
  then show ?case using call_keeps by (simp add: keeps_def)
qed (simp_all add: NewStore_inv ReplaceWith_spec(1) [OF _ _ refl])

lemma reachable_mem_ok: "reachable steady s \<Longrightarrow> mem_ok s"
proof (induction rule: reachable.induct)
  case (reachable_call s env s')
  then show ?case using call_keeps [OF reachable_call(3) reachable_store_inv [OF reachable_call(1)]] by (simp add: keeps_def)
next
  case (reachable_replace s other env)
  then show ?case using ReplaceWith_spec(3) [OF _ _ refl] reachable_store_inv by blast
qed (rule NewStore_inv)

section \<open>Example surroundings and stores\<close>

text \<open>A clock that stands still, and a store of one shard under a memory limit (0: none), for the examples.\<close>

definition at_time :: "int \<Rightarrow> Env" where
  "at_time now = \<lparr>env_clock = (\<lambda>_. now), env_nano = (\<lambda>_. 0), env_coin = (\<lambda>_ _. False)\<rparr>"

definition tiny :: "int \<Rightarrow> Store" where
  "tiny cap = ConfigureMaxMemory (at_time 1000) ((NewStore length)\<lparr>sr_shards := newShards 1\<rparr>) cap 20"

lemma steady_at [simp]: "steady (at_time now)" "env_clock (at_time now) n = now"
  by (simp_all add: steady_def at_time_def)

lemma tiny_inv: "store_inv (tiny cap)" "mem_ok (tiny cap)"
proof -
  let ?s = "(NewStore length)\<lparr>sr_shards := newShards 1\<rparr>"
  have "lookup ?s = Map.empty" by (simp add: lookup_def fun_eq_iff newShards_def shardIndex_def)
  moreover have "store_wf ?s" by (auto simp: store_wf_def newShards_def)
  ultimately have "store_inv ?s" by (auto simp: store_inv_def counts_ok_def NewStore_def total_of_def)
  then show "store_inv (tiny cap)" "mem_ok (tiny cap)"
    using ConfigureMaxMemory_spec(1,2) [OF _ refl, of ?s "at_time 1000" cap 20] by (simp_all add: tiny_def)
qed

end
