(* ===== verification/Eviction.thy ===== *)
theory Eviction
  imports Store_Reach
begin

text \<open>
  When the eviction of \<^verbatim>\<open>src/internal/storage/memory.go\<close> ends and when it succeeds.  Every round deletes a
  resident key, so the loop ends; and unless the empty string is a resident key (which the loop takes for
  \<^emph>\<open>no candidate\<close>) it frees whatever the check for evictable memory promised.
\<close>

section \<open>The candidate\<close>

lemma scan_exhausts:
  assumes "stalest_scan protected d (b, a) = (b', a')"
  shows "a' \<le> a" "\<forall>(k, v) \<in> set d. k \<notin> set protected \<longrightarrow> a' \<le> vo_LastAccessedAt v"
    "b' = b \<and> a' = a \<or> b' \<in> fst ` set d - set protected"
proof -
  have "a' \<le> a \<and> (\<forall>(k, v) \<in> set d. k \<notin> set protected \<longrightarrow> a' \<le> vo_LastAccessedAt v) \<and>
    (b' = b \<and> a' = a \<or> b' \<in> fst ` set d - set protected)"
    using assms
  proof (induction d arbitrary: b a)
    case (Cons e d)
    obtain k v where e: "e = (k, v)" by (cases e)
    consider "k \<in> set protected" | "k \<notin> set protected" "vo_LastAccessedAt v < a" | "k \<notin> set protected" "a \<le> vo_LastAccessedAt v"
      by linarith
    then show ?case
    proof cases
      case 1
      then show ?thesis using Cons.IH [of b a] Cons.prems by (auto simp: e)
    next
      case 2
      then show ?thesis using Cons.IH [of k "vo_LastAccessedAt v"] Cons.prems by (auto simp: e)
    next
      case 3
      then show ?thesis using Cons.IH [of b a] Cons.prems by (auto simp: e)
    qed
  qed simp
  then show "a' \<le> a" "\<forall>(k, v) \<in> set d. k \<notin> set protected \<longrightarrow> a' \<le> vo_LastAccessedAt v"
    "b' = b \<and> a' = a \<or> b' \<in> fst ` set d - set protected" by blast+
qed

lemma scan_append: "stalest_scan protected (d @ d') best = stalest_scan protected d' (stalest_scan protected d best)"
  by (induction d arbitrary: best) auto

lemma scan_shards: "foldl (\<lambda>best d. stalest_scan protected d best) best ds = stalest_scan protected (concat ds) best"
  by (induction ds arbitrary: best) (simp_all add: scan_append)

lemma candidate_none:
  assumes wf: "store_wf s" and noempty: "[] \<in> set protected \<or> lookup s [] = None"
    and times: "\<forall>k v. lookup s k = Some v \<longrightarrow> vo_LastAccessedAt v < 2 ^ 63 - 1"
    and none: "findStalestCandidateLocked s protected nano = []"
  shows "dom (lookup s) \<subseteq> set protected"
proof
  fix k assume "k \<in> dom (lookup s)"
  then obtain v where v: "lookup s k = Some v" by auto
  let ?m = "2 ^ 63 - 1 :: int" and ?es = "concat (sr_shards s)"
  obtain b a where b: "stalest_sampled s protected (sampleKeysLocked s (sr_sampleSize s) nano) ([], ?m) = (b, a)" by fastforce
  have "b = []" using none b by (auto simp: findStalestCandidateLocked_def Let_def split: if_splits)
  have a: "a = ?m"
  proof -
    have "stalest_sampled s protected ks (b0, a0) = ([], a) \<Longrightarrow> b0 \<noteq> [] \<or> a0 = ?m \<Longrightarrow> a = ?m" for ks b0 a0
    proof (induction ks arbitrary: b0 a0)
      case (Cons k ks)
      then show ?case using noempty by (auto split: if_splits option.splits) (metis option.distinct(1))+
    qed auto
    then show ?thesis using b \<open>b = []\<close> by blast
  qed
  obtain c t where c: "stalest_scan protected ?es ([], ?m) = (c, t)" by fastforce
  have "c = []" using none b a \<open>b = []\<close> c by (simp add: findStalestCandidateLocked_def scan_shards)
  then have "t = ?m" using scan_exhausts(3) [OF c] noempty wf_entries(2) [OF wf]
    by (metis DiffD1 DiffD2 dom_map_of_conv_image_fst domIff)
  moreover have "(k, v) \<in> set ?es" using concat_lookup [OF wf] v by blast
  ultimately show "k \<in> set protected" using scan_exhausts(2) [OF c] times v by fastforce
qed

section \<open>Evictable memory\<close>

definition evictable_size :: "bytes set \<Rightarrow> bytes \<Rightarrow> ValueObject \<Rightarrow> int" where
  "evictable_size K k v = (if k \<in> K then 0 else resident_size k v)"

lemma evictable_loop: "totalEvictable_loop protected d acc = acc + (\<Sum>(k, v)\<leftarrow>d. evictable_size (set protected) k v)"
  by (induction protected d acc rule: totalEvictable_loop.induct) (auto simp: evictable_size_def resident_size_def)

lemma totalEvictable_spec:
  assumes "store_wf s"
  shows "totalEvictableMemoryLocked s protected = total_of (evictable_size (set protected)) (lookup s)"
proof -
  have "foldl (\<lambda>t d. totalEvictable_loop protected d t) a ds =
      a + (\<Sum>(k, v)\<leftarrow>concat ds. evictable_size (set protected) k v)" for a ds
    by (induction ds arbitrary: a) (simp_all add: evictable_loop)
  then show ?thesis
    using total_of_list [OF wf_entries(1) [OF assms]] wf_entries(2) [OF assms] by (simp add: totalEvictableMemoryLocked_def)
qed

lemma protected_total:
  assumes "finite (dom m)" "dom (m |` (- V)) \<subseteq> K" "V \<inter> K = {}"
  shows "total_of resident_size (m |` (- V)) = total_of resident_size m - total_of (evictable_size K) m"
proof -
  have d: "dom (m |` (- V)) = dom m \<inter> K" using assms(2,3) by (auto simp: restrict_map_def split: if_splits)
  have "total_of resident_size (m |` (- V)) = (\<Sum>k \<in> dom m \<inter> K. resident_size k (the (m k)))"
    unfolding total_of_def d using assms(3) by (intro sum.cong) (auto simp: restrict_map_def)
  also have "\<dots> = (\<Sum>k \<in> dom m. resident_size k (the (m k)) - evictable_size K k (the (m k)))"
    using sum.inter_restrict [OF assms(1), of "\<lambda>k. resident_size k (the (m k))" K]
    by (simp add: evictable_size_def if_distrib [of "\<lambda>x. _ - x"] cong: if_cong)
  finally show ?thesis by (simp add: total_of_def sum_subtractf)
qed

lemma fuel_irrelevant:
  assumes "store_wf s" "counts_ok s" "card (dom (lookup s)) < fuel" "card (dom (lookup s)) < fuel'"
  shows "evict_loop fuel env n s targetUsed protected evicted = evict_loop fuel' env n s targetUsed protected evicted"
  using assms
proof (induction fuel arbitrary: fuel' n s evicted)
  case (Suc fuel)
  obtain f where f: "fuel' = Suc f" using Suc.prems(4) by (cases fuel') auto
  let ?c = "findStalestCandidateLocked s protected (env_nano env n)"
  show ?case
  proof (cases "sr_usedMemory s > targetUsed \<and> ?c \<noteq> []")
    case False
    then show ?thesis by (auto simp: f Let_def)
  next
    case True
    have c: "lookup s ?c \<noteq> None" using candidate_resident [OF Suc.prems(1) refl] True by blast
    obtain t b where d: "deleteKeyLocked s (shardIndex s ?c) ?c = (t, b)" by fastforce
    have t: "store_wf t" "counts_ok t" "lookup t = lookup s |` (- {?c})"
      using deleteKey_spec(1) [OF Suc.prems(1,2) d] by (auto simp: drops_def)
    have "dom (lookup t) = dom (lookup s) - {?c}" using t(3) by auto
    then have "card (dom (lookup t)) < card (dom (lookup s))"
      using card_Diff1_less [OF wf_entries(3) [OF Suc.prems(1)], of ?c] c by (metis domIff)
    then show ?thesis using Suc.IH [OF t(1,2), of f] Suc.prems(3,4) True d by (simp add: Let_def f)
  qed
qed simp

lemma evict_succeeds:
  assumes inv: "store_inv s" and mem: "mem_ok s" "maxMemoryEnabled s" and noempty: "[] \<in> set protected \<or> lookup s [] = None"
    and times: "\<forall>k v. lookup s k = Some v \<longrightarrow> vo_LastAccessedAt v < 2 ^ 63 - 1"
    and room: "sr_usedMemory s - totalEvictableMemoryLocked s protected \<le> targetUsed"
    and r: "evictUntilMemoryAtOrBelowLocked env s targetUsed protected = (s', r)"
  shows "\<exists>ks. r = Inr ks \<and> sr_usedMemory s' \<le> targetUsed"
proof -
  note wf = store_invD(1,2) [OF inv]
  note ev = evictUntil_spec [OF wf mem(1) r]
  obtain ks where ks: "set ks \<subseteq> dom (lookup s) - set protected" "drops s s' (set ks)"
    and out: "r = Inr ks \<and> sr_usedMemory s' \<le> targetUsed \<or>
      targetUsed < sr_usedMemory s' \<and> (\<exists>m. findStalestCandidateLocked s' protected (env_nano env m) = [])"
    using ev(1) by blast
  have l: "lookup s' = lookup s |` (- set ks)" using ks(2) by (simp add: drops_def)
  show ?thesis
  proof (cases "targetUsed < sr_usedMemory s'")
    case True
    then obtain m where m: "findStalestCandidateLocked s' protected (env_nano env m) = []" using out by auto
    have "dom (lookup s') \<subseteq> set protected"
      using candidate_none [OF _ _ _ m] drops_wf [OF ks(2)] noempty times l
      by (metis (no_types, lifting) option.distinct(1) restrict_map_def)
    moreover have "set ks \<inter> set protected = {}" using ks(1) by blast
    ultimately have "sr_usedMemory s' = sr_usedMemory s - totalEvictableMemoryLocked s protected"
      using protected_total [OF wf_entries(3) [OF wf(1)], of "set ks" "set protected"] ks(1) l mem ev(2)
        same_setup_max drops_wf [OF ks(2)] totalEvictable_spec [OF wf(1)] by (auto simp: mem_ok_def)
    then show ?thesis using room True by linarith
  qed (use out in auto)
qed

text \<open>C21. The eviction loop ends by itself: any number of rounds above the number of resident keys gives the
  result of the model's bound, and the loop then has reached its target or found no candidate.\<close>

theorem eviction_terminates:
  assumes "store_inv s" "totalKeyCountLocked s < fuel"
  shows "evict_loop fuel env n s targetUsed protected evicted =
           evict_loop (Suc (totalKeyCountLocked s)) env n s targetUsed protected evicted \<and>
         (case evict_loop fuel env n s targetUsed protected evicted of (s', evicted') \<Rightarrow>
            sr_usedMemory s' \<le> targetUsed \<or> (\<exists>m. findStalestCandidateLocked s' protected (env_nano env m) = []))"
proof -
  note wf = store_invD(1,2) [OF assms(1)]
  have k: "totalKeyCountLocked s = card (dom (lookup s))" by (rule total_keys [OF wf(1)])
  obtain s' ev where "evict_loop fuel env n s targetUsed protected evicted = (s', ev)" by fastforce
  then show ?thesis
    using fuel_irrelevant [OF wf, of fuel "Suc (totalKeyCountLocked s)"] evict_loop_enough [OF wf] assms(2) k by auto
qed

theorem eviction_terminates_witness:
  "evict_loop 9 (at_time 1000) 0 (tiny 100) 50 [] [] = evict_loop (Suc (totalKeyCountLocked (tiny 100))) (at_time 1000) 0 (tiny 100) 50 [] []"
proof -
  have "totalKeyCountLocked (tiny 100) < 9" by code_simp
  then show ?thesis using eviction_terminates [OF tiny_inv(1), of 100 9 "at_time 1000" 0 50 "[]" "[]"] by simp
qed

text \<open>C5. Making room for \<open>delta\<close> more bytes succeeds exactly when they fit beside the protected keys that are
  still live, provided the empty string is not an unprotected resident key (and access times are below the
  largest integer).\<close>

theorem room_exactly_when_it_fits:
  assumes "store_inv s" "maxMemoryEnabled s" "0 < delta" "[] \<in> set protected \<or> lookup s [] = None"
    "\<forall>k v. lookup s k = Some v \<longrightarrow> vo_LastAccessedAt v < 2 ^ 63 - 1"
    "ensureMemoryAvailableLocked env s delta protected = (s', r)"
  shows "r \<in> range Inr \<longleftrightarrow>
    delta + (\<Sum>k \<in> {k \<in> set protected. live s (env_clock env 1) k \<noteq> None}. approximateValueObjectSize k (lookup s k)) \<le> sr_maxMemory s"
proof -
  let ?now = "env_clock env 1" and ?K = "set protected"
  obtain u used where u: "recalculateUsedMemoryLocked s ?now = (u, used)" by fastforce
  note rs = recalculate_spec [OF store_invD(1,2) [OF assms(1)] u]
  have ui: "store_inv u" "lookup u = lookup s |` (- expired_at s ?now)" "same_setup s u"
    using drops_inv [OF assms(1) rs(1)] rs(1) by (simp_all add: drops_def)
  have mem: "mem_ok u" "maxMemoryEnabled u" "sr_maxMemory u = sr_maxMemory s" "sr_usedMemory u = used"
    using rs(2,3) assms(2) same_setup_max [OF ui(3)] same_setup_limit [OF ui(3)] by (simp_all add: mem_ok_def)
  define kept where "kept = (\<Sum>k \<in> {k \<in> ?K. live s ?now k \<noteq> None}. approximateValueObjectSize k (lookup s k))"
  have fin: "finite (dom (lookup u))" by (rule wf_entries(3) [OF store_invD(1) [OF ui(1)]])
  have keep: "used - totalEvictableMemoryLocked u protected = kept"
  proof -
    let ?V = "dom (lookup u) - ?K"
    have "total_of resident_size (lookup u |` (- ?V)) = used - totalEvictableMemoryLocked u protected"
      using protected_total [OF fin, of ?V ?K] totalEvictable_spec [OF store_invD(1) [OF ui(1)]] rs(2) by auto
    moreover have "dom (lookup u |` (- ?V)) = {k \<in> ?K. live s ?now k \<noteq> None}"
      by (auto simp: ui(2) restrict_map_def expired_at_def live_lookup split: if_splits option.splits)
    moreover have "resident_size k (the ((lookup u |` (- ?V)) k)) = approximateValueObjectSize k (lookup s k)"
      if "k \<in> {k \<in> ?K. live s ?now k \<noteq> None}" for k
      using that by (auto simp: ui(2) restrict_map_def expired_at_def live_lookup resident_size_def split: if_splits option.splits)
    ultimately show ?thesis unfolding kept_def total_of_def by simp
  qed
  have "0 \<le> kept"
    unfolding kept_def using resident_size_nonneg
    by (intro sum_nonneg) (auto simp: live_lookup resident_size_def split: option.splits)
  moreover have "0 \<le> totalEvictableMemoryLocked u protected"
    unfolding totalEvictable_spec [OF store_invD(1) [OF ui(1)]] total_of_def
    by (intro sum_nonneg) (simp add: evictable_size_def resident_size_nonneg)
  moreover have "q \<in> range Inr" if "(w, q) = evictUntilMemoryAtOrBelowLocked env u (sr_maxMemory s - delta) protected"
      "kept \<le> sr_maxMemory s - delta" for w q
  proof -
    have "[] \<in> ?K \<or> lookup u [] = None" "\<forall>k v. lookup u k = Some v \<longrightarrow> vo_LastAccessedAt v < 2 ^ 63 - 1"
      using assms(4,5) by (auto simp: ui(2) restrict_map_def split: if_splits)
    from evict_succeeds [OF ui(1) mem(1,2) this(1) this(2) _ that(1) [symmetric]] show ?thesis using that(2) keep mem(4) by auto
  qed
  moreover have "(s', r) = (if sr_maxMemory s - delta < 0 then (u, Inl ErrMemoryLimitExceeded)
      else if used \<le> sr_maxMemory s - delta then (u, Inr [])
      else if kept > sr_maxMemory s - delta then (u, Inl ErrMemoryLimitExceeded)
      else evictUntilMemoryAtOrBelowLocked env u (sr_maxMemory s - delta) protected)"
    unfolding keep [symmetric] assms(6) [symmetric] ensureMemoryAvailableLocked_def u Let_def prod.case mem(3)
    using assms(2,3) by simp
  ultimately show ?thesis
    using keep unfolding kept_def [symmetric] by (auto split: if_splits simp del: One_nat_def)
qed

theorem room_exactly_when_it_fits_witness:
  "snd (ensureMemoryAvailableLocked (at_time 1000) (tiny 100) 60 []) \<in> range Inr"
proof -
  obtain s' r where r: "ensureMemoryAvailableLocked (at_time 1000) (tiny 100) 60 [] = (s', r)" by fastforce
  have "maxMemoryEnabled (tiny 100)" "sr_maxMemory (tiny 100) = 100" "map length (sr_shards (tiny 100)) = [0]" by code_simp+
  then have "lookup (tiny 100) k = None" for k by (auto simp: lookup_def shardIndex_def length_Suc_conv)
  then show ?thesis
    using room_exactly_when_it_fits [OF tiny_inv(1) \<open>maxMemoryEnabled (tiny 100)\<close> _ _ _ r] r
      \<open>sr_maxMemory (tiny 100) = 100\<close> by simp
qed

text \<open>The proviso is needed: with the empty string resident, a write that fits is refused, because the name
  of that key is taken for the absence of a candidate.  Under any other name the key would have been evicted.\<close>

theorem empty_key_blocks_eviction:
  "let s = fst (Set (at_time 1000) (tiny 150) [] (replicate 50 7) 0) in
     sr_usedMemory s = 98 \<and> totalEvictableMemoryLocked s [str ''a''] = 98 \<and>
     snd (Set (at_time 1000) s (str ''a'') (replicate 50 7) 0) = Inl ErrMemoryLimitExceeded \<and>
     snd (Set (at_time 1000) (fst (Set (at_time 1000) (tiny 150) (str ''b'') (replicate 50 7) 0)) (str ''a'') (replicate 50 7) 0) =
       Inr ((), [str ''b''])"
  by code_simp

text \<open>A key that expires between the two clock readings of a write leaves the memory counter wrong: the
  recount drops the old value, and its size is then subtracted a second time.\<close>

theorem accounting_drifts_on_expiry:
  "let s = fst (Set (at_time 1000) (tiny 1000) (str ''k'') (replicate 50 7) 1500);
       env = \<lparr>env_clock = (\<lambda>n. if n = 0 then 1400 else 1600), env_nano = (\<lambda>_. 0), env_coin = (\<lambda>_ _. False)\<rparr>;
       s' = fst (Set env s (str ''k'') (replicate 80 7) 0) in
     sr_usedMemory s = 107 \<and> sr_usedMemory s' = 22 \<and> approximateValueObjectSize (str ''k'') (lookup s' (str ''k'')) = 129"
  by code_simp

end
