(* ===== verification/Store_Props.thy ===== *)
theory Store_Props
  imports Eviction
begin

text \<open>
  The properties of the store as a whole: what holds of every reachable store, and what a client sees of writes
  followed by reads, with expiry, eviction and refusal taken into account.
\<close>

section \<open>Reading results of writes\<close>

lemma write_accepted:
  assumes "write_result (expired_at s now) s cur key (Inr (x, c)) t s' (Inr (y, ev))"
  shows "y = x" "view s' key = Some (c, t)" "key \<notin> set ev"
    "k \<noteq> key \<Longrightarrow> k \<notin> set ev \<Longrightarrow> live s' now k = live s now k" "k \<in> set ev \<Longrightarrow> view s' k = None"
proof -
  obtain D where D: "view s' = (view s |` (- D))(key \<mapsto> (c, t))" "set ev \<subseteq> D" "D \<subseteq> set ev \<union> expired_at s now"
    and rest: "y = x" "key \<notin> set ev" using assms by auto
  show "y = x" "view s' key = Some (c, t)" "key \<notin> set ev" using D(1) rest by simp_all
  show "live s' now k = live s now k" if "k \<noteq> key" "k \<notin> set ev"
    using that D(1,3) by (auto simp: live_def expired_at_view restrict_map_def split: option.splits)
  show "view s' k = None" if "k \<in> set ev" using that D(1,2) rest by (auto simp: restrict_map_def)
qed

lemma live_fresh: "view s k = Some (c, t) \<Longrightarrow> \<not> is_past t now \<Longrightarrow> live s now k = Some (c, t)"
  by (simp add: live_def)

lemma read_found: "live s now k = Some (c, t) \<Longrightarrow>
    (case live s now k of None \<Rightarrow> r = Inr None | Some (c, t) \<Rightarrow> \<exists>q. q = A c \<and> r = map_sum id Some q) \<Longrightarrow> r = map_sum id Some (A c)"
  by simp

section \<open>Every reachable store\<close>

text \<open>C4. In every store that calls can reach, each shard is a map that holds only keys the hash sends there, and
  every value is well formed for its kind and encoding.\<close>

theorem reachable_stores_well_typed:
  assumes "reachable P s"
  shows "(\<forall>i < length (sr_shards s). distinct (map fst (data_at s i)) \<and> (\<forall>k \<in> fst ` set (data_at s i). shardIndex s k = i)) \<and>
    (\<forall>k v. lookup s k = Some v \<longrightarrow> (\<exists>c. vo_rep v c \<and> vo_Kind v = kind_of c))"
proof -
  have inv: "store_inv s" by (rule reachable_store_inv [OF assms])
  then have "\<forall>k v. lookup s k = Some v \<longrightarrow> (\<exists>c. vo_rep v c \<and> vo_Kind v = kind_of c)"
    using store_invD(3) vo_rep_kind unfolding vo_ok_def by blast
  then show ?thesis using store_invD(1) [OF inv] by (simp add: store_wf_def gm_wf_def)
qed

text \<open>A reachable store with one key, for the examples; then the same with a memory limit set.\<close>

definition one_key :: Store where
  "one_key = fst (Set (at_time 1000) (NewStore length) [7] [1, 2] 0)"

definition one_key_limited :: Store where
  "one_key_limited = ConfigureMaxMemory (at_time 1000) one_key 200 20"

lemma one_key_reachable: "reachable steady one_key" "reachable steady one_key_limited"
proof -
  have "Set (at_time 1000) (NewStore length) [7] [1, 2] 0 = (one_key, snd (Set (at_time 1000) (NewStore length) [7] [1, 2] 0))"
    by (simp add: one_key_def)
  then have "store_call (at_time 1000) (NewStore length) one_key" by (rule call_Set)
  then show r: "reachable steady one_key" using reachable_call [OF reachable_new [of steady length], of "at_time 1000"] by simp
  show "reachable steady one_key_limited"
    using reachable_call [OF r, of "at_time 1000"] call_ConfigureMaxMemory [of "at_time 1000" one_key 200 20] by (simp add: one_key_limited_def)
qed

lemma one_key_view: "view one_key = [[7] \<mapsto> (CString [1, 2], 0)]" "view one_key_limited = [[7] \<mapsto> (CString [1, 2], 0)]"
proof -
  obtain r where "Set (at_time 1000) (NewStore length) [7] [1, 2] 0 = (one_key, r)" by (simp add: one_key_def prod_eq_iff)
  then have w: "writeKey (at_time 1000) (NewStore length) [7] (Set_fn (at_time 1000) [1, 2] 0) = (one_key, r)" by (simp add: Set_def)
  show v: "view one_key = [[7] \<mapsto> (CString [1, 2], 0)]"
    using set_w.write_spec [OF TrueI NewStore_inv(1) w refl refl] NewStore_empty [of length] by simp
  have "expired_at one_key 1000 = {}" by (auto simp: expired_at_view v is_past_def)
  then show "view one_key_limited = [[7] \<mapsto> (CString [1, 2], 0)]"
    using ConfigureMaxMemory_spec(5) [OF reachable_store_inv [OF one_key_reachable(1)] one_key_limited_def] v by simp
qed

theorem reachable_stores_well_typed_witness:
  "reachable steady one_key \<and> (\<exists>v c. lookup one_key [7] = Some v \<and> vo_rep v c \<and> vo_Kind v = kind_of c)"
proof -
  have "view one_key [7] = Some (CString [1, 2], 0)" by (simp add: one_key_view(1))
  then obtain v where v: "lookup one_key [7] = Some v" by (auto simp: view_def)
  then obtain c where "vo_rep v c" "vo_Kind v = kind_of c" using reachable_stores_well_typed [OF one_key_reachable(1)] by blast
  then show ?thesis using v one_key_reachable(1) by blast
qed

lemma keys_of_kind: "finite (dom m) \<Longrightarrow> keyStatsKindIndex kind = Some j \<Longrightarrow>
    total_of (kind_is j) m = int (card {k. \<exists>v. m k = Some v \<and> vo_Kind v = kind})"
proof -
  assume fin: "finite (dom m)" and j: "keyStatsKindIndex kind = Some j"
  have "kind_is j k v = (if vo_Kind v = kind then 1 else 0)" for k v
    using j kind_index_inj [of "vo_Kind v" kind] by (auto simp: kind_is_def)
  moreover have "{k \<in> dom m. vo_Kind (the (m k)) = kind} = {k. \<exists>v. m k = Some v \<and> vo_Kind v = kind}" by auto
  ultimately show ?thesis using fin by (simp add: total_of_def sum.If_cases Int_def)
qed

text \<open>\<^verbatim>\<open>KeyStats\<close> is exact in every reachable store: the count of each kind is the number of resident keys of that
  kind, and the total is the number of keys.\<close>

theorem key_stats_exact:
  assumes "reachable P s"
  shows "KeyStats s = (int (Len s),
    map (\<lambda>kind. (kind, int (card {k. \<exists>v. lookup s k = Some v \<and> vo_Kind v = kind}))) keyStatsKinds)"
proof -
  have inv: "store_inv s" by (rule reachable_store_inv [OF assms])
  note wf = store_invD(1) [OF inv] and c = store_invD(2) [OF inv]
  have fin: "finite (dom (lookup s))" by (rule wf_entries(3) [OF wf])
  have idx: "keyStatsKindIndex (keyStatsKinds ! j) = Some j" if "j < 6" for j
    using that by (auto simp: keyStatsKindIndex_def keyStatsKinds_def less_Suc_eq numeral_eq_Suc)
  have len: "length keyStatsKinds = 6" by (simp add: keyStatsKinds_def)
  have cnt: "sr_keyKindCounts s ! j = int (card {k. \<exists>v. lookup s k = Some v \<and> vo_Kind v = keyStatsKinds ! j})" if "j < 6" for j
    using c that keys_of_kind [OF fin idx [OF that]] by (simp add: counts_ok_def)
  have "(\<Sum>j<6. total_of (kind_is j) (lookup s)) = int (card (dom (lookup s)))"
  proof -
    have "(\<Sum>j<6. kind_is j k v) = 1" for k v
      using kind_index [of "vo_Kind v"] by (auto simp: kind_is_def)
    then have "(\<Sum>j<6. total_of (kind_is j) (lookup s)) = (\<Sum>k \<in> dom (lookup s). 1)"
      unfolding total_of_def by (subst sum.swap) simp
    then show ?thesis by simp
  qed
  moreover have "(\<Sum>j<6. sr_keyKindCounts s ! j) = (\<Sum>j<6. total_of (kind_is j) (lookup s))"
    using c by (intro sum.cong) (simp_all add: counts_ok_def)
  moreover have "Len s = card (dom (lookup s))" using total_keys [OF wf] by (simp add: Len_def totalKeyCountLocked_def)
  ultimately have "sum_list (map (\<lambda>i. sr_keyKindCounts s ! i) [0..<6]) = int (Len s)"
    by (simp add: sum_list_sum_nth atLeast0LessThan)
  moreover have "map (\<lambda>i. (keyStatsKinds ! i, sr_keyKindCounts s ! i)) [0..<6] =
      map (\<lambda>kind. (kind, int (card {k. \<exists>v. lookup s k = Some v \<and> vo_Kind v = kind}))) keyStatsKinds"
    using cnt len by (intro nth_equalityI) simp_all
  ultimately show ?thesis by (simp add: KeyStats_def len)
qed

theorem key_stats_exact_witness: "fst (KeyStats one_key) = 1"
proof -
  have "dom (lookup one_key) = {[7]}" using arg_cong [OF one_key_view(1), of dom] by (auto simp: view_def dom_def)
  then have "Len one_key = 1"
    using total_keys [OF store_invD(1) [OF reachable_store_inv [OF one_key_reachable(1)]]] by (simp add: Len_def totalKeyCountLocked_def)
  then show ?thesis using key_stats_exact [OF one_key_reachable(1)] by simp
qed

text \<open>C8. In every store with a memory limit that is reached by calls whose clock stands still during the call, the memory counter is
  the sum of the sizes of the resident values.  (Without a limit the counter is not maintained.)\<close>

theorem used_memory_exact:
  assumes "reachable steady s" "maxMemoryEnabled s"
  shows "sr_usedMemory s = (\<Sum>k \<in> dom (lookup s). approximateValueObjectSize k (lookup s k))"
proof -
  have "total_of resident_size (lookup s) = (\<Sum>k \<in> dom (lookup s). approximateValueObjectSize k (lookup s k))"
    unfolding total_of_def resident_size_def by (rule sum.cong) auto
  then show ?thesis using reachable_mem_ok [OF assms(1)] assms(2) by (simp add: mem_ok_def)
qed

theorem used_memory_exact_witness: "sr_usedMemory one_key_limited = 51"
proof -
  let ?s = one_key_limited
  have "dom (lookup ?s) = {[7]}" using arg_cong [OF one_key_view(2), of dom] by (auto simp: view_def dom_def)
  moreover have "approximateValueObjectSize [7] (lookup ?s [7]) = 51"
  proof -
    obtain v where v: "lookup ?s [7] = Some v" "contents_of v = CString [1, 2]" "vo_ExpiresAt v = 0"
      using fun_cong [OF one_key_view(2), of "[7]"] by (auto simp: view_def)
    have "vo_rep v (CString [1, 2])" using store_invD(3) [OF reachable_store_inv [OF one_key_reachable(2)] v(1)] v(2) by (simp add: vo_ok_def)
    then have "vo_Kind v = ValueKindString" "vo_String v = [1, 2]" by (auto simp: StringValue_def split: if_splits)
    then show ?thesis using v by (simp add: approximateValueObjectSize_def approximateStringValueObjectSize_def approximateBaseValueObjectSize_def Let_def)
  qed
  moreover have "maxMemoryEnabled ?s"
    using ConfigureMaxMemory_spec(3) [OF reachable_store_inv [OF one_key_reachable(1)] one_key_limited_def] by (simp add: maxMemoryEnabled_def)
  ultimately show ?thesis using used_memory_exact [OF one_key_reachable(2)] by simp
qed

section \<open>Writes and reads\<close>

text \<open>C25. After a SET that was accepted, GET returns the value until its expiry has passed; no other key changes, apart from those the call
  reports as evicted and those already expired.\<close>

theorem set_get:
  assumes "store_inv s" "Set env s key d t = (s', Inr ((), evicted))" "\<not> is_past t (env_clock env' 0)" "Get env' s' key = (s'', r)"
  shows "r = Inr (Some d) \<and> key \<notin> set evicted \<and>
    (\<forall>k. k \<noteq> key \<longrightarrow> k \<notin> set evicted \<longrightarrow> live s' (env_clock env 1) k = live s (env_clock env 1) k)"
proof -
  have w: "writeKey env s key (Set_fn env d t) = (s', Inr ((), evicted))" using assms(2) by (simp add: Set_def)
  note ws = set_w.write_spec [OF TrueI assms(1) w refl refl]
  note wa = write_accepted [OF conjunct1 [OF ws]]
  have inv: "store_inv s'" using ws by blast
  have r: "readKey env' s' key (\<lambda>v. case StringValue v of Inl e \<Rightarrow> Inl e | Inr d \<Rightarrow> Inr d) = (s'', r)"
    using assms(4) by (simp add: Get_def withStringValue_def)
  have "r = map_sum id Some (string_answer Inr (CString d))"
    using string_r.read_spec(1) [OF inv r] by (rule read_found [OF live_fresh [OF wa(2) assms(3)]])
  then show ?thesis using wa(3,4) by (simp add: string_answer_def)
qed

theorem set_get_witness:
  "snd (Get (at_time 1500) (fst (Set (at_time 1000) (tiny 100) (str ''k'') (str ''v'') 2000)) (str ''k'')) = Inr (Some (str ''v''))"
proof -
  let ?s = "fst (Set (at_time 1000) (tiny 100) (str ''k'') (str ''v'') 2000)"
  have r: "snd (Set (at_time 1000) (tiny 100) (str ''k'') (str ''v'') 2000) = Inr ((), [])" by code_simp
  have "Set (at_time 1000) (tiny 100) (str ''k'') (str ''v'') 2000 = (?s, Inr ((), []))" using r by (simp add: prod_eq_iff)
  from set_get [OF tiny_inv(1) this, of "at_time 1500"] show ?thesis by (simp add: is_past_def prod_eq_iff)
qed

text \<open>C10. Under a memory limit, with an exact memory counter and a clock that stands still during the call, a SET that is accepted does
  not leave the store above the limit (unless it was, and then it does not use more) and does not evict the key itself; one that
  is refused is refused for lack of memory and leaves what clients find under the key as it was.  The counter is exact
  afterwards.\<close>

theorem set_within_limit:
  assumes "store_inv s" "mem_ok s" "maxMemoryEnabled s" "steady env" "Set env s key d t = (s', r)"
  shows "mem_ok s' \<and>
    (case r of
       Inr (_, evicted) \<Rightarrow> key \<notin> set evicted \<and> (sr_usedMemory s' \<le> sr_maxMemory s \<or> sr_usedMemory s' \<le> sr_usedMemory s)
     | Inl e \<Rightarrow> e = ErrMemoryLimitExceeded \<and> live s' (env_clock env 0) key = live s (env_clock env 0) key)"
proof -
  have w: "writeKey env s key (Set_fn env d t) = (s', r)" using assms(5) by (simp add: Set_def)
  note ws = set_w.write_spec [OF TrueI assms(1) w refl refl]
  have m: "mem_ok s'" "sr_maxMemory s' = sr_maxMemory s"
    using ws assms(2) live_not_expired [OF assms(4)] same_setup_limit by blast+
  show ?thesis
  proof (cases r)
    case (Inl e)
    then obtain D where D: "e = ErrMemoryLimitExceeded" "key \<in> D \<longrightarrow> key \<in> expired_at s (env_clock env 1)"
        "view s' = ((view s)(key := live s (env_clock env 0) key)) |` (- D)" using ws by auto
    have "live s' (env_clock env 0) key = live s (env_clock env 0) key"
      using D(2,3) live_not_expired [OF assms(4), of s key]
      by (cases "live s (env_clock env 0) key") (auto simp: live_def restrict_map_def split: option.splits if_splits)
    then show ?thesis using m D(1) Inl by simp
  next
    case (Inr p)
    then show ?thesis using ws m assms(3) by (cases p) auto
  qed
qed

theorem set_within_limit_witness:
  "let r = Set (at_time 1000) (tiny 100) (str ''k'') (replicate 80 7) 0 in
     snd r = Inl ErrMemoryLimitExceeded \<and> mem_ok (fst r) \<and> live (fst r) 1000 (str ''k'') = live (tiny 100) 1000 (str ''k'')"
proof -
  have "maxMemoryEnabled (tiny 100)" "snd (Set (at_time 1000) (tiny 100) (str ''k'') (replicate 80 7) 0) = Inl ErrMemoryLimitExceeded"
    by code_simp+
  then show ?thesis
    using set_within_limit [OF tiny_inv, of 100 "at_time 1000" "str ''k''" "replicate 80 7" 0, OF _ _ prod.collapse [symmetric]]
    by (simp add: Let_def)
qed




definition list_at :: "Store \<Rightarrow> int \<Rightarrow> bytes \<Rightarrow> bytes list" where
  "list_at s now key = (case live s now key of Some (CList l, _) \<Rightarrow> l | _ \<Rightarrow> [])"

lemma take_nth: "n \<le> length l \<Longrightarrow> map (\<lambda>i. l ! i) [0..<n] = take n l"
  by (intro nth_equalityI) simp_all

text \<open>C12. A list is a queue: after an RPUSH that was accepted, LPOP with a count returns the longest prefix of the old items followed by
  the pushed ones, leaves the rest, and removes the key when nothing is left.\<close>

theorem list_is_a_queue:
  assumes "store_inv s" "RightPush env s key vals = (s', Inr (n, evicted))" "0 \<le> m" "popN env' s' key m True = (s'', r)"
    "\<forall>c t. live s (env_clock env 0) key = Some (c, t) \<longrightarrow> \<not> is_past t (env_clock env' 0)"
  shows "let old = list_at s (env_clock env 0) key; all = old @ vals in
    n = int (length all) \<and> r = Inr (Some (take (nat m) all)) \<and> list_at s'' (env_clock env' 0) key = drop (nat m) all \<and>
    (drop (nat m) all = [] \<longrightarrow> view s'' key = None)"
proof -
  let ?cur = "live s (env_clock env 0) key"
  obtain u where w: "writeKey env s key (pushList_fn env vals False) = (u, Inr (n, evicted))" and u: "view s' = view u" "store_inv s' = store_inv u"
      and vals: "vals \<noteq> []"
    using assms(2) by (auto simp: RightPush_def pushList_def split: if_splits prod.splits sum.splits)
  note ws = push_w.write_spec [OF TrueI assms(1) w refl refl]
  define old where "old = list_at s (env_clock env 0) key"
  define t where "t = (case ?cur of None \<Rightarrow> 0 | Some (c, t) \<Rightarrow> t)"
  have upd: "push_upd vals False (map_option fst ?cur) = Inr (int (length (old @ vals)), CList (old @ vals))"
    using conjunct1 [OF ws] by (auto simp: old_def list_at_def push_upd_def split: option.splits contents.splits)
  note wa = write_accepted [OF conjunct1 [OF ws, unfolded upd]]
  have "\<not> is_past t (env_clock env' 0)" using assms(5) by (auto simp: t_def is_past_def split: option.splits)
  then have l: "live s' (env_clock env' 0) key = Some (CList (old @ vals), t)"
    using wa(2) by (simp add: live_def u(1) t_def)
  have inv: "store_inv s'" using ws u(2) by blast
  let ?n = "nat (if m < int (length (old @ vals)) then m else int (length (old @ vals)))"
  have tk: "take ?n (old @ vals) = take (nat m) (old @ vals)" "drop ?n (old @ vals) = drop (nat m) (old @ vals)" by auto
  obtain f where p: "popWith env' s' key f = (s'', r)" and f: "f (old @ vals) = (take (nat m) (old @ vals), drop (nat m) (old @ vals))"
    using assms(3,4) take_nth [of ?n "old @ vals"] tk by (fastforce simp: popN_def Let_def)
  note ps = popWith_spec [OF inv p]
  have r: "r = Inr (Some (take (nat m) (old @ vals)))"
    "view s'' = (view s')(key := if drop (nat m) (old @ vals) = [] then None else Some (CList (drop (nat m) (old @ vals)), t))"
    using conjunct1 [OF ps] vals unfolding removal_result_def l by (simp_all add: pop_takes_def f)
  have "list_at s'' (env_clock env' 0) key = drop (nat m) (old @ vals)"
    using r(2) \<open>\<not> is_past t (env_clock env' 0)\<close> by (simp add: list_at_def live_def)
  then show ?thesis using r wa(1) by (simp add: Let_def old_def [symmetric] del: take_append drop_append)
qed

theorem list_is_a_queue_witness:
  "snd (popN (at_time 1001) (fst (RightPush (at_time 1000) (tiny 0) (str ''q'') [[1], [2], [3]])) (str ''q'') 2 True) = Inr (Some [[1], [2]])"
proof -
  let ?s = "fst (RightPush (at_time 1000) (tiny 0) (str ''q'') [[1], [2], [3]])"
  have "snd (RightPush (at_time 1000) (tiny 0) (str ''q'') [[1], [2], [3]]) = Inr (3, [])" by code_simp
  then have w: "RightPush (at_time 1000) (tiny 0) (str ''q'') [[1], [2], [3]] = (?s, Inr (3, []))" by (simp add: prod_eq_iff)
  have "map length (sr_shards (tiny 0)) = [0]" by code_simp
  then have e: "live (tiny 0) 1000 k = None" for k by (auto simp: live_lookup lookup_def shardIndex_def length_Suc_conv)
  show ?thesis
    using list_is_a_queue [OF tiny_inv(1) w _ prod.collapse [symmetric], of 2 "at_time 1001"] e by (simp add: list_at_def Let_def)
qed

definition hash_at :: "Store \<Rightarrow> int \<Rightarrow> bytes \<Rightarrow> bytes \<rightharpoonup> bytes" where
  "hash_at s now key = (case live s now key of Some (CHash m, _) \<Rightarrow> m | _ \<Rightarrow> Map.empty)"

text \<open>C15. An HSET that was accepted assigns its fields, the last value winning, reports how many are new, and keeps the other fields: HGET
  then finds for every field what the updated map holds.  A value of another kind is an error that changes nothing.\<close>

theorem hset_hget:
  assumes "store_inv s" "pairs \<noteq> []" "HSet env s key pairs = (s', q)" "HGet env' s' key f = (s'', r)"
    "\<forall>c t. live s (env_clock env 0) key = Some (c, t) \<longrightarrow> \<not> is_past t (env_clock env' 0)"
  shows "case q of
      Inr (n, _) \<Rightarrow>
        let m = hash_at s (env_clock env 0) key in n = card (fst ` set pairs - dom m) \<and> r = Inr (assigns m pairs f)
    | Inl e \<Rightarrow>
        e = ErrMemoryLimitExceeded \<and> maxMemoryEnabled s \<or>
        e = ErrWrongType \<and> view s' = view s \<and> (\<exists>c t. live s (env_clock env 0) key = Some (c, t) \<and> kind_of c \<noteq> ValueKindHash)"
proof -
  let ?cur = "live s (env_clock env 0) key"
  have w: "writeKey env s key (HSet_fn env pairs) = (s', q)" using assms(2,3) by (simp add: HSet_def)
  note ws = hset_w.write_spec [OF TrueI assms(1) w refl refl]
  define m where "m = hash_at s (env_clock env 0) key"
  define t where "t = (case ?cur of None \<Rightarrow> 0 | Some (c, t) \<Rightarrow> t)"
  consider (ok) "hset_upd pairs (map_option fst ?cur) = Inr (card (fst ` set pairs - dom m), CHash (assigns m pairs))"
    | (wrong) c u where "hset_upd pairs (map_option fst ?cur) = Inl ErrWrongType" "?cur = Some (c, u)" "kind_of c \<noteq> ValueKindHash"
  proof (cases ?cur)
    case None
    then show thesis using ok by (simp add: hset_upd_def m_def hash_at_def)
  next
    case (Some y)
    obtain c u where y: "y = (c, u)" by (cases y)
    show thesis
    proof (cases c)
      case (CHash h)
      then show thesis using ok Some y by (simp add: hset_upd_def m_def hash_at_def)
    qed (use wrong Some y in \<open>simp_all add: hset_upd_def\<close>)
  qed
  then show ?thesis
  proof cases
    case wrong
    then show ?thesis using conjunct1 [OF ws] live_Some [OF wrong(2)] by (simp add: fun_upd_idem)
  next
    case ok
    show ?thesis
    proof (cases q)
      case (Inl e)
      then show ?thesis using conjunct1 [OF ws] ok by simp
    next
      case (Inr p)
      obtain n ev where p: "p = (n, ev)" by (cases p)
      note wa = write_accepted [OF conjunct1 [OF ws, unfolded ok Inr p]]
      have "\<not> is_past t (env_clock env' 0)" using assms(5) by (auto simp: t_def is_past_def split: option.splits)
      then have l: "live s' (env_clock env' 0) key = Some (CHash (assigns m pairs), t)" using wa(2) by (simp add: live_def t_def)
      obtain s1 r1 where rk: "readKey env' s' key (\<lambda>v. hashGet v f) = (s1, r1)" by fastforce
      have "store_inv s'" using ws by blast
      from read_found [OF l hget_r.read_spec(1) [OF this rk]] have "r1 = Inr (Some (assigns m pairs f))" by (simp add: hash_answer_def)
      then have "r = Inr (assigns m pairs f)" using assms(4) rk by (simp add: HGet_def)
      then show ?thesis using wa(1) Inr p by (simp add: Let_def m_def [symmetric])
    qed
  qed
qed

lemma tiny_empty: "live (tiny 0) now k = None" "\<not> maxMemoryEnabled (tiny 0)"
proof -
  have "map length (sr_shards (tiny 0)) = [0]" by code_simp
  then show "live (tiny 0) now k = None" by (auto simp: live_lookup lookup_def shardIndex_def length_Suc_conv)
  show "\<not> maxMemoryEnabled (tiny 0)" by code_simp
qed

theorem hset_hget_witness:
  "snd (HGet (at_time 1001) (fst (HSet (at_time 1000) (tiny 0) (str ''h'') [([1], [2]), ([1], [3])])) (str ''h'') [1]) = Inr (Some [3])"
proof -
  let ?p = "[([1], [2]), ([1], [3])] :: (bytes \<times> bytes) list"
  let ?s = "fst (HSet (at_time 1000) (tiny 0) (str ''h'') ?p)" and ?q = "snd (HSet (at_time 1000) (tiny 0) (str ''h'') ?p)"
  have q: "?q = Inr (1, [])" by code_simp
  show ?thesis
    using hset_hget [OF tiny_inv(1) _ prod.collapse [symmetric] prod.collapse [symmetric], of ?p 0 "at_time 1000" "str ''h''" "at_time 1001" "[1]"]
    by (simp add: q tiny_empty hash_at_def Let_def assigns_def)
qed

definition zset_at :: "Store \<Rightarrow> int \<Rightarrow> bytes \<Rightarrow> bytes \<rightharpoonup> float64" where
  "zset_at s now key = (case live s now key of Some (CZSet m, _) \<Rightarrow> m | _ \<Rightarrow> Map.empty)"

lemma select_all: "select_range xs 0 (- 1) = xs"
  by (cases xs) (simp_all add: select_range_def normalizeListRange_def normalizeListIndex_def Let_def slice_def)

text \<open>C17. After a ZADD that was accepted, a full ZRANGE lists the updated set: every member once with its last score, in ascending order of
  score and then member; the count is the number of new members.\<close>

theorem zadd_zrange:
  assumes "store_inv s" "es \<noteq> []" "\<forall>sc \<in> snd ` set es. sc \<noteq> NaN" "ZAdd env s key es = (s', Inr (n, evicted))"
    "ZRange env' s' key 0 (- 1) = (s'', r)"
    "\<forall>c t. live s (env_clock env 0) key = Some (c, t) \<longrightarrow> \<not> is_past t (env_clock env' 0)"
  shows "let m = zset_at s (env_clock env 0) key in
    n = card (fst ` set es - dom m) \<and> r = Inr (zlisting (assigns m es))"
proof -
  let ?cur = "live s (env_clock env 0) key"
  have w: "writeKey env s key (ZAdd_fn env es) = (s', Inr (n, evicted))" using assms(2,4) by (simp add: ZAdd_def)
  note ws = zadd_w.write_spec [OF assms(3) assms(1) w refl refl]
  define m where "m = zset_at s (env_clock env 0) key"
  define t where "t = (case ?cur of None \<Rightarrow> 0 | Some (c, t) \<Rightarrow> t)"
  have upd: "zadd_upd es (map_option fst ?cur) = Inr (card (fst ` set es - dom m), CZSet (assigns m es))"
    using conjunct1 [OF ws] by (auto simp: m_def zset_at_def zadd_upd_def split: option.splits contents.splits)
  note wa = write_accepted [OF conjunct1 [OF ws, unfolded upd]]
  have "\<not> is_past t (env_clock env' 0)" using assms(6) by (auto simp: t_def is_past_def split: option.splits)
  then have l: "live s' (env_clock env' 0) key = Some (CZSet (assigns m es), t)" using wa(2) by (simp add: live_def t_def)
  obtain s1 r1 where rk: "readKey env' s' key (ZRange_fn 0 (- 1)) = (s1, r1)" by fastforce
  have "store_inv s'" using ws by blast
  from read_found [OF l zrange_r.read_spec(1) [OF this rk]]
  have "r1 = Inr (Some (zlisting (assigns m es)))" by (simp add: zset_answer_def select_all)
  then have "r = Inr (zlisting (assigns m es))" using assms(5) rk by (simp add: ZRange_def)
  then show ?thesis using wa(1) by (simp add: Let_def m_def [symmetric])
qed

theorem zadd_zrange_witness:
  "snd (ZRange (at_time 1001) (fst (ZAdd (at_time 1000) (tiny 0) (str ''z'') [([1], Fin 2), ([2], Fin 1)])) (str ''z'') 0 (- 1)) =
     Inr (zlisting [[1] \<mapsto> Fin 2, [2] \<mapsto> Fin 1])"
proof -
  let ?e = "[([1], Fin 2), ([2], Fin 1)] :: zentry list"
  have "snd (ZAdd (at_time 1000) (tiny 0) (str ''z'') ?e) = Inr (2, [])" by code_simp
  then have w: "ZAdd (at_time 1000) (tiny 0) (str ''z'') ?e = (fst (ZAdd (at_time 1000) (tiny 0) (str ''z'') ?e), Inr (2, []))"
    by (simp add: prod_eq_iff)
  show ?thesis
    using zadd_zrange [OF tiny_inv(1) _ _ w prod.collapse [symmetric], of "at_time 1001"]
    by (simp add: tiny_empty zset_at_def Let_def assigns_def)
qed

section \<open>The whole keyspace\<close>

text \<open>The counting sort of \<^verbatim>\<open>groupKeysByShard\<close> hands each shard exactly its keys, in the order given.\<close>

theorem groups_are_filters:
  assumes "store_inv s" "i < length (sr_shards s)"
  shows "keysForShard (groupKeysByShard s keys) i = filter (\<lambda>k. shardIndex s k = i) keys"
  using groupKeysByShard_spec(1) [OF store_invD(1) [OF assms(1)] assms(2)] by (simp add: in_shard_def)

theorem groups_are_filters_witness:
  "keysForShard (groupKeysByShard (tiny 0) [[1], [2, 3]]) 0 = [[1], [2, 3]]"
proof -
  have "length (sr_shards (tiny 0)) = 1" by code_simp
  then show ?thesis using groups_are_filters [OF tiny_inv(1), of 0 0 "[[1], [2, 3]]"] by (simp add: shardIndex_def)
qed

text \<open>C22. DEL of many keys, expired ones and repeated ones included: afterwards none of them is resident and every other key is as it was; the
  reply names each key that was live exactly once; key counts and memory counter stay exact.\<close>

theorem delete_many_exact:
  assumes "store_inv s" "DeleteMany env s keys = (s', removed)"
  shows "view s' = view s |` (- set keys) \<and> distinct removed \<and>
    set removed = {k \<in> set keys. live s (env_clock env 0) k \<noteq> None} \<and> store_inv s' \<and> (mem_ok s \<longrightarrow> mem_ok s')"
  by (intro conjI impI DeleteMany_spec [OF assms])

theorem delete_many_exact_witness:
  "snd (DeleteMany (at_time 1000) one_key [[7], [8], [7]]) = [[7]]"
proof -
  obtain s' r where r: "DeleteMany (at_time 1000) one_key [[7], [8], [7]] = (s', r)" by fastforce
  have l: "live one_key 1000 [7] = Some (CString [1, 2], 0)" "live one_key 1000 [8] = None"
    by (simp_all add: live_def one_key_view(1) is_past_def)
  have d: "distinct r" and "set r = {k \<in> set [[7], [8], [7]]. live one_key 1000 k \<noteq> None}"
    using delete_many_exact [OF reachable_store_inv [OF one_key_reachable(1)] r] unfolding steady_at(2) by blast+
  then have "k \<in> set r \<longleftrightarrow> k = [7]" for k using l by (cases "k = [7]"; cases "k = [8]") simp_all
  then have "set r = {[7]}" by blast
  moreover from this have "length r = 1" using distinct_card [OF d] by simp
  ultimately have "r = [[7]]" by (cases r; cases "tl r") simp_all
  then show ?thesis using r by simp
qed

text \<open>C29. One round of the background expiry, for any sample of keys, whatever happened to the store since the sample was taken: it
  removes the sampled keys that are expired and no other, hands exactly these to the listener's queue once each, and no client can
  tell the difference.  In particular this holds for a sample of the same store.\<close>

theorem background_expiry_sound:
  assumes "store_inv s"
    "evictExpiredKeys s now keys = (s', expired) \<or>
     keys = snapshotKeys s sampleSize nano \<and> evictExpiredSample s now sampleSize nano = (s', expired)"
  shows "set expired = set keys \<inter> expired_at s now \<and> distinct expired \<and>
    view s' = view s |` (- set expired) \<and> live s' now = live s now \<and>
    sr_pendingExpired s' = sr_pendingExpired s @ expired \<and> store_inv s'"
proof -
  have "evictExpiredKeys s now keys = (s', expired)" using assms(2) by (auto simp: evictExpiredSample_def)
  note e = evictExpiredKeys_spec [OF assms(1) this]
  have "live s' now = live s now" using live_unexpired [OF _ e(4)] e(6) by blast
  then show ?thesis using e by simp
qed

theorem background_expiry_sound_witness:
  "live (fst (evictExpiredSample one_key 5000 20 3)) 5000 = live one_key 5000"
proof -
  obtain s' ex where "evictExpiredSample one_key 5000 20 3 = (s', ex)" by fastforce
  then show ?thesis using background_expiry_sound [OF reachable_store_inv [OF one_key_reachable(1)], of 5000 "snapshotKeys one_key 20 3" s' ex 20 3] by simp
qed

text \<open>C23. A snapshot of the store holds exactly the live keys, each once, with its contents and its expiry, and its counters add up.\<close>

theorem snapshot_exact:
  assumes "store_inv s" "SnapshotAll env s = (entries, stats)"
  shows "distinct (map sn_Key entries) \<and>
    (\<forall>e \<in> set entries. \<exists>c. live s (env_clock env 0) (sn_Key e) = Some (c, sn_ExpiresAt e) \<and> entry_shows e c) \<and>
    (\<forall>k c t. live s (env_clock env 0) k = Some (c, t) \<longrightarrow>
       (\<exists>e \<in> set entries. sn_Key e = k \<and> sn_ExpiresAt e = t \<and> entry_shows e c)) \<and>
    ss_TotalKeys stats = Len s \<and> ss_ExportedKeys stats = length entries \<and>
    ss_ExportedKeys stats + ss_SkippedExpiredKeys stats = ss_TotalKeys stats"
  using SnapshotAll_spec(1,2,4-6) [OF assms] SnapshotAll_spec(3) [OF assms] by (intro conjI ballI allI impI) simp_all

theorem snapshot_exact_witness:
  "\<exists>e \<in> set (fst (SnapshotAll (at_time 1000) one_key)). sn_Key e = [7] \<and> sn_String e = [1, 2]"
proof -
  have "live one_key 1000 [7] = Some (CString [1, 2], 0)" by (simp add: live_def one_key_view(1) is_past_def)
  moreover obtain es st where es: "SnapshotAll (at_time 1000) one_key = (es, st)" by fastforce
  ultimately obtain e where "e \<in> set es" "sn_Key e = [7]" "entry_shows e (CString [1, 2])"
    using snapshot_exact [OF reachable_store_inv [OF one_key_reachable(1)] es] unfolding steady_at(2) by blast
  then show ?thesis using es by (auto simp: entry_shows_def)
qed

text \<open>C24. Replacing the keyspace by that of another store, as a replica does after a full synchronisation and the server after loading
  a snapshot: the store holds exactly what the other one held (less what is already expired when a memory limit is set), in shards of
  its own hash, with exact counters.\<close>

theorem replace_with_exact:
  assumes "store_inv s" "store_inv other"
  shows "let s' = ReplaceWith env s other in
    store_inv s' \<and> mem_ok s' \<and> sr_seed s' = sr_seed s \<and> sr_maxMemory s' = sr_maxMemory s \<and>
    live s' (env_clock env 0) = live other (env_clock env 0) \<and> (\<not> maxMemoryEnabled s \<longrightarrow> view s' = view other)"
proof -
  note r = ReplaceWith_spec [OF assms refl, of env]
  have "live (ReplaceWith env s other) (env_clock env 0) = live other (env_clock env 0)"
    using r(4) by (auto simp: live_def expired_at_view restrict_map_def fun_eq_iff split: option.splits)
  then show ?thesis using r by (simp add: Let_def same_setup_def)
qed

theorem replace_with_exact_witness:
  "view (ReplaceWith (at_time 1000) (tiny 0) one_key) = [[7] \<mapsto> (CString [1, 2], 0)]"
  using replace_with_exact [OF tiny_inv(1) reachable_store_inv [OF one_key_reachable(1)], of "at_time 1000" 0]
  by (simp add: Let_def tiny_empty(2) one_key_view(1))

end
