(* ===== verification/Lzf.thy ===== *)
theory Lzf
  imports Prelude
begin

text \<open>
  The LZF decompressor of \<^verbatim>\<open>src/internal/rdb/loader.go\<close>.  It runs over untrusted bytes (an RDB file or the stream
  of a replication master) and writes into a buffer of the declared length.

  Shown: it agrees with a reference decoder that appends to its output and has no buffer; in particular it accepts
  exactly the inputs whose output has the declared length, and never reads a position it has not written.
\<close>

section \<open>The decompressor\<close>

datatype lzf_error =
    TruncatedLiteral | LiteralExceedsOutput | TruncatedMatchLength | TruncatedMatchOffset
  | InvalidBackReference | MatchExceedsOutput | OutputLengthMismatch nat nat

definition decodeLZFLiteral :: "bytes \<Rightarrow> bytes \<Rightarrow> nat \<Rightarrow> nat \<Rightarrow> nat \<Rightarrow> lzf_error + nat \<times> nat \<times> bytes" where
  "decodeLZFLiteral input output inputPos outputPos control =
     (let literalLength = control + 1 in
      if inputPos + literalLength > length input then Inl TruncatedLiteral
      else if outputPos + literalLength > length output then Inl LiteralExceedsOutput
      else Inr (inputPos + literalLength, outputPos + literalLength,
                overwrite output outputPos (slice input inputPos literalLength)))"

text \<open>The copying loop of a match, one byte at a time: a match may overlap what it writes.\<close>

fun lzf_copy :: "bytes \<Rightarrow> nat \<Rightarrow> nat \<Rightarrow> nat \<Rightarrow> nat \<Rightarrow> bytes \<times> nat" where
  "lzf_copy output reference outputPos i 0 = (output, outputPos)"
| "lzf_copy output reference outputPos i (Suc n) =
     lzf_copy (output[outputPos := output ! (reference + i)]) reference (outputPos + 1) (i + 1) n"

definition decodeLZFMatch :: "bytes \<Rightarrow> bytes \<Rightarrow> nat \<Rightarrow> nat \<Rightarrow> nat \<Rightarrow> lzf_error + nat \<times> nat \<times> bytes" where
  "decodeLZFMatch input output inputPos outputPos control =
     (let matchLength = control div 32 in
      if matchLength = 7 \<and> inputPos \<ge> length input then Inl TruncatedMatchLength
      else
        let (matchLength, inputPos) =
              (if matchLength = 7 then (matchLength + unat (input ! inputPos), inputPos + 1) else (matchLength, inputPos)) in
        if inputPos \<ge> length input then Inl TruncatedMatchOffset
        else
          let reference = int outputPos - int (control mod 32 * 256) - int (unat (input ! inputPos)) - 1;
              inputPos = inputPos + 1; matchLength = matchLength + 2 in
          if reference < 0 then Inl InvalidBackReference
          else if outputPos + matchLength > length output then Inl MatchExceedsOutput
          else case lzf_copy output (nat reference) outputPos 0 matchLength of
                 (output, outputPos) \<Rightarrow> Inr (inputPos, outputPos, output))"

lemma literal_advances:
  "decodeLZFLiteral input output ip op control = Inr (ip', op', output') \<Longrightarrow> ip \<le> ip'"
  by (auto simp: decodeLZFLiteral_def Let_def split: if_splits)

lemma match_advances:
  "decodeLZFMatch input output ip op control = Inr (ip', op', output') \<Longrightarrow> ip \<le> ip'"
  by (auto simp: decodeLZFMatch_def Let_def split: if_splits prod.splits)

definition lzf_token :: "bytes \<Rightarrow> bytes \<Rightarrow> nat \<Rightarrow> nat \<Rightarrow> nat \<Rightarrow> lzf_error + nat \<times> nat \<times> bytes" where
  "lzf_token input output ip op control =
     (if control < 32 then decodeLZFLiteral input output ip op control else decodeLZFMatch input output ip op control)"

lemma lzf_token_advances: "lzf_token input output ip op control = Inr (ip', op', output') \<Longrightarrow> ip \<le> ip'"
  unfolding lzf_token_def using literal_advances match_advances by (meson)

function decompress_loop :: "bytes \<Rightarrow> bytes \<Rightarrow> nat \<Rightarrow> nat \<Rightarrow> lzf_error + bytes" where
  "decompress_loop input output ip op =
     (if ip < length input then
        (case lzf_token input output (ip + 1) op (unat (input ! ip)) of
           Inl e \<Rightarrow> Inl e
         | Inr (ip', op', output') \<Rightarrow> decompress_loop input output' ip' op')
      else if op \<noteq> length output then Inl (OutputLengthMismatch op (length output))
      else Inr output)"
  by pat_completeness auto
termination
  by (relation "measure (\<lambda>(input, _, ip, _). length input - ip)") (auto dest!: lzf_token_advances)

declare decompress_loop.simps [simp del]

definition decompressLZF :: "bytes \<Rightarrow> nat \<Rightarrow> lzf_error + bytes" where
  "decompressLZF input outputLength = decompress_loop input (replicate outputLength 0) 0 0"

section \<open>The reference decoder\<close>

fun lz_extend :: "bytes \<Rightarrow> nat \<Rightarrow> nat \<Rightarrow> bytes" where
  "lz_extend out dist 0 = out"
| "lz_extend out dist (Suc n) = lz_extend (out @ [out ! (length out - dist)]) dist n"

text \<open>A match: its length and distance, and the input behind it.\<close>

definition lzf_match :: "nat \<Rightarrow> bytes \<Rightarrow> (nat \<times> nat \<times> bytes) option" where
  "lzf_match control rest =
     (if control div 32 = 7 then
        (case rest of l # b # rest \<Rightarrow> Some (9 + unat l, control mod 32 * 256 + unat b + 1, rest) | _ \<Rightarrow> None)
      else
        (case rest of b # rest \<Rightarrow> Some (control div 32 + 2, control mod 32 * 256 + unat b + 1, rest) | _ \<Rightarrow> None))"

lemma lzf_match_shorter: "lzf_match control rest = Some (len, dist, rest') \<Longrightarrow> length rest' < length rest"
  by (auto simp: lzf_match_def split: if_splits list.splits)

function lzf_ref :: "bytes \<Rightarrow> bytes \<Rightarrow> bytes option" where
  "lzf_ref [] out = Some out"
| "lzf_ref (c # rest) out =
     (if unat c < 32 then
        if unat c + 1 \<le> length rest then lzf_ref (drop (unat c + 1) rest) (out @ take (unat c + 1) rest) else None
      else
        case lzf_match (unat c) rest of
          None \<Rightarrow> None
        | Some (len, dist, rest') \<Rightarrow> if dist \<le> length out then lzf_ref rest' (lz_extend out dist len) else None)"
  by pat_completeness auto
termination
  by (relation "measure (\<lambda>(inp, _). length inp)") (auto dest: lzf_match_shorter)

lemma length_lz_extend [simp]: "length (lz_extend out dist n) = length out + n"
  by (induction out dist n rule: lz_extend.induct) auto

lemma lzf_ref_grows: "lzf_ref inp out = Some res \<Longrightarrow> length out \<le> length res"
  by (induction inp out rule: lzf_ref.induct) (fastforce split: if_splits option.splits)+

section \<open>Agreement\<close>

lemma lzf_copy_eq:
  assumes "n \<le> length pad" "0 < dist" "dist \<le> length out" "reference + i = length out - dist"
  shows "lzf_copy (out @ pad) reference (length out) i n = (lz_extend out dist n @ drop n pad, length out + n)"
  using assms
proof (induction n arbitrary: out pad i)
  case (Suc n)
  obtain p pad' where pad: "pad = p # pad'" using Suc.prems(1) by (cases pad) auto
  let ?x = "out ! (length out - dist)"
  have "length out - dist < length out" using Suc.prems(2,3) by linarith
  then have "(out @ pad) ! (reference + i) = ?x" using Suc.prems(4) by (simp add: nth_append)
  moreover have "(out @ pad)[length out := ?x] = (out @ [?x]) @ pad'" by (simp add: pad list_update_append)
  moreover have "lzf_copy ((out @ [?x]) @ pad') reference (length (out @ [?x])) (i + 1) n =
      (lz_extend (out @ [?x]) dist n @ drop n pad', length (out @ [?x]) + n)"
    using Suc.prems by (intro Suc.IH) (auto simp: pad)
  ultimately show ?case by (simp add: pad)
qed simp

lemma literal_eq:
  "decodeLZFLiteral (pre @ rest) (out @ pad) (length pre) (length out) control =
    (if control + 1 > length rest then Inl TruncatedLiteral
     else if control + 1 > length pad then Inl LiteralExceedsOutput
     else Inr (length (pre @ take (control + 1) rest), length (out @ take (control + 1) rest),
               (out @ take (control + 1) rest) @ drop (control + 1) pad))"
  by (simp add: decodeLZFLiteral_def Let_def overwrite_def slice_def)

lemma match_eq:
  "case lzf_match control rest of
     None \<Rightarrow> decodeLZFMatch (pre @ rest) (out @ pad) (length pre) (length out) control \<in> range Inl
   | Some (len, dist, rest') \<Rightarrow>
       0 < dist \<and> (\<exists>used. rest = used @ rest' \<and>
       decodeLZFMatch (pre @ rest) (out @ pad) (length pre) (length out) control =
         (if dist > length out then Inl InvalidBackReference
          else if len > length pad then Inl MatchExceedsOutput
          else Inr (length (pre @ used), length (lz_extend out dist len), lz_extend out dist len @ drop len pad)))"
proof -
  have copy: "lzf_copy (out @ pad) (length out - dist) (length out) 0 len = (lz_extend out dist len @ drop len pad, length out + len)"
    if "0 < dist" "dist \<le> length out" "len \<le> length pad" for dist len
    using lzf_copy_eq [of len pad dist out "length out - dist" 0] that by simp
  have step: "decodeLZFMatch (pre @ rest) (out @ pad) (length pre) (length out) control =
      (if dist > length out then Inl InvalidBackReference
       else if len > length pad then Inl MatchExceedsOutput
       else Inr (length (pre @ used), length (lz_extend out dist len), lz_extend out dist len @ drop len pad))"
    if rest: "rest = used @ rest'" and used: "used = (if control div 32 = 7 then [l, b] else [b])"
      and len: "len = (if control div 32 = 7 then 9 + unat l else control div 32 + 2)"
      and dist: "dist = control mod 32 * 256 + unat b + 1" for used rest' l b len dist
  proof -
    let ?in = "pre @ rest"
    have ref: "int (length out) - int (control mod 32 * 256) - int (unat b) - 1 = int (length out) - int dist" by (simp add: dist)
    have at: "?in ! length pre = (if control div 32 = 7 then l else b)" "control div 32 = 7 \<Longrightarrow> ?in ! (length pre + 1) = b"
      "length pre + length used \<le> length ?in" "rest \<noteq> []" by (auto simp: rest used nth_append)
    have dec: "decodeLZFMatch ?in (out @ pad) (length pre) (length out) control =
      (if int (length out) - int dist < 0 then Inl InvalidBackReference
       else if length out + len > length (out @ pad) then Inl MatchExceedsOutput
       else case lzf_copy (out @ pad) (nat (int (length out) - int dist)) (length out) 0 len of
              (outp, op) \<Rightarrow> Inr (length pre + length used, op, outp))"
      unfolding ref [symmetric] using at by (cases "control div 32 = 7") (simp_all add: decodeLZFMatch_def Let_def used len)
    have "nat (int (length out) - int dist) = length out - dist" if "dist \<le> length out" using that by simp
    moreover have "0 < dist" by (simp add: dist)
    ultimately show ?thesis using copy [of dist len] unfolding dec by simp
  qed
  show ?thesis
  proof (cases "control div 32 = 7")
    case True
    show ?thesis
    proof (cases rest)
      case Nil
      then show ?thesis using True by (simp add: lzf_match_def decodeLZFMatch_def Let_def)
    next
      case (Cons l more1)
      then show ?thesis
      proof (cases more1)
        case Nil
        then show ?thesis using True Cons by (simp add: lzf_match_def decodeLZFMatch_def Let_def)
      next
        case (Cons b rest')
        then show ?thesis using step [of "[l, b]" rest' l b] True \<open>rest = l # more1\<close>
          by (auto simp: lzf_match_def intro!: exI [of _ "[l, b]"])
      qed
    qed
  next
    case False
    show ?thesis
    proof (cases rest)
      case Nil
      then show ?thesis using False by (simp add: lzf_match_def decodeLZFMatch_def Let_def)
    next
      case (Cons b rest')
      then show ?thesis using step [of "[b]" rest' _ b] False by (auto simp: lzf_match_def intro!: exI [of _ "[b]"])
    qed
  qed
qed

lemma decompress_loop_eq:
  "decompress_loop (pre @ rest) (out @ pad) (length pre) (length out) = Inr res \<longleftrightarrow>
     lzf_ref rest out = Some res \<and> length res = length out + length pad"
proof (induction rest out arbitrary: pre pad rule: lzf_ref.induct)
  case (1 out)
  then show ?case by (subst decompress_loop.simps) auto
next
  case (2 c rest out)
  let ?pre = "pre @ [c]"
  have c: "(pre @ c # rest) ! length pre = c" "pre @ c # rest = ?pre @ rest" "length pre + 1 = length ?pre" by simp_all
  let ?loop = "decompress_loop (pre @ c # rest) (out @ pad) (length pre) (length out)"
  have unfold: "?loop = (case lzf_token (?pre @ rest) (out @ pad) (length ?pre) (length out) (unat c) of
      Inl e \<Rightarrow> Inl e | Inr (ip', op', output') \<Rightarrow> decompress_loop (?pre @ rest) output' ip' op')"
    by (subst decompress_loop.simps) (simp split: sum.split)
  show ?case
  proof (cases "unat c < 32")
    case True
    let ?n = "unat c + 1"
    have tok: "lzf_token (?pre @ rest) (out @ pad) (length ?pre) (length out) (unat c) =
       (if ?n > length rest then Inl TruncatedLiteral
        else if ?n > length pad then Inl LiteralExceedsOutput
        else Inr (length (?pre @ take ?n rest), length (out @ take ?n rest), (out @ take ?n rest) @ drop ?n pad))"
      using True literal_eq [of ?pre rest out pad "unat c"] by (simp add: lzf_token_def)
    show ?thesis
    proof (cases "?n \<le> length rest")
      case False
      then show ?thesis using True unfolding unfold tok by simp
    next
      case len: True
      have ref: "lzf_ref (c # rest) out = lzf_ref (drop ?n rest) (out @ take ?n rest)" using True len by simp
      show ?thesis
      proof (cases "?n \<le> length pad")
        case False
        then have "length res \<noteq> length out + length pad" if "lzf_ref (c # rest) out = Some res"
          using lzf_ref_grows [OF that [unfolded ref]] len by simp
        then show ?thesis using len False unfolding unfold tok by auto
      next
        case fits: True
        have "?loop = decompress_loop ((?pre @ take ?n rest) @ drop ?n rest) ((out @ take ?n rest) @ drop ?n pad)
            (length (?pre @ take ?n rest)) (length (out @ take ?n rest))"
          using len fits unfolding unfold tok by simp
        moreover have "length (out @ take ?n rest) + length (drop ?n pad) = length out + length pad" using len fits by simp
        ultimately show ?thesis using "2.IH"(1) [OF True len, of "?pre @ take ?n rest" "drop ?n pad"] by (simp only: ref)
      qed
    qed
  next
    case False
    then have tok: "lzf_token (?pre @ rest) (out @ pad) (length ?pre) (length out) (unat c) =
        decodeLZFMatch (?pre @ rest) (out @ pad) (length ?pre) (length out) (unat c)" by (simp add: lzf_token_def)
    note m = match_eq [where control = "unat c" and rest = rest and pre = ?pre and out = out and pad = pad]
    show ?thesis
    proof (cases "lzf_match (unat c) rest")
      case None
      then show ?thesis using m False unfolding unfold tok by auto
    next
      case (Some p)
      obtain len dist rest' where p: "p = (len, dist, rest')" by (cases p)
      obtain used where used: "rest = used @ rest'" and dec:
         "decodeLZFMatch (?pre @ rest) (out @ pad) (length ?pre) (length out) (unat c) =
           (if dist > length out then Inl InvalidBackReference
            else if len > length pad then Inl MatchExceedsOutput
            else Inr (length (?pre @ used), length (lz_extend out dist len), lz_extend out dist len @ drop len pad))"
        using m Some p by auto
      show ?thesis
      proof (cases "dist \<le> length out")
        case bad: False
        then show ?thesis using False Some p unfolding unfold tok dec by simp
      next
        case dist: True
        have ref: "lzf_ref (c # rest) out = lzf_ref rest' (lz_extend out dist len)" using False Some p dist by simp
        show ?thesis
        proof (cases "len \<le> length pad")
          case bad: False
          then have "length res \<noteq> length out + length pad" if "lzf_ref (c # rest) out = Some res"
            using lzf_ref_grows [OF that [unfolded ref]] by simp
          then show ?thesis using dist bad unfolding unfold tok dec by auto
        next
          case fits: True
          have "?loop = decompress_loop ((?pre @ used) @ rest') (lz_extend out dist len @ drop len pad)
              (length (?pre @ used)) (length (lz_extend out dist len))"
            using dist fits unfolding unfold tok dec by (simp add: used)
          moreover have "length (lz_extend out dist len) + length (drop len pad) = length out + length pad" using fits by simp
          ultimately show ?thesis
            using "2.IH"(2) [OF False Some p [symmetric] refl dist, of "?pre @ used" "drop len pad"] by (simp only: ref)
        qed
      qed
    qed
  qed
qed

text \<open>C30. The decompressor agrees with the reference decoder: it returns an output exactly when the reference
  decoder produces that output and it has the declared length.\<close>

theorem decompressLZF_agrees:
  "decompressLZF input n = Inr out \<longleftrightarrow> lzf_ref input [] = Some out \<and> length out = n"
  using decompress_loop_eq [of "[]" input "[]" "replicate n 0" out] by (simp add: decompressLZF_def)

end
