(* ===== verification/Rdb.thy ===== *)
theory Rdb
  imports Lzf Store_Reach
begin

text \<open>
  The RDB snapshot writer and loader: \<^verbatim>\<open>src/internal/rdb/snapshot.go\<close> and \<^verbatim>\<open>loader.go\<close>.  The reader is the list of
  bytes still to come; reading past its end is \<^verbatim>\<open>io.EOF\<close> or \<^verbatim>\<open>io.ErrUnexpectedEOF\<close>.  Error values carry what tells
  them apart; the text the code wraps around them is left out.  The loader changes the store as it goes, so its
  result is the loader's state with or without an error.  \<open>env n\<close> are the surroundings of the n-th entry's call of
  \<^verbatim>\<open>Set\<close>, and \<open>nowMilli n\<close> the clock the loader reads for that entry.

  Shown: what the writer writes the loader reads back, key for key; the loader returns on every input.
\<close>

section \<open>Format\<close>

definition fileHeader :: bytes where "fileHeader = str ''REDIS0011''"

abbreviation opcodeAux :: byte where "opcodeAux \<equiv> 0xFA"
abbreviation opcodeResizeDB :: byte where "opcodeResizeDB \<equiv> 0xFB"
abbreviation opcodeExpireTimeMS :: byte where "opcodeExpireTimeMS \<equiv> 0xFC"
abbreviation opcodeExpireTimeSec :: byte where "opcodeExpireTimeSec \<equiv> 0xFD"
abbreviation opcodeSelectDB :: byte where "opcodeSelectDB \<equiv> 0xFE"
abbreviation opcodeEOF :: byte where "opcodeEOF \<equiv> 0xFF"
abbreviation valueTypeString :: byte where "valueTypeString \<equiv> 0"
abbreviation rdbMaxSupportedVersion :: int where "rdbMaxSupportedVersion \<equiv> 11"

definition maxRDBObjectLength :: nat where "maxRDBObjectLength = 512 * 1024 * 1024"

text \<open>\<^verbatim>\<open>encoding/binary\<close>: unsigned integers, least significant byte first, and most significant byte first.\<close>

fun le_bytes :: "nat \<Rightarrow> nat \<Rightarrow> bytes" where
  "le_bytes 0 v = []"
| "le_bytes (Suc n) v = of_nat (v mod 256) # le_bytes n (v div 256)"

fun le_value :: "bytes \<Rightarrow> nat" where
  "le_value [] = 0"
| "le_value (b # bs) = unat b + 256 * le_value bs"

definition be_bytes :: "nat \<Rightarrow> nat \<Rightarrow> bytes" where "be_bytes n v = rev (le_bytes n v)"

definition be_value :: "bytes \<Rightarrow> nat" where "be_value bs = le_value (rev bs)"

section \<open>The writer\<close>

record rdbSnapshotStats =
  rs_WrittenKeys :: nat
  rs_SkippedExpiredKeys :: nat

definition emptySnapshot :: bytes where
  "emptySnapshot = fileHeader @ [opcodeEOF] @ replicate 8 0"

definition appendLength :: "bytes \<Rightarrow> nat \<Rightarrow> bytes" where
  "appendLength dst len =
     (if len < 2 ^ 6 then dst @ [of_nat len]
      else if len < 2 ^ 14 then dst @ [or (of_nat (len div 256 mod 64)) 0x40, of_nat (len mod 256)]
      else dst @ 0x80 # be_bytes 4 (len mod 2 ^ 32))"

definition appendString :: "bytes \<Rightarrow> bytes \<Rightarrow> bytes" where
  "appendString dst v = appendLength dst (length v) @ v"

text \<open>The loop over the sorted entries.  A positive int64 is its own uint64.\<close>

fun build_loop :: "int \<Rightarrow> StringSnapshotEntry list \<Rightarrow> bytes \<Rightarrow> rdbSnapshotStats \<Rightarrow> bytes \<times> rdbSnapshotStats" where
  "build_loop now [] payload stats = (payload, stats)"
| "build_loop now (e # es) payload stats =
     (if sse_ExpiresAt e > 0 \<and> sse_ExpiresAt e \<le> now then
        build_loop now es payload (stats\<lparr>rs_SkippedExpiredKeys := rs_SkippedExpiredKeys stats + 1\<rparr>)
      else
        let payload = (if sse_ExpiresAt e > 0 then payload @ [opcodeExpireTimeMS] @ le_bytes 8 (nat (sse_ExpiresAt e)) else payload);
            payload = payload @ [valueTypeString];
            payload = appendString payload (sse_Key e);
            payload = appendString payload (sse_Value e)
        in build_loop now es payload (stats\<lparr>rs_WrittenKeys := rs_WrittenKeys stats + 1\<rparr>))"

text \<open>\<^verbatim>\<open>sort.Slice\<close> by key.  The keys of a snapshot are distinct, so the order it gives is the sorted one.\<close>

definition BuildSnapshot :: "int \<Rightarrow> StringSnapshotEntry list \<Rightarrow> bytes \<times> rdbSnapshotStats" where
  "BuildSnapshot now entries =
     (if entries = [] then (emptySnapshot, \<lparr>rs_WrittenKeys = 0, rs_SkippedExpiredKeys = 0\<rparr>)
      else
        case build_loop now (sort_key sse_Key entries) (appendLength (fileHeader @ [opcodeSelectDB]) 0)
               \<lparr>rs_WrittenKeys = 0, rs_SkippedExpiredKeys = 0\<rparr> of
          (payload, stats) \<Rightarrow> (payload @ [opcodeEOF] @ replicate 8 0, stats))"

section \<open>Reading\<close>

datatype rdb_error =
    RdbEOF | RdbUnexpectedEOF | ErrInvalidHeader bytes | ErrUnsupportedDB nat | ErrUnsupportedValueType byte
  | ErrUnsupportedOpcode byte | ExpiryOverflow nat | UnsupportedStringEncoding nat | EncodedCompressedLength
  | EncodedUncompressedLength | UncompressedLimit nat | ObjectLimit nat | ChecksumLength nat | LZFError lzf_error
  | StoreKey bytes store_error

type_synonym 'a reading = "rdb_error + 'a \<times> bytes"

definition readByte :: "bytes \<Rightarrow> byte reading" where
  "readByte rest = (case rest of [] \<Rightarrow> Inl RdbEOF | b # rest \<Rightarrow> Inr (b, rest))"

text \<open>\<^verbatim>\<open>io.ReadFull\<close> into a buffer of \<open>n\<close> bytes.\<close>

definition readFull :: "nat \<Rightarrow> bytes \<Rightarrow> bytes reading" where
  "readFull n rest =
     (if n \<le> length rest then Inr (take n rest, drop n rest)
      else if rest = [] then Inl RdbEOF else Inl RdbUnexpectedEOF)"

text \<open>The length, whether it is the number of a special encoding instead, and the input behind it.\<close>

definition readLength :: "bytes \<Rightarrow> (nat \<times> bool) reading" where
  "readLength rest =
     (case readByte rest of
        Inl e \<Rightarrow> Inl e
      | Inr (first, rest) \<Rightarrow>
          if unat first div 64 = 0 then Inr ((unat first mod 64, False), rest)
          else if unat first div 64 = 1 then
            (case readByte rest of
               Inl e \<Rightarrow> Inl e
             | Inr (second, rest) \<Rightarrow> Inr ((unat first mod 64 * 256 + unat second, False), rest))
          else if unat first div 64 = 2 then
            (case readFull 4 rest of
               Inl e \<Rightarrow> Inl e
             | Inr (raw, rest) \<Rightarrow> Inr ((be_value raw, False), rest))
          else Inr ((unat first mod 64, True), rest))"

definition readBytes :: "nat \<Rightarrow> bytes \<Rightarrow> bytes reading" where
  "readBytes len rest =
     (if len = 0 then Inr ([], rest)
      else if len > maxRDBObjectLength then Inl (ObjectLimit len)
      else readFull len rest)"

text \<open>\<^verbatim>\<open>readUint16LE\<close>, \<^verbatim>\<open>readUint32LE\<close> and \<^verbatim>\<open>readUint64LE\<close> are \<open>readUintLE 2\<close>, \<open>4\<close> and \<open>8\<close>.\<close>

definition readUintLE :: "nat \<Rightarrow> bytes \<Rightarrow> nat reading" where
  "readUintLE n rest = (case readFull n rest of Inl e \<Rightarrow> Inl e | Inr (raw, rest) \<Rightarrow> Inr (le_value raw, rest))"

text \<open>The conversion of an unsigned value to the signed integer of \<open>w\<close> bits.\<close>

definition to_signed :: "nat \<Rightarrow> nat \<Rightarrow> int" where
  "to_signed w v = (if v < 2 ^ (w - 1) then int v else int v - 2 ^ w)"

definition readLZF :: "bytes \<Rightarrow> bytes reading" where
  "readLZF rest =
     (case readLength rest of
        Inl e \<Rightarrow> Inl e
      | Inr ((compressedLength, compressedEncoded), rest) \<Rightarrow>
          if compressedEncoded then Inl EncodedCompressedLength
          else
            (case readLength rest of
               Inl e \<Rightarrow> Inl e
             | Inr ((uncompressedLength, uncompressedEncoded), rest) \<Rightarrow>
                 if uncompressedEncoded then Inl EncodedUncompressedLength
                 else if uncompressedLength > maxRDBObjectLength then Inl (UncompressedLimit uncompressedLength)
                 else
                   (case readBytes compressedLength rest of
                      Inl e \<Rightarrow> Inl e
                    | Inr (compressed, rest) \<Rightarrow>
                        (case decompressLZF compressed uncompressedLength of
                           Inl e \<Rightarrow> Inl (LZFError e)
                         | Inr out \<Rightarrow> Inr (out, rest)))))"

definition readString :: "bytes \<Rightarrow> bytes reading" where
  "readString rest =
     (case readLength rest of
        Inl e \<Rightarrow> Inl e
      | Inr ((len, encoded), rest) \<Rightarrow>
          if \<not> encoded then readBytes len rest
          else if len = 0 then
            (case readByte rest of Inl e \<Rightarrow> Inl e | Inr (b, rest) \<Rightarrow> Inr (formatInt (to_signed 8 (unat b)), rest))
          else if len = 1 then
            (case readUintLE 2 rest of Inl e \<Rightarrow> Inl e | Inr (v, rest) \<Rightarrow> Inr (formatInt (to_signed 16 v), rest))
          else if len = 2 then
            (case readUintLE 4 rest of Inl e \<Rightarrow> Inl e | Inr (v, rest) \<Rightarrow> Inr (formatInt (to_signed 32 v), rest))
          else if len = 3 then readLZF rest
          else Inl (UnsupportedStringEncoding len))"

section \<open>The loader\<close>

record rdbStats =
  rl_LoadedKeys :: nat
  rl_SkippedExpiredKeys :: nat

record loader =
  ld_store :: Store
  ld_stats :: rdbStats
  ld_seenEOF :: bool
  ld_entries :: nat

definition validateHeader :: "bytes \<Rightarrow> bool" where
  "validateHeader header \<longleftrightarrow> length header = length fileHeader \<and> take 5 header = str ''REDIS'' \<and>
     (case ParseInt (drop 5 header) of None \<Rightarrow> False | Some version \<Rightarrow> 1 \<le> version \<and> version \<le> rdbMaxSupportedVersion)"

definition isValueType :: "byte \<Rightarrow> bool" where
  "isValueType marker \<longleftrightarrow> marker \<in> set [0, 1, 2, 3, 4, 9, 10, 11, 12, 13, 14]"

text \<open>The result of a step of the loader: the input that is left, or an error; the loader's state in either case.\<close>

definition readEntry :: "(nat \<Rightarrow> Env) \<Rightarrow> (nat \<Rightarrow> int) \<Rightarrow> loader \<Rightarrow> byte \<Rightarrow> int \<Rightarrow> bytes \<Rightarrow> loader \<times> (rdb_error + bytes)" where
  "readEntry env nowMilli l valueType expiresAt rest =
     (if valueType \<noteq> valueTypeString then (l, Inl (ErrUnsupportedValueType valueType))
      else case readString rest of
        Inl e \<Rightarrow> (l, Inl e)
      | Inr (key, rest) \<Rightarrow>
          (case readString rest of
             Inl e \<Rightarrow> (l, Inl e)
           | Inr (v, rest) \<Rightarrow>
               let n = ld_entries l; l = l\<lparr>ld_entries := n + 1\<rparr> in
               if expiresAt > 0 \<and> expiresAt \<le> nowMilli n then
                 (l\<lparr>ld_stats := (ld_stats l)\<lparr>rl_SkippedExpiredKeys := rl_SkippedExpiredKeys (ld_stats l) + 1\<rparr>\<rparr>, Inr rest)
               else
                 (case Set (env n) (ld_store l) key v expiresAt of
                    (s, Inl e) \<Rightarrow> (l\<lparr>ld_store := s\<rparr>, Inl (StoreKey key e))
                  | (s, Inr _) \<Rightarrow>
                      (l\<lparr>ld_store := s, ld_stats := (ld_stats l)\<lparr>rl_LoadedKeys := rl_LoadedKeys (ld_stats l) + 1\<rparr>\<rparr>, Inr rest))))"

definition readExpiringEntry ::
    "(nat \<Rightarrow> Env) \<Rightarrow> (nat \<Rightarrow> int) \<Rightarrow> loader \<Rightarrow> int \<Rightarrow> bytes \<Rightarrow> loader \<times> (rdb_error + bytes)" where
  "readExpiringEntry env nowMilli l expiresAt rest =
     (case readByte rest of
        Inl e \<Rightarrow> (l, Inl e)
      | Inr (valueType, rest) \<Rightarrow> readEntry env nowMilli l valueType expiresAt rest)"

definition skipAuxField :: "bytes \<Rightarrow> rdb_error + bytes" where
  "skipAuxField rest =
     (case readString rest of
        Inl e \<Rightarrow> Inl e
      | Inr (_, rest) \<Rightarrow> (case readString rest of Inl e \<Rightarrow> Inl e | Inr (_, rest) \<Rightarrow> Inr rest))"

definition skipResizeDBMetadata :: "bytes \<Rightarrow> rdb_error + bytes" where
  "skipResizeDBMetadata rest =
     (case readLength rest of
        Inl e \<Rightarrow> Inl e
      | Inr (_, rest) \<Rightarrow> (case readLength rest of Inl e \<Rightarrow> Inl e | Inr (_, rest) \<Rightarrow> Inr rest))"

definition readDatabaseSelection :: "bytes \<Rightarrow> rdb_error + bytes" where
  "readDatabaseSelection rest =
     (case readLength rest of
        Inl e \<Rightarrow> Inl e
      | Inr ((dbIndex, _), rest) \<Rightarrow> if dbIndex \<noteq> 0 then Inl (ErrUnsupportedDB dbIndex) else Inr rest)"

definition validatedExpiryMillis :: "nat \<Rightarrow> rdb_error + int" where
  "validatedExpiryMillis v = (if v > 2 ^ 63 - 1 then Inl (ExpiryOverflow v) else Inr (int v))"

definition consumeEOF :: "loader \<Rightarrow> bytes \<Rightarrow> loader \<times> (rdb_error + bytes)" where
  "consumeEOF l rest =
     (if length rest \<noteq> 0 \<and> length rest \<noteq> 8 then (l, Inl (ChecksumLength (length rest)))
      else (l\<lparr>ld_seenEOF := True\<rparr>, Inr []))"

definition processMarker ::
    "(nat \<Rightarrow> Env) \<Rightarrow> (nat \<Rightarrow> int) \<Rightarrow> loader \<Rightarrow> byte \<Rightarrow> bytes \<Rightarrow> loader \<times> (rdb_error + bytes)" where
  "processMarker env nowMilli l marker rest =
     (if marker = opcodeAux then (l, skipAuxField rest)
      else if marker = opcodeResizeDB then (l, skipResizeDBMetadata rest)
      else if marker = opcodeSelectDB then (l, readDatabaseSelection rest)
      else if marker = opcodeExpireTimeSec then
        (case readUintLE 4 rest of
           Inl e \<Rightarrow> (l, Inl e)
         | Inr (secs, rest) \<Rightarrow> readExpiringEntry env nowMilli l (int secs * 1000) rest)
      else if marker = opcodeExpireTimeMS then
        (case readUintLE 8 rest of
           Inl e \<Rightarrow> (l, Inl e)
         | Inr (millis, rest) \<Rightarrow>
             (case validatedExpiryMillis millis of
                Inl e \<Rightarrow> (l, Inl e)
              | Inr t \<Rightarrow> readExpiringEntry env nowMilli l t rest))
      else if marker = opcodeEOF then consumeEOF l rest
      else if \<not> isValueType marker then (l, Inl (ErrUnsupportedOpcode marker))
      else readEntry env nowMilli l marker 0 rest)"

text \<open>Reading never lengthens the input, so the marker loop ends.\<close>

named_theorems shrinks "readers leave no more input than they were given"

lemma readByte_shrinks [shrinks]: "readByte rest = Inr (b, rest') \<Longrightarrow> length rest' < length rest"
  by (auto simp: readByte_def split: list.splits)

lemma readFull_shrinks [shrinks]: "readFull n rest = Inr (x, rest') \<Longrightarrow> length rest' \<le> length rest"
  by (auto simp: readFull_def split: if_splits)

lemma readLength_shrinks [shrinks]: "readLength rest = Inr (x, rest') \<Longrightarrow> length rest' < length rest"
  by (fastforce simp: readLength_def split: sum.splits prod.splits if_splits dest: shrinks)

lemma readBytes_shrinks [shrinks]: "readBytes n rest = Inr (x, rest') \<Longrightarrow> length rest' \<le> length rest"
  by (auto simp: readBytes_def split: if_splits dest: shrinks)

lemma readUintLE_shrinks [shrinks]: "readUintLE n rest = Inr (x, rest') \<Longrightarrow> length rest' \<le> length rest"
  by (auto simp: readUintLE_def split: sum.splits prod.splits dest: shrinks)

lemma readLZF_shrinks [shrinks]: "readLZF rest = Inr (x, rest') \<Longrightarrow> length rest' \<le> length rest"
  by (fastforce simp: readLZF_def split: sum.splits prod.splits if_splits dest: shrinks)

lemma readString_shrinks [shrinks]: "readString rest = Inr (x, rest') \<Longrightarrow> length rest' \<le> length rest"
  by (fastforce simp: readString_def split: sum.splits prod.splits if_splits dest: shrinks)

lemma readEntry_shrinks [shrinks]: "readEntry env nowMilli l ty t rest = (l', Inr rest') \<Longrightarrow> length rest' \<le> length rest"
  by (fastforce simp: readEntry_def Let_def split: sum.splits prod.splits if_splits dest: shrinks)

lemma readExpiringEntry_shrinks [shrinks]:
  "readExpiringEntry env nowMilli l t rest = (l', Inr rest') \<Longrightarrow> length rest' \<le> length rest"
  by (fastforce simp: readExpiringEntry_def split: sum.splits prod.splits dest: shrinks)

lemma skips_shrink [shrinks]:
  "skipAuxField rest = Inr rest' \<Longrightarrow> length rest' \<le> length rest"
  "skipResizeDBMetadata rest = Inr rest' \<Longrightarrow> length rest' \<le> length rest"
  "readDatabaseSelection rest = Inr rest' \<Longrightarrow> length rest' \<le> length rest"
  "consumeEOF l rest = (l', Inr rest') \<Longrightarrow> length rest' \<le> length rest"
  by (fastforce simp: skipAuxField_def skipResizeDBMetadata_def readDatabaseSelection_def consumeEOF_def
    split: sum.splits prod.splits if_splits dest: shrinks)+

lemma processMarker_shrinks: "processMarker env nowMilli l m rest = (l', Inr rest') \<Longrightarrow> length rest' \<le> length rest"
  by (fastforce simp: processMarker_def split: sum.splits prod.splits if_splits dest: shrinks)

function load_loop :: "(nat \<Rightarrow> Env) \<Rightarrow> (nat \<Rightarrow> int) \<Rightarrow> loader \<Rightarrow> bytes \<Rightarrow> loader \<times> (rdb_error + unit)" where
  "load_loop env nowMilli l rest =
     (if ld_seenEOF l then (l, Inr ())
      else case readByte rest of
        Inl e \<Rightarrow> (l, Inl e)
      | Inr (marker, rest') \<Rightarrow>
          (case processMarker env nowMilli l marker rest' of
             (l', Inl e) \<Rightarrow> (l', Inl e)
           | (l', Inr rest'') \<Rightarrow> load_loop env nowMilli l' rest''))"
  by pat_completeness auto
termination
proof (relation "measure (\<lambda>(_, _, _, rest). length rest)", goal_cases)
  case (2 env nowMilli l rest b marker rest' l' r rest'')
  then have "processMarker env nowMilli l marker rest' = (l', Inr rest'')" "readByte rest = Inr (marker, rest')" by simp_all
  then show ?case using processMarker_shrinks readByte_shrinks by fastforce
qed simp

declare load_loop.simps [simp del]

definition load :: "(nat \<Rightarrow> Env) \<Rightarrow> (nat \<Rightarrow> int) \<Rightarrow> loader \<Rightarrow> bytes \<Rightarrow> loader \<times> (rdb_error + unit)" where
  "load env nowMilli l rest =
     (case readFull (length fileHeader) rest of
        Inl e \<Rightarrow> (l, Inl e)
      | Inr (header, rest) \<Rightarrow>
          if \<not> validateHeader header then (l, Inl (ErrInvalidHeader header)) else load_loop env nowMilli l rest)"

definition loadReaderAt ::
    "(nat \<Rightarrow> Env) \<Rightarrow> (nat \<Rightarrow> int) \<Rightarrow> bytes \<Rightarrow> Store \<Rightarrow> Store \<times> (rdb_error + rdbStats)" where
  "loadReaderAt env nowMilli reader s =
     (case load env nowMilli \<lparr>ld_store = s, ld_stats = \<lparr>rl_LoadedKeys = 0, rl_SkippedExpiredKeys = 0\<rparr>, ld_seenEOF = False,
             ld_entries = 0\<rparr> reader of
        (l, Inl e) \<Rightarrow> (ld_store l, Inl e)
      | (l, Inr _) \<Rightarrow> (ld_store l, Inr (ld_stats l)))"

section \<open>Reading back what was written\<close>

lemma length_le_bytes [simp]: "length (le_bytes n v) = n"
  by (induction n v rule: le_bytes.induct) auto

lemma le_value_bytes: "v < 256 ^ n \<Longrightarrow> le_value (le_bytes n v) = v"
  by (induction n v rule: le_bytes.induct) (auto simp: unat_of_nat less_mult_imp_div_less mult.commute)

lemma be_value_bytes: "v < 256 ^ n \<Longrightarrow> be_value (be_bytes n v) = v"
  by (simp add: be_value_def be_bytes_def le_value_bytes)

lemma readFull_append: "readFull (length xs) (xs @ rest) = Inr (xs, rest)"
  by (simp add: readFull_def)

lemma readUintLE_bytes: "v < 256 ^ n \<Longrightarrow> readUintLE n (le_bytes n v @ rest) = Inr (v, rest)"
  using readFull_append [of "le_bytes n v" rest] by (simp add: readUintLE_def le_value_bytes)

lemma appendLength_dst: "appendLength dst n = dst @ appendLength [] n"
  by (simp add: appendLength_def)

lemma or_small: "n < 64 \<Longrightarrow> unat (or (of_nat n :: byte) 0x40) = 64 + n"
proof -
  assume n: "n < 64"
  have "(0x40 :: byte) = 2 ^ 6" by simp
  moreover have "and (of_nat n :: byte) (2 ^ 6) = 0"
  proof (rule bit_eqI)
    fix k
    have "\<not> bit n 6" using n by (simp add: bit_iff_odd)
    then show "bit (and (of_nat n :: byte) (2 ^ 6)) k = bit (0 :: byte) k"
      by (auto simp only: bit_and_iff bit_exp_iff bit_of_nat_iff bit_0_eq)
  qed
  ultimately have "or (of_nat n :: byte) 0x40 = of_nat n + 0x40"
    using word_plus_and_or [of "of_nat n :: byte" "0x40"] by simp
  then show ?thesis using n by (simp add: unat_word_ariths unat_of_nat)
qed

lemma readLength_append:
  assumes "n < 2 ^ 32" shows "readLength (appendLength [] n @ rest) = Inr ((n, False), rest)"
proof -
  consider "n < 64" | "64 \<le> n" "n < 16384" | "16384 \<le> n" by linarith
  then show ?thesis
  proof cases
    case 1
    then show ?thesis by (simp add: appendLength_def readLength_def readByte_def unat_of_nat)
  next
    case 2
    have "n div 256 < 64" using 2 by linarith
    then show ?thesis using 2 or_small [of "n div 256"] by (simp add: appendLength_def readLength_def readByte_def unat_of_nat)
  next
    case 3
    have "readFull 4 (be_bytes 4 n @ rest) = Inr (be_bytes 4 n, rest)"
      using readFull_append [of "be_bytes 4 n" rest] by (simp add: be_bytes_def)
    then show ?thesis using 3 assms be_value_bytes [of n 4] by (simp add: appendLength_def readLength_def readByte_def)
  qed
qed

lemma readString_append:
  assumes "length v \<le> maxRDBObjectLength"
  shows "readString (appendString [] v @ rest) = Inr (v, rest)"
proof -
  have "length v < 2 ^ 32" using assms by (simp add: maxRDBObjectLength_def)
  then have "readLength (appendString [] v @ rest) = Inr ((length v, False), v @ rest)"
    using readLength_append [of "length v" "v @ rest"] by (simp add: appendString_def)
  then show ?thesis using assms readFull_append [of v rest] by (auto simp: readString_def readBytes_def)
qed

text \<open>The bytes of one entry, and the entries the writer does not skip.\<close>

definition entry_bytes :: "StringSnapshotEntry \<Rightarrow> bytes" where
  "entry_bytes e =
     (if sse_ExpiresAt e > 0 then opcodeExpireTimeMS # le_bytes 8 (nat (sse_ExpiresAt e)) else []) @
     valueTypeString # appendString [] (sse_Key e) @ appendString [] (sse_Value e)"

definition written :: "int \<Rightarrow> StringSnapshotEntry list \<Rightarrow> StringSnapshotEntry list" where
  "written now es = filter (\<lambda>e. \<not> (sse_ExpiresAt e > 0 \<and> sse_ExpiresAt e \<le> now)) es"

lemma appendString_dst: "appendString dst v = dst @ appendString [] v"
  by (simp add: appendString_def appendLength_dst [of dst])

lemma build_loop_eq:
  "build_loop now es payload stats = (payload @ concat (map entry_bytes (written now es)),
     stats\<lparr>rs_WrittenKeys := rs_WrittenKeys stats + length (written now es),
           rs_SkippedExpiredKeys := rs_SkippedExpiredKeys stats + (length es - length (written now es))\<rparr>)"
proof (induction now es payload stats rule: build_loop.induct)
  case (2 now e es payload stats)
  have le: "length (written now es) \<le> length es" by (simp add: written_def)
  show ?case
  proof (cases "sse_ExpiresAt e > 0 \<and> sse_ExpiresAt e \<le> now")
    case True
    then show ?thesis using 2(1) le by (simp add: written_def Suc_diff_le)
  next
    case False
    then show ?thesis
      using 2(2) [OF False refl refl refl refl]
      by (simp add: written_def Let_def entry_bytes_def
        appendString_dst [of "appendString _ _"] appendString_dst [of "_ @ _"] appendString_dst [of "_ # _"])
  qed
qed (simp add: written_def)

text \<open>An entry fits the format: lengths within the loader's bound, and an expiry that is a time.\<close>

definition entry_fits :: "StringSnapshotEntry \<Rightarrow> bool" where
  "entry_fits e \<longleftrightarrow> length (sse_Key e) \<le> maxRDBObjectLength \<and> length (sse_Value e) \<le> maxRDBObjectLength \<and>
     0 \<le> sse_ExpiresAt e \<and> int64_range (sse_ExpiresAt e)"

abbreviation entry_pair :: "StringSnapshotEntry \<Rightarrow> bytes \<times> contents \<times> int" where
  "entry_pair e \<equiv> (sse_Key e, (CString (sse_Value e), sse_ExpiresAt e))"

lemma readEntry_bytes:
  assumes "entry_fits e"
  shows "readEntry env nowMilli l valueTypeString t (appendString [] (sse_Key e) @ appendString [] (sse_Value e) @ rest) =
    (let n = ld_entries l; l = l\<lparr>ld_entries := n + 1\<rparr> in
     if t > 0 \<and> t \<le> nowMilli n then
       (l\<lparr>ld_stats := (ld_stats l)\<lparr>rl_SkippedExpiredKeys := rl_SkippedExpiredKeys (ld_stats l) + 1\<rparr>\<rparr>, Inr rest)
     else
       (case Set (env n) (ld_store l) (sse_Key e) (sse_Value e) t of
          (s, Inl x) \<Rightarrow> (l\<lparr>ld_store := s\<rparr>, Inl (StoreKey (sse_Key e) x))
        | (s, Inr _) \<Rightarrow>
            (l\<lparr>ld_store := s, ld_stats := (ld_stats l)\<lparr>rl_LoadedKeys := rl_LoadedKeys (ld_stats l) + 1\<rparr>\<rparr>, Inr rest)))"
  using assms readString_append [of "sse_Key e" "appendString [] (sse_Value e) @ rest"] readString_append [of "sse_Value e" rest]
  unfolding readEntry_def entry_fits_def by simp

lemma load_loop_entry:
  assumes "entry_fits e" "\<not> ld_seenEOF l"
  shows "load_loop env nowMilli l (entry_bytes e @ rest) =
    (case readEntry env nowMilli l valueTypeString (sse_ExpiresAt e)
            (appendString [] (sse_Key e) @ appendString [] (sse_Value e) @ rest) of
       (l', Inl x) \<Rightarrow> (l', Inl x) | (l', Inr rest) \<Rightarrow> load_loop env nowMilli l' rest)"
proof (cases "sse_ExpiresAt e > 0")
  case True
  let ?t = "nat (sse_ExpiresAt e)" and ?body = "valueTypeString # appendString [] (sse_Key e) @ appendString [] (sse_Value e) @ rest"
  have t: "?t < 256 ^ 8" "?t \<le> 2 ^ 63 - 1" "int ?t = sse_ExpiresAt e"
    using assms(1) by (auto simp: entry_fits_def int64_range_def)
  have "processMarker env nowMilli l opcodeExpireTimeMS (le_bytes 8 ?t @ ?body) =
      readEntry env nowMilli l valueTypeString (sse_ExpiresAt e) (appendString [] (sse_Key e) @ appendString [] (sse_Value e) @ rest)"
    using t readUintLE_bytes [OF t(1), of ?body]
    by (simp add: processMarker_def validatedExpiryMillis_def readExpiringEntry_def readByte_def)
  then show ?thesis
    using True assms(2) by (subst load_loop.simps) (simp add: entry_bytes_def readByte_def split: prod.splits sum.splits)
next
  case False
  then have "sse_ExpiresAt e = 0" using assms(1) by (simp add: entry_fits_def)
  then show ?thesis
    using assms(2) by (subst load_loop.simps) (simp add: entry_bytes_def readByte_def processMarker_def isValueType_def)
qed

lemma load_loop_entries:
  assumes "\<forall>e \<in> set es. entry_fits e \<and> (\<forall>n. \<not> (0 < sse_ExpiresAt e \<and> sse_ExpiresAt e \<le> nowMilli n))"
    "store_inv (ld_store l)" "\<not> maxMemoryEnabled (ld_store l)" "\<not> ld_seenEOF l"
  shows "\<exists>l'. load_loop env nowMilli l (concat (map entry_bytes es) @ opcodeEOF # replicate 8 0) = (l', Inr ()) \<and>
    view (ld_store l') = assigns (view (ld_store l)) (map entry_pair es) \<and> store_inv (ld_store l') \<and>
    ld_stats l' = (ld_stats l)\<lparr>rl_LoadedKeys := rl_LoadedKeys (ld_stats l) + length es\<rparr>"
  using assms
proof (induction es arbitrary: l)
  case Nil
  have e: "load_loop env nowMilli (l\<lparr>ld_seenEOF := True\<rparr>) [] = (l\<lparr>ld_seenEOF := True\<rparr>, Inr ())" by (subst load_loop.simps) simp
  have "load_loop env nowMilli l (opcodeEOF # replicate 8 0) = load_loop env nowMilli (l\<lparr>ld_seenEOF := True\<rparr>) []"
    using Nil.prems(4) by (subst load_loop.simps) (simp add: readByte_def processMarker_def consumeEOF_def)
  then show ?case using e Nil.prems by (simp add: assigns_def)
next
  case (Cons e es)
  let ?n = "ld_entries l" and ?rest = "concat (map entry_bytes es) @ opcodeEOF # replicate 8 0"
  obtain s r where s: "Set (env ?n) (ld_store l) (sse_Key e) (sse_Value e) (sse_ExpiresAt e) = (s, r)" by fastforce
  note ws = set_w.write_spec [OF TrueI Cons.prems(2) s [unfolded Set_def] refl refl]
  have r: "r = Inr ((), [])" "view s = (view (ld_store l))(sse_Key e \<mapsto> (CString (sse_Value e), sse_ExpiresAt e))"
    "store_inv s" "\<not> maxMemoryEnabled s"
    using ws Cons.prems(3) same_setup_max by blast+
  define l1 where "l1 = l\<lparr>ld_entries := ?n + 1, ld_store := s,
    ld_stats := (ld_stats l)\<lparr>rl_LoadedKeys := rl_LoadedKeys (ld_stats l) + 1\<rparr>\<rparr>"
  have "load_loop env nowMilli l (entry_bytes e @ ?rest) = load_loop env nowMilli l1 ?rest"
    using load_loop_entry [of e l env nowMilli ?rest] readEntry_bytes [of e env nowMilli l "sse_ExpiresAt e" ?rest] Cons.prems(1,4) s r(1)
    by (simp add: Let_def l1_def)
  moreover have "\<exists>l'. load_loop env nowMilli l1 ?rest = (l', Inr ()) \<and>
      view (ld_store l') = assigns (view (ld_store l1)) (map entry_pair es) \<and> store_inv (ld_store l') \<and>
      ld_stats l' = (ld_stats l1)\<lparr>rl_LoadedKeys := rl_LoadedKeys (ld_stats l1) + length es\<rparr>"
    using Cons.prems r by (intro Cons.IH) (simp_all add: l1_def)
  ultimately show ?case using r(2) by (auto simp: l1_def assigns_def)
qed

lemma validate_own_header: "validateHeader fileHeader"
  by code_simp

lemma sorted_written:
  assumes "distinct (map sse_Key es)"
  shows "map_of (rev (map entry_pair (written now (sort_key sse_Key es)))) = map_of (map entry_pair (written now es))"
proof -
  have d: "distinct (map fst (map entry_pair (written now xs)))" if "distinct (map sse_Key xs)" for xs
    using distinct_map_filter [OF that] by (simp add: written_def comp_def)
  have "distinct (map sse_Key (sort_key sse_Key es))" using assms by (simp add: distinct_map)
  from d [OF this] have "distinct (map fst (rev (map entry_pair (written now (sort_key sse_Key es)))))"
    by (simp add: rev_map [symmetric])
  moreover have "set (rev (map entry_pair (written now (sort_key sse_Key es)))) = set (map entry_pair (written now es))"
    by (simp add: written_def)
  ultimately show ?thesis using d [OF assms] map_of_inject_set by blast
qed

lemma rdb_round_trip:
  assumes s: "store_inv s" "\<not> maxMemoryEnabled s" and es: "distinct (map sse_Key es)" "\<forall>e \<in> set es. entry_fits e"
    and now: "\<forall>e \<in> set (written now es). \<forall>n. \<not> (0 < sse_ExpiresAt e \<and> sse_ExpiresAt e \<le> nowMilli n)"
  shows "\<exists>s'. loadReaderAt env nowMilli (fst (BuildSnapshot now es)) s =
      (s', Inr \<lparr>rl_LoadedKeys = length (written now es), rl_SkippedExpiredKeys = 0\<rparr>) \<and>
    store_inv s' \<and> view s' = view s ++ map_of (map entry_pair (written now es))"
proof -
  let ?es = "written now (sort_key sse_Key es)"
  let ?l = "\<lparr>ld_store = s, ld_stats = \<lparr>rl_LoadedKeys = 0, rl_SkippedExpiredKeys = 0\<rparr>, ld_seenEOF = False, ld_entries = 0\<rparr>"
  let ?tail = "concat (map entry_bytes ?es) @ opcodeEOF # replicate 8 0"
  have len: "length ?es = length (written now es)"
  proof -
    have "mset ?es = mset (written now es)" by (simp add: written_def)
    then show ?thesis using mset_eq_length by blast
  qed
  have "\<forall>e \<in> set ?es. entry_fits e \<and> (\<forall>n. \<not> (0 < sse_ExpiresAt e \<and> sse_ExpiresAt e \<le> nowMilli n))"
    using es(2) now by (simp add: written_def)
  then obtain l' where l': "load_loop env nowMilli ?l ?tail = (l', Inr ())"
      "view (ld_store l') = assigns (view s) (map entry_pair ?es)" "store_inv (ld_store l')"
      "ld_stats l' = \<lparr>rl_LoadedKeys = length ?es, rl_SkippedExpiredKeys = 0\<rparr>"
    using load_loop_entries [of ?es nowMilli ?l env] s by auto
  have head: "load env nowMilli ?l (fileHeader @ rest) = load_loop env nowMilli ?l rest" for rest
    using readFull_append [of fileHeader rest] validate_own_header by (simp add: load_def)
  have "load env nowMilli ?l (fst (BuildSnapshot now es)) = (l', Inr ())"
  proof (cases "es = []")
    case True
    then show ?thesis using l'(1) head [of "opcodeEOF # replicate 8 0"] by (simp add: BuildSnapshot_def emptySnapshot_def written_def)
  next
    case False
    have "load_loop env nowMilli ?l (opcodeSelectDB # appendLength [] 0 @ ?tail) = load_loop env nowMilli ?l ?tail"
      using readLength_append [of 0 ?tail]
      by (subst load_loop.simps) (simp add: readByte_def processMarker_def readDatabaseSelection_def)
    moreover have "fst (BuildSnapshot now es) = fileHeader @ opcodeSelectDB # appendLength [] 0 @ ?tail"
      using False by (simp add: BuildSnapshot_def build_loop_eq appendLength_dst [of "_ @ _"])
    ultimately show ?thesis using l'(1) head by simp
  qed
  moreover have "assigns (view s) (map entry_pair ?es) = view s ++ map_of (map entry_pair (written now es))"
    unfolding assigns_def using sorted_written [OF es(1), of now] by simp
  ultimately show ?thesis using l' len by (simp add: loadReaderAt_def)
qed

section \<open>Saving a store and loading it\<close>

lemma strings_loop_eq:
  "fst (strings_loop now d es stats) =
    es @ map (\<lambda>(k, v). \<lparr>sse_Key = k, sse_Value = vo_String v, sse_ExpiresAt = vo_ExpiresAt v\<rparr>)
            (filter (\<lambda>(k, v). \<not> isExpired v now \<and> vo_Kind v = ValueKindString) d)"
  by (induction now d es stats rule: strings_loop.induct) auto

lemma string_entries:
  "map sse_Key (map (\<lambda>(k, v). \<lparr>sse_Key = k, sse_Value = vo_String v, sse_ExpiresAt = vo_ExpiresAt v\<rparr>) xs) = map fst xs"
  "(k, (c, t)) \<in> set (map entry_pair (map (\<lambda>(k, v). \<lparr>sse_Key = k, sse_Value = vo_String v, sse_ExpiresAt = vo_ExpiresAt v\<rparr>) xs)) \<longleftrightarrow>
     (\<exists>v. (k, v) \<in> set xs \<and> c = CString (vo_String v) \<and> t = vo_ExpiresAt v)"
  by (induction xs) auto

lemma strings_shards_eq:
  "fst (foldl (\<lambda>(es, stats) d. strings_loop now d es (stats\<lparr>sss_TotalKeys := sss_TotalKeys stats + length d\<rparr>)) (xs, st) ds) =
      xs @ map (\<lambda>(k, v). \<lparr>sse_Key = k, sse_Value = vo_String v, sse_ExpiresAt = vo_ExpiresAt v\<rparr>)
        (filter (\<lambda>(k, v). \<not> isExpired v now \<and> vo_Kind v = ValueKindString) (concat ds))"
proof (induction ds arbitrary: xs st)
  case (Cons d ds)
  obtain ys st' where y: "strings_loop now d xs (st\<lparr>sss_TotalKeys := sss_TotalKeys st + length d\<rparr>) = (ys, st')" by fastforce
  have "ys = xs @ map (\<lambda>(k, v). \<lparr>sse_Key = k, sse_Value = vo_String v, sse_ExpiresAt = vo_ExpiresAt v\<rparr>)
      (filter (\<lambda>(k, v). \<not> isExpired v now \<and> vo_Kind v = ValueKindString) d)"
    using strings_loop_eq [of now d xs "st\<lparr>sss_TotalKeys := sss_TotalKeys st + length d\<rparr>"] y by simp
  then show ?case using y Cons.IH [of ys st'] by simp
qed simp

lemma SnapshotStrings_spec:
  assumes inv: "store_inv s" and r: "SnapshotStrings env s = (es, stats)"
  shows "distinct (map sse_Key es)"
    "map_of (map entry_pair es) k =
       (case live s (env_clock env 0) k of Some (CString d, t) \<Rightarrow> Some (CString d, t) | _ \<Rightarrow> None)"
proof -
  let ?es = "concat (sr_shards s)" and ?now = "env_clock env 0"
  let ?P = "\<lambda>(k :: bytes, v). \<not> isExpired v ?now \<and> vo_Kind v = ValueKindString"
  let ?e = "\<lambda>(k, v). \<lparr>sse_Key = k, sse_Value = vo_String v, sse_ExpiresAt = vo_ExpiresAt v\<rparr>"
  note wf = store_invD(1) [OF inv]
  have es: "es = map ?e (filter ?P ?es)"
    using arg_cong [OF r, of fst] unfolding SnapshotStrings_def strings_shards_eq by (simp only: append_Nil fst_conv)
  show d: "distinct (map sse_Key es)"
    using distinct_map_filter [OF wf_entries(1) [OF wf]] unfolding es string_entries(1) by blast
  have d': "distinct (map fst (map entry_pair es))" using d by (simp add: comp_def)
  have m: "(k, (c, t)) \<in> set (map entry_pair es) \<longleftrightarrow>
      (\<exists>v. lookup s k = Some v \<and> \<not> isExpired v ?now \<and> vo_Kind v = ValueKindString \<and> c = CString (vo_String v) \<and> t = vo_ExpiresAt v)" for c t
    unfolding es string_entries(2) set_filter using concat_lookup [OF wf] by (simp del: set_concat)
  show "map_of (map entry_pair es) k = (case live s ?now k of Some (CString d, t) \<Rightarrow> Some (CString d, t) | _ \<Rightarrow> None)"
  proof (cases "\<exists>v. lookup s k = Some v \<and> \<not> isExpired v ?now \<and> vo_Kind v = ValueKindString")
    case True
    then obtain v where v: "lookup s k = Some v" "\<not> isExpired v ?now" "vo_Kind v = ValueKindString" by blast
    have "map_of (map entry_pair es) k = Some (CString (vo_String v), vo_ExpiresAt v)"
      using d' m [of "CString (vo_String v)" "vo_ExpiresAt v"] v by (intro map_of_is_SomeI) auto
    moreover have "contents_of v = CString (vo_String v)" using v(3) by (simp add: contents_of_def)
    ultimately show ?thesis using v by (simp add: live_lookup)
  next
    case False
    have "map_of (map entry_pair es) k = None"
    proof (rule ccontr)
      assume "map_of (map entry_pair es) k \<noteq> None"
      then obtain c t where "map_of (map entry_pair es) k = Some (c, t)" by auto
      then have "(k, (c, t)) \<in> set (map entry_pair es)" by (rule map_of_SomeD)
      then show False using m False by blast
    qed
    moreover have "\<not> (\<exists>d t. live s ?now k = Some (CString d, t))"
    proof
      assume "\<exists>d t. live s ?now k = Some (CString d, t)"
      then obtain v d where v: "lookup s k = Some v" "\<not> isExpired v ?now" "contents_of v = CString d"
        by (auto simp: live_lookup split: option.splits if_splits)
      then have "vo_Kind v = ValueKindString" using ok_kind [OF store_invD(3) [OF inv v(1)]] by simp
      then show False using False v(1,2) by blast
    qed
    ultimately show ?thesis by (simp split: option.split contents.split)
  qed
qed

text \<open>C9. Saving a store and loading the file gives back its live strings, key for key with their expiry, into a fresh store; keys that expire
  while the file is written are left out.  Lengths are within the loader's limit, and nothing saved expires before the load is over.\<close>

theorem rdb_save_load:
  assumes "store_inv s" "SnapshotStrings env s = (es, stats)" "\<forall>e \<in> set es. entry_fits e"
    "\<forall>e \<in> set es. \<forall>n. 0 < sse_ExpiresAt e \<longrightarrow> now < sse_ExpiresAt e \<longrightarrow> nowMilli n < sse_ExpiresAt e"
  shows "\<exists>s' n. loadReaderAt envs nowMilli (fst (BuildSnapshot now es)) (NewStore seed) =
      (s', Inr \<lparr>rl_LoadedKeys = n, rl_SkippedExpiredKeys = 0\<rparr>) \<and> store_inv s' \<and>
    view s' = (\<lambda>k. case live s (env_clock env 0) k of
        Some (CString d, t) \<Rightarrow> if 0 < t \<and> t \<le> now then None else Some (CString d, t)
      | _ \<Rightarrow> None)"
proof -
  note sp = SnapshotStrings_spec [OF assms(1,2)]
  note fresh = NewStore_inv(1) [of seed] NewStore_empty(2,1) [of seed]
  have "\<forall>e \<in> set (written now es). \<forall>n. \<not> (0 < sse_ExpiresAt e \<and> sse_ExpiresAt e \<le> nowMilli n)"
  proof (intro ballI allI notI)
    fix e n assume "e \<in> set (written now es)" "0 < sse_ExpiresAt e \<and> sse_ExpiresAt e \<le> nowMilli n"
    moreover from this have "e \<in> set es" "now < sse_ExpiresAt e" by (auto simp: written_def)
    ultimately show False using assms(4) by (metis linorder_not_le)
  qed
  then obtain s' where s': "loadReaderAt envs nowMilli (fst (BuildSnapshot now es)) (NewStore seed) =
      (s', Inr \<lparr>rl_LoadedKeys = length (written now es), rl_SkippedExpiredKeys = 0\<rparr>)" "store_inv s'"
      "view s' = map_of (map entry_pair (written now es))"
    using rdb_round_trip [OF fresh(1,2) sp(1) assms(3), of now nowMilli envs] fresh(3) by auto
  have "map_of (map entry_pair (written now es)) k =
      (case map_of (map entry_pair es) k of Some (c, t) \<Rightarrow> if 0 < t \<and> t \<le> now then None else Some (c, t) | None \<Rightarrow> None)" for k
    using sp(1) by (induction es) (auto simp: written_def map_of_eq_None_iff split: option.splits)
  then have "view s' k = (case live s (env_clock env 0) k of
        Some (CString d, t) \<Rightarrow> if 0 < t \<and> t \<le> now then None else Some (CString d, t) | _ \<Rightarrow> None)" for k
    unfolding s'(3) sp(2) by (auto split: option.split contents.split)
  then show ?thesis using s'(1,2) by blast
qed

theorem rdb_save_load_witness:
  "let s = fst (Set (at_time 1000) (tiny 0) (str ''k'') (str ''v'') 5000);
       s' = fst (loadReaderAt (\<lambda>_. at_time 2000) (\<lambda>_. 2000) (fst (BuildSnapshot 1500 (fst (SnapshotStrings (at_time 1000) s)))) (NewStore length))
   in view s' (str ''k'') = Some (CString (str ''v''), 5000)"
proof -
  let ?k = "str ''k''" and ?v = "str ''v''"
  obtain s r where s: "Set (at_time 1000) (tiny 0) ?k ?v 5000 = (s, r)" by fastforce
  have "\<not> maxMemoryEnabled (tiny 0)" by code_simp
  then have v: "view s ?k = Some (CString ?v, 5000)" "store_inv s"
    using set_w.write_spec [OF TrueI tiny_inv(1) s [unfolded Set_def] refl refl] by auto
  have l: "live s 1000 ?k = Some (CString ?v, 5000)" using v(1) by (simp add: live_def is_past_def)
  obtain es st where es: "SnapshotStrings (at_time 1000) s = (es, st)" by fastforce
  have "fst (SnapshotStrings (at_time 1000) (fst (Set (at_time 1000) (tiny 0) ?k ?v 5000))) =
      [\<lparr>sse_Key = ?k, sse_Value = ?v, sse_ExpiresAt = 5000\<rparr>]" by code_simp
  then have "es = [\<lparr>sse_Key = ?k, sse_Value = ?v, sse_ExpiresAt = 5000\<rparr>]" using s es by simp
  then have "\<forall>e \<in> set es. entry_fits e" "\<forall>e \<in> set es. \<forall>n. 0 < sse_ExpiresAt e \<longrightarrow> 1500 < sse_ExpiresAt e \<longrightarrow> 2000 < sse_ExpiresAt e"
    by (simp_all add: entry_fits_def maxRDBObjectLength_def int64_range_def str_def)
  then show ?thesis
    using rdb_save_load [OF v(2) es, of 1500 "\<lambda>_. 2000" "\<lambda>_. at_time 2000" length] l s es by auto
qed

end
