(* ===== verification/Spec2Isabelle.thy ===== *)
theory Spec2Isabelle
  imports Conn_Machine Aof_Writer Clients Slowlog Replication Geo Store_Props Rdb
begin

text \<open>
  A verification development for Stash, a Redis-compatible in-memory server written in Go (\<^verbatim>\<open>src/internal\<close>).  A connection decodes
  RESP frames and hands each request to the command executor, which calls the store; writes go to the append-only file (AOF) and
  to the replicas; snapshots are saved and loaded as RDB files; registries keep what connections share (watched keys,
  subscriptions, monitors, the slow-command log).

  \<^bold>\<open>Conventions.\<close>  A Go struct is a record, a tagged union a datatype, a method one function of the same name (with a prefix such
  as \<open>ss_\<close>, \<open>ch_\<close> or \<open>aof_\<close> where several types share a method name).  Bytes are 8-bit words; an \<^verbatim>\<open>int64\<close> is an integer with
  \<open>wrap64\<close> written where the code can overflow; bit-level code keeps its width.  Errors are values: a result is a sum whose left
  side is the error.  A Go map whose iteration order is visible is an association list with distinct keys, so that a theorem
  over all such lists holds for every iteration order.  The clock, the random levels of the skip list and the seed of the
  hash map are arguments (record \<open>Env\<close>: one reading per use, so that time may pass inside a call).  Locks are not modelled:
  what a call does under its locks is one operation, and an execution is a sequence of operations.  A call that releases its
  locks in between is split at these places: the background expiry samples keys before it takes the locks to evict them
  (\<open>evictExpiredKeys\<close>), a touched key's watchers are collected before they are marked (\<open>Touch_phases\<close>), a slow-command entry gets its
  number before it is inserted (\<open>drawID\<close>, \<open>insertEntry\<close>), a rewrite of the append-only file takes the lock twice, and a
  propagation to replicas shares no lock with others at all (\<open>Replication\<close>).

  \<^bold>\<open>Protocol\<close> (\<^verbatim>\<open>protocol/\<close>).  \<open>Resp_Values\<close>: values, grammar, coercion and the two encoders (\<^verbatim>\<open>types.go, grammar.go, coerce.go,
  writer.go\<close>).  \<open>Resp_Decode\<close>: the buffer decoder (\<^verbatim>\<open>decode.go\<close>); locale \<open>incremental_decoder\<close> states what a client that
  feeds it piecewise relies on.  \<open>Resp_Parser\<close>: the streaming parser (\<^verbatim>\<open>parser.go\<close>).  Shown: decoding inverts encoding and
  consumes exactly the frame; frames and errors are stable under more input; parser and decoder accept the same frames; the
  predicted length is exact.

  \<^bold>\<open>Connections\<close> (\<^verbatim>\<open>server/conn_machine.go\<close>).  \<open>Conn_Machine\<close>: feeding, decoding, executing through a handler argument, partial
  writes.  Shown: however input and writes are cut up, the requests of the stream are executed once each in order and the
  bytes written are their replies.

  \<^bold>\<open>Encodings\<close> (\<^verbatim>\<open>storage/\<close>).  \<open>Intset\<close>, \<open>Compact_Hash\<close>, \<open>Compact_Zset\<close>, \<open>Skiplist\<close> (the nodes are an explicit heap with spans
  and backward pointers), \<open>Streams\<close>, \<open>Bitmap\<close>, \<open>Hyperloglog\<close>, \<open>List_Waiters\<close>.  \<open>Interfaces\<close> and \<open>Zset_Order\<close> hold the
  locales \<open>byte_set\<close>, \<open>assignable_map\<close>, \<open>field_map\<close> and \<open>sorted_map\<close> that the compact and the general encodings both
  interpret; \<open>Value_Object\<close> (\<^verbatim>\<open>types.go, collection_value.go, set.go, hash.go\<close>) dispatches between them.  Shown: each
  encoding refines the mathematical set, map or ordered listing, whatever the conversion between them.

  \<^bold>\<open>Store\<close> (\<^verbatim>\<open>storage/store.go, shard.go, memory.go, stats.go, eviction.go\<close>).  \<open>Storage_Base\<close> (errors, expiry arguments),
  \<open>Keyspace\<close> (shards, lookup, expiry, accounting, eviction), \<open>Key_Paths\<close> (what a client sees of a store, \<open>view\<close>, and the
  locales \<open>key_reader\<close> and \<open>key_writer\<close> for the paths all single-key operations go through), \<open>Store_Ops\<close> (the operations,
  each an interpretation), \<open>Store_Contracts\<close> (their contracts), \<open>Bulk_Ops\<close> and \<open>Snapshots\<close> (operations on many keys),
  \<open>Store_Reach\<close> (the stores reachable by operations, an inductive predicate), \<open>Eviction\<close>, \<open>Store_Props\<close>.  Shown: reachable
  stores are well typed and their counters exact; each write followed by a read gives what it should, expiry, eviction and
  refusal included; eviction ends and succeeds exactly when it can.

  \<^bold>\<open>Persistence.\<close>  \<open>Aof_Load\<close> (\<^verbatim>\<open>aof/loader.go\<close>), \<open>Aof_Writer\<close> (\<^verbatim>\<open>aof/writer.go\<close>, over a file system whose every call may
  fail), \<open>Lzf\<close> and \<open>Rdb\<close> (\<^verbatim>\<open>rdb/snapshot.go, loader.go\<close>).  Shown: a file cut anywhere loads its complete commands, as far
  as they can be replayed; what is appended behind a torn command is not replayed; the file holds what was accepted unless the
  swap of a rewritten file failed, and then exactly the buffered bytes are lost; an acknowledged synchronous append is durable;
  an RDB file restores the live strings; LZF agrees with a reference decoder.

  \<^bold>\<open>What connections share.\<close>  \<open>Clients\<close> (\<^verbatim>\<open>server/client_state.go, watch_registry.go, pubsub_registry.go,
  monitor_registry.go\<close>), \<open>Slowlog\<close> (\<^verbatim>\<open>slowlog.go\<close>), \<open>Replication\<close> (\<^verbatim>\<open>replication.go\<close>).  Shown: registries mirror the clients,
  watching is exact, the log keeps the latest entries, a replica receives each payload sent since it attached once, in order when
  propagations do not overlap, and which replicas WAIT counts.

  \<^bold>\<open>Geospatial positions\<close> (\<^verbatim>\<open>command/geo.go\<close>).  \<open>Geo\<close>: float64 arithmetic is a record argument, geohash bits are 64-bit words.  Shown:
  interleaving is a bijection; the scanned score ranges are the nine cells.

  \<^bold>\<open>Bounds and fuel.\<close>  Loops are structural recursion or functions with termination proofs, with three exceptions.  The
  eviction loop has one round more than there are keys (\<open>evict_loop_enough\<close>, \<open>fuel_irrelevant\<close>).  A walk in the skip list
  has one step per allocated node, and the lemmas show that it never runs out.  Rebuilding a compact hash calls the
  setter again, once (\<open>ch_set_fuel_spec\<close>: depth one is enough).

  \<^bold>\<open>Not modelled.\<close>  The command executor with its handlers, the command stream of an AOF rewrite, the estimate of PFCOUNT, sockets,
  polling, goroutines, shutdown, the replica's handshake, configuration and logging.
\<close>

end
